(* ===== verification/C_Prelude.thy ===== *)
theory C_Prelude
  imports Main "HOL-Library.Word"
begin

section \<open>Shared vocabulary: bytes, C strings, machine integers, the allocator\<close>

text \<open>
  What all components share.  A byte is an Isabelle \<open>char\<close>; a C string is the list of the bytes
  before its terminating NUL; a byte buffer is a list of bytes in which NUL may occur, and
  \<open>c_str\<close> reads the C string that starts at its front.  Machine integers are words of their C
  width.  \<open>malloc\<close> draws its outcome from a list of booleans, so that every path of the code that
  handles an allocation failure is a branch of the model.
\<close>

named_theorems c_char_simps \<open>facts on character classes and case folding\<close>
named_theorems alloc_simps \<open>facts on the allocator\<close>

type_synonym u8 = "8 word"
type_synonym u16 = "16 word"
type_synonym u32 = "32 word"
type_synonym u64 = "64 word"
type_synonym i32 = "32 word"
type_synonym i64 = "64 word"

subsection \<open>Bytes and character classes\<close>

abbreviation byte :: "char \<Rightarrow> nat" where
  "byte c \<equiv> of_char c"

abbreviation NUL :: char where
  "NUL \<equiv> CHR 0x00"

abbreviation CR :: char where
  "CR \<equiv> CHR 0x0D"

abbreviation LF :: char where
  "LF \<equiv> CHR 0x0A"

text \<open>The C library's \<open>isalpha\<close>, \<open>isdigit\<close> in the C locale, and the source's own ASCII tests.\<close>

definition is_upper :: "char \<Rightarrow> bool" where
  "is_upper c \<longleftrightarrow> byte (CHR ''A'') \<le> byte c \<and> byte c \<le> byte (CHR ''Z'')"

definition is_alpha :: "char \<Rightarrow> bool" where
  "is_alpha c \<longleftrightarrow> is_upper c \<or> (byte (CHR ''a'') \<le> byte c \<and> byte c \<le> byte (CHR ''z''))"

definition is_digit :: "char \<Rightarrow> bool" where
  "is_digit c \<longleftrightarrow> byte (CHR ''0'') \<le> byte c \<and> byte c \<le> byte (CHR ''9'')"

definition ascii_tolower :: "char \<Rightarrow> char" where
  "ascii_tolower c = (if is_upper c then char_of (byte c + 32) else c)"

definition lower :: "string \<Rightarrow> string" where
  "lower s = map ascii_tolower s"

lemma byte_char_of [simp]: "n < 256 \<Longrightarrow> byte (char_of n) = (n :: nat)"
  by (simp add: of_char_of)

lemma byte_eq_0 [simp]: "(byte c = 0) = (c = NUL)"
proof
  assume "byte c = 0"
  then have "byte c = byte NUL" by simp
  then show "c = NUL" by (simp only: of_char_eq_iff)
qed simp

lemma byte_tolower:
  "byte (ascii_tolower c) = (if is_upper c then byte c + 32 else byte c)"
  by (auto simp: ascii_tolower_def is_upper_def)

lemma is_upper_tolower [c_char_simps, simp]: "\<not> is_upper (ascii_tolower c)"
  by (auto simp: is_upper_def byte_tolower)

lemma is_alpha_tolower [c_char_simps, simp]: "is_alpha (ascii_tolower c) = is_alpha c"
  by (auto simp: is_alpha_def is_upper_def byte_tolower)

lemma tolower_idem [c_char_simps, simp]: "ascii_tolower (ascii_tolower c) = ascii_tolower c"
  by (simp add: ascii_tolower_def [of "ascii_tolower c"])

lemma digit_not_alpha [c_char_simps]: "is_digit c \<Longrightarrow> \<not> is_alpha c"
  by (auto simp: is_digit_def is_alpha_def is_upper_def)

lemma one_is_digit [c_char_simps, simp]: "is_digit (CHR ''1'')" "\<not> is_alpha (CHR ''1'')"
  by (simp_all add: is_digit_def is_alpha_def is_upper_def)

lemma NUL_class [c_char_simps, simp]: "\<not> is_alpha NUL" "\<not> is_digit NUL"
  by (simp_all add: is_digit_def is_alpha_def is_upper_def)

lemma alpha_not_NUL: "is_alpha c \<Longrightarrow> c \<noteq> NUL"
  by auto

lemma digit_not_NUL: "is_digit c \<Longrightarrow> c \<noteq> NUL"
  by auto

lemma tolower_NUL [c_char_simps, simp]: "(ascii_tolower c = NUL) = (c = NUL)"
  by (simp only: byte_eq_0 [symmetric] byte_tolower) (auto simp: is_upper_def)

lemma lower_Nil [c_char_simps, simp]: "lower [] = []"
  by (simp add: lower_def)

lemma lower_Cons [c_char_simps]: "lower (c # s) = ascii_tolower c # lower s"
  by (simp add: lower_def)

lemma lower_idem [c_char_simps, simp]: "lower (lower s) = lower s"
  by (simp add: lower_def)

lemma length_lower [c_char_simps, simp]: "length (lower s) = length s"
  by (simp add: lower_def)

lemma lower_eq_Nil [c_char_simps, simp]: "(lower s = []) = (s = [])"
  by (simp add: lower_def)

lemma lower_take [c_char_simps]: "lower (take n s) = take n (lower s)"
  by (simp add: lower_def take_map)

lemma lower_append [c_char_simps, simp]: "lower (s @ t) = lower s @ lower t"
  by (simp add: lower_def)

lemma alpha_lower [c_char_simps, simp]: "list_all is_alpha (lower s) = list_all is_alpha s"
  by (induction s) (auto simp: lower_def)

subsection \<open>C strings\<close>

text \<open>The C string at the front of a buffer: the bytes before the first NUL.\<close>

definition c_str :: "char list \<Rightarrow> string" where
  "c_str buf = takeWhile (\<lambda>c. c \<noteq> NUL) buf"

lemma c_str_simps [simp]:
  "c_str [] = []" "c_str (NUL # buf) = []" "c \<noteq> NUL \<Longrightarrow> c_str (c # buf) = c # c_str buf"
  by (simp_all add: c_str_def)

lemma c_str_no_NUL: "NUL \<notin> set s \<Longrightarrow> c_str s = s"
  by (induction s) auto

lemma c_str_terminated: "NUL \<notin> set s \<Longrightarrow> c_str (s @ NUL # rest) = s"
  by (induction s) auto

lemma NUL_c_str [simp]: "NUL \<notin> set (c_str buf)"
  by (auto simp: c_str_def dest: set_takeWhileD)

lemma length_c_str: "length (c_str buf) \<le> length buf"
  by (simp add: c_str_def length_takeWhile_le)

text \<open>A string pointer, with \<open>if (s == NULL) s = "";\<close>.\<close>

definition non_null :: "string option \<Rightarrow> string" where
  "non_null key = (case key of None \<Rightarrow> [] | Some s \<Rightarrow> s)"

lemma non_null_simps [simp]: "non_null None = []" "non_null (Some s) = s"
  by (simp_all add: non_null_def)

text \<open>
  \<open>strcmp\<close> on two C strings.  The standard fixes only the sign of the result, which is that of
  the first difference of the two byte sequences read as unsigned, terminators included.
\<close>

fun strcmp :: "string \<Rightarrow> string \<Rightarrow> int" where
  "strcmp [] [] = 0"
| "strcmp [] (d # t) = -1"
| "strcmp (c # s) [] = 1"
| "strcmp (c # s) (d # t) =
     (if byte c < byte d then -1 else if byte d < byte c then 1 else strcmp s t)"

lemma byte_cases:
  obtains "byte c < byte d" | "byte d < byte c" | "c = d"
  by (metis linorder_neqE_nat of_char_eq_iff)

lemma strcmp_self [simp]: "strcmp s s = 0"
  by (induction s) simp_all

lemma strcmp_0_iff [simp]: "strcmp s t = 0 \<longleftrightarrow> s = t"
proof (induction s t rule: strcmp.induct)
  case (4 c s d t)
  show ?case by (rule byte_cases [of c d]) (use 4 in auto)
qed auto

lemma strcmp_swap: "strcmp t s = - strcmp s t"
proof (induction s t rule: strcmp.induct)
  case (4 c s d t)
  show ?case by (rule byte_cases [of c d]) (use 4 in auto)
qed auto

lemma strcmp_less_Cons:
  "strcmp (c # s) (d # t) < 0 \<longleftrightarrow> byte c < byte d \<or> (c = d \<and> strcmp s t < 0)"
  by (rule byte_cases [of c d]) auto

lemma strcmp_less_trans: "strcmp a b < 0 \<Longrightarrow> strcmp b c < 0 \<Longrightarrow> strcmp a c < 0"
proof (induction a b arbitrary: c rule: strcmp.induct)
  case (4 x s y t)
  then obtain z r where c: "c = z # r" by (cases c) auto
  from 4(2,3) have "byte x < byte y \<or> x = y \<and> strcmp s t < 0"
    and "byte y < byte z \<or> y = z \<and> strcmp t r < 0"
    by (simp_all only: strcmp_less_Cons c)
  with 4(1) [of r] have "byte x < byte z \<or> x = z \<and> strcmp s r < 0" by auto
  then show ?case by (simp only: strcmp_less_Cons c)
next
  case (2 d t)
  then show ?case by (cases c) auto
qed auto

text \<open>\<open>snprintf(out, size, "%s%s", ...)\<close>: at most \<open>size - 1\<close> bytes of the formatted text are kept.\<close>

definition snprintf_kept :: "nat \<Rightarrow> string \<Rightarrow> string" where
  "snprintf_kept n text = take (n - 1) text"

subsection \<open>Decimal numerals\<close>

definition digit_char :: "nat \<Rightarrow> char" where
  "digit_char d = char_of (48 + d)"

text \<open>The digits that \<open>%u\<close>, \<open>%lu\<close> and (for a non-negative value) \<open>%d\<close> print.\<close>

fun decimal :: "nat \<Rightarrow> string" where
  "decimal n = (if n < 10 then [digit_char n] else decimal (n div 10) @ [digit_char (n mod 10)])"

declare decimal.simps [simp del]

definition int_decimal :: "int \<Rightarrow> string" where
  "int_decimal i = (if i < 0 then CHR ''-'' # decimal (nat (- i)) else decimal (nat i))"

fun dec_value :: "nat \<Rightarrow> string \<Rightarrow> nat" where
  "dec_value acc [] = acc"
| "dec_value acc (c # s) = dec_value (acc * 10 + (byte c - 48)) s"

lemma byte_digit_char: "d < 10 \<Longrightarrow> byte (digit_char d) = 48 + d"
  by (simp add: digit_char_def)

lemma is_digit_digit_char: "d < 10 \<Longrightarrow> is_digit (digit_char d)"
  by (simp add: is_digit_def byte_digit_char)

lemma decimal_digits: "list_all is_digit (decimal n)"
proof (induction n rule: decimal.induct)
  case (1 n)
  then show ?case by (subst decimal.simps) (auto simp: is_digit_digit_char)
qed

lemma decimal_nonempty [simp]: "decimal n \<noteq> []"
  by (subst decimal.simps) simp

lemma dec_value_append: "dec_value acc (s @ t) = dec_value (dec_value acc s) t"
  by (induction s arbitrary: acc) auto

lemma dec_value_decimal: "dec_value 0 (decimal n) = n"
proof (induction n rule: decimal.induct)
  case (1 n)
  show ?case
  proof (cases "n < 10")
    case True
    then show ?thesis by (simp add: decimal.simps [of n] byte_digit_char)
  next
    case False
    with "1.IH" have "dec_value 0 (decimal (n div 10)) = n div 10" by simp
    with False show ?thesis
      by (simp add: decimal.simps [of n] dec_value_append byte_digit_char)
  qed
qed

lemma decimal_inject: "decimal m = decimal n \<Longrightarrow> m = n"
  by (metis dec_value_decimal)

lemma length_decimal_le: "0 < n \<Longrightarrow> length (decimal n) \<le> n"
proof (induction n rule: decimal.induct)
  case (1 n)
  show ?case
  proof (cases "n < 10")
    case True
    with "1.prems" show ?thesis by (subst decimal.simps) simp
  next
    case False
    with "1.IH" have "length (decimal (n div 10)) \<le> n div 10" by auto
    with False show ?thesis by (subst decimal.simps) simp
  qed
qed

subsection \<open>The allocator\<close>

text \<open>
  The state of the allocator is the list of the outcomes of the coming calls; past its end every
  call succeeds.  \<open>plenty\<close> says that no call of the run fails.
\<close>

type_synonym alloc = "bool list"

fun malloc :: "alloc \<Rightarrow> bool \<times> alloc" where
  "malloc [] = (True, [])"
| "malloc (ok # a) = (ok, a)"

definition plenty :: "alloc \<Rightarrow> bool" where
  "plenty a \<longleftrightarrow> False \<notin> set a"

lemma plenty_Nil [alloc_simps, simp]: "plenty []"
  by (simp add: plenty_def)

lemma malloc_plenty [alloc_simps, simp]: "plenty a \<Longrightarrow> malloc a = (True, tl a)"
  by (cases a) (auto simp: plenty_def)

lemma plenty_tl [alloc_simps, simp]: "plenty a \<Longrightarrow> plenty (tl a)"
  by (cases a) (auto simp: plenty_def)

subsection \<open>Lists\<close>

lemma takeWhile_append_all: "list_all P xs \<Longrightarrow> takeWhile P (xs @ ys) = xs @ takeWhile P ys"
  by (induction xs) auto

lemma list_all_take: "list_all P xs \<Longrightarrow> list_all P (take n xs)"
  by (auto simp: list_all_iff dest: in_set_takeD)

lemma take_last_snoc: "length xs = Suc n \<Longrightarrow> take n xs @ [last xs] = xs"
  using butlast_conv_take [of xs] append_butlast_last_id [of xs] by (cases xs) auto

lemma dropWhile_append_all: "list_all P xs \<Longrightarrow> dropWhile P (xs @ ys) = dropWhile P ys"
  by (induction xs) auto

end
