(* ===== verification/Counter_Store.thy ===== *)
theory Counter_Store
  imports C_Prelude "HOL-Library.Multiset"
begin

section \<open>The interface of a word counter\<close>

text \<open>
  The hash buckets (\<open>linked_list.c\<close>), the hash map (\<open>hashmap.c\<close>) and everything above them rest on
  one contract: a store of counters indexed by case-folded words.  \<open>tally\<close> is its abstract
  meaning on finite maps; the locales state what a provider promises and what a client can
  conclude.  Counts are C \<open>int\<close>s, 32 bits wide, whose addition wraps around.
\<close>

named_theorems tally_simps \<open>facts on the abstract tally\<close>

definition bump :: "i32 option \<Rightarrow> i32 \<Rightarrow> i32" where
  "bump v d = (case v of None \<Rightarrow> d | Some c \<Rightarrow> c + d)"

definition tally1 :: "string \<times> i32 \<Rightarrow> (string \<rightharpoonup> i32) \<Rightarrow> (string \<rightharpoonup> i32)" where
  "tally1 e m = m(lower (fst e) \<mapsto> bump (m (lower (fst e))) (snd e))"

definition tally :: "(string \<times> i32) list \<Rightarrow> (string \<rightharpoonup> i32) \<Rightarrow> (string \<rightharpoonup> i32)" where
  "tally es m = fold tally1 es m"

definition hits :: "(string \<times> i32) list \<Rightarrow> string \<Rightarrow> i32 list" where
  "hits es w = map snd (filter (\<lambda>e. lower (fst e) = w) es)"

lemma bump_simps [simp]: "bump None d = d" "bump (Some c) d = c + d"
  by (simp_all add: bump_def)

lemma tally_Nil [tally_simps, simp]: "tally [] m = m"
  by (simp add: tally_def)

lemma tally_Cons [tally_simps]: "tally (e # es) m = tally es (tally1 e m)"
  by (simp add: tally_def)

lemma tally_append [tally_simps]: "tally (es @ fs) m = tally fs (tally es m)"
  by (simp add: tally_def)

text \<open>A tally adds to each word the sum of its events, whatever their order.\<close>

lemma tally_apply:
  "tally es m w = (if hits es w = [] then m w else Some (bump (m w) (sum_list (hits es w))))"
proof (induction es arbitrary: m)
  case Nil
  then show ?case by (simp add: hits_def)
next
  case (Cons e es)
  show ?case
    by (cases "m w") (auto simp: tally_Cons Cons.IH tally1_def hits_def add.assoc)
qed

lemma tally_empty_apply:
  "tally es Map.empty w = (if hits es w = [] then None else Some (sum_list (hits es w)))"
  by (simp add: tally_apply)

text \<open>Events of weight one count occurrences.\<close>

lemma hits_ones:
  "hits (map (\<lambda>w. (w, 1)) ws) w = replicate (length (filter (\<lambda>v. lower v = w) ws)) 1"
  by (induction ws) (auto simp: hits_def)

lemma sum_list_replicate_1: "sum_list (replicate n (1 :: i32)) = of_nat n"
  by (induction n) auto

lemma tally_ones:
  "tally (map (\<lambda>w. (w, 1)) ws) Map.empty w =
     (let n = length (filter (\<lambda>v. lower v = w) ws) in if n = 0 then None else Some (of_nat n))"
  by (simp add: tally_empty_apply hits_ones sum_list_replicate_1 Let_def)

text \<open>Tallying the entries of a table of distinct lower-case words gives the table back.\<close>

lemma hits_distinct:
  assumes "distinct (map fst es)" and "\<forall>e \<in> set es. lower (fst e) = fst e"
  shows "hits es w = (case map_of es w of None \<Rightarrow> [] | Some c \<Rightarrow> [c])"
  using assms
proof (induction es)
  case Nil
  then show ?case by (simp add: hits_def)
next
  case (Cons e es)
  obtain k c where e: "e = (k, c)" by (cases e)
  from Cons have IH: "hits es w = (case map_of es w of None \<Rightarrow> [] | Some c \<Rightarrow> [c])" by simp
  from Cons.prems(1) e have "map_of es k = None" by (simp add: map_of_eq_None_iff)
  with Cons.prems(2) IH e show ?case by (auto simp: hits_def split: option.splits)
qed

lemma tally_entries:
  assumes "distinct (map fst es)" and "\<forall>e \<in> set es. lower (fst e) = fst e"
  shows "tally es m w = (case map_of es w of None \<Rightarrow> m w | Some c \<Rightarrow> Some (bump (m w) c))"
  using hits_distinct [OF assms, of w] by (simp add: tally_apply split: option.splits)

subsection \<open>The contract\<close>

locale counter_store =
  fixes invar :: "'s \<Rightarrow> bool"
    and lookup :: "'s \<Rightarrow> string \<rightharpoonup> i32"
    and put :: "string \<Rightarrow> i32 \<Rightarrow> 's \<Rightarrow> 's"
  assumes put_invar: "invar s \<Longrightarrow> invar (put w d s)"
    and put_lookup: "invar s \<Longrightarrow> lookup (put w d s) = tally1 (w, d) (lookup s)"
begin

definition put_all :: "(string \<times> i32) list \<Rightarrow> 's \<Rightarrow> 's" where
  "put_all es s = fold (\<lambda>e. put (fst e) (snd e)) es s"

lemma put_all_simps [simp]:
  "put_all [] s = s" "put_all (e # es) s = put_all es (put (fst e) (snd e) s)"
  by (simp_all add: put_all_def)

lemma put_all_append: "put_all (es @ fs) s = put_all fs (put_all es s)"
  by (simp add: put_all_def)

lemma put_all_invar: "invar s \<Longrightarrow> invar (put_all es s)"
  by (induction es arbitrary: s) (auto simp: put_invar)

lemma put_all_lookup: "invar s \<Longrightarrow> lookup (put_all es s) = tally es (lookup s)"
  by (induction es arbitrary: s) (auto simp: tally_Cons put_invar put_lookup)

text \<open>Storing is commutative: only the multiset of the events matters.\<close>

lemma put_all_hits:
  assumes "invar s" and "invar t" and "lookup s = lookup t"
    and "\<And>w. mset (hits es w) = mset (hits fs w)"
  shows "lookup (put_all es s) = lookup (put_all fs t)"
proof
  fix w
  from assms(4) [of w] have "sum_list (hits es w) = sum_list (hits fs w)"
    and "(hits es w = []) = (hits fs w = [])"
    by (metis sum_mset_sum_list, metis mset_zero_iff)
  with assms(1-3) show "lookup (put_all es s) w = lookup (put_all fs t) w"
    by (simp add: put_all_lookup tally_apply)
qed

end

text \<open>A store whose entries can be enumerated, as \<open>ll_foreach\<close> and \<open>hm_foreach\<close> do.\<close>

locale counter_table = counter_store invar lookup put
  for invar :: "'s \<Rightarrow> bool" and lookup :: "'s \<Rightarrow> string \<rightharpoonup> i32"
    and put :: "string \<Rightarrow> i32 \<Rightarrow> 's \<Rightarrow> 's" +
  fixes entries :: "'s \<Rightarrow> (string \<times> i32) list"
  assumes entries_distinct: "invar s \<Longrightarrow> distinct (map fst (entries s))"
    and entries_lookup: "invar s \<Longrightarrow> map_of (entries s) = lookup s"
    and entries_lower: "invar s \<Longrightarrow> e \<in> set (entries s) \<Longrightarrow> lower (fst e) = fst e"
begin

lemma transfer_lookup:
  assumes "invar s" and "invar t"
  shows "lookup (put_all (entries s) t) w =
    (case lookup s w of None \<Rightarrow> lookup t w | Some c \<Rightarrow> Some (bump (lookup t w) c))"
  using assms entries_lower
  by (simp add: put_all_lookup tally_entries entries_distinct entries_lookup)

lemma transfer_empty:
  assumes "invar s" and "invar t" and "lookup t = Map.empty"
  shows "lookup (put_all (entries s) t) = lookup s"
  using transfer_lookup [OF assms(1,2)] assms(3) by (auto simp: fun_eq_iff split: option.splits)

lemma entries_mem: "invar s \<Longrightarrow> (w, c) \<in> set (entries s) \<longleftrightarrow> lookup s w = Some c"
  using map_of_eq_Some_iff [OF entries_distinct] entries_lookup by metis

end

end
