(* ===== verification/Linked_List.thy ===== *)
theory Linked_List
  imports Counter_Store
begin

section \<open>The bucket list (mapreduce-wordcount/linked\_list.c)\<close>

text \<open>
  A bucket is a singly linked list that owns its nodes; it is modelled as the list of its nodes in
  link order, a node pointer as an index into it.  Arguments that the code tests against NULL are
  options.  Counts wrap around at 32 bits: ISO C leaves the overflow of \<open>int\<close> undefined, gcc's
  two's complement addition is what the machine does.
\<close>

record LLNode =
  ll_key :: string
  ll_count :: i32

definition ll_strdup_lower :: "alloc \<Rightarrow> string option \<Rightarrow> string option \<times> alloc" where
  "ll_strdup_lower a s =
     (let (ok, a') = malloc a in (if ok then Some (lower (non_null s)) else None, a'))"

fun ll_search :: "LLNode list \<Rightarrow> string \<Rightarrow> nat option" where
  "ll_search [] key_lower = None"
| "ll_search (node # rest) key_lower =
     (if strcmp (ll_key node) key_lower = 0 then Some 0
      else map_option Suc (ll_search rest key_lower))"

definition ll_find :: "alloc \<Rightarrow> LLNode list \<Rightarrow> string option \<Rightarrow> nat option \<times> alloc" where
  "ll_find a head key =
     (let (key_lower, a') = ll_strdup_lower a (Some (non_null key)) in
      case key_lower of None \<Rightarrow> (None, a') | Some k \<Rightarrow> (ll_search head k, a'))"

text \<open>
  \<open>ll_get\<close> stores through \<open>out_count\<close>, which may be NULL (\<open>has_out\<close> false): the result is
  \<open>Some\<close> of the stored count where the code returns 1, \<open>None\<close> where it returns 0.
\<close>

definition ll_get :: "alloc \<Rightarrow> LLNode list \<Rightarrow> string option \<Rightarrow> bool \<Rightarrow> i32 option \<times> alloc" where
  "ll_get a head key has_out =
     (if \<not> has_out then (None, a)
      else (let (node, a') = ll_find a head key in
        case node of Some i \<Rightarrow> (Some (ll_count (head ! i)), a') | None \<Rightarrow> (None, a')))"

text \<open>The tail that \<open>ll_put_inc\<close> and \<open>ll_set\<close> share: a new node in front of the list.\<close>

definition ll_push_new ::
  "alloc \<Rightarrow> LLNode list \<Rightarrow> string \<Rightarrow> i32 \<Rightarrow> int \<times> LLNode list option \<times> alloc" where
  "ll_push_new a head key cnt =
     (let (key_lower, a2) = ll_strdup_lower a (Some key) in
      case key_lower of None \<Rightarrow> (-1, Some head, a2)
      | Some k \<Rightarrow> (let (ok, a3) = malloc a2 in
          if \<not> ok then (-1, Some head, a3)
          else (0, Some (\<lparr>ll_key = k, ll_count = cnt\<rparr> # head), a3)))"

definition ll_put_inc ::
  "alloc \<Rightarrow> LLNode list option \<Rightarrow> string option \<Rightarrow> i32 \<Rightarrow> int \<times> LLNode list option \<times> alloc"
where
  "ll_put_inc a head key delta =
     (case head of None \<Rightarrow> (-1, None, a)
      | Some h \<Rightarrow> (let (node, a') = ll_find a h (Some (non_null key)) in
          case node of
            Some i \<Rightarrow> (0, Some (h[i := (h ! i)\<lparr>ll_count := ll_count (h ! i) + delta\<rparr>]), a')
          | None \<Rightarrow> ll_push_new a' h (non_null key) delta))"

definition ll_set ::
  "alloc \<Rightarrow> LLNode list option \<Rightarrow> string option \<Rightarrow> i32 \<Rightarrow> int \<times> LLNode list option \<times> alloc"
where
  "ll_set a head key cnt =
     (case head of None \<Rightarrow> (-1, None, a)
      | Some h \<Rightarrow> (let (node, a') = ll_find a h (Some (non_null key)) in
          case node of
            Some i \<Rightarrow> (0, Some (h[i := (h ! i)\<lparr>ll_count := cnt\<rparr>]), a')
          | None \<Rightarrow> ll_push_new a' h (non_null key) cnt))"

text \<open>The search of \<open>ll_remove\<close> behind the head: the rest of the list without the first match.\<close>

fun ll_unlink :: "LLNode list \<Rightarrow> string \<Rightarrow> LLNode list option" where
  "ll_unlink [] key_lower = None"
| "ll_unlink (node # rest) key_lower =
     (if strcmp (ll_key node) key_lower = 0 then Some rest
      else map_option ((#) node) (ll_unlink rest key_lower))"

definition ll_remove ::
  "alloc \<Rightarrow> LLNode list option \<Rightarrow> string option \<Rightarrow> int \<times> LLNode list option \<times> alloc" where
  "ll_remove a head key =
     (case head of
        None \<Rightarrow> (0, None, a)
      | Some [] \<Rightarrow> (0, Some [], a)
      | Some (first # rest) \<Rightarrow>
         (let (key_lower, a') = ll_strdup_lower a (Some (non_null key)) in
          case key_lower of None \<Rightarrow> (0, head, a')
          | Some k \<Rightarrow>
             (if strcmp (ll_key first) k = 0 then (1, Some rest, a')
              else (case ll_unlink rest k of
                      Some rest' \<Rightarrow> (1, Some (first # rest'), a')
                    | None \<Rightarrow> (0, head, a')))))"

fun ll_length :: "LLNode list \<Rightarrow> nat" where
  "ll_length [] = 0"
| "ll_length (node # rest) = Suc (ll_length rest)"

fun ll_foreach :: "LLNode list \<Rightarrow> (string \<Rightarrow> i32 \<Rightarrow> 'c \<Rightarrow> 'c) option \<Rightarrow> 'c \<Rightarrow> 'c" where
  "ll_foreach head None ctx = ctx"
| "ll_foreach [] (Some fn) ctx = ctx"
| "ll_foreach (node # rest) (Some fn) ctx =
     ll_foreach rest (Some fn) (fn (ll_key node) (ll_count node) ctx)"

subsection \<open>Invariant and abstraction\<close>

definition ll_entries :: "LLNode list \<Rightarrow> (string \<times> i32) list" where
  "ll_entries xs = map (\<lambda>n. (ll_key n, ll_count n)) xs"

definition ll_lookup :: "LLNode list \<Rightarrow> string \<rightharpoonup> i32" where
  "ll_lookup xs = map_of (ll_entries xs)"

definition ll_wf :: "LLNode list \<Rightarrow> bool" where
  "ll_wf xs \<longleftrightarrow> distinct (map ll_key xs) \<and> (\<forall>n \<in> set xs. lower (ll_key n) = ll_key n)"

lemma ll_entries_simps [simp]:
  "ll_entries [] = []"
  "ll_entries (n # xs) = (ll_key n, ll_count n) # ll_entries xs"
  "ll_entries (xs @ ys) = ll_entries xs @ ll_entries ys"
  by (simp_all add: ll_entries_def)

lemma map_fst_ll_entries [simp]: "map fst (ll_entries xs) = map ll_key xs"
  by (induction xs) auto

lemma ll_lookup_simps [simp]:
  "ll_lookup [] = Map.empty"
  "ll_lookup (n # xs) = (ll_lookup xs)(ll_key n \<mapsto> ll_count n)"
  by (auto simp: ll_lookup_def)

lemma ll_wf_simps [simp]:
  "ll_wf []"
  "ll_wf (n # xs) \<longleftrightarrow> ll_key n \<notin> ll_key ` set xs \<and> lower (ll_key n) = ll_key n \<and> ll_wf xs"
  by (auto simp: ll_wf_def)

lemma ll_lookup_None_iff: "ll_lookup xs k = None \<longleftrightarrow> k \<notin> ll_key ` set xs"
  by (induction xs) auto

lemma dom_ll_lookup: "dom (ll_lookup xs) = ll_key ` set xs"
  by (auto simp: dom_def ll_lookup_None_iff)

lemma ll_search_None: "ll_search xs k = None \<longleftrightarrow> k \<notin> ll_key ` set xs"
  by (induction xs) auto

lemma ll_search_Some: "ll_search xs k = Some i \<Longrightarrow> i < length xs \<and> ll_key (xs ! i) = k"
  by (induction xs arbitrary: i) (auto split: if_splits)

lemma ll_search_lookup: "ll_search xs k = Some i \<Longrightarrow> ll_lookup xs k = Some (ll_count (xs ! i))"
  by (induction xs arbitrary: i) (auto split: if_splits)

text \<open>Writing the count of the node that a search found.\<close>

lemma keys_write:
  "i < length xs \<Longrightarrow> map ll_key (xs[i := (xs ! i)\<lparr>ll_count := c\<rparr>]) = map ll_key xs"
  by (simp add: map_update list_update_same_conv)

lemma ll_wf_write: "i < length xs \<Longrightarrow> ll_wf xs \<Longrightarrow> ll_wf (xs[i := (xs ! i)\<lparr>ll_count := c\<rparr>])"
  by (auto simp: ll_wf_def keys_write dest!: set_update_subset_insert [THEN subsetD])

lemma ll_lookup_write:
  "ll_search xs k = Some i \<Longrightarrow> ll_lookup (xs[i := (xs ! i)\<lparr>ll_count := c\<rparr>]) = (ll_lookup xs)(k \<mapsto> c)"
proof (induction xs arbitrary: i)
  case (Cons n xs)
  then show ?case by (auto simp: fun_upd_twist split: if_splits)
qed simp

lemma ll_unlink_None: "ll_unlink xs k = None \<longleftrightarrow> k \<notin> ll_key ` set xs"
  by (induction xs) auto

lemma ll_unlink_Some:
  assumes "ll_unlink xs k = Some ys" and "ll_wf xs"
  shows "ll_wf ys \<and> ll_key ` set ys = ll_key ` set xs - {k} \<and> k \<in> ll_key ` set xs
    \<and> ll_lookup ys = (ll_lookup xs)(k := None)"
  using assms
proof (induction xs arbitrary: ys)
  case (Cons n xs)
  show ?case
  proof (cases "ll_key n = k")
    case True
    with Cons.prems show ?thesis
      by (auto simp: fun_eq_iff) (metis image_eqI ll_lookup_None_iff)
  next
    case False
    with Cons.prems obtain zs where zs: "ll_unlink xs k = Some zs" "ys = n # zs" by auto
    with Cons False show ?thesis by (auto simp: fun_upd_twist)
  qed
qed simp

subsection \<open>What the operations do when no allocation fails\<close>

lemma ll_strdup_lower_plenty [alloc_simps]:
  "plenty a \<Longrightarrow> ll_strdup_lower a s = (Some (lower (non_null s)), tl a)"
  by (simp add: ll_strdup_lower_def)

lemma ll_find_plenty [alloc_simps]:
  "plenty a \<Longrightarrow> ll_find a xs key = (ll_search xs (lower (non_null key)), tl a)"
  by (simp add: ll_find_def ll_strdup_lower_plenty)

lemma ll_push_new_plenty [alloc_simps]:
  "plenty a \<Longrightarrow> ll_push_new a xs key c =
     (0, Some (\<lparr>ll_key = lower key, ll_count = c\<rparr> # xs), tl (tl a))"
  by (simp add: ll_push_new_def ll_strdup_lower_plenty)

lemma ll_get_plenty:
  assumes "plenty a"
  shows "fst (ll_get a xs key True) = ll_lookup xs (lower (non_null key))"
proof (cases "ll_search xs (lower (non_null key))")
  case None
  then have "ll_lookup xs (lower (non_null key)) = None"
    by (simp add: ll_search_None ll_lookup_None_iff)
  with None assms show ?thesis by (simp add: ll_get_def ll_find_plenty)
next
  case (Some i)
  with assms show ?thesis by (simp add: ll_get_def ll_find_plenty ll_search_lookup)
qed

lemma ll_put_inc_plenty:
  assumes "plenty a" and "ll_wf xs"
  shows "\<exists>ys a'. ll_put_inc a (Some xs) key d = (0, Some ys, a') \<and> plenty a' \<and> ll_wf ys
    \<and> ll_lookup ys = tally1 (non_null key, d) (ll_lookup xs)"
proof (cases "ll_search xs (lower (non_null key))")
  case None
  then have "lower (non_null key) \<notin> ll_key ` set xs" by (simp add: ll_search_None)
  moreover from this have "ll_lookup xs (lower (non_null key)) = None"
    by (simp add: ll_lookup_None_iff)
  ultimately show ?thesis
    using assms None by (simp add: ll_put_inc_def alloc_simps tally1_def)
next
  case (Some i)
  from ll_search_Some [OF Some] assms show ?thesis
    by (simp add: ll_put_inc_def alloc_simps tally1_def Some ll_wf_write ll_lookup_write [OF Some]
        ll_search_lookup [OF Some])
qed

lemma ll_set_plenty:
  assumes "plenty a" and "ll_wf xs"
  shows "\<exists>ys a'. ll_set a (Some xs) key c = (0, Some ys, a') \<and> plenty a' \<and> ll_wf ys
    \<and> ll_lookup ys = (ll_lookup xs)(lower (non_null key) \<mapsto> c)"
proof (cases "ll_search xs (lower (non_null key))")
  case None
  then have "lower (non_null key) \<notin> ll_key ` set xs" by (simp add: ll_search_None)
  then show ?thesis
    using assms None by (simp add: ll_set_def alloc_simps)
next
  case (Some i)
  from ll_search_Some [OF Some] assms show ?thesis
    by (simp add: ll_set_def alloc_simps Some ll_wf_write ll_lookup_write [OF Some])
qed

lemma ll_lookup_drop_key: "ll_key n \<notin> ll_key ` set xs \<Longrightarrow>
  ll_lookup xs = ((ll_lookup xs)(ll_key n \<mapsto> c))(ll_key n := None)"
  by (simp add: fun_eq_iff ll_lookup_None_iff)

lemma ll_remove_plenty:
  assumes "plenty a" and "ll_wf xs"
  shows "\<exists>ys a'. ll_remove a (Some xs) key =
      (if lower (non_null key) \<in> dom (ll_lookup xs) then 1 else 0, Some ys, a') \<and> plenty a'
    \<and> ll_wf ys \<and> ll_lookup ys = (ll_lookup xs)(lower (non_null key) := None)"
proof (cases xs)
  case Nil
  then show ?thesis using assms by (simp add: ll_remove_def)
next
  case (Cons n rest)
  let ?k = "lower (non_null key)"
  show ?thesis
  proof (cases "ll_key n = ?k")
    case True
    with assms Cons ll_lookup_drop_key [of n rest] show ?thesis
      by (simp add: ll_remove_def alloc_simps)
  next
    case False
    show ?thesis
    proof (cases "ll_unlink rest ?k")
      case None
      then have "ll_lookup rest ?k = None" by (simp add: ll_unlink_None ll_lookup_None_iff)
      with None False Cons assms show ?thesis
        by (simp add: ll_remove_def alloc_simps domIff fun_upd_idem)
    next
      case (Some ys)
      with assms Cons have *: "ll_wf ys \<and> ll_key ` set ys = ll_key ` set rest - {?k}
          \<and> ?k \<in> ll_key ` set rest \<and> ll_lookup ys = (ll_lookup rest)(?k := None)"
        by (intro ll_unlink_Some) auto
      then have "?k \<in> dom (ll_lookup rest)" by (simp add: dom_ll_lookup)
      with * Some False Cons assms show ?thesis
        by (simp add: ll_remove_def alloc_simps fun_upd_twist)
    qed
  qed
qed

lemma ll_length_eq [simp]: "ll_length xs = length xs"
  by (induction xs) auto

lemma ll_foreach_fold: "ll_foreach xs (Some fn) ctx = fold (\<lambda>e. fn (fst e) (snd e)) (ll_entries xs) ctx"
  by (induction xs arbitrary: ctx) auto

subsection \<open>When an allocation fails\<close>

text \<open>A call that reports failure has not touched the list.\<close>

lemma ll_push_new_fail: "ll_push_new a xs k c = (-1, h, a') \<Longrightarrow> h = Some xs"
  by (auto simp: ll_push_new_def split: prod.splits option.splits if_splits)

lemma ll_put_inc_fail: "ll_put_inc a (Some xs) key d = (-1, h, a') \<Longrightarrow> h = Some xs"
  by (auto simp: ll_put_inc_def dest: ll_push_new_fail split: prod.splits option.splits)

text \<open>
  A failed search is taken for a missing key: where only the first allocation fails, the call
  succeeds with a second node for the same key.
\<close>

lemma ll_put_inc_duplicate:
  "ll_put_inc (False # True # True # a) (Some xs) key d =
     (0, Some (\<lparr>ll_key = lower (non_null key), ll_count = d\<rparr> # xs), a)"
  by (simp add: ll_put_inc_def ll_find_def ll_strdup_lower_def ll_push_new_def)

lemma ll_push_new_cases:
  "ll_push_new a xs key c = (r, h, a') \<Longrightarrow>
    r = -1 \<and> h = Some xs \<or> r = 0 \<and> h = Some (\<lparr>ll_key = lower key, ll_count = c\<rparr> # xs)"
  by (auto simp: ll_push_new_def ll_strdup_lower_def split: prod.splits option.splits if_splits)

lemma ll_find_cases:
  "ll_find a xs key = (node, a') \<Longrightarrow>
    node = ll_search xs (lower (non_null key)) \<or> fst (malloc a) = False \<and> node = None"
  by (auto simp: ll_find_def ll_strdup_lower_def split: prod.splits if_splits)

lemma ll_put_inc_cases:
  assumes "ll_wf xs" and "ll_put_inc a (Some xs) key d = (r, h, a')"
  shows "r = -1 \<and> h = Some xs
    \<or> r = 0 \<and> (\<exists>ys. h = Some ys \<and> ll_wf ys \<and> ll_lookup ys = tally1 (non_null key, d) (ll_lookup xs))
    \<or> r = 0 \<and> fst (malloc a) = False \<and> lower (non_null key) \<in> ll_key ` set xs
        \<and> h = Some (\<lparr>ll_key = lower (non_null key), ll_count = d\<rparr> # xs)"
proof -
  let ?k = "lower (non_null key)" and ?new = "\<lparr>ll_key = lower (non_null key), ll_count = d\<rparr>"
  obtain node a1 where find: "ll_find a xs (Some (non_null key)) = (node, a1)" by fastforce
  show ?thesis
  proof (cases node)
    case (Some i)
    with ll_find_cases [OF find] have s: "ll_search xs ?k = Some i" by simp
    from ll_search_Some [OF s] ll_search_lookup [OF s] assms find Some show ?thesis
      by (auto simp: ll_put_inc_def ll_wf_write ll_lookup_write [OF s] tally1_def)
  next
    case None
    with assms(2) find have "ll_push_new a1 xs (non_null key) d = (r, h, a')"
      by (simp add: ll_put_inc_def)
    then consider "r = -1 \<and> h = Some xs" | "r = 0 \<and> h = Some (?new # xs)"
      using ll_push_new_cases by blast
    then show ?thesis
    proof cases
      case 2
      show ?thesis
      proof (cases "?k \<in> ll_key ` set xs")
        case True
        then have "ll_search xs ?k \<noteq> None" by (simp add: ll_search_None)
        with ll_find_cases [OF find] None 2 True show ?thesis by auto
      next
        case False
        then have "ll_lookup xs ?k = None" by (simp add: ll_lookup_None_iff)
        with 2 False assms(1) show ?thesis by (simp add: tally1_def)
      qed
    qed simp
  qed
qed

subsection \<open>The bucket as a counter store\<close>

text \<open>State: the allocator and the bucket; the return value is ignored, as the callers do.\<close>

definition ll_store_put :: "string \<Rightarrow> i32 \<Rightarrow> alloc \<times> LLNode list \<Rightarrow> alloc \<times> LLNode list" where
  "ll_store_put w d s =
     (let (r, h, a') = ll_put_inc (fst s) (Some (snd s)) (Some w) d
      in (a', case h of Some ys \<Rightarrow> ys | None \<Rightarrow> snd s))"

definition ll_store_ok :: "alloc \<times> LLNode list \<Rightarrow> bool" where
  "ll_store_ok s \<longleftrightarrow> plenty (fst s) \<and> ll_wf (snd s)"

lemma ll_store_put_spec:
  assumes "ll_store_ok s"
  shows "ll_store_ok (ll_store_put w d s)
    \<and> ll_lookup (snd (ll_store_put w d s)) = tally1 (w, d) (ll_lookup (snd s))"
proof -
  from assms have "plenty (fst s)" and "ll_wf (snd s)" by (simp_all add: ll_store_ok_def)
  then obtain ys a' where "ll_put_inc (fst s) (Some (snd s)) (Some w) d = (0, Some ys, a')"
    and "plenty a'" and "ll_wf ys" and "ll_lookup ys = tally1 (w, d) (ll_lookup (snd s))"
    using ll_put_inc_plenty [of "fst s" "snd s" "Some w" d] by auto
  then show ?thesis by (simp add: ll_store_ok_def ll_store_put_def)
qed

interpretation bucket: counter_table ll_store_ok "\<lambda>s. ll_lookup (snd s)" ll_store_put
  "\<lambda>s. ll_entries (snd s)"
proof (unfold_locales, goal_cases)
  case (1 s w d)
  then show ?case by (simp add: ll_store_put_spec)
next
  case (2 s w d)
  then show ?case by (simp add: ll_store_put_spec)
next
  case (3 s)
  then show ?case by (simp add: ll_store_ok_def ll_wf_def)
next
  case (4 s)
  show ?case by (simp add: ll_lookup_def)
next
  case (5 s e)
  then show ?case by (auto simp: ll_store_ok_def ll_wf_def ll_entries_def)
qed

subsection \<open>Properties\<close>

text \<open>\<open>ll_remove\<close> reports whether the key was present in any letter case, and leaves a
  well-formed list that holds every other key with its count and no longer holds the key.\<close>

theorem ll_remove_deletes_key:
  assumes "plenty a" and "ll_wf xs"
  shows "\<exists>ys a'. ll_remove a (Some xs) key =
      (if lower (non_null key) \<in> ll_key ` set xs then 1 else 0, Some ys, a')
    \<and> ll_wf ys \<and> ll_key ` set ys = ll_key ` set xs - {lower (non_null key)}
    \<and> ll_lookup ys = (ll_lookup xs)(lower (non_null key) := None)"
proof -
  from ll_remove_plenty [OF assms, of key] obtain ys a' where
    ys: "ll_remove a (Some xs) key =
      (if lower (non_null key) \<in> dom (ll_lookup xs) then 1 else 0, Some ys, a')" "ll_wf ys"
    and look: "ll_lookup ys = (ll_lookup xs)(lower (non_null key) := None)" by blast
  have "dom (ll_lookup ys) = dom (ll_lookup xs) - {lower (non_null key)}" by (simp add: look)
  then have "ll_key ` set ys = ll_key ` set xs - {lower (non_null key)}" by (simp only: dom_ll_lookup)
  with ys look show ?thesis by (simp add: dom_ll_lookup)
qed

lemma ll_remove_deletes_key_witness:
  "\<exists>ys a'. ll_remove [] (Some [\<lparr>ll_key = ''be'', ll_count = 2\<rparr>, \<lparr>ll_key = ''or'', ll_count = 1\<rparr>]) (Some ''OR'') =
      (1, Some ys, a') \<and> ll_key ` set ys = {''be''}"
proof -
  have "lower ''OR'' = ''or''" "lower ''be'' = ''be''" "lower ''or'' = ''or''" by code_simp+
  then show ?thesis using ll_remove_deletes_key
    [of "[]" "[\<lparr>ll_key = ''be'', ll_count = 2\<rparr>, \<lparr>ll_key = ''or'', ll_count = 1\<rparr>]" "Some ''OR''"]
    by auto
qed

text \<open>On any allocator \<open>ll_put_inc\<close> has three outcomes: it fails and has not touched the list,
  it adds to the counter of the key and keeps the list well formed, or, only where the first
  allocation fails for a key that is present, it succeeds and adds a second node for that key.\<close>

theorem ll_put_inc_outcomes:
  assumes "ll_wf xs" and "ll_put_inc a (Some xs) key d = (r, h, a')"
  shows "r = -1 \<and> h = Some xs
    \<or> r = 0 \<and> (\<exists>ys. h = Some ys \<and> ll_wf ys \<and> ll_lookup ys = tally1 (non_null key, d) (ll_lookup xs))
    \<or> r = 0 \<and> fst (malloc a) = False \<and> lower (non_null key) \<in> ll_key ` set xs
        \<and> h = Some (\<lparr>ll_key = lower (non_null key), ll_count = d\<rparr> # xs)"
  using assms(2) by (rule ll_put_inc_cases [OF assms(1)])

lemma ll_put_inc_outcomes_witness:
  "ll_put_inc [False, True, True] (Some [\<lparr>ll_key = ''a'', ll_count = 1\<rparr>]) (Some ''A'') 1 =
     (0, Some [\<lparr>ll_key = ''a'', ll_count = 1\<rparr>, \<lparr>ll_key = ''a'', ll_count = 1\<rparr>], []) 
    \<and> ''a'' \<in> ll_key ` set [\<lparr>ll_key = ''a'', ll_count = 1\<rparr>]"
proof -
  have "lower ''A'' = ''a''" "lower ''a'' = ''a''" by code_simp+
  moreover have "ll_put_inc [False, True, True] (Some [\<lparr>ll_key = ''a'', ll_count = 1\<rparr>]) (Some ''A'') 1 =
     (0, Some [\<lparr>ll_key = ''a'', ll_count = 1\<rparr>, \<lparr>ll_key = ''a'', ll_count = 1\<rparr>], [])"
    using ll_put_inc_duplicate [where a = "[]"] calculation by simp
  ultimately show ?thesis using ll_put_inc_outcomes [of "[\<lparr>ll_key = ''a'', ll_count = 1\<rparr>]" "[False, True, True]" "Some ''A''" 1]
    by auto
qed

end
