(* ===== verification/Hash_Map.thy ===== *)
theory Hash_Map
  imports Linked_List
begin

section \<open>The hash map (mapreduce-wordcount/hashmap.c)\<close>

text \<open>
  Separate chaining over \<open>n_buckets\<close> bucket lists.  A pointer to a map, and the pointer to its
  bucket array, are options where the code tests them against NULL.
\<close>

record HashMap =
  n_buckets :: nat
  buckets :: "LLNode list list option"

definition DEFAULT_N_BUCKETS :: nat where
  "DEFAULT_N_BUCKETS = 1024"

fun djb2_loop :: "u64 \<Rightarrow> string \<Rightarrow> u64" where
  "djb2_loop hash [] = hash"
| "djb2_loop hash (c # key) = djb2_loop ((push_bit 5 hash + hash) + of_nat (byte (ascii_tolower c))) key"

definition djb2_hash :: "string option \<Rightarrow> u64" where
  "djb2_hash key = djb2_loop 5381 (non_null key)"

definition bucket_index :: "HashMap option \<Rightarrow> string option \<Rightarrow> nat" where
  "bucket_index hm key =
     (case hm of None \<Rightarrow> 0
      | Some h \<Rightarrow> (if n_buckets h = 0 then 0 else unat (djb2_hash key) mod n_buckets h))"

definition hm_create :: "alloc \<Rightarrow> nat \<Rightarrow> HashMap option \<times> alloc" where
  "hm_create a n =
     (let n = (if n = 0 then DEFAULT_N_BUCKETS else n);
          (ok, a1) = malloc a
      in if \<not> ok then (None, a1)
         else (let (ok', a2) = malloc a1
           in if \<not> ok' then (None, a2)
              else (Some \<lparr>n_buckets = n, buckets = Some (replicate n [])\<rparr>, a2)))"

definition hm_entry_count :: "HashMap option \<Rightarrow> nat" where
  "hm_entry_count hm =
     (case hm of None \<Rightarrow> 0
      | Some h \<Rightarrow> (case buckets h of None \<Rightarrow> 0
          | Some bs \<Rightarrow> fold (\<lambda>b total. total + ll_length b) (take (n_buckets h) bs) 0))"

text \<open>The bucket \<open>idx\<close> after an operation on the address of its head pointer.\<close>

definition write_bucket :: "HashMap \<Rightarrow> LLNode list list \<Rightarrow> nat \<Rightarrow> LLNode list option \<Rightarrow> HashMap" where
  "write_bucket h bs idx b =
     h\<lparr>buckets := Some (case b of None \<Rightarrow> bs | Some xs \<Rightarrow> bs[idx := xs])\<rparr>"

definition hm_put_inc ::
  "alloc \<Rightarrow> HashMap option \<Rightarrow> string option \<Rightarrow> i32 \<Rightarrow> int \<times> HashMap option \<times> alloc" where
  "hm_put_inc a hm key delta =
     (case hm of None \<Rightarrow> (-1, None, a)
      | Some h \<Rightarrow> (case buckets h of None \<Rightarrow> (-1, Some h, a)
          | Some bs \<Rightarrow>
             (let key = Some (non_null key); idx = bucket_index (Some h) key;
                  (r, b, a') = ll_put_inc a (Some (bs ! idx)) key delta
              in (r, Some (write_bucket h bs idx b), a'))))"

definition hm_set ::
  "alloc \<Rightarrow> HashMap option \<Rightarrow> string option \<Rightarrow> i32 \<Rightarrow> int \<times> HashMap option \<times> alloc" where
  "hm_set a hm key cnt =
     (case hm of None \<Rightarrow> (-1, None, a)
      | Some h \<Rightarrow> (case buckets h of None \<Rightarrow> (-1, Some h, a)
          | Some bs \<Rightarrow>
             (let key = Some (non_null key); idx = bucket_index (Some h) key;
                  (r, b, a') = ll_set a (Some (bs ! idx)) key cnt
              in (r, Some (write_bucket h bs idx b), a'))))"

definition hm_get ::
  "alloc \<Rightarrow> HashMap option \<Rightarrow> string option \<Rightarrow> bool \<Rightarrow> i32 option \<times> alloc" where
  "hm_get a hm key has_out =
     (case hm of None \<Rightarrow> (None, a)
      | Some h \<Rightarrow> (case buckets h of None \<Rightarrow> (None, a)
          | Some bs \<Rightarrow>
             (if \<not> has_out then (None, a)
              else (let key = Some (non_null key)
                    in ll_get a (bs ! bucket_index (Some h) key) key True))))"

definition hm_foreach ::
  "HashMap option \<Rightarrow> (string \<Rightarrow> i32 \<Rightarrow> 'c \<Rightarrow> 'c) option \<Rightarrow> 'c \<Rightarrow> 'c" where
  "hm_foreach hm fn ctx =
     (case hm of None \<Rightarrow> ctx
      | Some h \<Rightarrow> (case buckets h of None \<Rightarrow> ctx
          | Some bs \<Rightarrow> (case fn of None \<Rightarrow> ctx
              | Some f \<Rightarrow> fold (\<lambda>b. ll_foreach b (Some f)) (take (n_buckets h) bs) ctx)))"

text \<open>The two nested loops of \<open>hm_merge\<close>; a failing insertion leaves both with -1.\<close>

fun hm_merge_bucket :: "alloc \<Rightarrow> HashMap option \<Rightarrow> LLNode list \<Rightarrow> int \<times> HashMap option \<times> alloc" where
  "hm_merge_bucket a dst [] = (0, dst, a)"
| "hm_merge_bucket a dst (node # rest) =
     (let (result, dst', a') = hm_put_inc a dst (Some (ll_key node)) (ll_count node)
      in if result \<noteq> 0 then (-1, dst', a') else hm_merge_bucket a' dst' rest)"

fun hm_merge_buckets ::
  "alloc \<Rightarrow> HashMap option \<Rightarrow> LLNode list list \<Rightarrow> int \<times> HashMap option \<times> alloc" where
  "hm_merge_buckets a dst [] = (0, dst, a)"
| "hm_merge_buckets a dst (b # bs) =
     (let (result, dst', a') = hm_merge_bucket a dst b
      in if result \<noteq> 0 then (-1, dst', a') else hm_merge_buckets a' dst' bs)"

definition hm_merge ::
  "alloc \<Rightarrow> HashMap option \<Rightarrow> HashMap option \<Rightarrow> int \<times> HashMap option \<times> alloc" where
  "hm_merge a dst src =
     (case Option.bind dst buckets of None \<Rightarrow> (-1, dst, a)
      | Some _ \<Rightarrow> (case src of None \<Rightarrow> (0, dst, a)
          | Some s \<Rightarrow> (case buckets s of None \<Rightarrow> (0, dst, a)
              | Some bs \<Rightarrow> hm_merge_buckets a dst (take (n_buckets s) bs))))"

definition hm_clear :: "HashMap option \<Rightarrow> HashMap option" where
  "hm_clear hm =
     (case hm of None \<Rightarrow> None
      | Some h \<Rightarrow> (case buckets h of None \<Rightarrow> Some h
          | Some bs \<Rightarrow> Some (h\<lparr>buckets := Some (replicate (n_buckets h) [] @ drop (n_buckets h) bs)\<rparr>)))"

subsection \<open>Hashing\<close>

lemma djb2_loop_lower: "djb2_loop h (lower k) = djb2_loop h k"
  by (induction k arbitrary: h) (auto simp: lower_Cons)

lemma bucket_index_lower [simp]: "bucket_index hm (Some (lower k)) = bucket_index hm (Some k)"
  by (cases hm) (simp_all add: bucket_index_def djb2_hash_def djb2_loop_lower)

lemma bucket_index_lt: "n_buckets h \<noteq> 0 \<Longrightarrow> bucket_index (Some h) key < n_buckets h"
  by (simp add: bucket_index_def)

subsection \<open>Invariant and abstraction\<close>

definition hm_wf :: "HashMap \<Rightarrow> bool" where
  "hm_wf h \<longleftrightarrow> n_buckets h \<noteq> 0 \<and>
     (case buckets h of None \<Rightarrow> False
      | Some bs \<Rightarrow> length bs = n_buckets h
          \<and> (\<forall>i < n_buckets h. ll_wf (bs ! i)
               \<and> (\<forall>n \<in> set (bs ! i). bucket_index (Some h) (Some (ll_key n)) = i)))"

definition hm_entries :: "HashMap \<Rightarrow> (string \<times> i32) list" where
  "hm_entries h = (case buckets h of None \<Rightarrow> [] | Some bs \<Rightarrow> concat (map ll_entries bs))"

definition hm_lookup :: "HashMap \<Rightarrow> string \<rightharpoonup> i32" where
  "hm_lookup h = map_of (hm_entries h)"

lemma hm_wfD:
  assumes "hm_wf h"
  shows "\<exists>bs. buckets h = Some bs \<and> length bs = n_buckets h \<and> n_buckets h \<noteq> 0
    \<and> (\<forall>i < n_buckets h. ll_wf (bs ! i))
    \<and> (\<forall>i n. i < n_buckets h \<longrightarrow> n \<in> set (bs ! i) \<longrightarrow> bucket_index (Some h) (Some (ll_key n)) = i)"
  using assms by (auto simp: hm_wf_def split: option.splits)

lemma map_of_concat_Some:
  "map_of (concat xss) k = Some v \<Longrightarrow> \<exists>xs \<in> set xss. map_of xs k = Some v"
  by (induction xss) (auto simp: map_add_Some_iff)

lemma map_of_concat_None:
  "map_of (concat xss) k = None \<longleftrightarrow> (\<forall>xs \<in> set xss. map_of xs k = None)"
  by (induction xss) (auto simp: map_add_def split: option.splits)

lemma map_of_concat_at:
  assumes "i < length xss" and "\<And>j. j < length xss \<Longrightarrow> j \<noteq> i \<Longrightarrow> map_of (xss ! j) k = None"
  shows "map_of (concat xss) k = map_of (xss ! i) k"
proof (cases "map_of (concat xss) k")
  case None
  with assms(1) show ?thesis by (metis map_of_concat_None nth_mem)
next
  case (Some v)
  then obtain j where j: "j < length xss" and v: "map_of (xss ! j) k = Some v"
    using map_of_concat_Some [OF Some] by (metis in_set_conv_nth)
  with assms(2) [of j] have "j = i" by (cases "j = i") auto
  with v Some show ?thesis by simp
qed

text \<open>A well-formed map finds every key in the bucket of its hash.\<close>

lemma hm_lookup_bucket:
  assumes "hm_wf h" and "buckets h = Some bs"
  shows "hm_lookup h k = ll_lookup (bs ! bucket_index (Some h) (Some k)) k"
proof -
  let ?i = "bucket_index (Some h) (Some k)"
  from assms have len: "length bs = n_buckets h" "n_buckets h \<noteq> 0" by (auto dest: hm_wfD)
  then have i: "?i < length bs" by (simp add: bucket_index_lt)
  have "map_of (map ll_entries bs ! j) k = None" if "j < length bs" and "j \<noteq> ?i" for j
  proof -
    have "k \<notin> ll_key ` set (bs ! j)"
      using assms that len by (auto simp: hm_wf_def)
    with that(1) show ?thesis by (simp add: ll_lookup_None_iff flip: ll_lookup_def)
  qed
  with i have "map_of (concat (map ll_entries bs)) k = map_of (map ll_entries bs ! ?i) k"
    by (intro map_of_concat_at) auto
  with i assms(2) show ?thesis by (simp add: hm_lookup_def hm_entries_def ll_lookup_def)
qed

text \<open>Writing one bucket back changes the map only at the keys of that bucket.\<close>

lemma hm_write_bucket:
  assumes wf: "hm_wf h" and bs: "buckets h = Some bs" and ys: "ll_wf ys"
    and i: "i = bucket_index (Some h) (Some k)"
    and look: "ll_lookup ys = (ll_lookup (bs ! i))(lower k := v)"
  shows "hm_wf (write_bucket h bs i (Some ys)) \<and>
    hm_lookup (write_bucket h bs i (Some ys)) = (hm_lookup h)(lower k := v)"
proof -
  let ?h' = "write_bucket h bs i (Some ys)"
  have nb [simp]: "n_buckets ?h' = n_buckets h" and bs' [simp]: "buckets ?h' = Some (bs[i := ys])"
    by (simp_all add: write_bucket_def)
  have idx: "bucket_index (Some ?h') key = bucket_index (Some h) key" for key
    by (simp add: bucket_index_def)
  from wf bs have len: "length bs = n_buckets h" and pos: "n_buckets h \<noteq> 0" by (auto dest: hm_wfD)
  have il: "i < length bs" using i len pos by (simp add: bucket_index_lt)
  have keys: "ll_key ` set ys \<subseteq> insert (lower k) (ll_key ` set (bs ! i))"
    using look by (auto simp flip: dom_ll_lookup split: if_splits)
  have at_i: "bucket_index (Some h) (Some (ll_key n)) = i" if "n \<in> set ys" for n
    using keys that wf bs il len i by (fastforce simp: hm_wf_def)
  have wf': "hm_wf ?h'"
    using wf bs ys len il at_i by (auto simp: hm_wf_def idx nth_list_update)
  have "hm_lookup ?h' w = ((hm_lookup h)(lower k := v)) w" for w
  proof (cases "bucket_index (Some h) (Some w) = i")
    case True
    with il look show ?thesis
      by (simp add: hm_lookup_bucket [OF wf' bs'] hm_lookup_bucket [OF wf bs] idx)
  next
    case False
    then have "w \<noteq> lower k" using i by auto
    with False show ?thesis
      by (simp add: hm_lookup_bucket [OF wf' bs'] hm_lookup_bucket [OF wf bs] idx)
  qed
  with wf' show ?thesis by blast
qed

lemma distinct_concat_indexed:
  assumes "\<And>i. i < length xss \<Longrightarrow> distinct (xss ! i)"
    and "\<And>i x. i < length xss \<Longrightarrow> x \<in> set (xss ! i) \<Longrightarrow> g x = off + i"
  shows "distinct (concat xss)"
  using assms
proof (induction xss arbitrary: off)
  case (Cons xs xss)
  have "distinct (concat xss)"
    using Cons.prems(1) [of "Suc i" for i] Cons.prems(2) [of "Suc i" for i]
    by (intro Cons.IH [of "Suc off"]) auto
  moreover have "distinct xs" using Cons.prems(1) [of 0] by simp
  moreover have "g x \<noteq> off" if "x \<in> set (concat xss)" for x
  proof -
    from that obtain ys where "ys \<in> set xss" "x \<in> set ys" by auto
    then obtain i where "i < length xss" "x \<in> set (xss ! i)" by (metis in_set_conv_nth)
    then show ?thesis using Cons.prems(2) [of "Suc i" x] by simp
  qed
  moreover have "g x = off" if "x \<in> set xs" for x using Cons.prems(2) [of 0 x] that by simp
  ultimately show ?case by auto
qed simp

lemma hm_entries_distinct:
  assumes "hm_wf h" shows "distinct (map fst (hm_entries h))"
proof -
  from assms obtain bs where bs: "buckets h = Some bs" and len: "length bs = n_buckets h"
    and wf: "\<And>i. i < n_buckets h \<Longrightarrow> ll_wf (bs ! i)"
    and idx: "\<And>i n. i < n_buckets h \<Longrightarrow> n \<in> set (bs ! i)
      \<Longrightarrow> bucket_index (Some h) (Some (ll_key n)) = i"
    using hm_wfD by blast
  have "distinct (concat (map (map ll_key) bs))"
    by (rule distinct_concat_indexed [where off = 0 and g = "\<lambda>k. bucket_index (Some h) (Some k)"])
      (use wf idx len in \<open>auto simp: ll_wf_def\<close>)
  then show ?thesis using bs by (simp add: hm_entries_def map_concat comp_def)
qed

lemma hm_entries_lower:
  assumes "hm_wf h" and "e \<in> set (hm_entries h)"
  shows "lower (fst e) = fst e"
proof -
  obtain bs where "buckets h = Some bs" and len: "length bs = n_buckets h"
    and wf: "\<forall>i < n_buckets h. ll_wf (bs ! i)"
    using hm_wfD [OF assms(1)] by blast
  with assms(2) obtain b where "b \<in> set bs" "e \<in> set (ll_entries b)"
    by (auto simp: hm_entries_def)
  moreover from this(1) len wf have "ll_wf b" by (metis in_set_conv_nth)
  ultimately show ?thesis by (auto simp: ll_wf_def ll_entries_def)
qed

subsection \<open>What the operations do when no allocation fails\<close>

lemma hm_put_inc_plenty:
  assumes "plenty a" and "hm_wf h"
  shows "\<exists>h' a'. hm_put_inc a (Some h) key d = (0, Some h', a') \<and> plenty a' \<and> hm_wf h'
    \<and> n_buckets h' = n_buckets h \<and> hm_lookup h' = tally1 (non_null key, d) (hm_lookup h)"
proof -
  let ?k = "non_null key"
  let ?i = "bucket_index (Some h) (Some ?k)"
  from assms(2) obtain bs where bs: "buckets h = Some bs" and "length bs = n_buckets h"
    and "n_buckets h \<noteq> 0" and wfb: "\<And>i. i < n_buckets h \<Longrightarrow> ll_wf (bs ! i)"
    using hm_wfD by blast
  then have "ll_wf (bs ! ?i)" by (simp add: bucket_index_lt)
  then obtain ys a' where put: "ll_put_inc a (Some (bs ! ?i)) (Some ?k) d = (0, Some ys, a')"
    and "plenty a'" and ys: "ll_wf ys" and look: "ll_lookup ys = tally1 (?k, d) (ll_lookup (bs ! ?i))"
    using ll_put_inc_plenty [OF assms(1), of "bs ! ?i" "Some ?k" d] by auto
  have "hm_lookup h (lower ?k) = ll_lookup (bs ! ?i) (lower ?k)"
    by (simp add: hm_lookup_bucket [OF assms(2) bs])
  with look have look': "ll_lookup ys =
      (ll_lookup (bs ! ?i))(lower ?k := Some (bump (hm_lookup h (lower ?k)) d))"
    by (simp add: tally1_def)
  show ?thesis
    using hm_write_bucket [OF assms(2) bs ys refl look'] put bs \<open>plenty a'\<close>
    by (simp add: hm_put_inc_def tally1_def write_bucket_def)
qed

lemma hm_set_plenty:
  assumes "plenty a" and "hm_wf h"
  shows "\<exists>h' a'. hm_set a (Some h) key c = (0, Some h', a') \<and> plenty a' \<and> hm_wf h'
    \<and> n_buckets h' = n_buckets h \<and> hm_lookup h' = (hm_lookup h)(lower (non_null key) \<mapsto> c)"
proof -
  let ?k = "non_null key"
  let ?i = "bucket_index (Some h) (Some ?k)"
  from assms(2) obtain bs where bs: "buckets h = Some bs" and "length bs = n_buckets h"
    and "n_buckets h \<noteq> 0" and wfb: "\<And>i. i < n_buckets h \<Longrightarrow> ll_wf (bs ! i)"
    using hm_wfD by blast
  then have "ll_wf (bs ! ?i)" by (simp add: bucket_index_lt)
  then obtain ys a' where put: "ll_set a (Some (bs ! ?i)) (Some ?k) c = (0, Some ys, a')"
    and "plenty a'" and ys: "ll_wf ys"
    and look: "ll_lookup ys = (ll_lookup (bs ! ?i))(lower ?k := Some c)"
    using ll_set_plenty [OF assms(1), of "bs ! ?i" "Some ?k" c] by auto
  show ?thesis
    using hm_write_bucket [OF assms(2) bs ys refl look] put bs \<open>plenty a'\<close>
    by (simp add: hm_set_def write_bucket_def)
qed

lemma hm_get_plenty:
  assumes "plenty a" and "hm_wf h"
  shows "fst (hm_get a (Some h) key True) = hm_lookup h (lower (non_null key))"
proof -
  from assms(2) obtain bs where bs: "buckets h = Some bs" using hm_wfD by blast
  with assms show ?thesis
    by (simp add: hm_get_def Let_def ll_get_plenty hm_lookup_bucket [OF assms(2) bs])
qed

lemma hm_wf_empty: "n \<noteq> 0 \<Longrightarrow> hm_wf \<lparr>n_buckets = n, buckets = Some (replicate n [])\<rparr>"
  by (simp add: hm_wf_def)

lemma hm_lookup_empty: "hm_lookup \<lparr>n_buckets = n, buckets = Some (replicate n [])\<rparr> = Map.empty"
  by (simp add: hm_lookup_def hm_entries_def map_replicate_const [symmetric])

lemma hm_create_plenty:
  assumes "plenty a"
  shows "\<exists>h a'. hm_create a n = (Some h, a') \<and> plenty a' \<and> hm_wf h \<and> hm_lookup h = Map.empty
    \<and> n_buckets h = (if n = 0 then DEFAULT_N_BUCKETS else n)"
  using assms hm_wf_empty hm_lookup_empty
  by (auto simp: hm_create_def alloc_simps Let_def DEFAULT_N_BUCKETS_def)

lemma hm_foreach_entries:
  assumes "hm_wf h"
  shows "hm_foreach (Some h) (Some f) ctx = fold (\<lambda>e. f (fst e) (snd e)) (hm_entries h) ctx"
proof -
  from assms obtain bs where bs: "buckets h = Some bs" "length bs = n_buckets h" using hm_wfD by blast
  have "fold (\<lambda>b. ll_foreach b (Some f)) bs ctx
      = fold (\<lambda>e. f (fst e) (snd e)) (concat (map ll_entries bs)) ctx" for bs
    by (induction bs arbitrary: ctx) (auto simp: ll_foreach_fold)
  with bs show ?thesis by (simp add: hm_foreach_def hm_entries_def)
qed

lemma hm_entry_count_entries:
  assumes "hm_wf h" shows "hm_entry_count (Some h) = length (hm_entries h)"
proof -
  from assms obtain bs where bs: "buckets h = Some bs" "length bs = n_buckets h" using hm_wfD by blast
  have "fold (\<lambda>b total. total + ll_length b) bs n = n + length (concat (map ll_entries bs))" for bs n
    by (induction bs arbitrary: n) (auto simp: ll_entries_def)
  with bs show ?thesis by (simp add: hm_entry_count_def hm_entries_def)
qed

lemma hm_entry_count_card: "hm_wf h \<Longrightarrow> hm_entry_count (Some h) = card (dom (hm_lookup h))"
  using distinct_card [OF hm_entries_distinct, of h]
  by (simp add: hm_entry_count_entries hm_lookup_def dom_map_of_conv_image_fst)

lemma hm_clear_spec:
  assumes "hm_wf h"
  shows "\<exists>h'. hm_clear (Some h) = Some h' \<and> hm_wf h' \<and> hm_lookup h' = Map.empty
    \<and> n_buckets h' = n_buckets h"
proof -
  from assms obtain bs where "buckets h = Some bs" "length bs = n_buckets h" "n_buckets h \<noteq> 0"
    using hm_wfD by blast
  then show ?thesis using hm_wf_empty [of "n_buckets h"] hm_lookup_empty [of "n_buckets h"]
    by (cases h) (simp add: hm_clear_def)
qed

subsection \<open>The hash map as a counter store\<close>

definition hm_store_put ::
  "string \<Rightarrow> i32 \<Rightarrow> alloc \<times> HashMap option \<Rightarrow> alloc \<times> HashMap option" where
  "hm_store_put w d s = (let (r, hm, a') = hm_put_inc (fst s) (snd s) (Some w) d in (a', hm))"

definition hm_store_ok :: "alloc \<times> HashMap option \<Rightarrow> bool" where
  "hm_store_ok s \<longleftrightarrow> plenty (fst s) \<and> (case snd s of None \<Rightarrow> False | Some h \<Rightarrow> hm_wf h)"

definition hm_view :: "alloc \<times> HashMap option \<Rightarrow> string \<rightharpoonup> i32" where
  "hm_view s = (case snd s of None \<Rightarrow> Map.empty | Some h \<Rightarrow> hm_lookup h)"

definition hm_list :: "alloc \<times> HashMap option \<Rightarrow> (string \<times> i32) list" where
  "hm_list s = (case snd s of None \<Rightarrow> [] | Some h \<Rightarrow> hm_entries h)"

lemma hm_store_put_spec:
  assumes "hm_store_ok s"
  shows "hm_store_ok (hm_store_put w d s) \<and> hm_view (hm_store_put w d s) = tally1 (w, d) (hm_view s)"
proof -
  from assms obtain h where "snd s = Some h" "hm_wf h" "plenty (fst s)"
    by (auto simp: hm_store_ok_def split: option.splits)
  then show ?thesis using hm_put_inc_plenty [of "fst s" h "Some w" d]
    by (auto simp: hm_store_ok_def hm_store_put_def hm_view_def)
qed

interpretation hm: counter_table hm_store_ok hm_view hm_store_put hm_list
proof (unfold_locales, goal_cases)
  case (1 s w d)
  then show ?case by (simp add: hm_store_put_spec)
next
  case (2 s w d)
  then show ?case by (simp add: hm_store_put_spec)
next
  case (3 s)
  then show ?case
    by (auto simp: hm_store_ok_def hm_list_def hm_entries_distinct split: option.splits)
next
  case (4 s)
  show ?case by (simp add: hm_view_def hm_list_def hm_lookup_def split: option.splits)
next
  case (5 s e)
  then show ?case by (auto simp: hm_store_ok_def hm_list_def hm_entries_lower split: option.splits)
qed

text \<open>\<open>hm_merge\<close> puts every entry of the source into the destination.\<close>

lemma hm_merge_bucket_plenty:
  assumes "hm_store_ok (a, dst)"
  shows "\<exists>a' dst'. hm_merge_bucket a dst b = (0, dst', a') \<and> (a', dst') = hm.put_all (ll_entries b) (a, dst)"
  using assms
proof (induction b arbitrary: a dst)
  case (Cons node rest)
  from Cons.prems obtain h where "dst = Some h" "hm_wf h" "plenty a"
    by (auto simp: hm_store_ok_def split: option.splits)
  then obtain h' a' where put: "hm_put_inc a dst (Some (ll_key node)) (ll_count node) = (0, Some h', a')"
    using hm_put_inc_plenty [of a h "Some (ll_key node)" "ll_count node"] by auto
  then have s: "hm_store_put (ll_key node) (ll_count node) (a, dst) = (a', Some h')"
    by (simp add: hm_store_put_def)
  then have "hm_store_ok (a', Some h')" using hm.put_invar [OF Cons.prems] by metis
  from Cons.IH [OF this] put s show ?case by auto
qed simp

lemma hm_merge_buckets_plenty:
  assumes "hm_store_ok (a, dst)"
  shows "\<exists>a' dst'. hm_merge_buckets a dst bs = (0, dst', a')
    \<and> (a', dst') = hm.put_all (concat (map ll_entries bs)) (a, dst)"
  using assms
proof (induction bs arbitrary: a dst)
  case (Cons b bs)
  from hm_merge_bucket_plenty [OF Cons.prems, of b] obtain a' dst' where
    m: "hm_merge_bucket a dst b = (0, dst', a')" and s: "(a', dst') = hm.put_all (ll_entries b) (a, dst)"
    by blast
  then have "hm_store_ok (a', dst')" using hm.put_all_invar [OF Cons.prems] by metis
  from Cons.IH [OF this] m show ?case by (auto simp: hm.put_all_append simp flip: s)
qed simp

lemma hm_merge_plenty:
  assumes "hm_store_ok (a, Some d)" and "hm_wf s"
  shows "\<exists>a' dst'. hm_merge a (Some d) (Some s) = (0, dst', a')
    \<and> (a', dst') = hm.put_all (hm_entries s) (a, Some d)"
proof -
  from assms(2) obtain bs where "buckets s = Some bs" "length bs = n_buckets s" using hm_wfD by blast
  moreover from assms(1) obtain ds where "buckets d = Some ds"
    using hm_wfD [of d] by (auto simp: hm_store_ok_def)
  ultimately show ?thesis using hm_merge_buckets_plenty [OF assms(1), of bs]
    by (simp add: hm_merge_def hm_entries_def)
qed

subsection \<open>Properties\<close>

text \<open>A counter incremented through \<open>hm_put_inc\<close> reads back incremented under every spelling of
  its key, and all other counters read back unchanged; the map stays well formed.\<close>

theorem hm_put_inc_then_get:
  assumes "plenty a" and "hm_wf h"
  shows "\<exists>h' a'. hm_put_inc a (Some h) key d = (0, Some h', a') \<and> plenty a' \<and> hm_wf h'
    \<and> (\<forall>other. fst (hm_get a' (Some h') other True) =
         (if lower (non_null other) = lower (non_null key)
          then Some (bump (fst (hm_get a (Some h) key True)) d)
          else fst (hm_get a (Some h) other True)))"
proof -
  from hm_put_inc_plenty [OF assms, of key d] obtain h' a' where
    "hm_put_inc a (Some h) key d = (0, Some h', a')" "plenty a'" "hm_wf h'"
    "hm_lookup h' = tally1 (non_null key, d) (hm_lookup h)" by blast
  with assms show ?thesis by (auto simp: hm_get_plenty tally1_def)
qed

lemma hm_put_inc_then_get_witness:
  "\<exists>h' a'. hm_put_inc [] (Some \<lparr>n_buckets = 1, buckets = Some [[]]\<rparr>) (Some ''To'') 3 = (0, Some h', a')
    \<and> fst (hm_get a' (Some h') (Some ''tO'') True) = Some 3"
proof -
  have "lower ''To'' = lower ''tO''" by code_simp
  moreover have "hm_wf \<lparr>n_buckets = 1, buckets = Some [[]]\<rparr>" by (simp add: hm_wf_def)
  moreover have "fst (hm_get [] (Some \<lparr>n_buckets = 1, buckets = Some [[]]\<rparr>) (Some ''To'') True) = None"
    by (simp add: hm_get_def bucket_index_def ll_get_def ll_find_def ll_strdup_lower_def)
  ultimately show ?thesis
    using hm_put_inc_then_get [of "[]" "\<lparr>n_buckets = 1, buckets = Some [[]]\<rparr>" "Some ''To''" 3]
    by auto
qed

text \<open>\<open>hm_merge\<close> adds every count of the source map to the destination map and keeps the
  counts of the words that only the destination has.\<close>

theorem hm_merge_adds_counts:
  assumes "plenty a" and "hm_wf d" and "hm_wf s"
  shows "\<exists>d' a'. hm_merge a (Some d) (Some s) = (0, Some d', a') \<and> plenty a' \<and> hm_wf d'
    \<and> (\<forall>w. hm_lookup d' w =
         (case hm_lookup s w of None \<Rightarrow> hm_lookup d w | Some c \<Rightarrow> Some (bump (hm_lookup d w) c)))"
proof -
  have ok: "hm_store_ok (a, Some d)" and src: "hm_store_ok ([], Some s)"
    using assms by (simp_all add: hm_store_ok_def)
  from hm_merge_plenty [OF ok assms(3)] obtain a' dst' where
    m: "hm_merge a (Some d) (Some s) = (0, dst', a')"
    and p: "(a', dst') = hm.put_all (hm_entries s) (a, Some d)" by blast
  have "hm_store_ok (a', dst')" using hm.put_all_invar [OF ok, of "hm_entries s"] by (simp only: p)
  then obtain d' where d': "dst' = Some d'" "plenty a'" "hm_wf d'"
    by (auto simp: hm_store_ok_def split: option.splits)
  have "hm_view (a', dst') w = (case hm_view ([], Some s) w of None \<Rightarrow> hm_view (a, Some d) w
      | Some c \<Rightarrow> Some (bump (hm_view (a, Some d) w) c))" for w
    using hm.transfer_lookup [OF src ok, of w] by (simp only: p) (simp add: hm_list_def)
  then have "hm_lookup d' w = (case hm_lookup s w of None \<Rightarrow> hm_lookup d w
      | Some c \<Rightarrow> Some (bump (hm_lookup d w) c))" for w
    using d'(1) by (simp add: hm_view_def split: option.splits)
  with m d' show ?thesis by blast
qed

lemma hm_merge_adds_counts_witness:
  "\<exists>d' a'. hm_merge [] (Some \<lparr>n_buckets = 1, buckets = Some [[\<lparr>ll_key = ''a'', ll_count = 1\<rparr>]]\<rparr>)
      (Some \<lparr>n_buckets = 1, buckets = Some [[\<lparr>ll_key = ''a'', ll_count = 4\<rparr>]]\<rparr>) = (0, Some d', a')
    \<and> hm_lookup d' ''a'' = Some 5"
proof -
  have wf: "hm_wf \<lparr>n_buckets = 1, buckets = Some [[\<lparr>ll_key = ''a'', ll_count = c\<rparr>]]\<rparr>" for c
    by (simp add: hm_wf_def bucket_index_def lower_def ascii_tolower_def is_upper_def)
  have look: "hm_lookup \<lparr>n_buckets = 1, buckets = Some [[\<lparr>ll_key = ''a'', ll_count = c\<rparr>]]\<rparr> ''a'' = Some c" for c
    by (simp add: hm_lookup_def hm_entries_def)
  show ?thesis using hm_merge_adds_counts [OF plenty_Nil wf [of 1] wf [of 4]] look
    by (auto simp: bump_def)
qed

text \<open>\<open>hm_foreach\<close> visits every key of a well-formed map exactly once, with its count;
  \<open>hm_entry_count\<close> is the number of the keys, and a cleared map has none but keeps its buckets.\<close>

theorem hm_foreach_visits_once:
  assumes "hm_wf h"
  shows "(\<exists>es. hm_foreach (Some h) (Some (\<lambda>k c acc. acc @ [(k, c)])) [] = es \<and> distinct (map fst es)
      \<and> map_of es = hm_lookup h \<and> length es = hm_entry_count (Some h))
    \<and> hm_entry_count (Some h) = card (dom (hm_lookup h))
    \<and> (\<exists>h'. hm_clear (Some h) = Some h' \<and> hm_wf h' \<and> n_buckets h' = n_buckets h
          \<and> hm_entry_count (Some h') = 0)"
proof -
  have "fold (\<lambda>e acc. acc @ [(fst e, snd e)]) es acc = acc @ es" for es acc :: "(string \<times> i32) list"
    by (induction es arbitrary: acc) auto
  then have "hm_foreach (Some h) (Some (\<lambda>k c acc. acc @ [(k, c)])) [] = hm_entries h"
    by (simp add: hm_foreach_entries [OF assms])
  moreover from hm_clear_spec [OF assms] obtain h' where
    "hm_clear (Some h) = Some h'" "hm_wf h'" "hm_lookup h' = Map.empty" "n_buckets h' = n_buckets h" by blast
  moreover have "map_of (hm_entries h) = hm_lookup h" by (simp add: hm_lookup_def)
  moreover have "length (hm_entries h) = hm_entry_count (Some h)"
    using assms by (simp add: hm_entry_count_entries)
  ultimately show ?thesis
    using assms by (simp add: hm_entries_distinct hm_entry_count_card)
qed

lemma hm_foreach_visits_once_witness:
  "hm_entry_count (Some \<lparr>n_buckets = 1, buckets = Some [[\<lparr>ll_key = ''a'', ll_count = 1\<rparr>]]\<rparr>)
    = card (dom (hm_lookup \<lparr>n_buckets = 1, buckets = Some [[\<lparr>ll_key = ''a'', ll_count = 1\<rparr>]]\<rparr>))"
  using hm_foreach_visits_once [of "\<lparr>n_buckets = 1, buckets = Some [[\<lparr>ll_key = ''a'', ll_count = 1\<rparr>]]\<rparr>"]
  by (simp add: hm_wf_def bucket_index_def lower_def ascii_tolower_def is_upper_def)

end
