(* ===== verification/Word_Count.thy ===== *)
theory Word_Count
  imports Hash_Map
begin

section \<open>Tokenising and the two wire formats (mapreduce-wordcount/wordcount.c)\<close>

text \<open>
  A table of the program is the pair of the allocator and the pointer to the hash map; the return
  value of \<open>hm_put_inc\<close> is ignored throughout this file of the source, so a step on the table is
  \<open>hm_store_put\<close>.  The fixed buffer \<open>char word[256]\<close> with its fill level \<open>word_len\<close> is the list of
  the bytes in it.
\<close>

type_synonym wc_table = "alloc \<times> HashMap option"

definition WORD_CAP :: nat where
  "WORD_CAP = 256 - 1"

text \<open>
  The tokenizer and the parser are written over any table \<open>'t\<close> with its operation \<open>put\<close>, so that the same
  code runs on the hash map of this theory and on the one in memory (\<open>Heap_Worker\<close>).
\<close>

text \<open>Appending a letter, folded to lower case, unless the buffer is full.\<close>

definition push_letter :: "string \<Rightarrow> char \<Rightarrow> string" where
  "push_letter word c = (if length word < WORD_CAP then word @ [ascii_tolower c] else word)"

subsection \<open>Tokenising\<close>

fun wc_scan :: "(string \<Rightarrow> i32 \<Rightarrow> 't \<Rightarrow> 't) \<Rightarrow> 't \<Rightarrow> string \<Rightarrow> string \<Rightarrow> 't" where
  "wc_scan put hm word [] = (if 0 < length word then put word 1 hm else hm)"
| "wc_scan put hm word (c # text) =
     (if is_alpha c then wc_scan put hm (push_letter word c) text
      else if 0 < length word then wc_scan put (put word 1 hm) [] text
      else wc_scan put hm [] text)"

definition wc_tokenize_and_count :: "wc_table \<Rightarrow> string option \<Rightarrow> wc_table" where
  "wc_tokenize_and_count hm text =
     (case (snd hm, text) of (Some _, Some t) \<Rightarrow> wc_scan hm_store_put hm [] t | _ \<Rightarrow> hm)"

subsection \<open>Writing the map and the reduce format\<close>

text \<open>
  \<open>map_format_ctx_t\<close> and \<open>reduce_format_ctx_t\<close>: the bytes written so far (\<open>pos\<close> of them), the size
  of the buffer and the overflow flag.
\<close>

record format_ctx =
  fc_buffer :: string
  fc_max_len :: nat
  fc_overflow :: bool

text \<open>
  \<open>size_t needed = key_len + count + 1\<close> converts the \<open>int\<close> to \<open>size_t\<close> (sign extension, modulo
  \<open>2^64\<close>), while the loop that writes the ones compares signed values.
\<close>

definition append_map_entry :: "string \<Rightarrow> i32 \<Rightarrow> format_ctx \<Rightarrow> format_ctx" where
  "append_map_entry key cnt mc =
     (if fc_overflow mc then mc
      else (let key_len = length key;
                needed = of_nat key_len + word_of_int (sint cnt) + (1 :: u64)
            in if of_nat (length (fc_buffer mc)) + needed > (of_nat (fc_max_len mc) :: u64)
               then mc\<lparr>fc_overflow := True\<rparr>
               else mc\<lparr>fc_buffer := fc_buffer mc @ key @ replicate (nat (sint cnt)) (CHR ''1'')\<rparr>))"

definition append_reduce_entry :: "string \<Rightarrow> i32 \<Rightarrow> format_ctx \<Rightarrow> format_ctx" where
  "append_reduce_entry key cnt rc =
     (if fc_overflow rc then rc
      else (let key_len = length key;
                count_str = int_decimal (sint cnt);
                count_len = length count_str
            in if count_len \<ge> 32 then rc\<lparr>fc_overflow := True\<rparr>
               else if length (fc_buffer rc) + (key_len + count_len + 1) > fc_max_len rc
               then rc\<lparr>fc_overflow := True\<rparr>
               else rc\<lparr>fc_buffer := fc_buffer rc @ key @ count_str\<rparr>))"

text \<open>The frame that the two writers share: allocate, run the callback, terminate.\<close>

definition wc_format ::
  "(string \<Rightarrow> i32 \<Rightarrow> format_ctx \<Rightarrow> format_ctx) \<Rightarrow> alloc \<Rightarrow> HashMap option \<Rightarrow> nat \<Rightarrow> string option \<times> alloc"
where
  "wc_format append_entry a hm msg_len =
     (let (ok, a') = malloc a in
      if msg_len \<le> 1 then (if ok then Some [] else None, a')
      else if \<not> ok then (None, a')
      else (Some (fc_buffer (hm_foreach hm (Some append_entry)
              \<lparr>fc_buffer = [], fc_max_len = msg_len, fc_overflow = False\<rparr>)), a'))"

definition wc_to_map_format :: "alloc \<Rightarrow> HashMap option \<Rightarrow> nat \<Rightarrow> string option \<times> alloc" where
  "wc_to_map_format a hm msg_len = wc_format append_map_entry a hm msg_len"

definition wc_to_reduce_format :: "alloc \<Rightarrow> HashMap option \<Rightarrow> nat \<Rightarrow> string option \<times> alloc" where
  "wc_to_reduce_format a hm msg_len = wc_format append_reduce_entry a hm msg_len"

subsection \<open>Reading the map format\<close>

datatype wc_phase = STATE_START | STATE_IN_WORD | STATE_IN_ONES

record 't wc_parser =
  wp_state :: wc_phase
  wp_word :: string
  wp_count :: i32
  wp_map :: 't

text \<open>\<open>if (word_len > 0 && count > 0) hm_put_inc(hm, word, count)\<close>.\<close>

definition wp_finalize :: "(string \<Rightarrow> i32 \<Rightarrow> 't \<Rightarrow> 't) \<Rightarrow> 't wc_parser \<Rightarrow> 't" where
  "wp_finalize put p =
     (if 0 < length (wp_word p) \<and> 0 < sint (wp_count p)
      then put (wp_word p) (wp_count p) (wp_map p) else wp_map p)"

definition wc_parse_step :: "(string \<Rightarrow> i32 \<Rightarrow> 't \<Rightarrow> 't) \<Rightarrow> 't wc_parser \<Rightarrow> char \<Rightarrow> 't wc_parser" where
  "wc_parse_step put p c =
     (case wp_state p of
        STATE_START \<Rightarrow>
          (if is_alpha c then p\<lparr>wp_word := push_letter [] c, wp_state := STATE_IN_WORD\<rparr> else p)
      | STATE_IN_WORD \<Rightarrow>
          (if is_alpha c then p\<lparr>wp_word := push_letter (wp_word p) c\<rparr>
           else if c = CHR ''1'' then p\<lparr>wp_count := 1, wp_state := STATE_IN_ONES\<rparr>
           else p\<lparr>wp_state := STATE_START, wp_word := []\<rparr>)
      | STATE_IN_ONES \<Rightarrow>
          (if c = CHR ''1'' then p\<lparr>wp_count := wp_count p + 1\<rparr>
           else if is_alpha c then
             p\<lparr>wp_map := wp_finalize put p, wp_word := push_letter [] c, wp_state := STATE_IN_WORD,
               wp_count := 0\<rparr>
           else p\<lparr>wp_map := wp_finalize put p, wp_state := STATE_START, wp_word := [], wp_count := 0\<rparr>))"

definition wp_end :: "(string \<Rightarrow> i32 \<Rightarrow> 't \<Rightarrow> 't) \<Rightarrow> 't wc_parser \<Rightarrow> 't" where
  "wp_end put p = (if wp_state p = STATE_IN_ONES then wp_finalize put p else wp_map p)"

definition wc_from_map_format :: "alloc \<Rightarrow> string option \<Rightarrow> wc_table" where
  "wc_from_map_format a payload =
     (let (hm, a') = hm_create a 1024 in
      case (hm, payload) of
        (None, _) \<Rightarrow> (a', None)
      | (_, None) \<Rightarrow> (a', hm)
      | (_, Some text) \<Rightarrow>
          wp_end hm_store_put (fold (\<lambda>c p. wc_parse_step hm_store_put p c) text
            \<lparr>wp_state = STATE_START, wp_word = [], wp_count = 0, wp_map = (a', hm)\<rparr>))"

subsection \<open>The words of a text\<close>

text \<open>
  The specification of a word is that of wordcount.h: a maximal run of ASCII letters, in lower case
  (\<open>words_of\<close>).  The code departs from it: it counts a word of more than 255 letters as its first 255
  letters (\<open>counted_words\<close>).
\<close>

function letter_runs :: "string \<Rightarrow> string list" where
  "letter_runs text =
     (case dropWhile (\<lambda>c. \<not> is_alpha c) text of
        [] \<Rightarrow> []
      | c # rest \<Rightarrow> (c # takeWhile is_alpha rest) # letter_runs (dropWhile is_alpha rest))"
  by pat_completeness auto
termination
proof (relation "measure length", simp, goal_cases)
  case (1 s c rest)
  have "length (dropWhile is_alpha rest) \<le> length rest" by (rule length_dropWhile_le)
  also have "\<dots> < length (dropWhile (\<lambda>c. \<not> is_alpha c) s)" using 1 by simp
  also have "\<dots> \<le> length s" by (rule length_dropWhile_le)
  finally show ?case by simp
qed

declare letter_runs.simps [simp del]

definition words_of :: "string \<Rightarrow> string list" where
  "words_of text = map lower (letter_runs text)"

definition counted_words :: "string \<Rightarrow> string list" where
  "counted_words text = map (take WORD_CAP) (words_of text)"

definition word_counts :: "string list \<Rightarrow> string \<rightharpoonup> i32" where
  "word_counts ws w = (let n = count_list ws w in if n = 0 then None else Some (of_nat n))"

lemma counted_words_alt: "counted_words text = map (\<lambda>w. take WORD_CAP (lower w)) (letter_runs text)"
  by (simp add: counted_words_def words_of_def comp_def)

lemma letter_runs_Nil [simp]: "letter_runs [] = []"
  by (simp add: letter_runs.simps [of "[]"])

lemma letter_runs_skip: "\<not> is_alpha c \<Longrightarrow> letter_runs (c # s) = letter_runs s"
  by (simp add: letter_runs.simps [of "c # s"] letter_runs.simps [of s])

lemma letter_runs_word:
  assumes "list_all is_alpha w" and "w \<noteq> []" and "s = [] \<or> \<not> is_alpha (hd s)"
  shows "letter_runs (w @ s) = w # letter_runs s"
proof -
  obtain c v where w: "w = c # v" using assms(2) by (cases w) auto
  with assms(1) have c: "is_alpha c" and v: "list_all is_alpha v" by auto
  have "takeWhile is_alpha s = []" and "dropWhile is_alpha s = s" using assms(3) by (cases s; auto)+
  then show ?thesis
    using c by (simp add: letter_runs.simps [of "c # v @ s"] w takeWhile_append_all [OF v]
        dropWhile_append_all [OF v])
qed

text \<open>The same runs, read letter by letter behind a pending word.\<close>

fun runs_after :: "string \<Rightarrow> string \<Rightarrow> string list" where
  "runs_after w [] = (if w = [] then [] else [w])"
| "runs_after w (c # s) =
     (if is_alpha c then runs_after (w @ [c]) s
      else (if w = [] then [] else [w]) @ runs_after [] s)"

lemma runs_after_eq: "list_all is_alpha w \<Longrightarrow> runs_after w s = letter_runs (w @ s)"
proof (induction s arbitrary: w)
  case Nil
  then show ?case using letter_runs_word [of w "[]"] by auto
next
  case (Cons c s)
  show ?case
  proof (cases "is_alpha c")
    case True
    with Cons show ?thesis by simp
  next
    case False
    with Cons.IH [of "[]"] have "runs_after [] s = letter_runs (c # s)"
      by (simp add: letter_runs_skip)
    with False Cons.prems letter_runs_word [of w "c # s"] show ?thesis by auto
  qed
qed

lemma letter_runs_after: "letter_runs s = runs_after [] s"
  by (simp add: runs_after_eq)

lemma runs_after_append:
  "t = [] \<or> \<not> is_alpha (hd t) \<Longrightarrow> runs_after w (s @ t) = runs_after w s @ runs_after [] t"
  by (induction s arbitrary: w) (cases t; auto)+

text \<open>Cutting a text next to a non-letter cuts no word.\<close>

lemma letter_runs_append:
  assumes "s = [] \<or> t = [] \<or> \<not> is_alpha (last s) \<or> \<not> is_alpha (hd t)"
  shows "letter_runs (s @ t) = letter_runs s @ letter_runs t"
proof (cases "t = [] \<or> \<not> is_alpha (hd t)")
  case True
  then show ?thesis by (simp add: letter_runs_after runs_after_append)
next
  case False
  show ?thesis
  proof (cases s rule: rev_cases)
    case (snoc r c)
    with False assms have c: "\<not> is_alpha c" by auto
    with snoc show ?thesis
      by (simp add: letter_runs_after runs_after_append [of "c # t"] runs_after_append [of "[c]"])
  qed simp
qed

lemma words_of_append:
  "s = [] \<or> t = [] \<or> \<not> is_alpha (last s) \<or> \<not> is_alpha (hd t) \<Longrightarrow>
    words_of (s @ t) = words_of s @ words_of t"
  by (simp add: words_of_def letter_runs_append)

lemma counted_words_append:
  "s = [] \<or> t = [] \<or> \<not> is_alpha (last s) \<or> \<not> is_alpha (hd t) \<Longrightarrow>
    counted_words (s @ t) = counted_words s @ counted_words t"
  by (simp add: counted_words_def words_of_append)

lemma runs_after_alpha:
  "list_all is_alpha w \<Longrightarrow> \<forall>v \<in> set (runs_after w s). v \<noteq> [] \<and> list_all is_alpha v"
proof (induction s arbitrary: w)
  case (Cons c s)
  from Cons.IH [of "w @ [c]"] Cons.IH [of "[]"] Cons.prems show ?case by simp
qed simp

lemma letter_runs_alpha: "v \<in> set (letter_runs s) \<Longrightarrow> v \<noteq> [] \<and> list_all is_alpha v"
  using runs_after_alpha [of "[]" s] by (simp add: letter_runs_after)

lemma sum_runs_after:
  "sum_list (map (\<lambda>v. Suc (length v)) (runs_after w s)) \<le> length w + length s + 1"
proof (induction s arbitrary: w)
  case (Cons c s)
  from Cons.IH [of "w @ [c]"] Cons.IH [of "[]"] show ?case by auto
qed simp

text \<open>The two agree on texts without a word of more than 255 letters, and on no others.\<close>

lemma counted_words_short:
  "counted_words s = words_of s \<longleftrightarrow> (\<forall>w \<in> set (words_of s). length w \<le> WORD_CAP)"
proof -
  have "map (take n) ws = ws \<longleftrightarrow> (\<forall>w \<in> set ws. length w \<le> n)" for n and ws :: "string list"
    by (induction ws) (auto simp: list_eq_iff_nth_eq [of "take n _"])
  then show ?thesis by (simp add: counted_words_def)
qed

lemma words_of_letters: "list_all is_alpha w \<Longrightarrow> w \<noteq> [] \<Longrightarrow> words_of w = [lower w]"
  using letter_runs_word [of w "[]"] by (simp add: words_of_def)

text \<open>A word of at least 255 letters and the same word with a letter more are counted as one word.\<close>

lemma long_words_are_merged:
  assumes "list_all is_alpha w" and "is_alpha c" and "WORD_CAP \<le> length w"
  shows "counted_words (w @ [c]) = counted_words w" and "words_of (w @ [c]) \<noteq> words_of w"
proof -
  have "w \<noteq> []" using assms(3) by (auto simp: WORD_CAP_def)
  then have "words_of w = [lower w]" and "words_of (w @ [c]) = [lower (w @ [c])]"
    using assms by (simp_all add: words_of_letters)
  then show "counted_words (w @ [c]) = counted_words w" and "words_of (w @ [c]) \<noteq> words_of w"
    using assms(3) by (auto simp: counted_words_def lower_Cons dest: arg_cong [where f = length])
qed

subsection \<open>Well-formed words\<close>

definition valid_word :: "string \<Rightarrow> bool" where
  "valid_word w \<longleftrightarrow> w \<noteq> [] \<and> list_all is_alpha w \<and> lower w = w \<and> length w \<le> WORD_CAP"

lemma valid_counted_words: "w \<in> set (counted_words s) \<Longrightarrow> valid_word w"
proof -
  assume "w \<in> set (counted_words s)"
  then obtain v where v: "v \<in> set (letter_runs s)" and w: "w = take WORD_CAP (lower v)"
    by (auto simp: counted_words_alt)
  from letter_runs_alpha [OF v] have "v \<noteq> []" and "list_all is_alpha (lower v)" by simp_all
  then show ?thesis using w
    by (auto simp: valid_word_def WORD_CAP_def lower_take list_all_iff dest: in_set_takeD)
qed

lemma sum_counted_words: "sum_list (map (\<lambda>w. Suc (length w)) (counted_words s)) \<le> length s + 1"
proof -
  have "sum_list (map (\<lambda>w. Suc (length w)) (counted_words s))
      \<le> sum_list (map (\<lambda>w. Suc (length w)) (letter_runs s))"
    by (auto simp: counted_words_alt comp_def intro: sum_list_mono)
  with sum_runs_after [of "[]" s] show ?thesis by (simp add: letter_runs_after)
qed

subsection \<open>The tokeniser counts the words\<close>

abbreviation ones :: "string list \<Rightarrow> (string \<times> i32) list" where
  "ones ws \<equiv> map (\<lambda>w. (w, 1)) ws"

lemma push_letter_take:
  "push_letter (take WORD_CAP (lower w)) c = take WORD_CAP (lower (w @ [c]))"
  by (auto simp: push_letter_def lower_Cons not_less)

lemma wc_scan_runs:
  "wc_scan hm_store_put hm (take WORD_CAP (lower w)) s =
     hm.put_all (ones (map (\<lambda>v. take WORD_CAP (lower v)) (runs_after w s))) hm"
proof (induction s arbitrary: hm w)
  case Nil
  then show ?case by (auto simp: WORD_CAP_def)
next
  case (Cons c s)
  show ?case
  proof (cases "is_alpha c")
    case True
    with Cons.IH [of hm "w @ [c]"] show ?thesis by (simp add: push_letter_take)
  next
    case False
    with Cons.IH [of _ "[]"] show ?thesis by (auto simp: WORD_CAP_def)
  qed
qed

lemma wc_tokenize_put_all:
  "wc_tokenize_and_count (a, Some h) (Some s) = hm.put_all (ones (counted_words s)) (a, Some h)"
  using wc_scan_runs [of "(a, Some h)" "[]" s]
  by (simp add: wc_tokenize_and_count_def counted_words_alt letter_runs_after)

lemma tally_ones_words:
  assumes "\<forall>w \<in> set ws. lower w = w"
  shows "tally (ones ws) Map.empty = word_counts ws"
proof
  fix w
  from assms have "length (filter (\<lambda>v. lower v = w) ws) = count_list ws w"
    by (induction ws) auto
  then show "tally (ones ws) Map.empty w = word_counts ws w"
    by (simp add: tally_ones word_counts_def Let_def)
qed

lemma tokenize_lookup:
  assumes "hm_store_ok t" and "hm_view t = Map.empty"
  shows "hm_store_ok (hm.put_all (ones (counted_words s)) t) \<and>
    hm_view (hm.put_all (ones (counted_words s)) t) = word_counts (counted_words s)"
  using assms valid_counted_words [of _ s]
  by (simp add: hm.put_all_invar hm.put_all_lookup tally_ones_words valid_word_def)

subsection \<open>Both writers emit a prefix of the entries, each whole\<close>

definition map_entry :: "string \<times> i32 \<Rightarrow> string" where
  "map_entry e = fst e @ replicate (unat (snd e)) (CHR ''1'')"

definition reduce_entry :: "string \<times> i32 \<Rightarrow> string" where
  "reduce_entry e = fst e @ decimal (unat (snd e))"

definition valid_entry :: "string \<times> i32 \<Rightarrow> bool" where
  "valid_entry e \<longleftrightarrow> valid_word (fst e) \<and> 0 < unat (snd e) \<and> unat (snd e) < 2 ^ 31"

definition emit :: "string \<Rightarrow> format_ctx \<Rightarrow> format_ctx" where
  "emit s ctx =
     (if fc_overflow ctx then ctx
      else if fc_max_len ctx < length (fc_buffer ctx) + length s + 1 then ctx\<lparr>fc_overflow := True\<rparr>
      else ctx\<lparr>fc_buffer := fc_buffer ctx @ s\<rparr>)"

lemma sint_small:
  assumes "unat (c :: i32) < 2 ^ 31" shows "sint c = int (unat c)"
proof -
  from assms have "int (unat c) < int (2 ^ 31)" by (simp only: of_nat_less_iff)
  then have "uint c < 2 ^ 31" by simp
  moreover have "- (2 ^ 31) \<le> uint c" by (rule order_trans [of _ 0]) simp_all
  ultimately have "signed_take_bit 31 (uint c) = uint c" by (intro signed_take_bit_int_eq_self)
  then show ?thesis by (simp add: sint_uint)
qed

lemma append_map_entry_emit:
  assumes "valid_entry e" and "length (fc_buffer ctx) \<le> 2 ^ 62" and "fc_max_len ctx \<le> 2 ^ 62"
  shows "append_map_entry (fst e) (snd e) ctx = emit (map_entry e) ctx"
proof -
  let ?n = "unat (snd e)" and ?p = "length (fc_buffer ctx)" and ?k = "length (fst e)"
  from assms(1) have n: "?n < 2 ^ 31" and k: "?k \<le> 255"
    by (simp_all add: valid_entry_def valid_word_def WORD_CAP_def)
  have "(of_nat ?p + (of_nat ?k + word_of_int (int ?n) + 1) :: u64) = of_nat (?p + ?k + ?n + 1)"
    by simp
  moreover have "?p + ?k + ?n + 1 < 2 ^ 64" and "fc_max_len ctx < 2 ^ 64"
    using assms(2,3) n k by simp_all
  ultimately have "(of_nat (fc_max_len ctx) < (of_nat ?p + (of_nat ?k + word_of_int (int ?n) + 1) :: u64))
      = (fc_max_len ctx < ?p + ?k + ?n + 1)"
    by (simp only: word_of_nat_less_iff) (simp add: take_bit_nat_eq_self)
  with n show ?thesis
    by (simp add: append_map_entry_def emit_def map_entry_def sint_small Let_def add.assoc)
qed

lemma length_decimal_31: "n < 2 ^ 31 \<Longrightarrow> length (decimal n) < 32"
proof -
  have "n < 10 ^ k \<Longrightarrow> 0 < k \<Longrightarrow> length (decimal n) \<le> k" for k n
  proof (induction k arbitrary: n)
    case (Suc k)
    show ?case
    proof (cases "n < 10")
      case True
      then show ?thesis by (simp add: decimal.simps [of n])
    next
      case False
      with Suc.prems have "n div 10 < 10 ^ k" by auto
      moreover from this False have "0 < k" by (cases k) auto
      ultimately show ?thesis using Suc.IH [of "n div 10"] False
        by (simp add: decimal.simps [of n])
    qed
  qed simp
  from this [of n 31] show "n < 2 ^ 31 \<Longrightarrow> length (decimal n) < 32" by simp
qed

lemma append_reduce_entry_emit:
  assumes "valid_entry e"
  shows "append_reduce_entry (fst e) (snd e) ctx = emit (reduce_entry e) ctx"
  using assms length_decimal_31 [of "unat (snd e)"]
  by (auto simp: append_reduce_entry_def emit_def reduce_entry_def valid_entry_def sint_small
      int_decimal_def Let_def add.assoc)

lemma emit_fit:
  "\<not> fc_overflow ctx \<Longrightarrow> length (fc_buffer ctx) + length s < fc_max_len ctx \<Longrightarrow>
    emit s ctx = ctx\<lparr>fc_buffer := fc_buffer ctx @ s\<rparr>"
  by (simp add: emit_def)

lemma emit_no_fit:
  "\<not> fc_overflow ctx \<Longrightarrow> \<not> length (fc_buffer ctx) + length s < fc_max_len ctx \<Longrightarrow>
    emit s ctx = ctx\<lparr>fc_overflow := True\<rparr>"
  by (simp add: emit_def)

lemma emit_overflow: "fc_overflow ctx \<Longrightarrow> fold (\<lambda>e. emit (f e)) es ctx = ctx"
  by (induction es) (auto simp: emit_def)

text \<open>
  In general the output is the longest prefix of whole entries that fits: the first entry that
  does not fit ends it.
\<close>

fun fitting :: "('e \<Rightarrow> string) \<Rightarrow> nat \<Rightarrow> 'e list \<Rightarrow> 'e list" where
  "fitting f room [] = []"
| "fitting f room (e # es) =
     (if length (f e) < room then e # fitting f (room - length (f e)) es else [])"

lemma emit_prefix:
  assumes "\<not> fc_overflow ctx" and "length (fc_buffer ctx) < fc_max_len ctx"
  shows "fc_buffer (fold (\<lambda>e. emit (f e)) es ctx) =
    fc_buffer ctx @ concat (map f (fitting f (fc_max_len ctx - length (fc_buffer ctx)) es))"
  using assms
proof (induction es arbitrary: ctx)
  case (Cons e es)
  show ?case
  proof (cases "length (f e) < fc_max_len ctx - length (fc_buffer ctx)")
    case True
    with Cons.prems Cons.IH [of "ctx\<lparr>fc_buffer := fc_buffer ctx @ f e\<rparr>"] show ?thesis
      by (simp add: emit_fit)
  next
    case False
    with Cons.prems show ?thesis by (simp add: emit_no_fit emit_overflow)
  qed
qed simp

lemma fitting_prefix: "\<exists>k. fitting f room es = take k es"
proof (induction es arbitrary: room)
  case (Cons e es)
  from Cons.IH [of "room - length (f e)"] obtain k where
    k: "fitting f (room - length (f e)) es = take k es" ..
  show ?case
    by (rule exI [of _ "if length (f e) < room then Suc k else 0"]) (simp add: k)
qed simp

lemma fitting_all: "length (concat (map f es)) < room \<Longrightarrow> fitting f room es = es"
  by (induction es arbitrary: room) auto

lemma length_fitting: "0 < room \<Longrightarrow> length (concat (map f (fitting f room es))) < room"
proof (induction es arbitrary: room)
  case (Cons e es)
  have "length (f e) < room \<Longrightarrow>
      length (concat (map f (fitting f (room - length (f e)) es))) < room - length (f e)"
    by (rule Cons.IH) simp
  with Cons.prems show ?case by auto
qed simp

lemma fitting_maximal:
  assumes "0 < room"
  shows "\<exists>k. fitting f room es = take k es \<and> length (concat (map f (take k es))) < room
    \<and> (length es \<le> k \<or> room \<le> length (concat (map f (take (Suc k) es))))"
  using assms
proof (induction es arbitrary: room)
  case (Cons e es)
  show ?case
  proof (cases "length (f e) < room")
    case True
    with Cons.IH [of "room - length (f e)"] obtain k where
      "fitting f (room - length (f e)) es = take k es"
      "length (concat (map f (take k es))) < room - length (f e)"
      "length es \<le> k \<or> room - length (f e) \<le> length (concat (map f (take (Suc k) es)))" by auto
    with True show ?thesis by (intro exI [of _ "Suc k"]) auto
  next
    case False
    with Cons.prems show ?thesis by (intro exI [of _ 0]) simp
  qed
qed simp

definition valid_table :: "HashMap \<Rightarrow> bool" where
  "valid_table h \<longleftrightarrow> hm_wf h \<and> (\<forall>e \<in> set (hm_entries h). valid_entry e)"

lemma fold_emit_map:
  assumes "\<forall>e \<in> set es. valid_entry e" and "length (fc_buffer ctx) \<le> 2 ^ 62"
    and "fc_max_len ctx \<le> 2 ^ 62"
  shows "fold (\<lambda>e. append_map_entry (fst e) (snd e)) es ctx = fold (\<lambda>e. emit (map_entry e)) es ctx"
  using assms
proof (induction es arbitrary: ctx)
  case (Cons e es)
  have "length (fc_buffer (emit (map_entry e) ctx)) \<le> 2 ^ 62"
    and "fc_max_len (emit (map_entry e) ctx) \<le> 2 ^ 62"
    using Cons.prems by (auto simp: emit_def)
  with Cons show ?case by (simp add: append_map_entry_emit)
qed simp

lemma fold_emit_reduce:
  "\<forall>e \<in> set es. valid_entry e \<Longrightarrow>
   fold (\<lambda>e. append_reduce_entry (fst e) (snd e)) es ctx = fold (\<lambda>e. emit (reduce_entry e)) es ctx"
  by (induction es arbitrary: ctx) (auto simp: append_reduce_entry_emit)

lemma wc_to_map_format_valid:
  assumes "plenty a" and "valid_table h" and "1 < n" and "n \<le> 2 ^ 62"
  shows "wc_to_map_format a (Some h) n =
    (Some (concat (map map_entry (fitting map_entry n (hm_entries h)))), tl a)"
  using assms
  by (simp add: wc_to_map_format_def wc_format_def valid_table_def hm_foreach_entries fold_emit_map
      emit_prefix)

lemma wc_to_reduce_format_valid:
  assumes "plenty a" and "valid_table h" and "1 < n"
  shows "wc_to_reduce_format a (Some h) n =
    (Some (concat (map reduce_entry (fitting reduce_entry n (hm_entries h)))), tl a)"
  using assms
  by (simp add: wc_to_reduce_format_def wc_format_def valid_table_def hm_foreach_entries
      fold_emit_reduce emit_prefix)

subsection \<open>Reading back what was written\<close>

text \<open>
  A payload is read entry by entry: behind \<open>flushed p\<close>, the table once the pending entry of the
  parser is stored, each entry \<open>word, 1, ..., 1\<close> is one \<open>hm_store_put\<close>.
\<close>

definition flushed :: "wc_table wc_parser \<Rightarrow> wc_table" where
  "flushed p = (if wp_state p = STATE_IN_ONES then wp_finalize hm_store_put p else wp_map p)"

abbreviation wc_parse :: "string \<Rightarrow> wc_table wc_parser \<Rightarrow> wc_table wc_parser" where
  "wc_parse \<equiv> fold (\<lambda>c p. wc_parse_step hm_store_put p c)"

lemma parse_letters:
  assumes "wp_state p = STATE_IN_WORD" and "list_all is_alpha w" and "lower w = w"
    and "length (wp_word p) + length w \<le> WORD_CAP"
  shows "wc_parse w p = p\<lparr>wp_word := wp_word p @ w\<rparr>"
  using assms
proof (induction w arbitrary: p)
  case (Cons c w)
  from Cons.prems(3) have c: "ascii_tolower c = c" "lower w = w" by (simp_all add: lower_Cons)
  from Cons.prems have "wc_parse_step hm_store_put p c = p\<lparr>wp_word := wp_word p @ [c]\<rparr>"
    by (simp add: wc_parse_step_def push_letter_def c)
  with Cons.IH [of "p\<lparr>wp_word := wp_word p @ [c]\<rparr>"] Cons.prems c show ?case by simp
qed simp

lemma parse_ones:
  assumes "wp_state p = STATE_IN_ONES"
  shows "wc_parse (replicate n (CHR ''1'')) p = p\<lparr>wp_count := wp_count p + of_nat n\<rparr>"
  using assms
proof (induction n arbitrary: p)
  case (Suc n)
  from Suc.prems have "wc_parse_step hm_store_put p (CHR ''1'') = p\<lparr>wp_count := wp_count p + 1\<rparr>"
    by (simp add: wc_parse_step_def)
  with Suc.IH [of "p\<lparr>wp_count := wp_count p + 1\<rparr>"] Suc.prems show ?case
    by (simp add: add.assoc)
qed simp

lemma parse_first_letter:
  assumes "is_alpha c" and "ascii_tolower c = c" and "wp_state p \<noteq> STATE_IN_WORD"
  shows "\<exists>n. wc_parse_step hm_store_put p c =
    p\<lparr>wp_state := STATE_IN_WORD, wp_word := [c], wp_map := flushed p, wp_count := n\<rparr>"
proof (cases "wp_state p")
  case STATE_START
  with assms show ?thesis
    by (intro exI [of _ "wp_count p"])
      (simp add: wc_parse_step_def push_letter_def WORD_CAP_def flushed_def)
next
  case STATE_IN_ONES
  with assms show ?thesis
    by (intro exI [of _ 0]) (auto simp: wc_parse_step_def push_letter_def WORD_CAP_def flushed_def)
next
  case STATE_IN_WORD
  with assms show ?thesis by simp
qed

lemma parse_entry:
  assumes "valid_entry e" and "wp_state p \<noteq> STATE_IN_WORD"
  shows "wp_state (wc_parse (map_entry e) p) = STATE_IN_ONES
    \<and> flushed (wc_parse (map_entry e) p) = hm_store_put (fst e) (snd e) (flushed p)"
proof -
  obtain w c where e: "e = (w, c)" by (cases e)
  from assms(1) e have w: "w \<noteq> []" "list_all is_alpha w" "lower w = w" "length w \<le> WORD_CAP"
    and c: "0 < unat c" "unat c < 2 ^ 31" by (simp_all add: valid_entry_def valid_word_def)
  obtain x v where v: "w = x # v" using w(1) by (cases w) auto
  with w have x: "is_alpha x" "ascii_tolower x = x" by (simp_all add: lower_Cons)
  obtain n where n: "unat c = Suc n" using c(1) by (cases "unat c") auto
  from parse_first_letter [OF x assms(2)] obtain k where
    step: "wc_parse_step hm_store_put p x =
      p\<lparr>wp_state := STATE_IN_WORD, wp_word := [x], wp_map := flushed p, wp_count := k\<rparr>" ..
  let ?q = "p\<lparr>wp_state := STATE_IN_WORD, wp_word := [x], wp_map := flushed p, wp_count := k\<rparr>"
  have "wc_parse w p = ?q\<lparr>wp_word := w\<rparr>"
    using parse_letters [of ?q v] w v by (simp add: step lower_Cons)
  moreover have "wc_parse_step hm_store_put (?q\<lparr>wp_word := w\<rparr>) (CHR ''1'')
      = ?q\<lparr>wp_word := w, wp_count := 1, wp_state := STATE_IN_ONES\<rparr>"
    by (simp add: wc_parse_step_def)
  moreover have "1 + of_nat n = c"
  proof -
    have "of_nat (unat c) = c" by simp
    then show ?thesis by (simp add: n)
  qed
  ultimately have "wc_parse (map_entry e) p
      = ?q\<lparr>wp_word := w, wp_count := c, wp_state := STATE_IN_ONES\<rparr>"
    using parse_ones [of "?q\<lparr>wp_word := w, wp_count := 1, wp_state := STATE_IN_ONES\<rparr>" n]
    by (simp add: e map_entry_def n)
  moreover have "0 < sint c"
    using c(1) by (simp only: sint_small [OF c(2)] of_nat_0_less_iff)
  ultimately show ?thesis using w(1) by (simp add: flushed_def wp_finalize_def e)
qed

lemma parse_entries:
  assumes "\<forall>e \<in> set es. valid_entry e" and "wp_state p \<noteq> STATE_IN_WORD"
  shows "wp_state (wc_parse (concat (map map_entry es)) p) \<noteq> STATE_IN_WORD
    \<and> flushed (wc_parse (concat (map map_entry es)) p) = hm.put_all es (flushed p)"
  using assms
proof (induction es arbitrary: p)
  case (Cons e es)
  from Cons.prems parse_entry [of e p] have
    "wp_state (wc_parse (map_entry e) p) = STATE_IN_ONES"
    "flushed (wc_parse (map_entry e) p) = hm_store_put (fst e) (snd e) (flushed p)" by auto
  with Cons.IH [of "wc_parse (map_entry e) p"] Cons.prems show ?case by simp
qed simp

lemma wc_from_map_format_entries:
  assumes "hm_create a 1024 = (Some h, a')" and "\<forall>e \<in> set es. valid_entry e"
  shows "wc_from_map_format a (Some (concat (map map_entry es))) = hm.put_all es (a', Some h)"
  using assms(1) parse_entries [OF assms(2), of "\<lparr>wp_state = STATE_START, wp_word = [],
    wp_count = 0, wp_map = (a', Some h)\<rparr>"]
  by (simp add: wc_from_map_format_def wp_end_def flushed_def)

subsection \<open>The size of a table\<close>

text \<open>
  \<open>weight\<close> of a finite table: the length of its map format.  Adding an event adds at most the
  letters of its word and its count, so the format of a table is never longer than the list of
  events it was built from.
\<close>

definition weight :: "(string \<rightharpoonup> i32) \<Rightarrow> nat" where
  "weight m = (\<Sum>k \<in> dom m. length k + unat (the (m k)))"

lemma unat_add_le: "unat (a + b :: i32) \<le> unat a + unat b"
  by (simp add: unat_word_ariths)

lemma weight_tally1:
  assumes "finite (dom m)"
  shows "weight (tally1 (w, d) m) \<le> weight m + length w + unat d"
proof (cases "m (lower w)")
  case None
  then have "lower w \<notin> dom m" by auto
  moreover have "(\<Sum>k \<in> dom m. length k + unat (the ((m(lower w \<mapsto> d)) k))) = weight m"
    unfolding weight_def using calculation by (intro sum.cong) auto
  ultimately show ?thesis using assms None by (simp add: tally1_def weight_def)
next
  case (Some c)
  then have mem: "lower w \<in> dom m" by auto
  have rest: "(\<Sum>k \<in> dom m - {lower w}. length k + unat (the ((m(lower w \<mapsto> c + d)) k)))
      = (\<Sum>k \<in> dom m - {lower w}. length k + unat (the (m k)))"
    by (intro sum.cong) auto
  have "weight (tally1 (w, d) m) = length (lower w) + unat (c + d)
      + (\<Sum>k \<in> dom m - {lower w}. length k + unat (the (m k)))"
    using assms mem rest Some by (simp add: tally1_def weight_def insert_absorb sum.remove)
  also have "\<dots> \<le> weight m + unat d"
    using assms mem Some unat_add_le [of c d] by (simp add: weight_def sum.remove [of _ "lower w"])
  finally show ?thesis by simp
qed

lemma finite_dom_tally: "finite (dom m) \<Longrightarrow> finite (dom (tally es m))"
  by (induction es arbitrary: m) (auto simp: tally_Cons tally1_def)

lemma weight_tally:
  assumes "finite (dom m)"
  shows "weight (tally es m) \<le> weight m + sum_list (map (\<lambda>e. length (fst e) + unat (snd e)) es)"
  using assms
proof (induction es arbitrary: m)
  case (Cons e es)
  have "finite (dom (tally1 e m))" using Cons.prems by (simp add: tally1_def)
  with Cons.IH [of "tally1 e m"] weight_tally1 [OF Cons.prems, of "fst e" "snd e"] show ?case
    by (simp add: tally_Cons)
qed simp

lemma weight_empty [simp]: "weight Map.empty = 0"
  by (simp add: weight_def)

lemma weight_new: "finite (dom m) \<Longrightarrow> m w = None \<Longrightarrow> weight (m(w \<mapsto> c)) = length w + unat c + weight m"
proof -
  assume fin: "finite (dom m)" and "m w = None"
  then have w: "w \<notin> dom m" by auto
  then have "(\<Sum>k \<in> dom m. length k + unat (the ((m(w \<mapsto> c)) k))) = weight m"
    unfolding weight_def by (intro sum.cong) auto
  with fin w show ?thesis by (simp add: weight_def)
qed

lemma length_map_entry: "length (map_entry e) = length (fst e) + unat (snd e)"
  by (simp add: map_entry_def)

lemma length_map_entries:
  assumes "distinct (map fst es)"
  shows "length (concat (map map_entry es)) = weight (map_of es)"
  using assms
proof (induction es)
  case (Cons e es)
  obtain w c where e: "e = (w, c)" by (cases e)
  with Cons.prems have "map_of es w = None" by (simp add: map_of_eq_None_iff)
  then have "weight (map_of (e # es)) = length w + unat c + weight (map_of es)"
    unfolding e map_of.simps fst_conv snd_conv by (intro weight_new finite_dom_map_of)
  moreover have "length (concat (map map_entry (e # es))) = length w + unat c + weight (map_of es)"
    using Cons e by (simp add: length_map_entry)
  ultimately show ?case by (simp only:)
qed simp

lemma length_reduce_le_map:
  "\<forall>e \<in> set es. 0 < unat (snd e) \<Longrightarrow>
   length (concat (map reduce_entry es)) \<le> length (concat (map map_entry es))"
  by (induction es) (auto simp: reduce_entry_def map_entry_def length_decimal_le add_mono)

text \<open>A table built from few valid events is valid, and its map format is no longer than they are.\<close>

abbreviation events_size :: "(string \<times> i32) list \<Rightarrow> nat" where
  "events_size es \<equiv> sum_list (map (\<lambda>e. length (fst e) + unat (snd e)) es)"

lemma unat_sum_list:
  "sum_list (map unat xs) < 2 ^ 32 \<Longrightarrow> unat (sum_list (xs :: i32 list)) = sum_list (map unat xs)"
proof (induction xs)
  case (Cons x xs)
  then have "unat x + sum_list (map unat xs) < 2 ^ 32" by simp
  with Cons.IH show ?case by (simp add: unat_word_ariths)
qed simp

lemma sum_hits_le: "sum_list (map unat (hits es k)) \<le> events_size es"
  by (induction es) (auto simp: hits_def)

lemma tally_valid_entry:
  assumes "\<forall>e \<in> set es. valid_entry e" and "events_size es < 2 ^ 31"
    and "tally es Map.empty k = Some c"
  shows "valid_entry (k, c) \<and> unat c = sum_list (map unat (hits es k))"
proof -
  from assms(3) have hits: "hits es k \<noteq> []" and c: "c = sum_list (hits es k)"
    by (simp_all add: tally_empty_apply split: if_splits)
  have small: "sum_list (map unat (hits es k)) < 2 ^ 31"
    using sum_hits_le [of es k] assms(2) by simp
  then have unat_c: "unat c = sum_list (map unat (hits es k))" by (simp add: c unat_sum_list)
  from hits obtain e where e: "e \<in> set es" "lower (fst e) = k" by (auto simp: hits_def filter_empty_conv)
  with assms(1) have "valid_word k" and "0 < unat (snd e)"
    by (auto simp: valid_entry_def valid_word_def)
  moreover from e have "unat (snd e) \<in> set (map unat (hits es k))" by (auto simp: hits_def)
  then have "unat (snd e) \<le> sum_list (map unat (hits es k))" by (intro member_le_sum_list) simp_all
  ultimately show ?thesis using small unat_c by (simp add: valid_entry_def)
qed

lemma put_all_valid_table:
  assumes "hm_store_ok s" and "hm_view s = Map.empty"
    and "\<forall>e \<in> set es. valid_entry e" and "events_size es < 2 ^ 31"
  shows "\<exists>a' h'. hm.put_all es s = (a', Some h') \<and> plenty a' \<and> valid_table h'
    \<and> hm_lookup h' = tally es Map.empty
    \<and> length (concat (map map_entry (hm_entries h'))) \<le> events_size es"
proof -
  obtain a' t where t: "hm.put_all es s = (a', t)" by (cases "hm.put_all es s")
  from hm.put_all_invar [OF assms(1), of es] t obtain h' where
    h': "t = Some h'" "plenty a'" "hm_wf h'" by (auto simp: hm_store_ok_def split: option.splits)
  from hm.put_all_lookup [OF assms(1), of es] assms(2) t h' have
    look: "hm_lookup h' = tally es Map.empty" by (simp add: hm_view_def)
  have distinct: "distinct (map fst (hm_entries h'))" using h'(3) by (rule hm_entries_distinct)
  have "valid_entry e" if "e \<in> set (hm_entries h')" for e
  proof -
    from that distinct look have "tally es Map.empty (fst e) = Some (snd e)"
      by (metis hm_lookup_def map_of_eq_Some_iff prod.collapse)
    from tally_valid_entry [OF assms(3,4) this] show ?thesis by simp
  qed
  moreover have "length (concat (map map_entry (hm_entries h'))) \<le> events_size es"
    using length_map_entries [OF distinct] weight_tally [of Map.empty es]
    by (simp flip: hm_lookup_def add: look)
  ultimately show ?thesis using t h' look by (auto simp: valid_table_def)
qed

subsection \<open>The two jobs of a worker\<close>

text \<open>A request is answered in full whenever the reply fits; both replies list a table whole.\<close>

lemma valid_ones: "\<forall>e \<in> set (ones (counted_words s)). valid_entry e"
  using valid_counted_words by (auto simp: valid_entry_def)

lemma events_size_ones: "events_size (ones (counted_words s)) \<le> length s + 1"
  using sum_counted_words [of s] by (simp add: comp_def)

lemma hm_create_store:
  assumes "plenty a"
  obtains h a' where "hm_create a n = (Some h, a')" and "hm_store_ok (a', Some h)"
    and "hm_view (a', Some h) = Map.empty" and "plenty a'"
  using hm_create_plenty [OF assms, of n] by (auto simp: hm_store_ok_def hm_view_def)

lemma map_job:
  assumes "plenty a" and "hm_create a 1024 = (Some h, a')" and "length s + 2 \<le> n" and "n < 2 ^ 31"
  shows "\<exists>a2 h2 es. wc_tokenize_and_count (a', Some h) (Some s) = (a2, Some h2)
    \<and> wc_to_map_format a2 (Some h2) n = (Some (concat (map map_entry es)), tl a2) \<and> plenty a2
    \<and> distinct (map fst es) \<and> map_of es = word_counts (counted_words s)
    \<and> (\<forall>e \<in> set es. valid_entry e) \<and> length (concat (map map_entry es)) \<le> length s + 1"
proof -
  have ok: "hm_store_ok (a', Some h)" and view: "hm_view (a', Some h) = Map.empty"
    using hm_create_plenty [OF assms(1), of 1024] assms(2)
    by (auto simp: hm_store_ok_def hm_view_def)
  have "events_size (ones (counted_words s)) < 2 ^ 31"
    using events_size_ones [of s] assms(3,4) by simp
  from put_all_valid_table [OF ok view valid_ones this] obtain a2 h2 where
    put: "hm.put_all (ones (counted_words s)) (a', Some h) = (a2, Some h2)" and "plenty a2"
    and h2: "valid_table h2" and look: "hm_lookup h2 = tally (ones (counted_words s)) Map.empty"
    and len: "length (concat (map map_entry (hm_entries h2))) \<le> length s + 1"
    using events_size_ones [of s] order_trans by blast
  have "wc_to_map_format a2 (Some h2) n = (Some (concat (map map_entry (hm_entries h2))), tl a2)"
    using len assms(3,4) fitting_all [of map_entry "hm_entries h2" n]
    by (simp add: wc_to_map_format_valid [OF \<open>plenty a2\<close> h2])
  moreover have "hm_lookup h2 = word_counts (counted_words s)"
    using valid_counted_words [of _ s] by (simp add: look tally_ones_words valid_word_def)
  moreover have "hm_wf h2" and "\<forall>e \<in> set (hm_entries h2). valid_entry e"
    using h2 by (simp_all add: valid_table_def)
  ultimately show ?thesis using put len \<open>plenty a2\<close>
    by (intro exI [of _ a2] exI [of _ h2] exI [of _ "hm_entries h2"])
      (simp add: wc_tokenize_put_all hm_entries_distinct hm_lookup_def)
qed

lemma length_map_text: "length (concat (map map_entry es)) = events_size es"
  by (induction es) (auto simp: length_map_entry)

lemma reduce_job:
  assumes "plenty a" and "\<forall>e \<in> set es. valid_entry e"
    and "length (concat (map map_entry es)) < n" and "1 < n" and "n < 2 ^ 31"
  shows "\<exists>a2 h2 fs. wc_from_map_format a (Some (concat (map map_entry es))) = (a2, Some h2)
    \<and> wc_to_reduce_format a2 (Some h2) n = (Some (concat (map reduce_entry fs)), tl a2) \<and> plenty a2
    \<and> distinct (map fst fs) \<and> map_of fs = tally es Map.empty
    \<and> (\<forall>e \<in> set fs. valid_entry e)
    \<and> length (concat (map reduce_entry fs)) \<le> length (concat (map map_entry es))"
proof -
  obtain h a' where hm: "hm_create a 1024 = (Some h, a')" "hm_store_ok (a', Some h)"
    "hm_view (a', Some h) = Map.empty" using hm_create_store [OF assms(1)] by blast
  have "events_size es < 2 ^ 31" using assms(3,5) by (simp add: length_map_text)
  from put_all_valid_table [OF hm(2,3) assms(2) this] obtain a2 h2 where
    put: "hm.put_all es (a', Some h) = (a2, Some h2)" and "plenty a2"
    and h2: "valid_table h2" and look: "hm_lookup h2 = tally es Map.empty"
    and len: "length (concat (map map_entry (hm_entries h2))) \<le> length (concat (map map_entry es))"
    by (auto simp: length_map_text)
  have wf: "hm_wf h2" and valid: "\<forall>e \<in> set (hm_entries h2). valid_entry e"
    using h2 by (simp_all add: valid_table_def)
  then have "length (concat (map reduce_entry (hm_entries h2)))
      \<le> length (concat (map map_entry (hm_entries h2)))"
    by (intro length_reduce_le_map) (simp add: valid_entry_def)
  with len have len2: "length (concat (map reduce_entry (hm_entries h2)))
      \<le> length (concat (map map_entry es))" by simp
  from len2 assms(3,4) have "wc_to_reduce_format a2 (Some h2) n
      = (Some (concat (map reduce_entry (hm_entries h2))), tl a2)"
    using fitting_all [of reduce_entry "hm_entries h2" n]
    by (simp add: wc_to_reduce_format_valid [OF \<open>plenty a2\<close> h2])
  then show ?thesis using put look wf valid len2 \<open>plenty a2\<close>
    by (intro exI [of _ a2] exI [of _ h2] exI [of _ "hm_entries h2"])
      (simp add: wc_from_map_format_entries [OF hm(1) assms(2)] hm_entries_distinct hm_lookup_def)
qed

subsection \<open>Properties\<close>

text \<open>After \<open>wc_tokenize_and_count\<close> on a fresh map, reading any word, in any spelling, gives the
  number of its occurrences among the words of the text, and nothing for a word that does not occur.\<close>

theorem tokenizer_counts_words:
  assumes "plenty a" and "hm_create a n = (Some h, a1)"
  shows "\<exists>a2 h2. wc_tokenize_and_count (a1, Some h) (Some s) = (a2, Some h2) \<and> hm_wf h2
    \<and> (\<forall>w. fst (hm_get a2 (Some h2) (Some w) True) =
         (let k = count_list (counted_words s) (lower w) in if k = 0 then None else Some (of_nat k)))"
proof -
  have ok: "hm_store_ok (a1, Some h)" and view: "hm_view (a1, Some h) = Map.empty"
    using hm_create_plenty [OF assms(1), of n] assms(2) by (auto simp: hm_store_ok_def hm_view_def)
  obtain a2 t where put: "hm.put_all (ones (counted_words s)) (a1, Some h) = (a2, t)" by fastforce
  with tokenize_lookup [OF ok view, of s] obtain h2 where
    "t = Some h2" "plenty a2" "hm_wf h2" "hm_lookup h2 = word_counts (counted_words s)"
    by (auto simp: hm_store_ok_def hm_view_def split: option.splits)
  with put show ?thesis
    by (auto simp: wc_tokenize_put_all hm_get_plenty word_counts_def)
qed

lemma tokenizer_counts_words_witness:
  "\<exists>a2 h2. wc_tokenize_and_count ([], fst (hm_create [] 4)) (Some ''Ab, ab!'') = (a2, Some h2)
    \<and> fst (hm_get a2 (Some h2) (Some ''AB'') True) = Some 2"
proof -
  have c: "hm_create [] 4 = (Some \<lparr>n_buckets = 4, buckets = Some (replicate 4 [])\<rparr>, [])"
    by (simp add: hm_create_def)
  have "counted_words ''Ab, ab!'' = [''ab'', ''ab'']" and "lower ''AB'' = ''ab''" by code_simp+
  then have "count_list (counted_words ''Ab, ab!'') (lower ''AB'') = 2" by simp
  with tokenizer_counts_words [OF plenty_Nil c, of "''Ab, ab!''"] c show ?thesis
    by (auto simp: Let_def)
qed

text \<open>C32: A table written in the map format and read back is the same table, whenever the format fits
  the message.\<close>

theorem map_format_roundtrip:
  assumes "plenty a" and "valid_table h"
    and "length (concat (map map_entry (hm_entries h))) < n" and "1 < n" and "n \<le> 2 ^ 62"
  shows "\<exists>text a1 a2 h2. wc_to_map_format a (Some h) n = (Some text, a1)
    \<and> wc_from_map_format a1 (Some text) = (a2, Some h2) \<and> hm_wf h2 \<and> hm_lookup h2 = hm_lookup h"
proof -
  let ?text = "concat (map map_entry (hm_entries h))"
  have w: "wc_to_map_format a (Some h) n = (Some ?text, tl a)"
    using wc_to_map_format_valid [OF assms(1,2,4,5)] fitting_all [OF assms(3)] by simp
  obtain h0 a1 where c: "hm_create (tl a) 1024 = (Some h0, a1)" and ok: "hm_store_ok (a1, Some h0)"
    and empty: "hm_view (a1, Some h0) = Map.empty"
    using hm_create_store [OF plenty_tl [OF assms(1)]] by blast
  have valid: "\<forall>e \<in> set (hm_entries h). valid_entry e" and src: "hm_store_ok ([], Some h)"
    using assms(2) by (simp_all add: valid_table_def hm_store_ok_def)
  obtain a2 t where put: "hm.put_all (hm_entries h) (a1, Some h0) = (a2, t)" by fastforce
  have "hm_store_ok (a2, t)" using hm.put_all_invar [OF ok, of "hm_entries h"] by (simp add: put)
  then obtain h2 where t: "t = Some h2" "hm_wf h2" by (auto simp: hm_store_ok_def split: option.splits)
  have "hm_view (a2, t) = hm_view ([], Some h)"
    using hm.transfer_empty [OF src ok empty] put by (simp add: hm_list_def)
  then have "hm_lookup h2 = hm_lookup h" by (simp add: hm_view_def t)
  with w t put wc_from_map_format_entries [OF c valid] show ?thesis by auto
qed

lemma map_format_roundtrip_witness:
  "\<exists>text a1 a2 h2. wc_to_map_format [] (Some \<lparr>n_buckets = 1, buckets = Some [[\<lparr>ll_key = ''be'', ll_count = 2\<rparr>]]\<rparr>) 10
      = (Some text, a1)
    \<and> wc_from_map_format a1 (Some text) = (a2, Some h2) \<and> hm_lookup h2 ''be'' = Some 2"
proof -
  let ?h = "\<lparr>n_buckets = 1, buckets = Some [[\<lparr>ll_key = ''be'', ll_count = 2\<rparr>]]\<rparr>"
  have low: "lower ''be'' = ''be''" and "is_alpha (CHR ''b'')" "is_alpha (CHR ''e'')" by code_simp+
  then have valid: "valid_entry (''be'', 2)"
    by (simp add: valid_entry_def valid_word_def WORD_CAP_def)
  have "hm_entries ?h = [(''be'', 2)]" by (simp add: hm_entries_def)
  moreover have "valid_table ?h"
    using valid low by (simp add: valid_table_def hm_wf_def hm_entries_def bucket_index_def)
  ultimately show ?thesis
    using map_format_roundtrip [of "[]" ?h 10] by (auto simp: length_map_entry hm_lookup_def)
qed

text \<open>C35: The map and the reduce format of a table are always shorter than the message length, and
  consist of whole entries: of a prefix of the table's entries that cannot be extended by the next
  one.\<close>

theorem formats_are_maximal_prefixes:
  assumes "plenty a" and "valid_table h" and "1 < n" and "n \<le> 2 ^ 62"
  shows "(\<exists>k. fst (wc_to_map_format a (Some h) n) = Some (concat (map map_entry (take k (hm_entries h))))
      \<and> length (concat (map map_entry (take k (hm_entries h)))) < n
      \<and> (length (hm_entries h) \<le> k \<or> n \<le> length (concat (map map_entry (take (Suc k) (hm_entries h))))))
    \<and> (\<exists>k. fst (wc_to_reduce_format a (Some h) n) = Some (concat (map reduce_entry (take k (hm_entries h))))
      \<and> length (concat (map reduce_entry (take k (hm_entries h)))) < n
      \<and> (length (hm_entries h) \<le> k \<or> n \<le> length (concat (map reduce_entry (take (Suc k) (hm_entries h))))))"
proof
  have "0 < n" using assms(3) by simp
  from fitting_maximal [OF this, of map_entry "hm_entries h"]
  show "\<exists>k. fst (wc_to_map_format a (Some h) n) = Some (concat (map map_entry (take k (hm_entries h))))
      \<and> length (concat (map map_entry (take k (hm_entries h)))) < n
      \<and> (length (hm_entries h) \<le> k \<or> n \<le> length (concat (map map_entry (take (Suc k) (hm_entries h)))))"
    unfolding wc_to_map_format_valid [OF assms] fst_conv by metis
  from fitting_maximal [OF \<open>0 < n\<close>, of reduce_entry "hm_entries h"]
  show "\<exists>k. fst (wc_to_reduce_format a (Some h) n) = Some (concat (map reduce_entry (take k (hm_entries h))))
      \<and> length (concat (map reduce_entry (take k (hm_entries h)))) < n
      \<and> (length (hm_entries h) \<le> k \<or> n \<le> length (concat (map reduce_entry (take (Suc k) (hm_entries h)))))"
    unfolding wc_to_reduce_format_valid [OF assms(1-3)] fst_conv by metis
qed

lemma formats_are_maximal_prefixes_witness:
  "\<exists>k. fst (wc_to_map_format [] (Some \<lparr>n_buckets = 1, buckets = Some [[\<lparr>ll_key = ''be'', ll_count = 2\<rparr>]]\<rparr>) 4)
    = Some (concat (map map_entry (take k [(''be'', 2)]))) \<and> k = 0"
proof -
  let ?h = "\<lparr>n_buckets = 1, buckets = Some [[\<lparr>ll_key = ''be'', ll_count = 2\<rparr>]]\<rparr>"
  have low: "lower ''be'' = ''be''" and "is_alpha (CHR ''b'')" "is_alpha (CHR ''e'')" by code_simp+
  then have valid: "valid_entry (''be'', 2)"
    by (simp add: valid_entry_def valid_word_def WORD_CAP_def)
  have es: "hm_entries ?h = [(''be'', 2)]" by (simp add: hm_entries_def)
  have "valid_table ?h"
    using valid low by (simp add: valid_table_def hm_wf_def hm_entries_def bucket_index_def)
  from formats_are_maximal_prefixes [OF plenty_Nil this, of 4] es obtain k where
    k: "fst (wc_to_map_format [] (Some ?h) 4) = Some (concat (map map_entry (take k [(''be'', 2)])))"
    and "length (concat (map map_entry (take k [(''be'', 2)]))) < 4" by auto
  then have "k = 0" by (cases k) (simp_all add: length_map_entry)
  with k show ?thesis by blast
qed

end
