(* ===== verification/Worker.thy ===== *)
theory Worker
  imports Word_Count
begin

section \<open>The worker (mapreduce-wordcount/zmq\_worker.c)\<close>

text \<open>
  A request is the byte sequence that \<open>zmq_recv\<close> delivered, a reply the bytes given to
  \<open>zmq_send\<close>, terminators included.  The sockets themselves are ZeroMQ's: a step takes the message
  that arrived as its argument.  \<open>zmq_recv\<close> is documented to return the size of the message even
  where it truncates it to the buffer, so that \<open>buffer[r] = 0\<close> writes past the buffer for a longer
  request; that is the error \<open>Buffer_overrun\<close>.
\<close>

definition MAX_MSG_LEN :: nat where
  "MAX_MSG_LEN = 1500"

definition HEADER_LEN :: nat where
  "HEADER_LEN = 6"

definition RECV_BUFFER_SIZE :: nat where
  "RECV_BUFFER_SIZE = 2048"

datatype worker_error = Buffer_overrun

definition digit_value :: "char \<Rightarrow> nat" where
  "digit_value c = byte c - byte (CHR ''0'')"

text \<open>The three bytes that \<open>p\<close> points at; the code only calls it where they exist.\<close>

fun parse_msg_len :: "char list \<Rightarrow> nat" where
  "parse_msg_len (a # b # c # _) =
     (if \<not> is_digit a \<or> \<not> is_digit b \<or> \<not> is_digit c then MAX_MSG_LEN
      else (let v = digit_value a * 100 + digit_value b * 10 + digit_value c
            in if v = 0 \<or> v > MAX_MSG_LEN then MAX_MSG_LEN else v))"
| "parse_msg_len _ = MAX_MSG_LEN"

definition is_new_protocol :: "char list \<Rightarrow> bool" where
  "is_new_protocol msg \<longleftrightarrow> HEADER_LEN \<le> length msg
     \<and> is_digit (msg ! 3) \<and> is_digit (msg ! 4) \<and> is_digit (msg ! 5)"

text \<open>What one request does: the reply, whether the socket is closed, and the allocator.\<close>

definition empty_reply :: "char list" where
  "empty_reply = [NUL]"

definition reply_bytes :: "string option \<Rightarrow> char list" where
  "reply_bytes reply = (case reply of None \<Rightarrow> empty_reply | Some s \<Rightarrow> s @ [NUL])"

definition handle_map :: "alloc \<Rightarrow> string \<Rightarrow> nat \<Rightarrow> char list \<times> alloc" where
  "handle_map a payload msg_len =
     (let (hm, a1) = hm_create a 1024 in
      case hm of None \<Rightarrow> (empty_reply, a1)
      | Some _ \<Rightarrow>
         (let (a2, hm') = wc_tokenize_and_count (a1, hm) (Some payload);
              (reply, a3) = wc_to_map_format a2 hm' msg_len
          in (reply_bytes reply, a3)))"

definition handle_red :: "alloc \<Rightarrow> string \<Rightarrow> nat \<Rightarrow> char list \<times> alloc" where
  "handle_red a payload msg_len =
     (let (a1, hm) = wc_from_map_format a (Some payload) in
      case hm of None \<Rightarrow> (empty_reply, a1)
      | Some _ \<Rightarrow>
         (let (reply, a2) = wc_to_reduce_format a1 hm msg_len
          in (reply_bytes reply, a2)))"

definition handle_message :: "alloc \<Rightarrow> char list \<Rightarrow> worker_error + (char list \<times> bool \<times> alloc)" where
  "handle_message a msg =
     (if RECV_BUFFER_SIZE \<le> length msg then Inl Buffer_overrun
      else if length msg < 3 then Inr (empty_reply, False, a)
      else
       (let is_new = is_new_protocol msg;
            msg_len = (if is_new then parse_msg_len (drop 3 msg) else MAX_MSG_LEN);
            payload = c_str (drop (if is_new then HEADER_LEN else 3) msg);
            type = take 3 msg
        in if type = ''map'' then
             (let (reply, a') = handle_map a payload msg_len in Inr (reply, False, a'))
           else if type = ''red'' then
             (let (reply, a') = handle_red a payload msg_len in Inr (reply, False, a'))
           else if type = ''rip'' then
             Inr (if is_new then empty_reply else ''rip'' @ [NUL], True, a)
           else Inr (empty_reply, False, a)))"

subsection \<open>The service loop\<close>

text \<open>
  \<open>reps\<close> says which of the sockets are open, \<open>active\<close> is the counter that ends the loop.  One step
  serves the message \<open>msg\<close> that the poll reported for the port \<open>i\<close>; a closed port is skipped.
\<close>

record worker =
  reps :: "bool list"
  active :: nat
  w_alloc :: alloc

definition worker_start :: "bool list \<Rightarrow> alloc \<Rightarrow> worker" where
  "worker_start bound a =
     \<lparr>reps = bound, active = length (filter (\<lambda>b. b) bound), w_alloc = a\<rparr>"

definition worker_serve :: "worker \<Rightarrow> nat \<Rightarrow> char list \<Rightarrow> worker_error + (worker \<times> char list option)" where
  "worker_serve w i msg =
     (if \<not> reps w ! i then Inr (w, None)
      else (case handle_message (w_alloc w) msg of
          Inl e \<Rightarrow> Inl e
        | Inr (reply, close, a') \<Rightarrow>
            Inr (if close then w\<lparr>reps := (reps w)[i := False], active := active w - 1, w_alloc := a'\<rparr>
                 else w\<lparr>w_alloc := a'\<rparr>, Some reply)))"

text \<open>The loop serves while a socket is active; each event names a bound port.\<close>

inductive worker_step :: "worker \<Rightarrow> nat \<times> char list \<times> char list option \<Rightarrow> worker \<Rightarrow> bool" where
  serve: "0 < active w \<Longrightarrow> i < length (reps w) \<Longrightarrow> worker_serve w i msg = Inr (w', reply)
    \<Longrightarrow> worker_step w (i, msg, reply) w'"

inductive worker_run :: "worker \<Rightarrow> (nat \<times> char list \<times> char list option) list \<Rightarrow> worker \<Rightarrow> bool" where
  run_Nil: "worker_run w [] w"
| run_Cons: "worker_step w e w' \<Longrightarrow> worker_run w' es w'' \<Longrightarrow> worker_run w (e # es) w''"

inductive_cases worker_stepE: "worker_step w e w'"
inductive_simps worker_run_Nil [simp]: "worker_run w [] w'"
inductive_cases worker_run_ConsE: "worker_run w (e # es) w''"

definition worker_ok :: "worker \<Rightarrow> bool" where
  "worker_ok w \<longleftrightarrow> active w = length (filter (\<lambda>b. b) (reps w))"

lemma worker_ok_start: "worker_ok (worker_start bound a)"
  by (simp add: worker_ok_def worker_start_def)

lemma count_close:
  "i < length bs \<Longrightarrow> bs ! i \<Longrightarrow>
    length (filter (\<lambda>b. b) (bs[i := False])) = length (filter (\<lambda>b. b) bs) - 1"
proof (induction bs arbitrary: i)
  case (Cons b bs)
  show ?case
  proof (cases i)
    case (Suc j)
    with Cons.prems have "j < length bs" and "bs ! j" by simp_all
    then have "bs ! j \<in> set (filter (\<lambda>b. b) bs)" using nth_mem [of j bs] by simp
    then have "0 < length (filter (\<lambda>b. b) bs)" by (rule length_pos_if_in_set)
    with Suc Cons show ?thesis by simp
  qed (use Cons.prems in simp)
qed simp

lemma worker_step_ok: "worker_step w e w' \<Longrightarrow> worker_ok w \<Longrightarrow> worker_ok w'"
  by (erule worker_stepE)
    (auto simp: worker_ok_def worker_serve_def count_close split: if_splits sum.splits prod.splits)

lemma worker_step_length: "worker_step w e w' \<Longrightarrow> length (reps w') = length (reps w)"
  by (erule worker_stepE) (auto simp: worker_serve_def split: if_splits sum.splits prod.splits)

lemma worker_run_ok: "worker_run w es w' \<Longrightarrow> worker_ok w \<Longrightarrow> worker_ok w'"
  by (induction rule: worker_run.induct) (auto intro: worker_step_ok)

lemma worker_run_length: "worker_run w es w' \<Longrightarrow> length (reps w') = length (reps w)"
  by (induction rule: worker_run.induct) (auto dest: worker_step_length)

lemma worker_run_append:
  "worker_run w (es1 @ es2) w'' \<Longrightarrow> \<exists>w'. worker_run w es1 w' \<and> worker_run w' es2 w''"
proof (induction es1 arbitrary: w)
  case (Cons e es1)
  then obtain w1 where "worker_step w e w1" "worker_run w1 (es1 @ es2) w''"
    by (auto elim: worker_run_ConsE)
  with Cons.IH show ?case by (metis run_Cons)
qed auto

lemma worker_step_rip:
  "worker_step w (i, msg, Some reply) w' \<Longrightarrow> take 3 msg = ''rip'' \<Longrightarrow> \<not> reps w' ! i"
  by (erule worker_stepE)
    (auto simp: worker_serve_def handle_message_def Let_def split: if_splits sum.splits prod.splits)

text \<open>A closed port stays closed and silent.\<close>

lemma worker_step_closed:
  "worker_step w (j, msg, reply) w' \<Longrightarrow> \<not> reps w ! i \<Longrightarrow> \<not> reps w' ! i \<and> (j = i \<longrightarrow> reply = None)"
  by (erule worker_stepE)
    (auto simp: worker_serve_def nth_list_update split: if_splits sum.splits prod.splits)

lemma worker_run_closed:
  "worker_run w es w' \<Longrightarrow> \<not> reps w ! i \<Longrightarrow>
    \<not> reps w' ! i \<and> (\<forall>msg reply. (i, msg, reply) \<in> set es \<longrightarrow> reply = None)"
proof (induction rule: worker_run.induct)
  case (run_Cons w e w' es w'')
  obtain j msg reply where e: "e = (j, msg, reply)" by (cases e)
  from worker_step_closed [of w j msg reply w' i] run_Cons e show ?case by auto
qed simp

subsection \<open>The answers to well-formed requests\<close>

definition map_request :: "string \<Rightarrow> char list" where
  "map_request s = ''map'' @ s @ [NUL]"

definition red_request :: "string \<Rightarrow> char list" where
  "red_request s = ''red'' @ s @ [NUL]"

definition three_digits :: "string \<Rightarrow> bool" where
  "three_digits s \<longleftrightarrow> 3 \<le> length s \<and> list_all is_digit (take 3 s)"

lemma new_protocol_request:
  assumes "length t = 3"
  shows "is_new_protocol (t @ s @ [NUL]) = three_digits s"
proof -
  have nth: "i < length s \<Longrightarrow> (t @ s @ [NUL]) ! (3 + i) = s ! i" for i
    using assms by (simp add: nth_append)
  have short: "is_digit ((t @ s @ [NUL]) ! 5) \<Longrightarrow> HEADER_LEN \<le> length (t @ s @ [NUL]) \<Longrightarrow> 3 \<le> length s"
    using assms by (cases "length s = 2") (auto simp: HEADER_LEN_def nth_append)
  show ?thesis
  proof (cases "3 \<le> length s")
    case True
    then obtain x y z r where "s = x # y # z # r"
      by (metis One_nat_def Suc_le_length_iff numeral_3_eq_3)
    moreover obtain a b c where "t = [a, b, c]"
      using assms by (metis (no_types, lifting) length_0_conv length_Suc_conv numeral_3_eq_3)
    ultimately show ?thesis by (simp add: is_new_protocol_def three_digits_def HEADER_LEN_def)
  next
    case False
    with short show ?thesis by (auto simp: is_new_protocol_def three_digits_def)
  qed
qed

lemma c_str_request: "length t = 3 \<Longrightarrow> NUL \<notin> set s \<Longrightarrow> c_str (drop 3 (t @ s @ [NUL])) = s"
  by (simp add: c_str_terminated)

text \<open>
  A map request whose text does not look like a length field is answered with the exact word
  counts of the text: the reply always fits, because the format of a table is at most one byte
  longer than the text it was counted from.
\<close>

lemma handle_map_request:
  assumes "plenty a" and "NUL \<notin> set s" and "length s + 2 \<le> MAX_MSG_LEN" and "\<not> three_digits s"
  shows "\<exists>es a'. handle_message a (map_request s) = Inr (concat (map map_entry es) @ [NUL], False, a')
    \<and> plenty a' \<and> distinct (map fst es) \<and> map_of es = word_counts (counted_words s)
    \<and> (\<forall>e \<in> set es. valid_entry e) \<and> length (concat (map map_entry es)) \<le> length s + 1"
proof -
  obtain h a1 where hm: "hm_create a 1024 = (Some h, a1)"
    using hm_create_store [OF assms(1)] by blast
  from map_job [OF assms(1) hm, of s MAX_MSG_LEN] assms(3) obtain a2 h2 es where
    tok: "wc_tokenize_and_count (a1, Some h) (Some s) = (a2, Some h2)"
    and fmt: "wc_to_map_format a2 (Some h2) MAX_MSG_LEN = (Some (concat (map map_entry es)), tl a2)"
    and rest: "plenty a2" "distinct (map fst es)" "map_of es = word_counts (counted_words s)"
      "\<forall>e \<in> set es. valid_entry e" "length (concat (map map_entry es)) \<le> length s + 1"
    by (auto simp: MAX_MSG_LEN_def)
  have "is_new_protocol (map_request s) = False"
    using new_protocol_request [of "''map''" s] assms(4) by (simp add: map_request_def)
  moreover have "c_str (drop 3 (map_request s)) = s"
    using c_str_request [of "''map''" s] assms(2) by (simp add: map_request_def)
  moreover have "length (map_request s) < RECV_BUFFER_SIZE" and "3 \<le> length (map_request s)"
    and "take 3 (map_request s) = ''map''"
    using assms(3) by (simp_all add: map_request_def RECV_BUFFER_SIZE_def MAX_MSG_LEN_def)
  ultimately have "handle_message a (map_request s)
      = Inr (concat (map map_entry es) @ [NUL], False, tl a2)"
    using hm tok fmt by (simp add: handle_message_def handle_map_def reply_bytes_def Let_def)
  with rest show ?thesis by (intro exI [of _ es] exI [of _ "tl a2"]) simp
qed

lemma handle_red_request:
  assumes "plenty a" and "\<forall>e \<in> set es. valid_entry e"
    and "length (concat (map map_entry es)) + 2 \<le> MAX_MSG_LEN"
  shows "\<exists>fs a'. handle_message a (red_request (concat (map map_entry es))) =
      Inr (concat (map reduce_entry fs) @ [NUL], False, a')
    \<and> plenty a' \<and> distinct (map fst fs) \<and> map_of fs = tally es Map.empty
    \<and> (\<forall>e \<in> set fs. valid_entry e)
    \<and> length (concat (map reduce_entry fs)) \<le> length (concat (map map_entry es))"
proof -
  let ?s = "concat (map map_entry es)"
  from reduce_job [OF assms(1,2), of MAX_MSG_LEN] assms(3) obtain a2 h2 fs where
    prs: "wc_from_map_format a (Some ?s) = (a2, Some h2)"
    and fmt: "wc_to_reduce_format a2 (Some h2) MAX_MSG_LEN = (Some (concat (map reduce_entry fs)), tl a2)"
    and rest: "plenty a2" "distinct (map fst fs)" "map_of fs = tally es Map.empty"
      "\<forall>e \<in> set fs. valid_entry e"
      "length (concat (map reduce_entry fs)) \<le> length (concat (map map_entry es))"
    by (auto simp: MAX_MSG_LEN_def)
  have alpha_or_one: "\<forall>c \<in> set ?s. is_alpha c \<or> c = CHR ''1''"
    using assms(2) by (auto simp: map_entry_def valid_entry_def valid_word_def list_all_iff)
  then have "NUL \<notin> set ?s" by (metis NUL_class(1) one_is_digit(1) NUL_class(2))
  moreover have "\<not> three_digits ?s"
  proof (cases es)
    case (Cons e fs)
    then obtain c w where "fst e = c # w" "is_alpha c"
      using assms(2) by (cases "fst e") (auto simp: valid_entry_def valid_word_def)
    then show ?thesis using Cons digit_not_alpha [of c]
      by (auto simp: three_digits_def map_entry_def)
  qed (simp add: three_digits_def)
  ultimately have "is_new_protocol (red_request ?s) = False" and "c_str (drop 3 (red_request ?s)) = ?s"
    using new_protocol_request [of "''red''" ?s] c_str_request [of "''red''" ?s]
    by (simp_all add: red_request_def)
  moreover have "length (red_request ?s) < RECV_BUFFER_SIZE" and "3 \<le> length (red_request ?s)"
    and "take 3 (red_request ?s) = ''red''"
    using assms(3) by (simp_all add: red_request_def RECV_BUFFER_SIZE_def MAX_MSG_LEN_def)
  ultimately have "handle_message a (red_request ?s)
      = Inr (concat (map reduce_entry fs) @ [NUL], False, tl a2)"
    using prs fmt by (simp add: handle_message_def handle_red_def reply_bytes_def Let_def)
  with rest show ?thesis by (intro exI [of _ fs] exI [of _ "tl a2"]) simp
qed

subsection \<open>Properties\<close>

text \<open>C12: A map request is answered with the exact counts of the words of its text, each cut to its first 255
  letters and in lower case, one entry per word and each entry whole: no text that fits a message makes the reply
  overflow.  These are the words that wordcount.h defines (maximal runs of letters) if and only if none of
  those is longer than 255 letters; longer ones are printed cut, and counted together when they agree on
  their first 255 letters, which wordcount.h does not say.  (Text that begins with three digits is read as a
  length field instead, see \<open>request_dispatch\<close>.)\<close>

theorem map_request_counts_exactly:
  assumes "plenty a" and "NUL \<notin> set s" and "length s + 2 \<le> MAX_MSG_LEN" and "\<not> three_digits s"
  shows "\<exists>es a'. handle_message a (map_request s) = Inr (concat (map map_entry es) @ [NUL], False, a')
    \<and> distinct (map fst es)
    \<and> (\<forall>w. map_of es w =
         (let n = count_list (counted_words s) w in if n = 0 then None else Some (of_nat n)))
    \<and> (\<forall>e \<in> set es. valid_entry e) \<and> length (concat (map map_entry es)) \<le> length s + 1
    \<and> ((counted_words s = words_of s) = (\<forall>w \<in> set (words_of s). length w \<le> WORD_CAP))"
proof -
  from handle_map_request [OF assms] obtain es a' where
    "handle_message a (map_request s) = Inr (concat (map map_entry es) @ [NUL], False, a')"
    "distinct (map fst es)" "map_of es = word_counts (counted_words s)"
    "\<forall>e \<in> set es. valid_entry e" "length (concat (map map_entry es)) \<le> length s + 1" by blast
  then show ?thesis by (intro exI [of _ es] exI [of _ a']) (simp add: word_counts_def counted_words_short)
qed

lemma map_request_counts_exactly_witness:
  "\<exists>es a'. handle_message [] (map_request ''to be To'') = Inr (concat (map map_entry es) @ [NUL], False, a')
    \<and> map_of es ''to'' = Some 2 \<and> map_of es ''or'' = None"
proof -
  have t: "\<not> three_digits ''to be To''" and n: "NUL \<notin> set ''to be To''" by code_simp+
  have w: "counted_words ''to be To'' = [''to'', ''be'', ''to'']" by code_simp
  from map_request_counts_exactly [OF plenty_Nil n _ t] obtain es a' where
    "handle_message [] (map_request ''to be To'') = Inr (concat (map map_entry es) @ [NUL], False, a')"
    and look: "\<forall>w. map_of es w = (let n = count_list (counted_words ''to be To'') w
      in if n = 0 then None else Some (of_nat n))" by (auto simp: MAX_MSG_LEN_def)
  moreover from look have "map_of es ''to'' = Some 2" "map_of es ''or'' = None"
    unfolding w by (simp_all add: numeral_2_eq_2)
  ultimately show ?thesis by blast
qed

text \<open>C13: A reduce request made of whole map entries is answered in the reduce format with one entry
  per word, whose count is the sum of the counts in the request.\<close>

theorem red_request_sums_exactly:
  assumes "plenty a" and "\<forall>e \<in> set es. valid_entry e"
    and "length (concat (map map_entry es)) + 2 \<le> MAX_MSG_LEN"
  shows "\<exists>fs a'. handle_message a (red_request (concat (map map_entry es))) =
      Inr (concat (map reduce_entry fs) @ [NUL], False, a')
    \<and> distinct (map fst fs)
    \<and> (\<forall>w. map_of fs w = (if w \<in> fst ` set es
         then Some (sum_list (map snd (filter (\<lambda>e. fst e = w) es))) else None))
    \<and> length (concat (map reduce_entry fs)) \<le> length (concat (map map_entry es))"
proof -
  have "map snd (filter (\<lambda>e. lower (fst e) = w) es) = map snd (filter (\<lambda>e. fst e = w) es)" for w
    using assms(2) by (intro arg_cong [where f = "map snd"] filter_cong)
      (auto simp: valid_entry_def valid_word_def)
  then have "tally es Map.empty w = (if w \<in> fst ` set es
      then Some (sum_list (map snd (filter (\<lambda>e. fst e = w) es))) else None)" for w
    by (auto simp: tally_empty_apply hits_def filter_empty_conv)
  with handle_red_request [OF assms] show ?thesis by metis
qed

lemma red_request_sums_exactly_witness:
  "\<exists>fs a'. handle_message [] (red_request (concat (map map_entry [(''be'', 1), (''be'', 2)]))) =
      Inr (concat (map reduce_entry fs) @ [NUL], False, a') \<and> map_of fs ''be'' = Some 3"
proof -
  have "lower ''be'' = ''be''" and "is_alpha (CHR ''b'')" "is_alpha (CHR ''e'')" by code_simp+
  then have v: "\<forall>e \<in> set [(''be'', 1 :: i32), (''be'', 2)]. valid_entry e"
    by (simp add: valid_entry_def valid_word_def WORD_CAP_def)
  from red_request_sums_exactly [OF plenty_Nil v] show ?thesis
    by (auto simp: length_map_entry MAX_MSG_LEN_def)
qed

text \<open>The two versions of the protocol are told apart by the three bytes behind the type alone: a
  map request whose text begins with three digits is served as one with a length field, which those
  digits give, and its text begins behind them.\<close>

theorem request_dispatch:
  assumes "NUL \<notin> set s" and "length s + 4 < RECV_BUFFER_SIZE"
  shows "handle_message a (map_request s) =
    (let (reply, a') = (if three_digits s then handle_map a (drop 3 s) (parse_msg_len s)
                        else handle_map a s MAX_MSG_LEN)
     in Inr (reply, False, a'))"
proof -
  have new: "is_new_protocol (map_request s) = three_digits s"
    using new_protocol_request [of "''map''" s] by (simp add: map_request_def)
  have old_text: "c_str (drop 3 (map_request s)) = s"
    using c_str_request [of "''map''" s] assms(1) by (simp add: map_request_def)
  have new_text: "c_str (drop HEADER_LEN (map_request s)) = drop 3 s"
    and len: "parse_msg_len (drop 3 (map_request s)) = parse_msg_len s" if "three_digits s"
  proof -
    from that obtain x y z r where s: "s = x # y # z # r"
      unfolding three_digits_def by (metis One_nat_def Suc_le_length_iff numeral_3_eq_3)
    with assms(1) show "c_str (drop HEADER_LEN (map_request s)) = drop 3 s"
      by (simp add: map_request_def HEADER_LEN_def c_str_terminated)
    from s show "parse_msg_len (drop 3 (map_request s)) = parse_msg_len s"
      by (simp add: map_request_def)
  qed
  have "length (map_request s) < RECV_BUFFER_SIZE" "3 \<le> length (map_request s)"
    "take 3 (map_request s) = ''map''"
    using assms(2) by (simp_all add: map_request_def)
  then show ?thesis
    using new old_text new_text len by (simp add: handle_message_def Let_def)
qed

lemma request_dispatch_witness:
  "handle_message [] (map_request ''100 be'') =
    (let (reply, a') = handle_map [] '' be'' 100 in Inr (reply, False, a'))"
proof -
  have "three_digits ''100 be''" and n: "NUL \<notin> set ''100 be''" and p: "parse_msg_len ''100 be'' = 100"
    by code_simp+
  with request_dispatch [OF n, of "[]"] show ?thesis by (simp add: RECV_BUFFER_SIZE_def)
qed

text \<open>In every run of the worker the loop counter is the number of open ports, so the loop ends
  exactly when every port has been closed, and a port that has answered a rip request never answers
  again.\<close>

theorem worker_run_ports:
  assumes "worker_run (worker_start bound a) es w"
  shows "active w = length (filter (\<lambda>b. b) (reps w)) \<and> length (reps w) = length bound
    \<and> (active w = 0 \<longleftrightarrow> (\<forall>i < length bound. \<not> reps w ! i))
    \<and> (\<forall>es1 i msg reply es2. es = es1 @ (i, msg, Some reply) # es2 \<longrightarrow> take 3 msg = ''rip'' \<longrightarrow>
         (\<forall>msg' reply'. (i, msg', reply') \<in> set es2 \<longrightarrow> reply' = None))"
proof (intro conjI allI impI)
  show act: "active w = length (filter (\<lambda>b. b) (reps w))"
    using worker_run_ok [OF assms worker_ok_start] by (simp add: worker_ok_def)
  show len: "length (reps w) = length bound"
    using worker_run_length [OF assms] by (simp add: worker_start_def)
  have "filter (\<lambda>b. b) (reps w) = [] \<longleftrightarrow> (\<forall>i < length (reps w). \<not> reps w ! i)"
    by (auto simp: filter_empty_conv all_set_conv_all_nth)
  with act len show "active w = 0 \<longleftrightarrow> (\<forall>i < length bound. \<not> reps w ! i)" by simp
next
  fix es1 i msg reply es2 msg' reply'
  assume es: "es = es1 @ (i, msg, Some reply) # es2" and rip: "take 3 msg = ''rip''"
    and later: "(i, msg', reply') \<in> set es2"
  from worker_run_append [of "worker_start bound a" es1 "(i, msg, Some reply) # es2" w] assms es
  obtain w1 w2 where "worker_step w1 (i, msg, Some reply) w2" and run: "worker_run w2 es2 w"
    by (auto elim: worker_run_ConsE)
  then have "\<not> reps w2 ! i" using rip by (intro worker_step_rip)
  from worker_run_closed [OF run this] later show "reply' = None" by blast
qed

lemma worker_run_ports_witness:
  "\<exists>w. worker_run (worker_start [True] []) [(0, ''rip'' @ [NUL], Some (''rip'' @ [NUL]))] w \<and> active w = 0"
proof -
  have "worker_step (worker_start [True] []) (0, ''rip'' @ [NUL], Some (''rip'' @ [NUL]))
      \<lparr>reps = [False], active = 0, w_alloc = []\<rparr>"
    by (rule serve) (simp_all add: worker_start_def worker_serve_def handle_message_def
        RECV_BUFFER_SIZE_def is_new_protocol_def HEADER_LEN_def)
  then have run: "worker_run (worker_start [True] []) [(0, ''rip'' @ [NUL], Some (''rip'' @ [NUL]))]
      \<lparr>reps = [False], active = 0, w_alloc = []\<rparr>"
    by (rule run_Cons) (rule run_Nil)
  from worker_run_ports [OF run] run show ?thesis by (metis (no_types) select_convs(2))
qed

end
