(* ===== verification/Chunker.thy ===== *)
theory Chunker
  imports Word_Count
begin

section \<open>Cutting the input into chunks (mapreduce-wordcount/chunker.c)\<close>

text \<open>
  An open file is the list of the bytes from its current offset on; \<open>None\<close> is the closed
  \<open>chunker\<close> (a NULL \<open>FILE\<close>).  \<open>fseek\<close> by \<open>-k\<close> makes the last \<open>k\<close> bytes that were read unread.
\<close>

definition CHUNK_MAX_SIZE :: nat where
  "CHUNK_MAX_SIZE = 1497"

record chunker =
  ck_file :: "char list option"

text \<open>\<open>fopen\<close> of the file name: \<open>contents\<close> is what the file system holds under it.\<close>

definition chunker_init :: "char list option \<Rightarrow> int \<times> chunker" where
  "chunker_init contents = (if contents = None then -1 else 0, \<lparr>ck_file = contents\<rparr>)"

definition chunker_close :: "chunker \<Rightarrow> chunker" where
  "chunker_close c = c\<lparr>ck_file := None\<rparr>"

text \<open>
  The reading loop: \<open>buf\<close> holds the \<open>pos\<close> bytes read so far, \<open>last\<close> is \<open>last_safe_split\<close>; the
  result is the unread rest, the buffer and the last safe split.
\<close>

fun chunk_fill :: "char list \<Rightarrow> char list \<Rightarrow> int \<Rightarrow> char list \<times> char list \<times> int" where
  "chunk_fill [] buf last_safe = ([], buf, last_safe)"
| "chunk_fill (ch # inp) buf last_safe =
     (if length buf < CHUNK_MAX_SIZE
      then chunk_fill inp (buf @ [ch])
             (if \<not> is_alpha ch then int (length buf) + 1 else last_safe)
      else (ch # inp, buf, last_safe))"

definition chunker_next :: "chunker \<Rightarrow> int \<times> char list option \<times> chunker" where
  "chunker_next c =
     (case ck_file c of None \<Rightarrow> (-1, None, c)
      | Some inp \<Rightarrow>
         (let (rest, buf, last_safe) = chunk_fill inp [] (-1) in
          if length buf = 0 then (0, None, c\<lparr>ck_file := Some rest\<rparr>)
          else if length buf = CHUNK_MAX_SIZE \<and> last_safe \<noteq> -1 then
            (let pos = nat last_safe
             in (1, Some (take pos buf), c\<lparr>ck_file := Some (drop pos buf @ rest)\<rparr>))
          else (1, Some buf, c\<lparr>ck_file := Some rest\<rparr>)))"

subsection \<open>What a chunk is\<close>

text \<open>\<open>last_safe_split\<close> is the length of the buffer up to its last non-letter, -1 without one.\<close>

definition split_point :: "char list \<Rightarrow> int" where
  "split_point buf =
     (if list_all is_alpha buf then -1
      else int (length buf) - int (length (takeWhile is_alpha (rev buf))))"

lemma split_point_snoc:
  "split_point (buf @ [ch]) = (if \<not> is_alpha ch then int (length buf) + 1 else split_point buf)"
  by (simp add: split_point_def)

lemma chunk_fill_eq:
  "length buf \<le> CHUNK_MAX_SIZE \<Longrightarrow>
   chunk_fill inp buf (split_point buf) =
     (drop (CHUNK_MAX_SIZE - length buf) inp, buf @ take (CHUNK_MAX_SIZE - length buf) inp,
      split_point (buf @ take (CHUNK_MAX_SIZE - length buf) inp))"
proof (induction inp arbitrary: buf)
  case (Cons ch inp)
  show ?case
  proof (cases "length buf < CHUNK_MAX_SIZE")
    case True
    then have "CHUNK_MAX_SIZE - length buf = Suc (CHUNK_MAX_SIZE - length (buf @ [ch]))" by simp
    with Cons.IH [of "buf @ [ch]"] True show ?thesis by (simp add: split_point_snoc)
  next
    case False
    with Cons.prems show ?thesis by simp
  qed
qed simp

lemma chunk_fill_start:
  "chunk_fill inp [] (-1) =
     (drop CHUNK_MAX_SIZE inp, take CHUNK_MAX_SIZE inp, split_point (take CHUNK_MAX_SIZE inp))"
  using chunk_fill_eq [of "[]" inp] by (simp add: split_point_def)

text \<open>The length of the next chunk of a non-empty file.\<close>

definition chunk_len :: "char list \<Rightarrow> nat" where
  "chunk_len inp =
     (let buf = take CHUNK_MAX_SIZE inp
      in if length buf = CHUNK_MAX_SIZE \<and> \<not> list_all is_alpha buf
         then length buf - length (takeWhile is_alpha (rev buf)) else length buf)"

lemma takeWhile_rev_lt: "\<not> list_all P buf \<Longrightarrow> length (takeWhile P (rev buf)) < length buf"
proof -
  assume "\<not> list_all P buf"
  then have "takeWhile P (rev buf) \<noteq> rev buf"
    by (metis list_all_iff set_rev set_takeWhileD)
  then show ?thesis
    by (metis length_rev length_takeWhile_le nat_less_le takeWhile_eq_take take_all_iff
        linorder_not_le)
qed

lemma chunk_len_bounds:
  assumes "inp \<noteq> []"
  shows "0 < chunk_len inp \<and> chunk_len inp \<le> CHUNK_MAX_SIZE \<and> chunk_len inp \<le> length inp"
  using assms takeWhile_rev_lt [of is_alpha "take CHUNK_MAX_SIZE inp"]
  by (auto simp: chunk_len_def Let_def CHUNK_MAX_SIZE_def)

lemma chunker_next_Some:
  assumes "ck_file c = Some inp" and "inp \<noteq> []"
  shows "chunker_next c =
    (1, Some (take (chunk_len inp) inp), c\<lparr>ck_file := Some (drop (chunk_len inp) inp)\<rparr>)"
proof (cases "length (take CHUNK_MAX_SIZE inp) = CHUNK_MAX_SIZE \<and> \<not> list_all is_alpha (take CHUNK_MAX_SIZE inp)")
  case True
  let ?b = "take CHUNK_MAX_SIZE inp"
  let ?k = "length ?b - length (takeWhile is_alpha (rev ?b))"
  have sp: "split_point ?b = int ?k" and "split_point ?b \<noteq> -1"
    using True takeWhile_rev_lt [of is_alpha ?b] by (simp_all add: split_point_def of_nat_diff)
  moreover have "take ?k ?b = take ?k inp"
    using True by simp
  moreover have "drop ?k ?b @ drop CHUNK_MAX_SIZE inp = drop ?k inp"
  proof -
    have "drop ?k inp = drop ?k (?b @ drop CHUNK_MAX_SIZE inp)" by simp
    also have "\<dots> = drop ?k ?b @ drop (?k - length ?b) (drop CHUNK_MAX_SIZE inp)"
      by (simp only: drop_append)
    finally show ?thesis by simp
  qed
  ultimately show ?thesis using assms True
    by (simp add: chunker_next_def chunk_fill_start chunk_len_def Let_def CHUNK_MAX_SIZE_def
        del: take_take)
next
  case False
  let ?b = "take CHUNK_MAX_SIZE inp"
  have len: "chunk_len inp = length ?b" using False by (simp only: chunk_len_def Let_def if_False)
  have whole: "take (length ?b) inp = ?b" "drop (length ?b) inp = drop CHUNK_MAX_SIZE inp"
    by (simp_all add: min_def)
  from False have "\<not> (length ?b = CHUNK_MAX_SIZE \<and> split_point ?b \<noteq> -1)"
    by (auto simp: split_point_def)
  moreover have "length ?b \<noteq> 0" using assms(2) by (simp add: CHUNK_MAX_SIZE_def)
  ultimately have "chunker_next c = (1, Some ?b, c\<lparr>ck_file := Some (drop CHUNK_MAX_SIZE inp)\<rparr>)"
    using assms(1) by (simp add: chunker_next_def chunk_fill_start del: length_take)
  then show ?thesis by (simp only: len whole)
qed

lemma chunker_next_eof:
  "ck_file c = Some [] \<Longrightarrow> chunker_next c = (0, None, c\<lparr>ck_file := Some []\<rparr>)"
  by (simp add: chunker_next_def)

text \<open>
  All chunks of a file, the sequence the distributor's loop \<open>while (chunker_next(...) == 1)\<close> sees.
  The loop ends because no chunk is empty.
\<close>

function chunks :: "char list \<Rightarrow> char list list" where
  "chunks inp =
     (if inp = [] then [] else take (chunk_len inp) inp # chunks (drop (chunk_len inp) inp))"
  by pat_completeness auto
termination
proof (relation "measure length", simp)
  fix inp :: "char list"
  assume "inp \<noteq> []"
  with chunk_len_bounds [OF this] show "(drop (chunk_len inp) inp, inp) \<in> measure length"
    by (simp add: length_greater_0_conv)
qed

declare chunks.simps [simp del]

lemma chunks_Nil [simp]: "chunks [] = []"
  by (simp add: chunks.simps [of "[]"])

lemma concat_chunks: "concat (chunks inp) = inp"
proof (induction inp rule: chunks.induct)
  case (1 inp)
  then show ?case by (cases "inp = []") (simp_all add: chunks.simps [of inp])
qed

lemma chunks_bound: "c \<in> set (chunks inp) \<Longrightarrow> c \<noteq> [] \<and> length c \<le> CHUNK_MAX_SIZE"
proof (induction inp rule: chunks.induct)
  case (1 inp)
  then show ?case using chunk_len_bounds [of inp]
    by (cases "inp = []") (auto simp: chunks.simps [of inp])
qed

text \<open>
  Where a chunk ends: at the end of a short file, behind a non-letter, or, only in a run of letters
  as long as the chunk, inside a word.
\<close>

lemma chunk_last:
  assumes "inp \<noteq> []"
  shows "(chunk_len inp = length inp \<and> length inp < CHUNK_MAX_SIZE)
    \<or> (chunk_len inp = CHUNK_MAX_SIZE \<and> CHUNK_MAX_SIZE \<le> length inp
        \<and> list_all is_alpha (take CHUNK_MAX_SIZE inp))
    \<or> \<not> is_alpha (last (take (chunk_len inp) inp))"
proof (cases "length inp < CHUNK_MAX_SIZE \<or> list_all is_alpha (take CHUNK_MAX_SIZE inp)")
  case True
  then show ?thesis by (auto simp: chunk_len_def Let_def)
next
  case False
  let ?b = "take CHUNK_MAX_SIZE inp"
  from False have len: "chunk_len inp = length ?b - length (takeWhile is_alpha (rev ?b))"
    by (simp add: chunk_len_def Let_def)
  have lt: "length (takeWhile is_alpha (rev ?b)) < length ?b"
    using False by (intro takeWhile_rev_lt) simp
  then have "\<not> is_alpha (rev ?b ! length (takeWhile is_alpha (rev ?b)))"
    by (metis length_rev nth_length_takeWhile)
  moreover have "rev ?b ! length (takeWhile is_alpha (rev ?b)) = ?b ! (chunk_len inp - 1)"
    using lt len by (simp add: rev_nth)
  moreover have "last (take (chunk_len inp) inp) = ?b ! (chunk_len inp - 1)"
  proof -
    have "chunk_len inp - 1 < CHUNK_MAX_SIZE" using chunk_len_bounds [OF assms(1)] by linarith
    then show ?thesis
      using chunk_len_bounds [OF assms(1)] assms(1) by (simp add: last_conv_nth)
  qed
  ultimately show ?thesis by simp
qed

subsection \<open>No word is lost\<close>

definition short_runs :: "string \<Rightarrow> bool" where
  "short_runs s \<longleftrightarrow> (\<forall>w \<in> set (letter_runs s). length w < CHUNK_MAX_SIZE)"

lemma letter_runs_prefix:
  assumes "list_all is_alpha c" and "c \<noteq> []"
  shows "\<exists>v r. letter_runs (c @ d) = (c @ v) # r"
proof -
  let ?v = "takeWhile is_alpha d" and ?t = "dropWhile is_alpha d"
  have "list_all is_alpha (c @ ?v)" using assms(1) by (auto simp: list_all_iff dest: set_takeWhileD)
  moreover have "?t = [] \<or> \<not> is_alpha (hd ?t)" by (metis hd_dropWhile)
  ultimately have "letter_runs ((c @ ?v) @ ?t) = (c @ ?v) # letter_runs ?t"
    using assms(2) by (intro letter_runs_word) simp_all
  then show ?thesis by simp
qed

lemma chunk_runs:
  assumes "inp \<noteq> []" and "short_runs inp"
  shows "letter_runs inp = letter_runs (take (chunk_len inp) inp) @ letter_runs (drop (chunk_len inp) inp)"
proof -
  let ?c = "take (chunk_len inp) inp" and ?d = "drop (chunk_len inp) inp"
  have "\<not> (CHUNK_MAX_SIZE \<le> length inp \<and> list_all is_alpha (take CHUNK_MAX_SIZE inp))"
  proof
    assume long: "CHUNK_MAX_SIZE \<le> length inp \<and> list_all is_alpha (take CHUNK_MAX_SIZE inp)"
    then obtain v r where
      "letter_runs (take CHUNK_MAX_SIZE inp @ drop CHUNK_MAX_SIZE inp) = (take CHUNK_MAX_SIZE inp @ v) # r"
      using letter_runs_prefix [of "take CHUNK_MAX_SIZE inp" "drop CHUNK_MAX_SIZE inp"] assms(1)
      by (auto simp: CHUNK_MAX_SIZE_def)
    with assms(2) have "length (take CHUNK_MAX_SIZE inp @ v) < CHUNK_MAX_SIZE"
      by (simp add: short_runs_def)
    with long show False by simp
  qed
  with chunk_last [OF assms(1)] have "?d = [] \<or> \<not> is_alpha (last ?c)" by auto
  then have "letter_runs (?c @ ?d) = letter_runs ?c @ letter_runs ?d"
    by (intro letter_runs_append) blast
  then show ?thesis by simp
qed

lemma words_of_chunks:
  "short_runs inp \<Longrightarrow> concat (map words_of (chunks inp)) = words_of inp"
proof (induction inp rule: chunks.induct)
  case (1 inp)
  show ?case
  proof (cases "inp = []")
    case False
    from chunk_runs [OF False "1.prems"] "1.prems" have "short_runs (drop (chunk_len inp) inp)"
      by (simp add: short_runs_def)
    with "1.IH" [OF False] chunk_runs [OF False "1.prems"] False show ?thesis
      by (simp add: chunks.simps [of inp] words_of_def)
  qed (simp add: words_of_def)
qed

lemma counted_words_chunks:
  assumes "short_runs inp"
  shows "concat (map counted_words (chunks inp)) = counted_words inp"
proof -
  have "concat (map counted_words (chunks inp)) = map (take WORD_CAP) (concat (map words_of (chunks inp)))"
    by (simp add: counted_words_def [abs_def] map_concat comp_def)
  with words_of_chunks [OF assms] show ?thesis by (simp add: counted_words_def)
qed

text \<open>
  A full chunk is one byte too long for the message buffer, so the distributor's \<open>snprintf\<close> drops
  its last byte.  That byte is a non-letter, or the chunk is one run of letters, of which only the
  first 255 count: the words are the same.
\<close>

lemma counted_words_letters: "list_all is_alpha w \<Longrightarrow> w \<noteq> [] \<Longrightarrow> counted_words w = [take WORD_CAP (lower w)]"
  using letter_runs_word [of w "[]"] by (simp add: counted_words_alt)

lemma counted_words_first_chunk:
  assumes "inp \<noteq> []"
  shows "counted_words (take 1496 (take (chunk_len inp) inp)) = counted_words (take (chunk_len inp) inp)"
proof (cases "chunk_len inp = CHUNK_MAX_SIZE")
  case False
  then have "chunk_len inp \<le> 1496"
    using chunk_len_bounds [OF assms] by (simp add: CHUNK_MAX_SIZE_def)
  then show ?thesis by (simp add: min_def)
next
  case True
  let ?c = "take (chunk_len inp) inp"
  have len: "length ?c = 1497"
    using True chunk_len_bounds [OF assms] by (simp add: CHUNK_MAX_SIZE_def)
  then have c: "take 1496 ?c @ [last ?c] = ?c" by (intro take_last_snoc) simp
  from chunk_last [OF assms] True have "list_all is_alpha ?c \<or> \<not> is_alpha (last ?c)" by auto
  then show ?thesis
  proof
    assume all: "list_all is_alpha ?c"
    then have "list_all is_alpha (take 1496 ?c)" by (rule list_all_take)
    then have "counted_words (take 1496 ?c) = [take WORD_CAP (lower (take 1496 ?c))]"
      using len by (intro counted_words_letters) auto
    moreover have "counted_words ?c = [take WORD_CAP (lower ?c)]"
      using all len by (intro counted_words_letters) auto
    ultimately show ?thesis using True by (simp add: lower_take WORD_CAP_def CHUNK_MAX_SIZE_def)
  next
    assume "\<not> is_alpha (last ?c)"
    then have "counted_words (take 1496 ?c @ [last ?c]) = counted_words (take 1496 ?c) @ counted_words [last ?c]"
      by (intro counted_words_append) simp
    moreover have "counted_words [last ?c] = []"
      using \<open>\<not> is_alpha (last ?c)\<close> by (simp add: counted_words_alt letter_runs_skip)
    ultimately show ?thesis using c by simp
  qed
qed

lemma counted_words_sent_chunk: "c \<in> set (chunks inp) \<Longrightarrow> counted_words (take 1496 c) = counted_words c"
proof (induction inp rule: chunks.induct)
  case (1 inp)
  then show ?case using counted_words_first_chunk [of inp]
    by (cases "inp = []") (auto simp: chunks.simps [of inp])
qed

subsection \<open>Properties\<close>

text \<open>
  The loop \<open>while (chunker_next(&c, &chunk) == 1)\<close> of the caller, with fuel: the chunks it sees and the
  status that ended it (\<open>None\<close> without fuel).
\<close>

fun drain :: "nat \<Rightarrow> chunker \<Rightarrow> char list list \<times> int option" where
  "drain 0 c = ([], None)"
| "drain (Suc fuel) c =
     (case chunker_next c of
        (r, Some t, c') \<Rightarrow>
          (if r = 1 then (let (ts, status) = drain fuel c' in (t # ts, status)) else ([], Some r))
      | (r, None, c') \<Rightarrow> ([], Some r))"

lemma drain_chunks:
  "ck_file c = Some inp \<Longrightarrow> length inp < fuel \<Longrightarrow> drain fuel c = (chunks inp, Some 0)"
proof (induction inp arbitrary: c fuel rule: chunks.induct)
  case (1 inp)
  then obtain f where f: "fuel = Suc f" by (cases fuel) auto
  show ?case
  proof (cases "inp = []")
    case True
    with "1.prems" f show ?thesis by (simp add: chunker_next_eof)
  next
    case False
    have "length (drop (chunk_len inp) inp) < f"
      using chunk_len_bounds [OF False] "1.prems"(2) f by (simp, linarith)
    with "1.IH" [OF False, of "c\<lparr>ck_file := Some (drop (chunk_len inp) inp)\<rparr>" f] show ?thesis
      using chunker_next_Some [OF "1.prems"(1) False] False f by (simp add: chunks.simps [of inp])
  qed
qed

text \<open>C26: Reading a file to its end with \<open>chunker_next\<close> terminates after at most one call per byte
  and one more, with the status for the end of the file; the chunks, in order, are the file, none
  is empty or longer than 1497 bytes, and if no run of letters is as long as a chunk, the words of
  the chunks are the words of the file: no word is cut.\<close>

theorem chunker_splits_between_words:
  assumes "chunker_init (Some inp) = (status, c)"
  shows "\<exists>ts. drain (Suc (length inp)) c = (ts, Some 0) \<and> concat ts = inp
    \<and> (\<forall>t \<in> set ts. t \<noteq> [] \<and> length t \<le> CHUNK_MAX_SIZE)
    \<and> (short_runs inp \<longrightarrow> concat (map words_of ts) = words_of inp)"
proof -
  have "ck_file c = Some inp" using assms by (auto simp: chunker_init_def)
  from drain_chunks [OF this, of "Suc (length inp)"] show ?thesis
    using concat_chunks [of inp] chunks_bound [of _ inp] words_of_chunks [of inp] by auto
qed

lemma chunker_splits_between_words_witness:
  "\<exists>ts. drain 9 \<lparr>ck_file = Some ''to be or''\<rparr> = (ts, Some 0) \<and> concat (map words_of ts) = [''to'', ''be'', ''or'']"
proof -
  have w: "words_of ''to be or'' = [''to'', ''be'', ''or'']" by code_simp
  have "short_runs ''to be or''" by code_simp
  moreover have "Suc (length ''to be or'') = 9" and
    "chunker_init (Some ''to be or'') = (0, \<lparr>ck_file = Some ''to be or''\<rparr>)" by (simp_all add: chunker_init_def)
  ultimately show ?thesis
    using chunker_splits_between_words [of "''to be or''" 0 "\<lparr>ck_file = Some ''to be or''\<rparr>"] w by metis
qed

end
