(* ===== verification/Combine.thy ===== *)
theory Combine
  imports Word_Count
begin

section \<open>Combining the reduced counts (mapreduce-wordcount/combine.c)\<close>

text \<open>
  \<open>entry_t\<close>: a word and a \<open>long\<close>, 64 bits wide.  The array \<open>entries\<close> with its length \<open>len\<close> is a
  list; its capacity \<open>cap\<close> only decides when \<open>realloc\<close> is called.
\<close>

datatype entry = Entry (en_word: string) (en_count: i64)

definition cmp_by_count_desc_word_asc :: "entry \<Rightarrow> entry \<Rightarrow> int" where
  "cmp_by_count_desc_word_asc ea eb =
     (if sint (en_count ea) < sint (en_count eb) then 1
      else if sint (en_count eb) < sint (en_count ea) then -1
      else strcmp (en_word ea) (en_word eb))"

text \<open>\<open>entries[i].word\<close> equal to \<open>word\<close>, the first such \<open>i\<close>.\<close>

fun entry_index :: "entry list \<Rightarrow> string \<Rightarrow> nat option" where
  "entry_index [] word = None"
| "entry_index (e # es) word =
     (if strcmp (en_word e) word = 0 then Some 0 else map_option Suc (entry_index es word))"

text \<open>
  Adding a count to the array; a new word may need a larger array first (\<open>None\<close>: the function
  returns because \<open>realloc\<close> failed).
\<close>

definition accumulate ::
  "alloc \<Rightarrow> nat \<Rightarrow> entry list \<Rightarrow> string \<Rightarrow> i64 \<Rightarrow> (alloc \<times> nat \<times> entry list) option" where
  "accumulate a cap es word cnt =
     (case entry_index es word of
        Some i \<Rightarrow> Some (a, cap, es[i := Entry (en_word (es ! i)) (en_count (es ! i) + cnt)])
      | None \<Rightarrow>
          (if length es = cap
           then (let (ok, a') = malloc a
                 in if ok then Some (a', cap * 2, es @ [Entry word cnt]) else None)
           else Some (a, cap, es @ [Entry word cnt])))"

definition read_count :: "string \<Rightarrow> i64" where
  "read_count digits = foldl (\<lambda>cnt c. cnt * 10 + of_nat (byte c - byte (CHR ''0''))) 0 digits"

lemma combine_shorter:
  assumes "dropWhile (\<lambda>c. \<not> is_alpha c) p \<noteq> []"
  shows "length (dropWhile is_digit (dropWhile is_alpha (dropWhile (\<lambda>c. \<not> is_alpha c) p))) < length p"
proof -
  let ?p1 = "dropWhile (\<lambda>c. \<not> is_alpha c) p"
  have "is_alpha (hd ?p1)" using hd_dropWhile [OF assms] by simp
  then have "length (dropWhile is_alpha ?p1) < length ?p1"
    using assms by (cases ?p1) (auto intro: le_imp_less_Suc length_dropWhile_le)
  moreover have "length (dropWhile is_digit (dropWhile is_alpha ?p1)) \<le> length (dropWhile is_alpha ?p1)"
    by (rule length_dropWhile_le)
  moreover have "length ?p1 \<le> length p" by (rule length_dropWhile_le)
  ultimately show ?thesis by linarith
qed

text \<open>The parsing loop: \<open>None\<close> where the function returns, the array where the loop ends.\<close>

function combine_parse :: "alloc \<Rightarrow> nat \<Rightarrow> string \<Rightarrow> entry list \<Rightarrow> entry list option" where
  "combine_parse a cap p es =
     (let p1 = dropWhile (\<lambda>c. \<not> is_alpha c) p in
      if p1 = [] then Some es
      else (let word = takeWhile is_alpha p1; p2 = dropWhile is_alpha p1; (ok, a1) = malloc a in
        if \<not> ok then Some es
        else (let digits = takeWhile is_digit p2; p3 = dropWhile is_digit p2 in
          if digits = [] then combine_parse a1 cap p3 es
          else (case accumulate a1 cap es word (read_count digits) of
              None \<Rightarrow> None
            | Some (a2, cap2, es2) \<Rightarrow> combine_parse a2 cap2 p3 es2))))"
  by pat_completeness auto

termination
  by (relation "measure (\<lambda>(a, cap, p, es). length p)") (auto simp: combine_shorter)

declare combine_parse.simps [simp del]

text \<open>
  \<open>qsort\<close> of the C library with a comparison function: any algorithm that sorts; which one does
  not matter, since no two entries compare equal (\<open>sort_unique\<close> below).
\<close>

fun qsort_insert :: "('e \<Rightarrow> 'e \<Rightarrow> int) \<Rightarrow> 'e \<Rightarrow> 'e list \<Rightarrow> 'e list" where
  "qsort_insert cmp x [] = [x]"
| "qsort_insert cmp x (y # ys) = (if cmp x y \<le> 0 then x # y # ys else y # qsort_insert cmp x ys)"

fun qsort :: "('e \<Rightarrow> 'e \<Rightarrow> int) \<Rightarrow> 'e list \<Rightarrow> 'e list" where
  "qsort cmp [] = []"
| "qsort cmp (x # xs) = qsort_insert cmp x (qsort cmp xs)"

definition csv_line :: "entry \<Rightarrow> string" where
  "csv_line e = en_word e @ '','' @ int_decimal (sint (en_count e)) @ [LF]"

definition csv_header :: string where
  "csv_header = ''word,frequency'' @ [LF]"

text \<open>What the function writes to the standard output.\<close>

definition combine_and_print :: "alloc \<Rightarrow> string option \<Rightarrow> string" where
  "combine_and_print a reduce_data =
     (case reduce_data of None \<Rightarrow> []
      | Some data \<Rightarrow>
         (if data = [] then []
          else (let (ok, a1) = malloc a in
            if \<not> ok then []
            else (case combine_parse a1 128 data [] of
                None \<Rightarrow> []
              | Some es \<Rightarrow>
                  csv_header @ concat (map csv_line (qsort cmp_by_count_desc_word_asc es))))))"

subsection \<open>The comparison is a linear order\<close>

instantiation entry :: linorder
begin

definition less_eq_entry :: "entry \<Rightarrow> entry \<Rightarrow> bool" where
  "a \<le> b \<longleftrightarrow> cmp_by_count_desc_word_asc a b \<le> 0"

definition less_entry :: "entry \<Rightarrow> entry \<Rightarrow> bool" where
  "a < b \<longleftrightarrow> cmp_by_count_desc_word_asc a b < 0"

instance
proof
  fix x y z :: entry
  note defs = less_eq_entry_def less_entry_def cmp_by_count_desc_word_asc_def
  show "(x < y) = (x \<le> y \<and> \<not> y \<le> x)"
    using strcmp_swap [of "en_word y" "en_word x"] by (auto simp: defs)
  show "x \<le> x" by (simp add: defs)
  show "x \<le> y \<or> y \<le> x"
    using strcmp_swap [of "en_word y" "en_word x"] by (auto simp: defs)
  show "x = y" if "x \<le> y" "y \<le> x"
    using that strcmp_swap [of "en_word y" "en_word x"]
    by (cases x; cases y) (auto simp: defs intro: signed_word_eqI split: if_splits)
  show "x \<le> z" if "x \<le> y" "y \<le> z"
  proof -
    have "strcmp (en_word x) (en_word z) \<le> 0"
      if "strcmp (en_word x) (en_word y) \<le> 0" "strcmp (en_word y) (en_word z) \<le> 0"
      using that strcmp_less_trans [of "en_word x" "en_word y" "en_word z"]
      by (auto simp: order_le_less)
    then show ?thesis using that by (auto simp: defs split: if_splits)
  qed
qed

end

lemma qsort_insert_insort: "qsort_insert cmp_by_count_desc_word_asc x ys = insort x ys"
  by (induction ys) (auto simp: less_eq_entry_def)

lemma qsort_sort: "qsort cmp_by_count_desc_word_asc es = sort es"
  by (induction es) (simp_all add: qsort_insert_insort)

text \<open>Any sorted arrangement of the entries is the one that is printed.\<close>

lemma sort_unique:
  "mset xs = mset es \<Longrightarrow> sorted_wrt (\<lambda>a b. cmp_by_count_desc_word_asc a b \<le> 0) xs \<Longrightarrow>
    qsort cmp_by_count_desc_word_asc es = xs"
  by (simp add: qsort_sort properties_for_sort sorted_wrt_iff_nth_less flip: less_eq_entry_def)

text \<open>The order of the output, without reference to the code: larger counts first, then the words in order.\<close>

definition printed_before :: "entry \<Rightarrow> entry \<Rightarrow> bool" where
  "printed_before x y \<longleftrightarrow> sint (en_count y) < sint (en_count x)
     \<or> en_count x = en_count y \<and> strcmp (en_word x) (en_word y) < 0"

lemma cmp_negative: "cmp_by_count_desc_word_asc x y < 0 \<longleftrightarrow> printed_before x y"
  by (auto simp: cmp_by_count_desc_word_asc_def printed_before_def intro: signed_word_eqI)

lemma sort_printed_before: "distinct es \<Longrightarrow> sorted_wrt printed_before (sort es)"
proof -
  assume "distinct es"
  then have "sorted_wrt (<) (sort es)" by (simp add: strict_sorted_iff)
  then show ?thesis by (simp add: less_entry_def [abs_def] cmp_negative)
qed

subsection \<open>The totals\<close>

definition en_lookup :: "entry list \<Rightarrow> string \<rightharpoonup> i64" where
  "en_lookup es = map_of (map (\<lambda>e. (en_word e, en_count e)) es)"

text \<open>The array after a count is added, where no allocation fails.\<close>

definition add_total :: "string \<times> i32 \<Rightarrow> entry list \<Rightarrow> entry list" where
  "add_total e es =
     (case entry_index es (fst e) of
        Some i \<Rightarrow> es[i := Entry (en_word (es ! i)) (en_count (es ! i) + of_nat (unat (snd e)))]
      | None \<Rightarrow> es @ [Entry (fst e) (of_nat (unat (snd e)))])"

lemma entry_index_None: "entry_index es w = None \<longleftrightarrow> w \<notin> en_word ` set es"
  by (induction es) auto

lemma entry_index_Some: "entry_index es w = Some i \<Longrightarrow> i < length es \<and> en_word (es ! i) = w"
  by (induction es arbitrary: i) (auto split: if_splits)

lemma en_lookup_simps [simp]:
  "en_lookup [] = Map.empty"
  "en_lookup (e # es) = (en_lookup es)(en_word e \<mapsto> en_count e)"
  by (simp_all add: en_lookup_def)

lemma en_lookup_append: "en_lookup (xs @ ys) = en_lookup ys ++ en_lookup xs"
  by (simp add: en_lookup_def)

lemma en_lookup_None: "en_lookup es w = None \<longleftrightarrow> w \<notin> en_word ` set es"
  by (induction es) auto

lemma en_lookup_index: "entry_index es w = Some i \<Longrightarrow> en_lookup es w = Some (en_count (es ! i))"
  by (induction es arbitrary: i) (auto split: if_splits)

lemma en_lookup_mem:
  "distinct (map en_word es) \<Longrightarrow> e \<in> set es \<longleftrightarrow> en_lookup es (en_word e) = Some (en_count e)"
proof (induction es)
  case (Cons x es)
  have "en_lookup es (en_word x) = None" using Cons.prems by (simp add: en_lookup_None)
  with Cons show ?case by (cases "en_word x = en_word e") (auto intro: entry.expand)
qed simp

lemma en_lookup_write:
  "entry_index es w = Some i \<Longrightarrow> en_lookup (es[i := Entry (en_word (es ! i)) c]) = (en_lookup es)(w \<mapsto> c)"
proof (induction es arbitrary: i)
  case (Cons e es)
  then show ?case by (auto simp: fun_upd_twist split: if_splits)
qed simp

lemma en_lookup_add_total:
  "en_lookup (add_total e es) = (en_lookup es)(fst e \<mapsto>
     (case en_lookup es (fst e) of None \<Rightarrow> 0 | Some c \<Rightarrow> c) + of_nat (unat (snd e)))"
proof (cases "entry_index es (fst e)")
  case None
  then have none: "en_lookup es (fst e) = None" by (simp add: entry_index_None en_lookup_None)
  show ?thesis
  proof
    fix x
    show "en_lookup (add_total e es) x = ((en_lookup es)(fst e \<mapsto>
      (case en_lookup es (fst e) of None \<Rightarrow> 0 | Some c \<Rightarrow> c) + of_nat (unat (snd e)))) x"
      using None none
      by (cases "en_lookup es x") (auto simp: add_total_def en_lookup_append map_add_def)
  qed
next
  case (Some i)
  then show ?thesis
    by (simp add: add_total_def en_lookup_write [OF Some] en_lookup_index [OF Some])
qed

lemma map_word_write:
  "i < length es \<Longrightarrow> map en_word (es[i := Entry (en_word (es ! i)) c]) = map en_word es"
  by (simp add: map_update list_update_same_conv)

lemma distinct_add_total:
  assumes "distinct (map en_word es)" shows "distinct (map en_word (add_total e es))"
proof (cases "entry_index es (fst e)")
  case None
  then have "fst e \<notin> en_word ` set es" by (simp add: entry_index_None)
  with assms None show ?thesis by (simp add: add_total_def)
next
  case (Some i)
  then have "i < length es" by (simp add: entry_index_Some)
  from assms show ?thesis
    unfolding add_total_def Some option.case map_word_write [OF \<open>i < length es\<close>] .
qed

lemma distinct_totals:
  "distinct (map en_word es) \<Longrightarrow> distinct (map en_word (fold add_total fs es))"
  by (induction fs arbitrary: es) (auto simp: distinct_add_total)

definition total_of :: "(string \<times> i32) list \<Rightarrow> string \<Rightarrow> nat" where
  "total_of fs w = sum_list (map (\<lambda>e. unat (snd e)) (filter (\<lambda>e. fst e = w) fs))"

lemma total_of_absent: "w \<notin> fst ` set fs \<Longrightarrow> total_of fs w = 0"
  by (induction fs) (auto simp: total_of_def)

lemma total_of_Cons:
  "total_of (e # fs) w = (if fst e = w then unat (snd e) else 0) + total_of fs w"
  by (simp add: total_of_def)

lemma en_lookup_totals:
  "en_lookup (fold add_total fs es) w =
     (if w \<in> fst ` set fs
      then Some ((case en_lookup es w of None \<Rightarrow> 0 | Some c \<Rightarrow> c) + of_nat (total_of fs w))
      else en_lookup es w)"
proof (induction fs arbitrary: es)
  case (Cons e fs)
  from Cons.IH [of "add_total e es"] show ?case
    by (cases "w \<in> fst ` set fs")
      (auto simp: en_lookup_add_total total_of_Cons total_of_absent add.assoc)
qed simp

subsection \<open>Reading the reduce format\<close>

lemma read_count_dec: "read_count ds = of_nat (dec_value 0 ds)"
proof -
  have "foldl (\<lambda>cnt c. cnt * 10 + of_nat (byte c - byte (CHR ''0''))) (of_nat n) ds = (of_nat (dec_value n ds) :: i64)"
    for n
  proof (induction ds arbitrary: n)
    case (Cons d ds)
    from Cons.IH [of "n * 10 + (byte d - 48)"] show ?case by simp
  qed simp
  from this [of 0] show ?thesis by (simp add: read_count_def)
qed

lemma accumulate_plenty:
  assumes "plenty a"
  shows "\<exists>a' cap'. accumulate a cap es w (of_nat (unat c)) = Some (a', cap', add_total (w, c) es) \<and> plenty a'"
  using assms by (auto simp: accumulate_def add_total_def split: option.splits)

lemma combine_parse_entry:
  assumes "plenty a" and "valid_entry e" and "rest = [] \<or> is_alpha (hd rest)"
  shows "\<exists>a' cap'. plenty a' \<and>
    combine_parse a cap (reduce_entry e @ rest) es = combine_parse a' cap' rest (add_total e es)"
proof -
  obtain w c where e: "e = (w, c)" by (cases e)
  let ?d = "decimal (unat c)"
  from assms(2) e have w: "w \<noteq> []" "list_all is_alpha w" by (simp_all add: valid_entry_def valid_word_def)
  have p: "reduce_entry e @ rest = w @ ?d @ rest" by (simp add: e reduce_entry_def)
  have "is_digit (hd ?d)" using decimal_digits [of "unat c"] by (cases ?d) auto
  then have da: "\<not> is_alpha (hd (?d @ rest))" by (simp add: digit_not_alpha)
  have p1: "dropWhile (\<lambda>c. \<not> is_alpha c) (w @ ?d @ rest) = w @ ?d @ rest"
    using w by (cases w) auto
  have p2: "takeWhile is_alpha (w @ ?d @ rest) = w" "dropWhile is_alpha (w @ ?d @ rest) = ?d @ rest"
    using da by (cases ?d; simp add: takeWhile_append_all [OF w(2)] dropWhile_append_all [OF w(2)])+
  have rd: "takeWhile is_digit rest = []" "dropWhile is_digit rest = rest"
    using assms(3) digit_not_alpha by (cases rest; auto)+
  have p3: "takeWhile is_digit (?d @ rest) = ?d" "dropWhile is_digit (?d @ rest) = rest"
    by (simp_all add: takeWhile_append_all [OF decimal_digits] dropWhile_append_all [OF decimal_digits] rd)
  from accumulate_plenty [OF plenty_tl [OF assms(1)], of cap es w c] obtain a' cap' where
    acc: "accumulate (tl a) cap es w (of_nat (unat c)) = Some (a', cap', add_total (w, c) es)" "plenty a'"
    by blast
  have "combine_parse a cap (w @ ?d @ rest) es = combine_parse a' cap' rest (add_total e es)"
    using assms(1) w(1) acc
    by (subst combine_parse.simps)
      (simp add: p1 p2 p3 Let_def read_count_dec dec_value_decimal e)
  with acc(2) p show ?thesis by auto
qed

lemma combine_parse_Nil: "combine_parse a cap [] es = Some es"
  by (subst combine_parse.simps) simp

lemma combine_parse_entries:
  assumes "plenty a" and "\<forall>e \<in> set fs. valid_entry e"
  shows "combine_parse a cap (concat (map reduce_entry fs)) es = Some (fold add_total fs es)"
  using assms
proof (induction fs arbitrary: a cap es)
  case Nil
  then show ?case by (simp add: combine_parse_Nil)
next
  case (Cons e fs)
  let ?rest = "concat (map reduce_entry fs)"
  have "?rest = [] \<or> is_alpha (hd ?rest)"
  proof (cases fs)
    case (Cons f gs)
    with Cons.prems have "fst f \<noteq> []" "list_all is_alpha (fst f)"
      by (simp_all add: valid_entry_def valid_word_def)
    then show ?thesis using Cons by (cases "fst f") (auto simp: reduce_entry_def)
  qed simp
  with Cons.prems combine_parse_entry [of a e ?rest cap es] obtain a' cap' where
    "plenty a'" "combine_parse a cap (reduce_entry e @ ?rest) es
      = combine_parse a' cap' ?rest (add_total e es)" by auto
  with Cons.IH [of a' cap' "add_total e es"] Cons.prems show ?case by simp
qed

text \<open>The table that is printed for a list of words: most frequent first, then alphabetical.\<close>

definition frequency_table :: "string list \<Rightarrow> entry list" where
  "frequency_table ws = sort (map (\<lambda>w. Entry w (of_nat (count_list ws w))) (remdups ws))"

lemma totals_frequency:
  assumes "\<And>w. w \<in> fst ` set fs \<longleftrightarrow> w \<in> set ws" and "\<And>w. total_of fs w = count_list ws w"
  shows "qsort cmp_by_count_desc_word_asc (fold add_total fs []) = frequency_table ws"
proof -
  let ?es = "fold add_total fs []"
  let ?fs = "map (\<lambda>w. Entry w (of_nat (count_list ws w))) (remdups ws)"
  have d: "distinct (map en_word ?es)" by (rule distinct_totals) simp
  have look: "en_lookup ?es w = (if w \<in> set ws then Some (of_nat (count_list ws w)) else None)" for w
    by (simp add: en_lookup_totals assms)
  have mem: "e \<in> set ?es \<longleftrightarrow> en_lookup ?es (en_word e) = Some (en_count e)" for e
    using d by (rule en_lookup_mem)
  have "e \<in> set ?es \<longleftrightarrow> e \<in> set ?fs" for e
    by (cases e) (auto simp: mem look)
  then have "set ?es = set ?fs" by blast
  moreover have "distinct ?es" using d by (simp add: distinct_map)
  moreover have "distinct ?fs" by (simp add: distinct_map inj_on_def)
  ultimately have "mset ?es = mset ?fs" using set_eq_iff_mset_eq_distinct by blast
  then show ?thesis
    unfolding qsort_sort frequency_table_def by (simp only: sorted_list_of_multiset_mset [symmetric])
qed

subsection \<open>Properties\<close>

text \<open>C33: Combining the concatenated reduce replies prints, under the header, one line per word with
  the sum of its counts, ordered by decreasing count and then by the word; and that order does not
  depend on the sorting algorithm, because the comparison never ties.\<close>

theorem combine_prints_sorted_totals:
  assumes "plenty a" and "fs \<noteq> []" and "\<forall>e \<in> set fs. valid_entry e"
  shows "\<exists>es. combine_and_print a (Some (concat (map reduce_entry fs))) = csv_header @ concat (map csv_line es)
    \<and> distinct (map en_word es) \<and> en_word ` set es = fst ` set fs
    \<and> (\<forall>e \<in> set es. en_count e = of_nat (total_of fs (en_word e)))
    \<and> sorted_wrt printed_before es
    \<and> (\<forall>xs. mset xs = mset es \<longrightarrow> sorted_wrt (\<lambda>x y. cmp_by_count_desc_word_asc x y \<le> 0) xs \<longrightarrow> xs = es)"
proof -
  let ?t = "fold add_total fs []"
  let ?es = "qsort cmp_by_count_desc_word_asc ?t"
  have nonempty: "concat (map reduce_entry fs) \<noteq> []"
    using assms(2,3) by (cases fs) (auto simp: reduce_entry_def valid_entry_def valid_word_def)
  have out: "combine_and_print a (Some (concat (map reduce_entry fs))) = csv_header @ concat (map csv_line ?es)"
    using combine_parse_entries [OF plenty_tl [OF assms(1)] assms(3)] nonempty assms(1)
    by (simp add: combine_and_print_def del: concat_eq_Nil_conv)
  have d: "distinct (map en_word ?t)" by (rule distinct_totals) simp
  have set: "set ?es = set ?t" and ms: "mset ?es = mset ?t" by (simp_all add: qsort_sort)
  have look: "en_lookup ?t w = (if w \<in> fst ` set fs then Some (of_nat (total_of fs w)) else None)" for w
    by (simp add: en_lookup_totals)
  have words: "en_word ` set ?es = fst ` set fs"
    unfolding set using look en_lookup_None [of ?t] by (metis (no_types, lifting) option.distinct(1) set_eqI)
  have counts: "\<forall>e \<in> set ?es. en_count e = of_nat (total_of fs (en_word e))"
    unfolding set using en_lookup_mem [OF d] look by (metis option.distinct(1) option.inject)
  have dist: "distinct (map en_word ?es)"
    using d ms by (metis distinct_map mset_eq_imp_distinct_iff set_mset_mset mset_map)
  then have "distinct ?es" by (simp add: distinct_map)
  then have "sorted_wrt printed_before ?es"
    using sort_printed_before [of ?t] by (simp add: qsort_sort)
  moreover have "xs = ?es" if "mset xs = mset ?es"
    and "sorted_wrt (\<lambda>x y. cmp_by_count_desc_word_asc x y \<le> 0) xs" for xs
    using sort_unique [of xs ?t] that ms by simp
  ultimately show ?thesis using out dist words counts by blast
qed

lemma combine_prints_sorted_totals_witness:
  "\<exists>es. combine_and_print [] (Some (concat (map reduce_entry [(''be'', 1), (''be'', 2)])))
      = csv_header @ concat (map csv_line es) \<and> en_word ` set es = {''be''}"
proof -
  have "lower ''be'' = ''be''" and "is_alpha (CHR ''b'')" "is_alpha (CHR ''e'')" by code_simp+
  then have v: "\<forall>e \<in> set [(''be'', 1 :: i32), (''be'', 2)]. valid_entry e"
    by (simp add: valid_entry_def valid_word_def WORD_CAP_def)
  from combine_prints_sorted_totals [OF plenty_Nil _ v] show ?thesis by auto
qed

end
