(* ===== verification/Distributor.thy ===== *)
theory Distributor
  imports Worker Chunker Combine
begin

section \<open>The distributor (mapreduce-wordcount/zmq\_distributor.c)\<close>

text \<open>
  ZeroMQ is a parameter: \<open>net k i request\<close> is what the \<open>k\<close>-th exchange of the run brings back from
  the worker \<open>i\<close> (\<open>None\<close> where \<open>zmq_recv\<close> fails).  Like the worker, the distributor terminates the
  reply at the length \<open>zmq_recv\<close> returned, which overruns its buffer for a reply that was cut off
  (\<open>Reply_overrun\<close>).  \<open>Exit_failure\<close> is \<open>exit(EXIT_FAILURE)\<close> or a return with that status.
\<close>

type_synonym network = "nat \<Rightarrow> nat \<Rightarrow> char list \<Rightarrow> char list option"

datatype dist_error = Exit_failure | Reply_overrun

definition PAYLOAD_MAX :: nat where
  "PAYLOAD_MAX = MAX_MSG_LEN - HEADER_LEN - 1"

subsection \<open>Splitting between two entries\<close>

fun find_split_from :: "char list \<Rightarrow> nat \<Rightarrow> nat option" where
  "find_split_from data 0 = None"
| "find_split_from data (Suc i) =
     (if is_digit (data ! i) \<and> is_alpha (data ! Suc i) then Some (Suc i) else find_split_from data i)"

definition find_safe_split :: "char list \<Rightarrow> nat \<Rightarrow> nat" where
  "find_safe_split data max_len =
     (if max_len = 0 then 0
      else (case find_split_from data max_len of Some i \<Rightarrow> i | None \<Rightarrow> max_len))"

subsection \<open>The message with a length field\<close>

text \<open>
  \<open>build_msg\<close>: the bytes it writes to \<open>out\<close>, whose number is what it returns.  The three digits
  are those of \<open>msg_len\<close> modulo 1000.
\<close>

definition build_msg :: "string \<Rightarrow> int \<Rightarrow> string option \<Rightarrow> char list" where
  "build_msg type msg_len payload =
     (let m = (if msg_len \<le> 0 \<or> int MAX_MSG_LEN < msg_len then MAX_MSG_LEN else nat msg_len);
          digits = [digit_char (m div 100 mod 10), digit_char (m div 10 mod 10), digit_char (m mod 10)];
          max_payload = (if int m - int HEADER_LEN - 1 < 1 then 1 else m - HEADER_LEN - 1)
      in take 3 type @ digits
         @ (case payload of None \<Rightarrow> [] | Some p \<Rightarrow> take max_payload p) @ [NUL])"

subsection \<open>The growing buffer\<close>

record buffer =
  bf_data :: string
  bf_cap :: nat

definition buffer_init :: "alloc \<Rightarrow> (buffer \<times> alloc) option" where
  "buffer_init a =
     (let (ok, a') = malloc a in if ok then Some (\<lparr>bf_data = [], bf_cap = 4096\<rparr>, a') else None)"

text \<open>
  The doubling loop; \<open>None\<close> where the program exits.  A capacity of 0 (a freed buffer) stays 0, and
  \<open>realloc\<close> to 0 bytes returns NULL.
\<close>

function buffer_grow :: "alloc \<Rightarrow> nat \<Rightarrow> nat \<Rightarrow> (nat \<times> alloc) option" where
  "buffer_grow a cap need =
     (if need \<le> cap then Some (cap, a)
      else if cap = 0 then None
      else (let (ok, a') = malloc a in if ok then buffer_grow a' (cap * 2) need else None))"
  by pat_completeness auto
termination
  by (relation "measure (\<lambda>(a, cap, need). need - cap)") auto

declare buffer_grow.simps [simp del]

definition buffer_append :: "alloc \<Rightarrow> buffer \<Rightarrow> string \<Rightarrow> (buffer \<times> alloc) option" where
  "buffer_append a b s =
     (case buffer_grow a (bf_cap b) (length (bf_data b) + length s + 1) of
        None \<Rightarrow> None
      | Some (cap, a') \<Rightarrow> Some (\<lparr>bf_data = bf_data b @ s, bf_cap = cap\<rparr>, a'))"

definition buffer_free :: "buffer \<Rightarrow> buffer" where
  "buffer_free b = \<lparr>bf_data = [], bf_cap = 0\<rparr>"

subsection \<open>The two phases\<close>

text \<open>What is done with the outcome of \<open>zmq_recv\<close>.\<close>

definition absorb_reply ::
  "alloc \<Rightarrow> buffer \<Rightarrow> char list option \<Rightarrow> dist_error + (buffer \<times> alloc)" where
  "absorb_reply a b reply =
     (case reply of None \<Rightarrow> Inr (b, a)
      | Some r \<Rightarrow>
         (if length r = 0 then Inr (b, a)
          else if MAX_MSG_LEN \<le> length r then Inl Reply_overrun
          else (case buffer_append a b (c_str r) of None \<Rightarrow> Inl Exit_failure | Some ba \<Rightarrow> Inr ba)))"

definition map_message :: "char list \<Rightarrow> char list" where
  "map_message chunk = snprintf_kept MAX_MSG_LEN (''map'' @ c_str chunk) @ [NUL]"

definition red_message :: "char list \<Rightarrow> char list" where
  "red_message payload = snprintf_kept MAX_MSG_LEN (''red'' @ c_str payload) @ [NUL]"

definition unread :: "chunker \<Rightarrow> nat" where
  "unread c = (case ck_file c of None \<Rightarrow> 0 | Some inp \<Rightarrow> length inp)"

lemma chunker_next_unread: "chunker_next c = (1, chunk, c') \<Longrightarrow> unread c' < unread c"
proof -
  assume next1: "chunker_next c = (1, chunk, c')"
  then obtain inp where inp: "ck_file c = Some inp"
    by (cases "ck_file c") (auto simp: chunker_next_def)
  with next1 have "inp \<noteq> []" using chunker_next_eof [of c] by auto
  from chunker_next_Some [OF inp this] chunk_len_bounds [OF this] next1 inp \<open>inp \<noteq> []\<close>
  show ?thesis by (auto simp: unread_def)
qed

function map_phase ::
  "network \<Rightarrow> nat \<Rightarrow> alloc \<Rightarrow> chunker \<Rightarrow> nat \<Rightarrow> nat \<Rightarrow> buffer
    \<Rightarrow> dist_error + (buffer \<times> chunker \<times> nat \<times> alloc)"
where
  "map_phase net workers a c k idx results =
     (let (r, chunk, c') = chunker_next c in
      if r \<noteq> 1 then Inr (results, c', k, a)
      else (case chunk of None \<Rightarrow> Inr (results, c', k, a)
        | Some t \<Rightarrow>
           (case absorb_reply a results (net k idx (map_message t)) of
              Inl e \<Rightarrow> Inl e
            | Inr (results', a') \<Rightarrow>
                map_phase net workers a' c' (Suc k) (Suc idx mod workers) results')))"
  by pat_completeness auto
termination
  by (relation "measure (\<lambda>(net, workers, a, c, k, idx, results). unread c)")
    (auto dest: sym [THEN chunker_next_unread])

declare map_phase.simps [simp del]

text \<open>The length of the next reduce payload.\<close>

definition reduce_len :: "char list \<Rightarrow> nat" where
  "reduce_len data =
     (let remaining = length data;
          to_copy = (if remaining > PAYLOAD_MAX then PAYLOAD_MAX else remaining)
      in if remaining > PAYLOAD_MAX
         then (let safe = find_safe_split data to_copy
               in if 0 < safe \<and> safe < to_copy then safe else to_copy)
         else to_copy)"

lemma reduce_len_pos: "data \<noteq> [] \<Longrightarrow> 0 < reduce_len data"
  by (simp add: reduce_len_def Let_def PAYLOAD_MAX_def MAX_MSG_LEN_def HEADER_LEN_def)

text \<open>The loop over \<open>offset\<close>; \<open>data\<close> is what is left from there on.\<close>

function reduce_phase ::
  "network \<Rightarrow> nat \<Rightarrow> alloc \<Rightarrow> char list \<Rightarrow> nat \<Rightarrow> nat \<Rightarrow> buffer
    \<Rightarrow> dist_error + (buffer \<times> nat \<times> alloc)"
where
  "reduce_phase net workers a data k idx results =
     (if data = [] then Inr (results, k, a)
      else (case absorb_reply a results (net k idx (red_message (take (reduce_len data) data))) of
          Inl e \<Rightarrow> Inl e
        | Inr (results', a') \<Rightarrow>
            reduce_phase net workers a' (drop (reduce_len data) data) (Suc k) (Suc idx mod workers)
              results'))"
  by pat_completeness auto
termination
  by (relation "measure (\<lambda>(net, workers, a, data, k, idx, results). length data)")
    (auto simp: reduce_len_pos)

declare reduce_phase.simps [simp del]

definition distributor_send_rip :: "nat \<Rightarrow> (nat \<times> char list) list" where
  "distributor_send_rip worker_count = map (\<lambda>i. (i, ''rip'' @ [NUL])) [0..<worker_count]"

text \<open>
  \<open>main\<close>, once the sockets are connected: the standard output and the requests of the shutdown.
  \<open>workers\<close> is the number of ports on the command line, \<open>contents\<close> the input file, \<open>None\<close> if it
  cannot be opened.
\<close>

definition distributor_main ::
  "network \<Rightarrow> nat \<Rightarrow> alloc \<Rightarrow> char list option \<Rightarrow> dist_error + (string \<times> (nat \<times> char list) list)"
where
  "distributor_main net workers a contents =
     (if workers < 1 then Inl Exit_failure else
      let (status, c) = chunker_init contents in
      if status \<noteq> 0 then Inl Exit_failure
      else (case buffer_init a of None \<Rightarrow> Inl Exit_failure
        | Some (map_results, a1) \<Rightarrow>
      (case map_phase net workers a1 c 0 0 map_results of Inl e \<Rightarrow> Inl e
        | Inr (map_results', c', k, a2) \<Rightarrow>
      (case buffer_init a2 of None \<Rightarrow> Inl Exit_failure
        | Some (reduce_results, a3) \<Rightarrow>
      (case reduce_phase net workers a3 (bf_data map_results') k 0 reduce_results of Inl e \<Rightarrow> Inl e
        | Inr (reduce_results', k', a4) \<Rightarrow>
            Inr (combine_and_print a4 (Some (bf_data reduce_results')), distributor_send_rip workers))))))"

subsection \<open>Facts on the helpers\<close>

definition buffer_ok :: "buffer \<Rightarrow> bool" where
  "buffer_ok b \<longleftrightarrow> length (bf_data b) + 1 \<le> bf_cap b"

lemma buffer_grow_plenty:
  "plenty a \<Longrightarrow> 0 < cap \<Longrightarrow> \<exists>cap' a'. buffer_grow a cap need = Some (cap', a') \<and> plenty a'
    \<and> need \<le> cap' \<and> cap \<le> cap'"
proof (induction a cap need rule: buffer_grow.induct)
  case (1 a cap need)
  show ?case
  proof (cases "need \<le> cap")
    case True
    with "1.prems" show ?thesis by (simp add: buffer_grow.simps [of a cap need])
  next
    case False
    from "1.prems" have m: "malloc a = (True, tl a)" and "plenty (tl a)"
      by (simp_all add: malloc_plenty)
    from "1.IH" [OF False _ refl m [symmetric] TrueI] "1.prems" this(2)
    obtain cap' a' where "buffer_grow (tl a) (cap * 2) need = Some (cap', a')" "plenty a'"
      "need \<le> cap'" "cap * 2 \<le> cap'" by auto
    with "1.prems" False m show ?thesis by (simp add: buffer_grow.simps [of a cap need])
  qed
qed

lemma buffer_grow_power:
  "buffer_grow a cap need = Some (cap', a') \<Longrightarrow> \<exists>j. cap' = cap * 2 ^ j"
proof (induction a cap need rule: buffer_grow.induct)
  case (1 a cap need)
  show ?case
  proof (cases "need \<le> cap")
    case True
    with "1.prems" show ?thesis by (auto simp: buffer_grow.simps [of a cap need] intro: exI [of _ 0])
  next
    case False
    obtain ok a1 where m: "malloc a = (ok, a1)" by fastforce
    with "1.prems" False have "cap \<noteq> 0" and ok and "buffer_grow a1 (cap * 2) need = Some (cap', a')"
      by (auto simp: buffer_grow.simps [of a cap need] split: if_splits)
    with "1.IH" [OF False _ refl m [symmetric]] obtain j where "cap' = cap * 2 * 2 ^ j" by blast
    then show ?thesis by (intro exI [of _ "Suc j"]) simp
  qed
qed

lemma digit_value_digit_char: "d < 10 \<Longrightarrow> digit_value (digit_char d) = d"
  by (simp add: digit_value_def digit_char_def)

lemma three_digit_value: "(m div 100 mod 10) * 100 + (m div 10 mod 10) * 10 + m mod 10 = m mod (1000 :: nat)"
  using mod_mult2_eq [of m 100 10] mod_mult2_eq [of m 10 10] by simp

lemma parse_msg_len_digits:
  "parse_msg_len (digit_char (m div 100 mod 10) # digit_char (m div 10 mod 10) # digit_char (m mod 10) # r)
    = (let v = m mod 1000 in if v = 0 then MAX_MSG_LEN else v)"
proof -
  have "m mod 1000 \<le> MAX_MSG_LEN"
    by (simp add: MAX_MSG_LEN_def order_trans [OF less_imp_le [OF mod_less_divisor [of 1000 m]]])
  then show ?thesis
    by (simp add: is_digit_digit_char digit_value_digit_char three_digit_value)
qed

definition sent_len :: "int \<Rightarrow> nat" where
  "sent_len n = (if 0 < n \<and> n \<le> int MAX_MSG_LEN then nat n else MAX_MSG_LEN)"

abbreviation length_field :: "nat \<Rightarrow> string" where
  "length_field m \<equiv> [digit_char (m div 100 mod 10), digit_char (m div 10 mod 10), digit_char (m mod 10)]"

lemma build_msg_text:
  "build_msg type n (Some p) =
    take 3 type @ length_field (sent_len n) @ take (max 1 (sent_len n - 7)) p @ [NUL]"
proof -
  have m: "(if n \<le> 0 \<or> int MAX_MSG_LEN < n then MAX_MSG_LEN else nat n) = sent_len n"
    by (simp add: sent_len_def)
  have k: "(if int m - int HEADER_LEN - 1 < 1 then 1 else m - HEADER_LEN - 1) = max 1 (m - 7)" for m
    by (auto simp: HEADER_LEN_def max_def)
  show ?thesis unfolding build_msg_def Let_def m k by simp
qed

lemma header_message:
  assumes "length type = 3" and "NUL \<notin> set p"
  shows "is_new_protocol (take 3 type @ length_field m @ take k p @ [NUL])
    \<and> parse_msg_len (drop 3 (take 3 type @ length_field m @ take k p @ [NUL])) =
        (let v = m mod 1000 in if v = 0 then MAX_MSG_LEN else v)
    \<and> c_str (drop HEADER_LEN (take 3 type @ length_field m @ take k p @ [NUL])) = take k p
    \<and> take 3 (take 3 type @ length_field m @ take k p @ [NUL]) = type"
proof -
  obtain x y z where t: "type = [x, y, z]"
    using assms(1) by (metis (no_types, lifting) length_0_conv length_Suc_conv numeral_3_eq_3)
  have "NUL \<notin> set (take k p)" using assms(2) by (meson in_set_takeD)
  then have "c_str (take k p @ [NUL]) = take k p" by (rule c_str_terminated)
  then show ?thesis using parse_msg_len_digits [of m "take k p @ [NUL]"]
    by (simp add: t HEADER_LEN_def is_new_protocol_def is_digit_digit_char del: parse_msg_len.simps)
qed

lemma buffer_append_plenty:
  assumes "plenty a" and "buffer_ok b"
  shows "\<exists>b' a'. buffer_append a b s = Some (b', a') \<and> plenty a' \<and> buffer_ok b'
    \<and> bf_data b' = bf_data b @ s"
proof -
  have "0 < bf_cap b" using assms(2) by (simp add: buffer_ok_def)
  from buffer_grow_plenty [OF assms(1) this, of "length (bf_data b) + length s + 1"]
  show ?thesis by (auto simp: buffer_append_def buffer_ok_def)
qed

lemma buffer_append_ok:
  "buffer_append a b s = Some (b', a') \<Longrightarrow> buffer_ok b'"
proof -
  have "buffer_grow a cap need = Some (cap', a') \<Longrightarrow> need \<le> cap'" for a a' cap cap' need
    by (induction a cap need rule: buffer_grow.induct)
      (subst (asm) (2) buffer_grow.simps, auto split: if_splits prod.splits)
  then show "buffer_append a b s = Some (b', a') \<Longrightarrow> buffer_ok b'"
    by (fastforce simp: buffer_append_def buffer_ok_def split: option.splits)
qed

lemma absorb_reply_plenty:
  assumes "plenty a" and "buffer_ok b" and "NUL \<notin> set s" and "length s + 1 < MAX_MSG_LEN"
  shows "\<exists>b' a'. absorb_reply a b (Some (s @ [NUL])) = Inr (b', a') \<and> plenty a' \<and> buffer_ok b'
    \<and> bf_data b' = bf_data b @ s"
  using buffer_append_plenty [OF assms(1,2), of s] assms(3,4)
  by (auto simp: absorb_reply_def c_str_terminated)

text \<open>\<open>find_safe_split\<close> returns the last position where a digit is followed by a letter.\<close>

definition entry_cut :: "char list \<Rightarrow> nat \<Rightarrow> bool" where
  "entry_cut data i \<longleftrightarrow> 0 < i \<and> i < length data \<and> is_digit (data ! (i - 1)) \<and> is_alpha (data ! i)"

lemma find_split_from_Some:
  "m < length data \<Longrightarrow> find_split_from data m = Some j \<Longrightarrow> j \<le> m \<and> entry_cut data j"
  by (induction m) (auto simp: entry_cut_def split: if_splits)

lemma find_split_from_exists:
  "i \<le> m \<Longrightarrow> entry_cut data i \<Longrightarrow> \<exists>j \<ge> i. find_split_from data m = Some j"
proof (induction m)
  case (Suc m)
  then show ?case by (cases "i = Suc m") (auto simp: entry_cut_def)
qed (simp add: entry_cut_def)

lemma map_entry_nth:
  assumes "valid_entry e" and "i < length (map_entry e)"
  shows "map_entry e ! i = (if i < length (fst e) then fst e ! i else CHR ''1'')"
  using assms by (auto simp: map_entry_def nth_append)

lemma valid_entry_alpha: "valid_entry e \<Longrightarrow> i < length (fst e) \<Longrightarrow> is_alpha (fst e ! i)"
  by (simp add: valid_entry_def valid_word_def list_all_length)

lemma valid_entry_nonempty: "valid_entry e \<Longrightarrow> 0 < length (fst e) \<and> 0 < unat (snd e)"
  by (simp add: valid_entry_def valid_word_def)

text \<open>In a text of entries, those are exactly the cuts between two entries.\<close>

lemma entry_cut_boundary:
  "\<forall>e \<in> set es. valid_entry e \<Longrightarrow> entry_cut (concat (map map_entry es)) i \<Longrightarrow>
    \<exists>k. i = length (concat (map map_entry (take k es)))"
proof (induction es arbitrary: i)
  case Nil
  then show ?case by (simp add: entry_cut_def)
next
  case (Cons e es)
  let ?n = "length (map_entry e)"
  from Cons.prems have e: "valid_entry e" by simp
  have i: "0 < i" "is_digit ((map_entry e @ concat (map map_entry es)) ! (i - 1))"
    "is_alpha ((map_entry e @ concat (map map_entry es)) ! i)"
    using Cons.prems(2) by (simp_all add: entry_cut_def)
  consider "i < ?n" | "i = ?n" | "?n < i" by linarith
  then show ?case
  proof cases
    case 1
    then have "i - 1 < ?n" by simp
    with 1 have "is_digit (map_entry e ! (i - 1))" and "is_alpha (map_entry e ! i)"
      using i by (simp_all only: nth_append if_True)
    then have "i < length (fst e)"
      using 1 map_entry_nth [OF e, of i] by (auto split: if_splits)
    then have "is_alpha (map_entry e ! (i - 1))"
      using 1 i(1) map_entry_nth [OF e, of "i - 1"] valid_entry_alpha [OF e] by simp
    with \<open>is_digit (map_entry e ! (i - 1))\<close> show ?thesis using digit_not_alpha by blast
  next
    case 2
    then show ?thesis by (intro exI [of _ 1]) simp
  next
    case 3
    then have "entry_cut (concat (map map_entry es)) (i - ?n)"
      using Cons.prems(2) by (auto simp: entry_cut_def nth_append less_diff_conv2)
    with Cons.IH [of "i - ?n"] Cons.prems(1) obtain k where
      "i - ?n = length (concat (map map_entry (take k es)))" by auto
    with 3 show ?thesis by (intro exI [of _ "Suc k"]) simp
  qed
qed

lemma first_entry_cut:
  assumes "valid_entry e" and "valid_entry f"
  shows "entry_cut (concat (map map_entry (e # f # es))) (length (map_entry e))"
proof -
  let ?n = "length (map_entry e)"
  have n: "0 < ?n" and last: "?n - 1 \<ge> length (fst e)"
    using valid_entry_nonempty [OF assms(1)] unfolding length_map_entry by linarith+
  have "map_entry e ! (?n - 1) = CHR ''1''"
    using n last map_entry_nth [OF assms(1), of "?n - 1"] by simp
  moreover have "is_alpha (map_entry f ! 0)" and "map_entry f \<noteq> []"
    using valid_entry_alpha [OF assms(2), of 0] valid_entry_nonempty [OF assms(2)]
      map_entry_nth [OF assms(2), of 0] by (auto simp: length_map_entry map_entry_def)
  ultimately show ?thesis using n by (auto simp: entry_cut_def nth_append)
qed

lemma take_concat_entries:
  "take (length (concat (map f (take k es)))) (concat (map f es)) = concat (map f (take k es))"
  "drop (length (concat (map f (take k es)))) (concat (map f es)) = concat (map f (drop k es))"
proof -
  have "concat (map f es) = concat (map f (take k es)) @ concat (map f (drop k es))"
    by (metis append_take_drop_id concat_append map_append)
  then show "take (length (concat (map f (take k es)))) (concat (map f es)) = concat (map f (take k es))"
    and "drop (length (concat (map f (take k es)))) (concat (map f es)) = concat (map f (drop k es))"
    by (metis append_eq_conv_conj)+
qed

definition small_entry :: "string \<times> i32 \<Rightarrow> bool" where
  "small_entry e \<longleftrightarrow> valid_entry e \<and> length (map_entry e) \<le> PAYLOAD_MAX"

text \<open>A reduce payload is a list of whole entries, and is never longer than the limit.\<close>

lemma reduce_len_entries:
  assumes "\<forall>e \<in> set es. small_entry e"
  shows "\<exists>k. reduce_len (concat (map map_entry es)) = length (concat (map map_entry (take k es)))
    \<and> reduce_len (concat (map map_entry es)) \<le> PAYLOAD_MAX"
proof (cases "length (concat (map map_entry es)) \<le> PAYLOAD_MAX")
  case True
  then show ?thesis by (intro exI [of _ "length es"]) (simp add: reduce_len_def)
next
  case False
  let ?d = "concat (map map_entry es)"
  have valid: "\<forall>e \<in> set es. valid_entry e" using assms by (simp add: small_entry_def)
  obtain e f gs where es: "es = e # f # gs"
  proof (cases es)
    case Nil
    with False show ?thesis by simp
  next
    case (Cons e fs)
    with False assms have "fs \<noteq> []" by (auto simp: small_entry_def)
    with Cons that show ?thesis by (cases fs) auto
  qed
  then have "entry_cut ?d (length (map_entry e))" and "length (map_entry e) \<le> PAYLOAD_MAX"
    using first_entry_cut [of e f gs] assms valid by (auto simp: small_entry_def)
  then obtain j where j: "find_split_from ?d PAYLOAD_MAX = Some j"
    using find_split_from_exists by blast
  with False have "j \<le> PAYLOAD_MAX" and cut: "entry_cut ?d j"
    using find_split_from_Some [of PAYLOAD_MAX ?d j] by auto
  have "find_safe_split ?d PAYLOAD_MAX = j"
    using j by (auto simp: find_safe_split_def)
  with False \<open>j \<le> PAYLOAD_MAX\<close> cut have "reduce_len ?d = j"
    by (auto simp: reduce_len_def Let_def entry_cut_def)
  moreover obtain k where "j = length (concat (map map_entry (take k es)))"
    using entry_cut_boundary [OF valid cut] by blast
  ultimately show ?thesis using \<open>j \<le> PAYLOAD_MAX\<close> by auto
qed

subsection \<open>Properties\<close>

text \<open>The payload that is cut off the map results for a reduce request is never empty, never longer
  than the limit, and ends between two entries: in a text of whole entries no word is separated from
  its ones.\<close>

theorem reduce_payload_whole_entries:
  assumes "\<forall>e \<in> set es. valid_entry e \<and> length (map_entry e) \<le> PAYLOAD_MAX" and "es \<noteq> []"
  shows "\<exists>k > 0. take (reduce_len (concat (map map_entry es))) (concat (map map_entry es))
        = concat (map map_entry (take k es))
      \<and> drop (reduce_len (concat (map map_entry es))) (concat (map map_entry es))
        = concat (map map_entry (drop k es))
      \<and> reduce_len (concat (map map_entry es)) \<le> PAYLOAD_MAX"
proof -
  let ?d = "concat (map map_entry es)"
  have "\<forall>e \<in> set es. small_entry e" using assms(1) by (simp add: small_entry_def)
  from reduce_len_entries [OF this] obtain k where
    k: "reduce_len ?d = length (concat (map map_entry (take k es)))" "reduce_len ?d \<le> PAYLOAD_MAX" by blast
  have "?d \<noteq> []" using assms by (cases es) (auto simp: map_entry_def valid_entry_def valid_word_def)
  then have "k \<noteq> 0" using reduce_len_pos [of ?d] k(1) by (cases k) auto
  with take_concat_entries [of map_entry k es] k show ?thesis by auto
qed

lemma reduce_payload_whole_entries_witness:
  "\<exists>k > 0. take (reduce_len (concat (map map_entry [(''be'', 2)]))) (concat (map map_entry [(''be'', 2)]))
    = concat (map map_entry (take k [(''be'', 2)]))"
proof -
  have "lower ''be'' = ''be''" and "is_alpha (CHR ''b'')" "is_alpha (CHR ''e'')" by code_simp+
  then have "\<forall>e \<in> set [(''be'', 2 :: i32)]. valid_entry e \<and> length (map_entry e) \<le> PAYLOAD_MAX"
    by (simp add: valid_entry_def valid_word_def WORD_CAP_def length_map_entry PAYLOAD_MAX_def
        MAX_MSG_LEN_def HEADER_LEN_def)
  from reduce_payload_whole_entries [OF this] show ?thesis by (metis list.distinct(1))
qed

text \<open>\<open>buffer_append\<close> keeps the capacity large enough for the contents and the terminator, holds
  the old contents followed by the appended string, never shrinks, and, where no allocation fails,
  always succeeds: the doubling loop ends.\<close>

theorem buffer_append_grows:
  assumes "buffer_ok b" and "plenty a"
  shows "\<exists>b' a'. buffer_append a b s = Some (b', a') \<and> bf_data b' = bf_data b @ s \<and> buffer_ok b'
    \<and> bf_cap b \<le> bf_cap b' \<and> (\<exists>j. bf_cap b' = bf_cap b * 2 ^ j)"
proof -
  have "0 < bf_cap b" using assms(1) by (simp add: buffer_ok_def)
  from buffer_grow_plenty [OF assms(2) this, of "length (bf_data b) + length s + 1"]
  obtain cap' a' where g: "buffer_grow a (bf_cap b) (length (bf_data b) + length s + 1) = Some (cap', a')"
    "length (bf_data b) + length s + 1 \<le> cap'" "bf_cap b \<le> cap'" by blast
  from buffer_grow_power [OF g(1)] g show ?thesis by (auto simp: buffer_append_def buffer_ok_def)
qed

lemma buffer_append_grows_witness:
  "\<exists>b' a'. buffer_append [] \<lparr>bf_data = ''to'', bf_cap = 4\<rparr> ''be'' = Some (b', a') \<and> bf_data b' = ''tobe''
    \<and> 5 \<le> bf_cap b'"
  using buffer_append_grows [of "\<lparr>bf_data = ''to'', bf_cap = 4\<rparr>" "[]" "''be''"]
  by (auto simp: buffer_ok_def)

text \<open>A message built with a length field is read back by the worker as the length modulo 1000 (1500
  where that is 0 or the length is out of range) and the payload cut to what the length leaves room
  for: the two agree on every length below 1000, and 1500 is read as 500.\<close>

theorem length_field_roundtrip:
  assumes "length type = 3" and "NUL \<notin> set p"
  shows "is_new_protocol (build_msg type n (Some p))
    \<and> parse_msg_len (drop 3 (build_msg type n (Some p))) =
        (let v = sent_len n mod 1000 in if v = 0 then MAX_MSG_LEN else v)
    \<and> c_str (drop HEADER_LEN (build_msg type n (Some p))) = take (max 1 (sent_len n - 7)) p
    \<and> take 3 (build_msg type n (Some p)) = type"
  using header_message [OF assms, of "sent_len n"] by (simp add: build_msg_text)

lemma length_field_roundtrip_witness:
  "parse_msg_len (drop 3 (build_msg ''map'' 1500 (Some ''be''))) = 500"
proof -
  have "sent_len 1500 = 1500" by (simp add: sent_len_def MAX_MSG_LEN_def)
  with length_field_roundtrip [of "''map''" "''be''" 1500] show ?thesis by simp
qed

end
