(* ===== verification/Map_Reduce.thy ===== *)
theory Map_Reduce
  imports Distributor
begin

section \<open>The whole run: distributor and workers together\<close>

text \<open>
  The distributor's two phases, run against workers whose every answer is the one that the worker's
  own request handler computes (\<open>served_by_workers\<close>, for requests that fit the worker's buffer), carry
  the word counts of the file from format to format: \<open>describes\<close> relates a list of counted words to
  the words of a text, and each phase hands such a list to the next one.
\<close>

definition served_by_workers :: "network \<Rightarrow> nat \<Rightarrow> bool" where
  "served_by_workers net workers \<longleftrightarrow>
     (\<forall>k i msg. i < workers \<longrightarrow> length msg < RECV_BUFFER_SIZE \<longrightarrow>
        (\<exists>a reply close a'. plenty a \<and> handle_message a msg = Inr (reply, close, a')
           \<and> net k i msg = Some reply))"

lemma served_reply:
  assumes "served_by_workers net workers" and "i < workers" and "length msg < RECV_BUFFER_SIZE"
  obtains a reply close a' where "plenty a" and "handle_message a msg = Inr (reply, close, a')"
    and "net k i msg = Some reply"
  using assms unfolding served_by_workers_def by meson

definition describes :: "(string \<times> i32) list \<Rightarrow> string list \<Rightarrow> bool" where
  "describes es ws \<longleftrightarrow> (\<forall>e \<in> set es. valid_entry e) \<and> (\<forall>w. total_of es w = count_list ws w)"

lemma total_of_append: "total_of (xs @ ys) w = total_of xs w + total_of ys w"
  by (simp add: total_of_def)

lemma count_list_append: "count_list (xs @ ys) w = count_list xs w + count_list ys w"
  by (induction xs) auto

lemma describes_Nil [simp]: "describes [] []"
  by (simp add: describes_def total_of_def)

lemma describes_append: "describes es ws \<Longrightarrow> describes fs vs \<Longrightarrow> describes (es @ fs) (ws @ vs)"
  by (auto simp: describes_def total_of_append count_list_append)

lemma describes_words:
  assumes "describes es ws" shows "w \<in> fst ` set es \<longleftrightarrow> w \<in> set ws"
proof
  assume "w \<in> fst ` set es"
  then obtain e where e: "e \<in> set es" "fst e = w" by auto
  then have "unat (snd e) \<le> total_of es w"
    unfolding total_of_def by (intro member_le_sum_list) auto
  moreover have "0 < unat (snd e)" using assms e by (auto simp: describes_def valid_entry_def)
  ultimately have "0 < count_list ws w" using assms by (simp add: describes_def)
  then show "w \<in> set ws" by (metis count_list_0_iff less_nat_zero_code)
next
  assume "w \<in> set ws"
  then have "total_of es w \<noteq> 0" using assms by (simp add: describes_def count_list_0_iff)
  then show "w \<in> fst ` set es" using total_of_absent by metis
qed

lemma total_of_distinct:
  "distinct (map fst es) \<Longrightarrow> total_of es w = (case map_of es w of None \<Rightarrow> 0 | Some c \<Rightarrow> unat c)"
proof (induction es)
  case (Cons e es)
  then have "fst e = w \<Longrightarrow> total_of es w = 0" by (intro total_of_absent) auto
  with Cons show ?case by (cases e) (auto simp: total_of_Cons)
qed (simp add: total_of_def)

lemma count_weight: "count_list ws w * Suc (length w) \<le> sum_list (map (\<lambda>v. Suc (length v)) ws)"
  by (induction ws) auto

text \<open>What a map reply holds: the words of the chunk, each entry small enough for a reduce payload.\<close>

lemma map_reply_describes:
  assumes "distinct (map fst es)" and "map_of es = word_counts (counted_words s)"
    and "\<forall>e \<in> set es. valid_entry e" and "length s \<le> CHUNK_MAX_SIZE"
  shows "describes es (counted_words s) \<and> (\<forall>e \<in> set es. small_entry e)"
proof
  have bound: "count_list (counted_words s) w * Suc (length w) \<le> 1498" for w
    using count_weight [of "counted_words s" w] sum_counted_words [of s] assms(4) by (simp add: CHUNK_MAX_SIZE_def)
  then have cnt: "count_list (counted_words s) w \<le> 1498" for w
    by (metis le_add1 le_trans mult_Suc_right)
  then have unat: "unat (of_nat (count_list (counted_words s) w) :: i32) = count_list (counted_words s) w" for w
    by (simp add: unat_of_nat take_bit_nat_eq_self le_less_trans [OF cnt])
  then have "total_of es w = count_list (counted_words s) w" for w
    using assms(1,2) by (auto simp: total_of_distinct word_counts_def count_list_0_iff)
  with assms(3) show "describes es (counted_words s)" by (simp add: describes_def)
  show "\<forall>e \<in> set es. small_entry e"
  proof
    fix e assume e: "e \<in> set es"
    then have "map_of es (fst e) = Some (snd e)" using assms(1) by simp
    then have c: "unat (snd e) = count_list (counted_words s) (fst e)"
      using unat [of "fst e"] by (auto simp: assms(2) word_counts_def Let_def split: if_splits)
    have v: "0 < length (fst e)" "length (fst e) \<le> 255"
      using assms(3) e by (auto simp: valid_entry_def valid_word_def WORD_CAP_def)
    have "2 \<le> Suc (length (fst e))" using v(1) by linarith
    then have "unat (snd e) * 2 \<le> 1498"
      unfolding c by (rule le_trans [OF mult_le_mono2 bound])
    with v e assms(3) show "small_entry e"
      by (simp add: small_entry_def length_map_entry PAYLOAD_MAX_def MAX_MSG_LEN_def HEADER_LEN_def)
  qed
qed

text \<open>What a reduce reply holds: the same totals, each word once.\<close>

lemma reduce_reply_totals:
  assumes "\<forall>e \<in> set es. valid_entry e" and "events_size es < 2 ^ 31"
    and "distinct (map fst fs)" and "map_of fs = tally es Map.empty"
  shows "total_of fs w = total_of es w"
proof -
  have hits: "sum_list (map unat (hits es w)) = total_of es w"
  proof -
    have "filter (\<lambda>e. lower (fst e) = w) es = filter (\<lambda>e. fst e = w) es"
      using assms(1) by (intro filter_cong) (auto simp: valid_entry_def valid_word_def)
    then show ?thesis by (simp add: hits_def total_of_def comp_def)
  qed
  show ?thesis
  proof (cases "tally es Map.empty w")
    case None
    then have "hits es w = []" by (simp add: tally_empty_apply split: if_splits)
    with hits None show ?thesis by (simp add: total_of_distinct [OF assms(3)] assms(4))
  next
    case (Some c)
    then show ?thesis
      using tally_valid_entry [OF assms(1,2) Some] hits
      by (simp add: total_of_distinct [OF assms(3)] assms(4))
  qed
qed

subsection \<open>One exchange\<close>

text \<open>What reaches a worker is the chunk without the byte that the message buffer has no room for.\<close>

lemma map_message_request:
  assumes "NUL \<notin> set t" and "length t \<le> CHUNK_MAX_SIZE"
  shows "map_message t = map_request (take 1496 t)"
  using assms
  by (simp add: map_message_def map_request_def snprintf_kept_def c_str_no_NUL MAX_MSG_LEN_def)

lemma red_message_request:
  assumes "NUL \<notin> set p" and "length p \<le> PAYLOAD_MAX"
  shows "red_message p = red_request p"
  using assms
  by (simp add: red_message_def red_request_def snprintf_kept_def c_str_no_NUL MAX_MSG_LEN_def
      PAYLOAD_MAX_def HEADER_LEN_def)

lemma NUL_entries:
  assumes "\<forall>e \<in> set es. valid_entry e"
  shows "NUL \<notin> set (concat (map map_entry es))" and "NUL \<notin> set (concat (map reduce_entry es))"
proof -
  have "NUL \<notin> set (fst e)" if "valid_entry e" for e
    using that NUL_class by (auto simp: valid_entry_def valid_word_def list_all_iff)
  then show "NUL \<notin> set (concat (map map_entry es))"
    using assms by (auto simp: map_entry_def)
  have "NUL \<notin> set (decimal n)" for n
    using decimal_digits [of n] NUL_class by (auto simp: list_all_iff)
  then show "NUL \<notin> set (concat (map reduce_entry es))"
    using assms \<open>\<And>e. valid_entry e \<Longrightarrow> NUL \<notin> set (fst e)\<close> by (auto simp: reduce_entry_def)
qed

lemma map_exchange:
  assumes net: "served_by_workers net workers" and "i < workers"
    and "plenty a" and "buffer_ok b" and "NUL \<notin> set t" and "\<not> three_digits t"
    and "length t \<le> CHUNK_MAX_SIZE" and "counted_words (take 1496 t) = counted_words t"
  shows "\<exists>es b' a'. absorb_reply a b (net k i (map_message t)) = Inr (b', a') \<and> plenty a'
    \<and> buffer_ok b' \<and> bf_data b' = bf_data b @ concat (map map_entry es)
    \<and> describes es (counted_words t) \<and> (\<forall>e \<in> set es. small_entry e)"
proof -
  let ?s = "take 1496 t"
  have msg: "map_message t = map_request ?s" using assms(5,7) by (rule map_message_request)
  have s: "NUL \<notin> set ?s" "length ?s + 2 \<le> MAX_MSG_LEN" "length ?s \<le> CHUNK_MAX_SIZE" "\<not> three_digits ?s"
    using assms(5,6) by (auto simp: MAX_MSG_LEN_def CHUNK_MAX_SIZE_def three_digits_def dest: in_set_takeD)
  have "length (map_request ?s) < RECV_BUFFER_SIZE" by (simp add: map_request_def RECV_BUFFER_SIZE_def)
  then obtain a0 reply close a1 where reply: "plenty a0"
    "handle_message a0 (map_request ?s) = Inr (reply, close, a1)"
    "net k i (map_request ?s) = Some reply"
    using served_reply [OF net \<open>i < workers\<close>, of _ k] by blast
  from handle_map_request [OF reply(1) s(1,2,4)] reply(2) obtain es where
    es: "reply = concat (map map_entry es) @ [NUL]" "distinct (map fst es)"
    "map_of es = word_counts (counted_words ?s)" "\<forall>e \<in> set es. valid_entry e"
    and len: "length (concat (map map_entry es)) \<le> length ?s + 1" by auto
  have "length (concat (map map_entry es)) + 1 < MAX_MSG_LEN"
    using len by (simp add: MAX_MSG_LEN_def)
  from absorb_reply_plenty [OF assms(3,4) NUL_entries(1) [OF es(4)] this]
    map_reply_describes [OF es(2,3,4) s(3)] show ?thesis
    using es(1) by (auto simp: msg reply(3) assms(8))
qed

lemma red_exchange:
  assumes net: "served_by_workers net workers" and "i < workers"
    and "plenty a" and "buffer_ok b" and "\<forall>e \<in> set es. valid_entry e"
    and "length (concat (map map_entry es)) \<le> PAYLOAD_MAX"
  shows "\<exists>fs b' a'. absorb_reply a b (net k i (red_message (concat (map map_entry es)))) = Inr (b', a')
    \<and> plenty a' \<and> buffer_ok b' \<and> bf_data b' = bf_data b @ concat (map reduce_entry fs)
    \<and> (\<forall>e \<in> set fs. valid_entry e) \<and> (\<forall>w. total_of fs w = total_of es w)"
proof -
  let ?p = "concat (map map_entry es)"
  have msg: "red_message ?p = red_request ?p"
    using NUL_entries(1) [OF assms(5)] assms(6) by (rule red_message_request)
  have small: "length ?p + 2 \<le> MAX_MSG_LEN"
    using assms(6) by (simp add: MAX_MSG_LEN_def PAYLOAD_MAX_def HEADER_LEN_def)
  then have "length (red_request ?p) < RECV_BUFFER_SIZE"
    by (simp add: red_request_def RECV_BUFFER_SIZE_def MAX_MSG_LEN_def)
  then obtain a0 reply close a1 where reply: "plenty a0"
    "handle_message a0 (red_request ?p) = Inr (reply, close, a1)"
    "net k i (red_request ?p) = Some reply"
    using served_reply [OF net \<open>i < workers\<close>, of _ k] by blast
  from handle_red_request [OF reply(1) assms(5) small] reply(2) obtain fs where
    fs: "reply = concat (map reduce_entry fs) @ [NUL]" "distinct (map fst fs)"
    "map_of fs = tally es Map.empty" "\<forall>e \<in> set fs. valid_entry e"
    and len: "length (concat (map reduce_entry fs)) \<le> length ?p" by auto
  have "events_size es < 2 ^ 31" using small by (simp add: length_map_text MAX_MSG_LEN_def)
  from reduce_reply_totals [OF assms(5) this fs(2,3)] have "\<forall>w. total_of fs w = total_of es w" by blast
  moreover have "length (concat (map reduce_entry fs)) + 1 < MAX_MSG_LEN" using len small by simp
  note absorb_reply_plenty [OF assms(3,4) NUL_entries(2) [OF fs(4)] this]
  ultimately show ?thesis using fs(1,4) by (auto simp: msg reply(3))
qed

subsection \<open>The phases\<close>

text \<open>
  A file the protocol can carry: no NUL byte, no run of letters as long as a chunk, and no chunk
  that begins with three digits (the worker would take them for a length field).
\<close>

definition plain_file :: "char list \<Rightarrow> bool" where
  "plain_file inp \<longleftrightarrow> NUL \<notin> set inp \<and> short_runs inp \<and> list_all (\<lambda>c. \<not> three_digits c) (chunks inp)"

definition plain_chunk :: "char list \<Rightarrow> bool" where
  "plain_chunk t \<longleftrightarrow> NUL \<notin> set t \<and> \<not> three_digits t \<and> length t \<le> CHUNK_MAX_SIZE
     \<and> counted_words (take 1496 t) = counted_words t"

lemma plain_chunks: "plain_file inp \<Longrightarrow> \<forall>t \<in> set (chunks inp). plain_chunk t"
proof
  fix t assume "plain_file inp" and t: "t \<in> set (chunks inp)"
  moreover from t have "set t \<subseteq> set inp" using concat_chunks [of inp] by (metis UN_upper set_concat)
  ultimately show "plain_chunk t"
    using chunks_bound [OF t] counted_words_sent_chunk [OF t]
    by (auto simp: plain_file_def plain_chunk_def list_all_iff)
qed

lemma map_phase_plain:
  assumes "served_by_workers net workers" and "0 < workers"
  shows "\<lbrakk> ck_file c = Some inp; \<forall>t \<in> set (chunks inp). plain_chunk t; idx < workers; plenty a;
      buffer_ok b \<rbrakk> \<Longrightarrow>
    \<exists>es b' k' a'. map_phase net workers a c k idx b = Inr (b', \<lparr>ck_file = Some []\<rparr>, k', a')
      \<and> plenty a' \<and> buffer_ok b' \<and> bf_data b' = bf_data b @ concat (map map_entry es)
      \<and> describes es (concat (map counted_words (chunks inp))) \<and> (\<forall>e \<in> set es. small_entry e)"
proof (induction inp arbitrary: a c k idx b rule: chunks.induct)
  case (1 inp)
  show ?case
  proof (cases "inp = []")
    case True
    with "1.prems" chunker_next_eof [of c] show ?thesis
      by (subst map_phase.simps) (auto intro!: exI [of _ "[]"])
  next
    case False
    let ?t = "take (chunk_len inp) inp" and ?rest = "drop (chunk_len inp) inp"
    let ?c = "c\<lparr>ck_file := Some ?rest\<rparr>"
    have chunks: "chunks inp = ?t # chunks ?rest" using False by (simp add: chunks.simps [of inp])
    then have "plain_chunk ?t" and rest: "\<forall>t \<in> set (chunks ?rest). plain_chunk t"
      using "1.prems"(2) by simp_all
    then obtain es b1 a1 where first:
      "absorb_reply a b (net k idx (map_message ?t)) = Inr (b1, a1)" "plenty a1" "buffer_ok b1"
      "bf_data b1 = bf_data b @ concat (map map_entry es)" "describes es (counted_words ?t)"
      "\<forall>e \<in> set es. small_entry e"
      using map_exchange [OF assms(1) "1.prems"(3,4,5)] unfolding plain_chunk_def by blast
    have "Suc idx mod workers < workers" using assms(2) by simp
    from "1.IH" [OF False _ rest this first(2,3), of ?c "Suc k"] obtain fs b2 k2 a2 where later:
      "map_phase net workers a1 ?c (Suc k) (Suc idx mod workers) b1 = Inr (b2, \<lparr>ck_file = Some []\<rparr>, k2, a2)"
      "plenty a2" "buffer_ok b2" "bf_data b2 = bf_data b1 @ concat (map map_entry fs)"
      "describes fs (concat (map counted_words (chunks ?rest)))" "\<forall>e \<in> set fs. small_entry e" by auto
    have "map_phase net workers a c k idx b = Inr (b2, \<lparr>ck_file = Some []\<rparr>, k2, a2)"
      using chunker_next_Some [OF "1.prems"(1) False] first(1) later(1)
      by (subst map_phase.simps) simp
    moreover have "describes (es @ fs) (concat (map counted_words (chunks inp)))"
      using describes_append [OF first(5) later(5)] chunks by simp
    ultimately show ?thesis using first(4,6) later(2-4,6)
      by (intro exI [of _ "es @ fs"] exI [of _ b2] exI [of _ k2] exI [of _ a2]) auto
  qed
qed

lemma reduce_phase_entries:
  assumes "served_by_workers net workers" and "0 < workers"
  shows "\<lbrakk> data = concat (map map_entry es); \<forall>e \<in> set es. small_entry e; idx < workers; plenty a;
      buffer_ok b \<rbrakk> \<Longrightarrow>
    \<exists>fs b' k' a'. reduce_phase net workers a data k idx b = Inr (b', k', a') \<and> plenty a'
      \<and> buffer_ok b' \<and> bf_data b' = bf_data b @ concat (map reduce_entry fs)
      \<and> (\<forall>e \<in> set fs. valid_entry e) \<and> (\<forall>w. total_of fs w = total_of es w)"
proof (induction "length data" arbitrary: data es a k idx b rule: less_induct)
  case less
  show ?case
  proof (cases "data = []")
    case True
    have "es = []"
    proof (rule ccontr)
      assume "es \<noteq> []"
      then obtain e r where "es = e # r" by (cases es) auto
      with less.prems(2) valid_entry_nonempty [of e] less.prems(1) True show False
        by (auto simp: small_entry_def map_entry_def)
    qed
    with True less.prems show ?thesis
      by (subst reduce_phase.simps) (auto intro!: exI [of _ "[]"])
  next
    case False
    obtain n where n: "reduce_len data = length (concat (map map_entry (take n es)))"
      "reduce_len data \<le> PAYLOAD_MAX"
      using reduce_len_entries [OF less.prems(2)] less.prems(1) by blast
    let ?t = "take n es" and ?r = "drop n es"
    have split: "take (reduce_len data) data = concat (map map_entry ?t)"
      "drop (reduce_len data) data = concat (map map_entry ?r)"
      using take_concat_entries [of map_entry n es] less.prems(1) n(1) by simp_all
    have "\<forall>e \<in> set ?t. valid_entry e" and small: "\<forall>e \<in> set ?r. small_entry e"
      using less.prems(2) by (auto simp: small_entry_def dest: in_set_takeD in_set_dropD)
    from red_exchange [OF assms(1) less.prems(3,4,5) this(1), of k] n obtain fs b1 a1 where first:
      "absorb_reply a b (net k idx (red_message (concat (map map_entry ?t)))) = Inr (b1, a1)"
      "plenty a1" "buffer_ok b1" "bf_data b1 = bf_data b @ concat (map reduce_entry fs)"
      "\<forall>e \<in> set fs. valid_entry e" "\<forall>w. total_of fs w = total_of ?t w" by auto
    have shorter: "length (drop (reduce_len data) data) < length data"
      using reduce_len_pos [OF False] False by simp
    have "Suc idx mod workers < workers" using assms(2) by simp
    from less.hyps [OF shorter split(2) small this first(2,3), of "Suc k"] obtain gs b2 k2 a2 where later:
      "reduce_phase net workers a1 (drop (reduce_len data) data) (Suc k) (Suc idx mod workers) b1
        = Inr (b2, k2, a2)"
      "plenty a2" "buffer_ok b2" "bf_data b2 = bf_data b1 @ concat (map reduce_entry gs)"
      "\<forall>e \<in> set gs. valid_entry e" "\<forall>w. total_of gs w = total_of ?r w" by blast
    have "reduce_phase net workers a data k idx b = Inr (b2, k2, a2)"
      using False first(1) later(1) by (subst reduce_phase.simps) (simp add: split)
    moreover have "total_of (fs @ gs) w = total_of es w" for w
      using first(6) later(6) total_of_append [of ?t ?r w] by (simp add: total_of_append)
    ultimately show ?thesis using first(4,5) later(2-5)
      by (intro exI [of _ "fs @ gs"] exI [of _ b2] exI [of _ k2] exI [of _ a2]) auto
  qed
qed

text \<open>The table that a list of counted words is printed as.\<close>

lemma combine_describes:
  assumes "plenty a" and "\<forall>e \<in> set fs. valid_entry e" and "\<forall>w. total_of fs w = count_list ws w"
  shows "combine_and_print a (Some (concat (map reduce_entry fs))) =
    (if ws = [] then [] else csv_header @ concat (map csv_line (frequency_table ws)))"
proof -
  have d: "describes fs ws" using assms(2,3) by (simp add: describes_def)
  then have words: "w \<in> fst ` set fs \<longleftrightarrow> w \<in> set ws" for w by (rule describes_words)
  have table: "qsort cmp_by_count_desc_word_asc (fold add_total fs []) = frequency_table ws"
    using words assms(3) by (intro totals_frequency) auto
  have "concat (map reduce_entry fs) = [] \<longleftrightarrow> ws = []"
  proof
    assume "concat (map reduce_entry fs) = []"
    then have "fs = []" using assms(2) valid_entry_nonempty
      by (cases fs) (auto simp: reduce_entry_def)
    with words show "ws = []" by (cases ws) auto
  next
    assume "ws = []"
    with words show "concat (map reduce_entry fs) = []" by (cases fs) auto
  qed
  with combine_parse_entries [OF plenty_tl [OF assms(1)] assms(2)] assms(1) table show ?thesis
    by (simp add: combine_and_print_def)
qed

text \<open>The output of the run, from which the property of the whole system is read off.\<close>

lemma distributor_run:
  assumes "served_by_workers net workers" and "0 < workers" and "plenty a" and "plain_file inp"
  shows "distributor_main net workers a (Some inp) =
    Inr (if counted_words inp = [] then [] else csv_header @ concat (map csv_line (frequency_table (counted_words inp))),
         distributor_send_rip workers)"
proof -
  let ?b = "\<lparr>bf_data = [], bf_cap = 4096\<rparr>"
  have ok: "buffer_ok ?b" by (simp add: buffer_ok_def)
  have words: "concat (map counted_words (chunks inp)) = counted_words inp"
    using assms(4) by (intro counted_words_chunks) (simp add: plain_file_def)
  from map_phase_plain [OF assms(1,2), of "\<lparr>ck_file = Some inp\<rparr>" inp 0 "tl a" ?b 0]
    plain_chunks [OF assms(4)] assms(2,3) ok obtain es b1 k1 a1 where
    m: "map_phase net workers (tl a) \<lparr>ck_file = Some inp\<rparr> 0 0 ?b = Inr (b1, \<lparr>ck_file = Some []\<rparr>, k1, a1)"
    "plenty a1" "bf_data b1 = concat (map map_entry es)" "describes es (counted_words inp)"
    "\<forall>e \<in> set es. small_entry e" by (auto simp: words)
  from reduce_phase_entries [OF assms(1,2) m(3,5), of 0 "tl a1" ?b k1] assms(2) m(2) ok
  obtain fs b2 k2 a2 where
    r: "reduce_phase net workers (tl a1) (bf_data b1) k1 0 ?b = Inr (b2, k2, a2)" "plenty a2"
    "bf_data b2 = concat (map reduce_entry fs)" "\<forall>e \<in> set fs. valid_entry e"
    "\<forall>w. total_of fs w = total_of es w" by auto
  have "\<forall>w. total_of fs w = count_list (counted_words inp) w"
    using r(5) m(4) by (simp add: describes_def)
  from combine_describes [OF r(2,4) this] m(1,2) r(1,3) assms(2,3) show ?thesis
    by (simp add: distributor_main_def chunker_init_def buffer_init_def)
qed

end
