(* ===== verification/Zmq_Sockets.thy ===== *)
theory Zmq_Sockets
  imports C_Prelude
begin

section \<open>The ZeroMQ calls of a process\<close>

text \<open>
  ZeroMQ is a parameter: whether a call succeeds may depend on all earlier ones.  The model of a program
  records its calls with their outcome, and the documented rules of the library are a state machine
  over such a record: a context before any socket; a socket is bound, connected, used and closed only
  while it is open; receiving and sending alternate, beginning with receiving on a REP socket and with
  sending on a REQ socket; and the context is destroyed only when all its sockets are closed, because
  the call would wait for them for ever.
\<close>

datatype zmq_call =
    Ctx_new
  | Ctx_destroy
  | Open_socket nat
  | Bind_socket nat string
  | Connect_socket nat string
  | Close_socket nat
  | Recv nat
  | Send nat "char list"

type_synonym zmq_trace = "(zmq_call \<times> bool) list"

type_synonym zmq = "zmq_trace \<Rightarrow> zmq_call \<Rightarrow> bool"

datatype role = Replier | Requester

record zmq_state =
  zs_ctx :: bool
  zs_open :: "nat set"
  zs_second :: "nat set"

definition zmq_idle :: zmq_state where
  "zmq_idle = \<lparr>zs_ctx = False, zs_open = {}, zs_second = {}\<rparr>"

text \<open>\<open>zs_second\<close> holds the sockets on which the second call of an exchange is due.\<close>

definition first_half :: "nat \<Rightarrow> bool \<Rightarrow> zmq_state \<Rightarrow> zmq_state option" where
  "first_half i ok s =
     (if i \<in> zs_open s \<and> i \<notin> zs_second s then Some (if ok then s\<lparr>zs_second := insert i (zs_second s)\<rparr> else s) else None)"

definition second_half :: "nat \<Rightarrow> bool \<Rightarrow> zmq_state \<Rightarrow> zmq_state option" where
  "second_half i ok s =
     (if i \<in> zs_open s \<and> i \<in> zs_second s then Some (if ok then s\<lparr>zs_second := zs_second s - {i}\<rparr> else s) else None)"

fun zmq_use :: "role \<Rightarrow> zmq_call \<times> bool \<Rightarrow> zmq_state \<Rightarrow> zmq_state option" where
  "zmq_use r (Ctx_new, ok) s = (if zs_ctx s then None else Some (s\<lparr>zs_ctx := ok\<rparr>))"
| "zmq_use r (Ctx_destroy, ok) s =
     (if zs_ctx s \<and> zs_open s = {} then Some (s\<lparr>zs_ctx := False\<rparr>) else None)"
| "zmq_use r (Open_socket i, ok) s =
     (if zs_ctx s \<and> i \<notin> zs_open s then Some (if ok then s\<lparr>zs_open := insert i (zs_open s)\<rparr> else s) else None)"
| "zmq_use r (Bind_socket i e, ok) s = (if i \<in> zs_open s then Some s else None)"
| "zmq_use r (Connect_socket i e, ok) s = (if i \<in> zs_open s then Some s else None)"
| "zmq_use r (Close_socket i, ok) s =
     (if i \<in> zs_open s then Some (s\<lparr>zs_open := zs_open s - {i}, zs_second := zs_second s - {i}\<rparr>) else None)"
| "zmq_use r (Recv i, ok) s = (if r = Replier then first_half i ok s else second_half i ok s)"
| "zmq_use r (Send i m, ok) s = (if r = Replier then second_half i ok s else first_half i ok s)"

fun zmq_uses :: "role \<Rightarrow> zmq_trace \<Rightarrow> zmq_state \<Rightarrow> zmq_state option" where
  "zmq_uses r [] s = Some s"
| "zmq_uses r (c # tr) s = Option.bind (zmq_use r c s) (zmq_uses r tr)"

lemma zmq_uses_append [simp]: "zmq_uses r (tr @ tr') s = Option.bind (zmq_uses r tr s) (zmq_uses r tr')"
  by (induction tr arbitrary: s) (auto split: Option.bind_splits)

text \<open>The state with a context and the open sockets \<open>S\<close>, no exchange under way.\<close>

abbreviation sockets :: "nat set \<Rightarrow> zmq_state" where
  "sockets S \<equiv> \<lparr>zs_ctx = True, zs_open = S, zs_second = {}\<rparr>"

text \<open>
  The rules without the alternation, which a failed call can upset: a socket is received on and sent on only
  while it is open.
\<close>

fun zmq_life :: "zmq_call \<times> bool \<Rightarrow> zmq_state \<Rightarrow> zmq_state option" where
  "zmq_life (Recv i, ok) s = (if i \<in> zs_open s then Some s else None)"
| "zmq_life (Send i m, ok) s = (if i \<in> zs_open s then Some s else None)"
| "zmq_life c s = zmq_use Replier c s"

fun zmq_lives :: "zmq_trace \<Rightarrow> zmq_state \<Rightarrow> zmq_state option" where
  "zmq_lives [] s = Some s"
| "zmq_lives (c # tr) s = Option.bind (zmq_life c s) (zmq_lives tr)"

lemma zmq_lives_append [simp]: "zmq_lives (tr @ tr') s = Option.bind (zmq_lives tr s) (zmq_lives tr')"
  by (induction tr arbitrary: s) (auto split: Option.bind_splits)

lemma zmq_use_lives:
  "zmq_use r c s = Some s' \<Longrightarrow> zmq_life c (s\<lparr>zs_second := {}\<rparr>) = Some (s'\<lparr>zs_second := {}\<rparr>)"
  by (cases s; cases c; cases "fst c") (auto simp: first_half_def second_half_def split: if_splits)

lemma zmq_uses_lives:
  "zmq_uses r tr s = Some s' \<Longrightarrow> zmq_lives tr (s\<lparr>zs_second := {}\<rparr>) = Some (s'\<lparr>zs_second := {}\<rparr>)"
proof (induction tr arbitrary: s)
  case (Cons c tr)
  then obtain s1 where "zmq_use r c s = Some s1" and "zmq_uses r tr s1 = Some s'" by (auto split: Option.bind_splits)
  with Cons.IH zmq_use_lives show ?case by fastforce
qed simp

text \<open>
  How a failed send upsets it: its socket is still to be sent on, and a receive on it comes out of turn.
\<close>

definition failed_sends :: "zmq_trace \<Rightarrow> nat set" where
  "failed_sends tr = {i. \<exists>m. (Send i m, False) \<in> set tr}"

definition early_receive :: "zmq_trace \<Rightarrow> bool" where
  "early_receive tr \<longleftrightarrow> (\<exists>tr1 i ok tr2 s. tr = tr1 @ (Recv i, ok) # tr2 \<and> zmq_uses Replier tr1 zmq_idle = Some s
     \<and> i \<in> zs_open s \<and> i \<in> zs_second s \<and> i \<in> failed_sends tr1)"

lemma failed_sends_append [simp]: "failed_sends (tr @ tr') = failed_sends tr \<union> failed_sends tr'"
  by (auto simp: failed_sends_def)

lemma early_receive_append: "early_receive tr \<Longrightarrow> early_receive (tr @ tr')"
  unfolding early_receive_def by fastforce

text \<open>The indices of the sockets of an array that are not NULL, and the calls that close these.\<close>

definition open_set :: "nat \<Rightarrow> bool list \<Rightarrow> nat set" where
  "open_set i bs = {i + j |j. j < length bs \<and> bs ! j}"

fun close_all :: "nat \<Rightarrow> bool list \<Rightarrow> zmq_trace" where
  "close_all i [] = []"
| "close_all i (b # bs) = (if b then [(Close_socket i, True)] else []) @ close_all (Suc i) bs"

lemma open_set_simps [simp]:
  "open_set i [] = {}" "open_set i (b # bs) = (if b then insert i (open_set (Suc i) bs) else open_set (Suc i) bs)"
proof -
  show "open_set i [] = {}" by (simp add: open_set_def)
  have "{i + j |j. j < Suc (length bs) \<and> (b # bs) ! j} = (if b then {i} else {}) \<union> {Suc i + j |j. j < length bs \<and> bs ! j}"
    by (auto simp: less_Suc_eq_0_disj)
  then show "open_set i (b # bs) = (if b then insert i (open_set (Suc i) bs) else open_set (Suc i) bs)"
    by (auto simp: open_set_def)
qed

lemma open_set_above: "j \<in> open_set i bs \<Longrightarrow> i \<le> j"
  by (auto simp: open_set_def)

lemma open_set_0: "i \<in> open_set 0 bs \<longleftrightarrow> i < length bs \<and> bs ! i"
  by (simp add: open_set_def)

lemma open_set_close: "open_set 0 (bs[i := False]) = open_set 0 bs - {i}"
  by (rule set_eqI) (metis (full_types) Diff_iff insert_iff empty_iff length_list_update nth_list_update_eq nth_list_update_neq open_set_0)

lemma close_all_uses_any:
  "P \<subseteq> open_set i bs \<Longrightarrow> zmq_uses r (close_all i bs) \<lparr>zs_ctx = True, zs_open = open_set i bs, zs_second = P\<rparr> = Some (sockets {})"
proof (induction bs arbitrary: i P)
  case (Cons b bs)
  have i: "i \<notin> open_set (Suc i) bs" using open_set_above [of i "Suc i" bs] by auto
  from Cons.prems have "P - {i} \<subseteq> open_set (Suc i) bs" "\<not> b \<Longrightarrow> P \<subseteq> open_set (Suc i) bs" by (auto split: if_splits)
  with Cons.IH [of _ "Suc i"] i show ?case by simp
qed simp

lemma close_all_uses: "zmq_uses r (close_all i bs) (sockets (open_set i bs)) = Some (sockets {})"
  by (rule close_all_uses_any) simp

lemma ctx_destroy_uses [simp]: "zmq_uses r [(Ctx_destroy, ok)] (sockets {}) = Some zmq_idle"
  by (simp add: zmq_idle_def)

text \<open>The messages that were sent.\<close>

definition sent :: "zmq_trace \<Rightarrow> (nat \<times> char list) list" where
  "sent tr = List.map_filter (\<lambda>(c, ok). case c of Send i m \<Rightarrow> Some (i, m) | _ \<Rightarrow> None) tr"

lemma sent_append [simp]: "sent (tr @ tr') = sent tr @ sent tr'"
  by (simp add: sent_def map_filter_def)

lemma sent_simps [simp]:
  "sent [] = []" "sent ((Ctx_new, ok) # tr) = sent tr" "sent ((Ctx_destroy, ok) # tr) = sent tr"
  "sent ((Open_socket i, ok) # tr) = sent tr" "sent ((Bind_socket i e, ok) # tr) = sent tr"
  "sent ((Connect_socket i e, ok) # tr) = sent tr" "sent ((Close_socket i, ok) # tr) = sent tr"
  "sent ((Recv i, ok) # tr) = sent tr" "sent ((Send i m, ok) # tr) = (i, m) # sent tr"
  by (simp_all add: sent_def map_filter_simps)

lemma sent_close_all [simp]: "sent (close_all i bs) = []"
  by (induction bs arbitrary: i) auto

end
