(* ===== verification/Worker_Main.thy ===== *)
theory Worker_Main
  imports Worker Zmq_Sockets
begin

section \<open>The worker as a process (zmq\_worker.c)\<close>

text \<open>
  \<open>main\<close> from its arguments to its exit: context, sockets, the poll loop around the request handler of
  \<open>Worker\<close>, and the clean-up, with all its ZeroMQ calls recorded.  The socket of the port \<open>i\<close> has the
  number \<open>i\<close>.
\<close>

definition worker_endpoint :: "string \<Rightarrow> string" where
  "worker_endpoint port = snprintf_kept 128 (''tcp://*:'' @ port)"

text \<open>The loop that creates and binds the sockets; a port that fails is left out.\<close>

fun open_ports :: "zmq \<Rightarrow> nat \<Rightarrow> string list \<Rightarrow> zmq_trace \<Rightarrow> bool list \<times> zmq_trace" where
  "open_ports z i [] tr = ([], tr)"
| "open_ports z i (port # ports) tr =
     (let created = z tr (Open_socket i); tr1 = tr @ [(Open_socket i, created)] in
      if \<not> created then (let (bs, tr2) = open_ports z (Suc i) ports tr1 in (False # bs, tr2))
      else (let endpoint = worker_endpoint port; bound = z tr1 (Bind_socket i endpoint);
                tr2 = tr1 @ [(Bind_socket i endpoint, bound)] in
        if \<not> bound then (let (bs, tr3) = open_ports z (Suc i) ports (tr2 @ [(Close_socket i, True)]) in (False # bs, tr3))
        else (let (bs, tr3) = open_ports z (Suc i) ports tr2 in (True # bs, tr3))))"

text \<open>\<open>main\<close> before the loop: the exit status of a failure, or the worker.\<close>

definition worker_setup :: "zmq \<Rightarrow> string list \<Rightarrow> alloc \<Rightarrow> (int + worker) \<times> zmq_trace" where
  "worker_setup z argv a =
     (if length argv < 2 then (Inl 1, [])
      else if \<not> z [] Ctx_new then (Inl 1, [(Ctx_new, False)])
      else (let tr = [(Ctx_new, True)]; (ok, a1) = malloc a in
        if \<not> ok then (Inl 1, tr @ [(Ctx_destroy, True)])
        else (let (bound, tr1) = open_ports z 0 (tl argv) tr; (ok, a2) = malloc a1 in
          if \<not> ok then (Inl 1, tr1 @ close_all 0 bound @ [(Ctx_destroy, True)])
          else (Inr (worker_start bound a2), tr1))))"

text \<open>
  One round of the loop: whether SIGINT has come before it, what \<open>zmq_poll\<close> reports (or its failure), and
  what each \<open>zmq_recv\<close> brings.  The item of a closed port stays in the array with no socket, so that
  something can be reported for it as well.
\<close>

record poll_input =
  pi_running :: bool
  pi_polled :: "bool list option"
  pi_received :: "nat \<Rightarrow> char list option"

fun serve_ports ::
  "zmq \<Rightarrow> bool list \<Rightarrow> (nat \<Rightarrow> char list option) \<Rightarrow> nat list \<Rightarrow> worker \<Rightarrow> zmq_trace
    \<Rightarrow> worker_error + (worker \<times> zmq_trace)"
where
  "serve_ports z ready received [] w tr = Inr (w, tr)"
| "serve_ports z ready received (i # is) w tr =
     (if \<not> reps w ! i \<or> \<not> ready ! i then serve_ports z ready received is w tr
      else (case received i of
          None \<Rightarrow> serve_ports z ready received is w (tr @ [(Recv i, False)])
        | Some msg \<Rightarrow>
            (case worker_serve w i msg of
               Inl e \<Rightarrow> Inl e
             | Inr (w', None) \<Rightarrow> serve_ports z ready received is w' (tr @ [(Recv i, True)])
             | Inr (w', Some reply) \<Rightarrow>
                 (let tr1 = tr @ [(Recv i, True)]; tr2 = tr1 @ [(Send i reply, z tr1 (Send i reply))] in
                  serve_ports z ready received is w' (if reps w' ! i then tr2 else tr2 @ [(Close_socket i, True)])))))"

text \<open>The loop over the rounds that have happened so far; the flag says whether it has ended.\<close>

fun worker_loop :: "zmq \<Rightarrow> poll_input list \<Rightarrow> worker \<Rightarrow> zmq_trace \<Rightarrow> worker_error + (bool \<times> worker \<times> zmq_trace)" where
  "worker_loop z [] w tr = Inr (active w = 0, w, tr)"
| "worker_loop z (inp # inps) w tr =
     (if \<not> pi_running inp \<or> active w = 0 then Inr (True, w, tr)
      else (case pi_polled inp of
          None \<Rightarrow> Inr (True, w, tr)
        | Some ready \<Rightarrow>
            (case serve_ports z ready (pi_received inp) [0..<length (reps w)] w tr of
               Inl e \<Rightarrow> Inl e
             | Inr (w', tr') \<Rightarrow> worker_loop z inps w' tr')))"

text \<open>The exit status, \<open>None\<close> while the process runs, its worker if it has come so far, and its calls.\<close>

definition worker_main ::
  "zmq \<Rightarrow> string list \<Rightarrow> alloc \<Rightarrow> poll_input list \<Rightarrow> worker_error + (int option \<times> worker option \<times> zmq_trace)" where
  "worker_main z argv a inps =
     (case worker_setup z argv a of
        (Inl status, tr) \<Rightarrow> Inr (Some status, None, tr)
      | (Inr w, tr) \<Rightarrow>
          (case worker_loop z inps w tr of
             Inl e \<Rightarrow> Inl e
           | Inr (ended, w', tr') \<Rightarrow>
               Inr (if ended then (Some 0, Some w', tr' @ close_all 0 (reps w') @ [(Ctx_destroy, True)])
                    else (None, Some w', tr'))))"

subsection \<open>Opening the ports\<close>

text \<open>The endpoints that a process is bound to.\<close>

definition bound_to :: "zmq_trace \<Rightarrow> (nat \<times> string) set" where
  "bound_to tr = {(i, e). (Bind_socket i e, True) \<in> set tr}"

lemma bound_to_append [simp]: "bound_to (tr @ tr') = bound_to tr \<union> bound_to tr'"
  by (auto simp: bound_to_def)

lemma bound_to_simps [simp]:
  "bound_to [] = {}" "bound_to ((Ctx_new, ok) # tr) = bound_to tr" "bound_to ((Ctx_destroy, ok) # tr) = bound_to tr"
  "bound_to ((Open_socket i, ok) # tr) = bound_to tr" "bound_to ((Close_socket i, ok) # tr) = bound_to tr"
  "bound_to ((Recv i, ok) # tr) = bound_to tr" "bound_to ((Send i m, ok) # tr) = bound_to tr"
  "bound_to ((Bind_socket i e, ok) # tr) = (if ok then insert (i, e) (bound_to tr) else bound_to tr)"
  by (auto simp: bound_to_def)

lemma bound_to_close_all [simp]: "bound_to (close_all i bs) = {}"
  by (induction bs arbitrary: i) auto

lemma open_ports_uses:
  "open_ports z i ports tr = (bs, tr') \<Longrightarrow> zmq_uses r tr zmq_idle = Some (sockets S) \<Longrightarrow> \<forall>j \<in> S. j < i \<Longrightarrow>
    length bs = length ports \<and> zmq_uses r tr' zmq_idle = Some (sockets (S \<union> open_set i bs)) \<and> sent tr' = sent tr
    \<and> bound_to tr' = bound_to tr \<union> {(i + j, worker_endpoint (ports ! j)) |j. j < length bs \<and> bs ! j}"
proof (induction ports arbitrary: i tr bs S)
  case (Cons port ports)
  let ?tr1 = "tr @ [(Open_socket i, z tr (Open_socket i))]" and ?e = "worker_endpoint port"
  let ?b = "z ?tr1 (Bind_socket i ?e)"
  have more_bound: "{(i + j, worker_endpoint ((port # ports) ! j)) |j. j < length (b # bs') \<and> (b # bs') ! j}
      = (if b then {(i, ?e)} else {}) \<union> {(Suc i + j, worker_endpoint (ports ! j)) |j. j < length bs' \<and> bs' ! j}" for b bs'
    by (auto simp: less_Suc_eq_0_disj)
  have fresh: "i \<notin> S" using Cons.prems(3) by auto
  have above: "\<forall>j \<in> S. j < Suc i" "\<forall>j \<in> insert i S. j < Suc i" using Cons.prems(3) by auto
  show ?case
  proof (cases "z tr (Open_socket i) \<and> ?b")
    case True
    with Cons.prems(1) obtain bs' where bs: "bs = True # bs'"
      and rest: "open_ports z (Suc i) ports (?tr1 @ [(Bind_socket i ?e, True)]) = (bs', tr')"
      by (auto simp: Let_def split: prod.splits)
    have "zmq_uses r (?tr1 @ [(Bind_socket i ?e, True)]) zmq_idle = Some (sockets (insert i S))"
      using True fresh Cons.prems(2) by simp
    from Cons.IH [OF rest this above(2)] True show ?thesis unfolding bs more_bound by auto
  next
    case False
    define tr2 where "tr2 = (if z tr (Open_socket i) then ?tr1 @ [(Bind_socket i ?e, False), (Close_socket i, True)] else ?tr1)"
    from False Cons.prems(1) obtain bs' where bs: "bs = False # bs'" and rest: "open_ports z (Suc i) ports tr2 = (bs', tr')"
      by (auto simp: Let_def tr2_def split: prod.splits if_splits)
    have "S - {i} = S" using fresh by auto
    then have "zmq_uses r tr2 zmq_idle = Some (sockets S)"
      using fresh Cons.prems(2) by (simp add: tr2_def)
    moreover have "sent tr2 = sent tr" "bound_to tr2 = bound_to tr" by (simp_all add: tr2_def)
    ultimately show ?thesis using Cons.IH [OF rest _ above(1)] unfolding bs more_bound by auto
  qed
qed (auto simp: open_set_def)

subsection \<open>Serving the ports\<close>

definition replies :: "(nat \<times> char list \<times> char list option) list \<Rightarrow> (nat \<times> char list) list" where
  "replies es = List.map_filter (\<lambda>(i, msg, reply). map_option (Pair i) reply) es"

lemma replies_simps [simp]:
  "replies [] = []" "replies ((i, msg, Some reply) # es) = (i, reply) # replies es"
  by (simp_all add: replies_def map_filter_simps)

lemma replies_append [simp]: "replies (es @ es') = replies es @ replies es'"
  by (simp add: replies_def map_filter_def)

text \<open>The requests that the steps serve on a port, and what has arrived on it in a round and in several.\<close>

definition requests :: "nat \<Rightarrow> (nat \<times> char list \<times> char list option) list \<Rightarrow> char list list" where
  "requests i es = map (\<lambda>(j, msg, reply). msg) (filter (\<lambda>(j, msg, reply). j = i) es)"

lemma requests_simps [simp]:
  "requests i [] = []" "requests i ((j, msg, reply) # es) = (if j = i then msg # requests i es else requests i es)"
  "requests i (es @ es') = requests i es @ requests i es'"
  by (simp_all add: requests_def)

definition arrived :: "bool list \<Rightarrow> (nat \<Rightarrow> char list option) \<Rightarrow> nat \<Rightarrow> char list list" where
  "arrived ready received i = (if ready ! i then (case received i of None \<Rightarrow> [] | Some msg \<Rightarrow> [msg]) else [])"

definition arrivals :: "nat \<Rightarrow> poll_input list \<Rightarrow> char list list" where
  "arrivals i inps = concat (map (\<lambda>inp. case pi_polled inp of None \<Rightarrow> [] | Some ready \<Rightarrow> arrived ready (pi_received inp) i) inps)"

text \<open>A port is served up to the first rip request.\<close>

definition is_rip :: "char list \<Rightarrow> bool" where
  "is_rip msg \<longleftrightarrow> take 3 msg = ''rip''"

fun until_rip :: "char list list \<Rightarrow> char list list" where
  "until_rip [] = []"
| "until_rip (msg # msgs) = (if is_rip msg then [msg] else msg # until_rip msgs)"

lemma until_rip_append:
  "until_rip (ms @ ms') = (if \<exists>m \<in> set ms. is_rip m then until_rip ms else ms @ until_rip ms')"
  by (induction ms) auto

definition port_served ::
  "worker \<Rightarrow> worker \<Rightarrow> (nat \<times> char list \<times> char list option) list \<Rightarrow> nat \<Rightarrow> char list list \<Rightarrow> bool" where
  "port_served w w' es i msgs \<longleftrightarrow> requests i es = (if reps w ! i then until_rip msgs else [])
     \<and> (reps w' ! i \<longleftrightarrow> reps w ! i \<and> (\<forall>msg \<in> set msgs. \<not> is_rip msg))"

lemma until_rip_all: "\<forall>m \<in> set ms. \<not> is_rip m \<Longrightarrow> until_rip ms = ms"
  by (induction ms) auto

lemma port_served_trans:
  "port_served w w1 es i ms \<Longrightarrow> port_served w1 w' es' i ms' \<Longrightarrow> port_served w w' (es @ es') i (ms @ ms')"
  by (auto simp: port_served_def until_rip_append until_rip_all)

lemma port_served_closed: "port_served w w' es i ms \<Longrightarrow> \<not> reps w ! i \<Longrightarrow> port_served w w' es i ms'"
  by (simp add: port_served_def)

lemma port_served_none: "port_served w w [] i []"
  by (simp add: port_served_def)

lemma worker_run_trans: "worker_run w es w' \<Longrightarrow> worker_run w' es' w'' \<Longrightarrow> worker_run w (es @ es') w''"
  by (induction rule: worker_run.induct) (auto intro: run_Cons)

text \<open>A request to an open port gets a reply; after it the port is as before, or closed.\<close>

lemma worker_serve_open:
  assumes "worker_serve w i msg = Inr (w', reply)" and "reps w ! i" and "i < length (reps w)"
  obtains r where "reply = Some r" and "reps w' = (if is_rip msg then (reps w)[i := False] else reps w)"
proof -
  from assms obtain answer close a' where msg: "handle_message (w_alloc w) msg = Inr (answer, close, a')"
    and w': "reply = Some answer" "reps w' = (if close then (reps w)[i := False] else reps w)"
    by (cases "handle_message (w_alloc w) msg") (auto simp: worker_serve_def split: if_splits)
  have "\<not> is_rip msg" if "length msg < 3" using that by (auto simp: is_rip_def)
  then have "close \<longleftrightarrow> is_rip msg"
    using msg by (auto simp: handle_message_def is_rip_def Let_def split: if_splits prod.splits)
  with that w' show thesis by simp
qed

text \<open>
  What the calls so far and the state say of each other.  The open sockets are those of the state; the calls
  keep all rules, with only sockets of failed sends still to be sent on, unless a receive has already come
  out of turn because of such a send.
\<close>

definition turns_kept :: "zmq_trace \<Rightarrow> nat set \<Rightarrow> bool" where
  "turns_kept tr S \<longleftrightarrow> early_receive tr
     \<or> (\<exists>P. P \<subseteq> S \<and> P \<subseteq> failed_sends tr
          \<and> zmq_uses Replier tr zmq_idle = Some \<lparr>zs_ctx = True, zs_open = S, zs_second = P\<rparr>)"

definition process_ok :: "zmq_trace \<Rightarrow> worker \<Rightarrow> bool" where
  "process_ok tr w \<longleftrightarrow> worker_ok w \<and> zmq_lives tr zmq_idle = Some (sockets (open_set 0 (reps w)))
     \<and> turns_kept tr (open_set 0 (reps w))"

lemma turns_kept_receive:
  assumes "turns_kept tr S" and "i \<in> S"
  shows "turns_kept (tr @ [(Recv i, False)]) S"
  using assms(1) unfolding turns_kept_def
proof (elim disjE exE conjE)
  assume "early_receive tr"
  then show "early_receive (tr @ [(Recv i, False)]) \<or> (\<exists>P\<subseteq>S. P \<subseteq> failed_sends (tr @ [(Recv i, False)])
      \<and> zmq_uses Replier (tr @ [(Recv i, False)]) zmq_idle = Some \<lparr>zs_ctx = True, zs_open = S, zs_second = P\<rparr>)"
    using early_receive_append by blast
next
  fix P assume P: "P \<subseteq> S" "P \<subseteq> failed_sends tr"
    and uses: "zmq_uses Replier tr zmq_idle = Some \<lparr>zs_ctx = True, zs_open = S, zs_second = P\<rparr>"
  show "early_receive (tr @ [(Recv i, False)]) \<or> (\<exists>P\<subseteq>S. P \<subseteq> failed_sends (tr @ [(Recv i, False)])
      \<and> zmq_uses Replier (tr @ [(Recv i, False)]) zmq_idle = Some \<lparr>zs_ctx = True, zs_open = S, zs_second = P\<rparr>)"
  proof (cases "i \<in> P")
    case True
    with P uses assms(2) have "early_receive (tr @ [(Recv i, False)])"
      unfolding early_receive_def by (intro exI [of _ tr] exI [of _ i] exI [of _ False] exI [of _ "[]"]) auto
    then show ?thesis ..
  next
    case False
    with P uses assms(2) show ?thesis by (intro disjI2 exI [of _ P]) (auto simp: first_half_def)
  qed
qed

lemma turns_kept_exchange:
  assumes "turns_kept tr S" and "i \<in> S"
  shows "turns_kept (tr @ [(Recv i, True), (Send i m, ok)] @ (if keep then [] else [(Close_socket i, True)])) (if keep then S else S - {i})"
    (is "turns_kept (tr @ ?new) ?S")
  using assms(1) unfolding turns_kept_def [of tr]
proof (elim disjE exE conjE)
  assume "early_receive tr"
  then show ?thesis unfolding turns_kept_def using early_receive_append by blast
next
  fix P assume P: "P \<subseteq> S" "P \<subseteq> failed_sends tr"
    and uses: "zmq_uses Replier tr zmq_idle = Some \<lparr>zs_ctx = True, zs_open = S, zs_second = P\<rparr>"
  show ?thesis
  proof (cases "i \<in> P")
    case True
    with P uses assms(2) have "early_receive (tr @ ?new)"
      unfolding early_receive_def by (intro exI [of _ tr] exI [of _ i] exI [of _ True] exI [of _ "tl ?new"]) auto
    then show ?thesis by (simp add: turns_kept_def)
  next
    case False
    let ?P = "(if ok then P else insert i P) - (if keep then {} else {i})"
    have "zmq_uses Replier (tr @ ?new) zmq_idle = Some \<lparr>zs_ctx = True, zs_open = ?S, zs_second = ?P\<rparr>"
      using False uses assms(2) by (simp add: first_half_def second_half_def)
    moreover have "?P \<subseteq> ?S" using P(1) assms(2) by auto
    moreover have "?P \<subseteq> failed_sends (tr @ ?new)" using P(2) by (auto simp: failed_sends_def)
    ultimately show ?thesis unfolding turns_kept_def by blast
  qed
qed

definition continues ::
  "worker \<Rightarrow> zmq_trace \<Rightarrow> (nat \<times> char list \<times> char list option) list \<Rightarrow> worker \<Rightarrow> zmq_trace \<Rightarrow> bool" where
  "continues w tr es w' tr' \<longleftrightarrow> process_ok tr' w' \<and> bound_to tr' = bound_to tr
     \<and> worker_run w es w' \<and> sent tr' = sent tr @ replies es"

lemma continues_refl: "process_ok tr w \<Longrightarrow> continues w tr [] w tr"
  by (simp add: continues_def)

lemma continues_trans: "continues w tr es w1 tr1 \<Longrightarrow> continues w1 tr1 es' w' tr' \<Longrightarrow> continues w tr (es @ es') w' tr'"
  unfolding continues_def using worker_run_trans by auto

lemma continues_ok: "continues w tr es w' tr' \<Longrightarrow> process_ok tr' w'"
  by (simp add: continues_def)

lemma failed_receive_continues:
  assumes "process_ok tr w" and "i < length (reps w)" and "reps w ! i"
  shows "continues w tr [] w (tr @ [(Recv i, False)])"
proof -
  have "i \<in> open_set 0 (reps w)" using assms(2,3) by (simp add: open_set_0)
  with assms(1) turns_kept_receive show ?thesis by (simp add: continues_def process_ok_def)
qed

lemma request_continues:
  assumes ok: "process_ok tr w" and i: "i < length (reps w)" "reps w ! i" and serve: "worker_serve w i msg = Inr (w', Some reply)"
    and state: "reps w' = (if is_rip msg then (reps w)[i := False] else reps w)"
  shows "continues w tr [(i, msg, Some reply)] w'
    (tr @ [(Recv i, True), (Send i reply, sent_ok)] @ (if reps w' ! i then [] else [(Close_socket i, True)]))"
    (is "continues w tr ?es w' ?tr")
proof -
  from i ok have "0 < active w"
    unfolding process_ok_def worker_ok_def by (metis filter_empty_conv length_greater_0_conv nth_mem)
  with i(1) serve have step: "worker_step w (i, msg, Some reply) w'" by (intro worker_step.serve)
  have mem: "i \<in> open_set 0 (reps w)" using i by (simp add: open_set_0)
  have keep: "reps w' ! i \<longleftrightarrow> \<not> is_rip msg" using state i by simp
  have S: "open_set 0 (reps w') = (if reps w' ! i then open_set 0 (reps w) else open_set 0 (reps w) - {i})"
    using state keep open_set_close by simp
  have "turns_kept ?tr (open_set 0 (reps w'))"
    unfolding S using ok mem by (intro turns_kept_exchange) (simp_all add: process_ok_def)
  moreover have "zmq_lives ?tr zmq_idle = Some (sockets (open_set 0 (reps w')))"
    unfolding S using ok mem by (simp add: process_ok_def)
  ultimately have "process_ok ?tr w'" using ok worker_step_ok [OF step] by (simp add: process_ok_def)
  moreover have "worker_run w ?es w'" using step by (rule run_Cons) (rule run_Nil)
  ultimately show ?thesis unfolding continues_def by simp
qed

lemma request_served:
  assumes "i < length (reps w)" and "reps w ! i" and "reps w' = (if is_rip msg then (reps w)[i := False] else reps w)"
  shows "port_served w w' [(i, msg, Some reply)] j (if j = i then [msg] else [])"
  using assms by (auto simp: port_served_def nth_list_update)

lemma serve_ports_continues:
  "serve_ports z ready received is w tr = Inr (w', tr') \<Longrightarrow> process_ok tr w \<Longrightarrow> \<forall>i \<in> set is. i < length (reps w) \<Longrightarrow> distinct is \<Longrightarrow>
    \<exists>es. continues w tr es w' tr' \<and> length (reps w') = length (reps w)
      \<and> (\<forall>j. port_served w w' es j (if j \<in> set is then arrived ready received j else []))"
proof (induction "is" arbitrary: w tr)
  case Nil
  then show ?case using continues_refl port_served_none by (intro exI [of _ "[]"]) simp
next
  case (Cons i "is")
  have i: "i < length (reps w)" and later: "\<forall>i \<in> set is. i < length (reps w)" using Cons.prems(3) by simp_all
  have dist: "i \<notin> set is" "distinct is" using Cons.prems(4) by simp_all
  show ?case
  proof (cases "reps w ! i \<and> ready ! i \<and> received i \<noteq> None")
    case False
    define tr1 where "tr1 = (if reps w ! i \<and> ready ! i then tr @ [(Recv i, False)] else tr)"
    have first: "continues w tr [] w tr1"
      using failed_receive_continues [OF Cons.prems(2) i] continues_refl [OF Cons.prems(2)] by (simp add: tr1_def)
    from False Cons.prems(1) have rest: "serve_ports z ready received is w tr1 = Inr (w', tr')" by (auto simp: tr1_def)
    from Cons.IH [OF rest continues_ok [OF first] later dist(2)] obtain es where
      es: "continues w tr1 es w' tr'" "length (reps w') = length (reps w)"
      and ports: "\<And>j. port_served w w' es j (if j \<in> set is then arrived ready received j else [])" by blast
    have "port_served w w' es j (if j \<in> set (i # is) then arrived ready received j else [])" for j
    proof (cases "j = i")
      case True
      have none: "port_served w w' es i []" using ports [of i] dist(1) by simp
      have "arrived ready received i = []" if "reps w ! i" using False that by (auto simp: arrived_def)
      with none port_served_closed [OF none] True show ?thesis by (cases "reps w ! i") simp_all
    next
      case False
      with ports [of j] show ?thesis by simp
    qed
    with continues_trans [OF first es(1)] es(2) show ?thesis by (intro exI [of _ es]) simp
  next
    case True
    then obtain msg where open_port: "reps w ! i" and ready: "ready ! i" and msg: "received i = Some msg" by auto
    with Cons.prems(1) obtain w1 r where serve: "worker_serve w i msg = Inr (w1, r)"
      by (cases "worker_serve w i msg") auto
    from worker_serve_open [OF serve open_port i] obtain reply where r: "r = Some reply"
      and state: "reps w1 = (if is_rip msg then (reps w)[i := False] else reps w)" by blast
    define sent_ok where "sent_ok = z (tr @ [(Recv i, True)]) (Send i reply)"
    let ?tr = "tr @ [(Recv i, True), (Send i reply, sent_ok)] @ (if reps w1 ! i then [] else [(Close_socket i, True)])"
    from open_port ready msg Cons.prems(1) serve r have rest: "serve_ports z ready received is w1 ?tr = Inr (w', tr')"
      by (simp add: Let_def sent_ok_def split: if_splits)
    have first: "continues w tr [(i, msg, Some reply)] w1 ?tr"
      by (rule request_continues [OF Cons.prems(2) i open_port serve [unfolded r] state])
    have len: "length (reps w1) = length (reps w)" using state by simp
    with later have "\<forall>i \<in> set is. i < length (reps w1)" by simp
    from Cons.IH [OF rest continues_ok [OF first] this dist(2)] obtain es where
      es: "continues w1 ?tr es w' tr'" "length (reps w') = length (reps w1)"
      and ports: "\<And>j. port_served w1 w' es j (if j \<in> set is then arrived ready received j else [])" by blast
    have "port_served w w' ([(i, msg, Some reply)] @ es) j (if j \<in> set (i # is) then arrived ready received j else [])" for j
      using port_served_trans [OF request_served [OF i open_port state] ports, of reply j] dist(1) ready msg
      by (cases "j = i") (auto simp: arrived_def)
    with continues_trans [OF first es(1)] es(2) len show ?thesis by (intro exI [of _ "[(i, msg, Some reply)] @ es"]) simp
  qed
qed

text \<open>The rounds that the loop has served, and why it goes on or has ended.\<close>

definition ends_with :: "poll_input list \<Rightarrow> worker \<Rightarrow> bool \<Rightarrow> bool" where
  "ends_with rest w ended \<longleftrightarrow>
     (if ended then active w = 0 \<or> rest \<noteq> [] \<and> (\<not> pi_running (hd rest) \<or> pi_polled (hd rest) = None)
      else rest = [] \<and> 0 < active w)"

lemma worker_loop_continues:
  "worker_loop z inps w tr = Inr (ended, w', tr') \<Longrightarrow> process_ok tr w \<Longrightarrow>
    \<exists>es rounds rest. continues w tr es w' tr' \<and> length (reps w') = length (reps w) \<and> inps = rounds @ rest
      \<and> (\<forall>inp \<in> set rounds. pi_running inp \<and> pi_polled inp \<noteq> None) \<and> ends_with rest w' ended
      \<and> (\<forall>j < length (reps w). port_served w w' es j (arrivals j rounds))"
proof (induction inps arbitrary: w tr)
  case Nil
  then show ?case using continues_refl port_served_none
    by (intro exI [of _ "[]"]) (auto simp: ends_with_def arrivals_def)
next
  case (Cons inp inps)
  show ?case
  proof (cases "pi_running inp \<and> active w \<noteq> 0 \<and> pi_polled inp \<noteq> None")
    case False
    with Cons.prems have "ended \<and> w' = w \<and> tr' = tr" by (auto split: if_splits)
    with False continues_refl [OF Cons.prems(2)] port_served_none show ?thesis
      by (intro exI [of _ "[]"] exI [of _ "inp # inps"]) (auto simp: ends_with_def arrivals_def)
  next
    case True
    with Cons.prems(1) obtain ready w1 tr1 where polled: "pi_polled inp = Some ready" and
      first: "serve_ports z ready (pi_received inp) [0..<length (reps w)] w tr = Inr (w1, tr1)"
      and rest: "worker_loop z inps w1 tr1 = Inr (ended, w', tr')" by (auto split: option.splits sum.splits)
    from serve_ports_continues [OF first Cons.prems(2)] obtain es where
      c: "continues w tr es w1 tr1" "length (reps w1) = length (reps w)"
      and now: "\<And>j. port_served w w1 es j (if j \<in> set [0..<length (reps w)] then arrived ready (pi_received inp) j else [])" by auto
    from Cons.IH [OF rest continues_ok [OF c(1)]] obtain es' rounds rest where
      c': "continues w1 tr1 es' w' tr'" "length (reps w') = length (reps w1)" "inps = rounds @ rest"
        "\<forall>inp \<in> set rounds. pi_running inp \<and> pi_polled inp \<noteq> None" "ends_with rest w' ended"
      and later: "\<forall>j < length (reps w1). port_served w1 w' es' j (arrivals j rounds)" by blast
    have "port_served w w' (es @ es') j (arrivals j (inp # rounds))" if "j < length (reps w)" for j
      using port_served_trans [OF now [of j]] later that c(2) polled by (simp add: arrivals_def)
    with continues_trans [OF c(1) c'(1)] c(2) c'(2-5) True show ?thesis
      by (intro exI [of _ "es @ es'"] exI [of _ "inp # rounds"] exI [of _ rest]) simp
  qed
qed

subsection \<open>The whole process\<close>

lemma malloc_tl: "malloc a = (ok, a') \<Longrightarrow> a' = tl a"
  by (cases a) auto

lemma worker_setup_ok:
  assumes "worker_setup z argv a = (Inr w, tr)"
  obtains bound where "length bound = length argv - 1" and "w = worker_start bound (tl (tl a))" and "process_ok tr w"
    and "sent tr = []" and "bound_to tr = {(i, worker_endpoint (argv ! Suc i)) |i. i < length bound \<and> bound ! i}"
proof -
  let ?tr = "[(Ctx_new, True)]"
  from assms obtain a1 a2 bound where argv: "2 \<le> length argv" and m: "malloc a = (True, a1)" "malloc a1 = (True, a2)"
    and o: "open_ports z 0 (tl argv) ?tr = (bound, tr)" and w: "w = worker_start bound a2"
    by (auto simp: worker_setup_def Let_def split: if_splits prod.splits)
  have "zmq_uses r ?tr zmq_idle = Some (sockets {})" for r by (simp add: zmq_idle_def)
  note uses = open_ports_uses [OF o this]
  have a2: "a2 = tl (tl a)" using m malloc_tl by metis
  have "tl argv ! i = argv ! Suc i" if "i < length (tl argv)" for i using that by (simp add: nth_tl)
  then have bound_to: "{(0 + j, worker_endpoint (tl argv ! j)) |j. j < length bound \<and> bound ! j}
      = {(i, worker_endpoint (argv ! Suc i)) |i. i < length bound \<and> bound ! i}"
    using uses by auto
  have kept: "zmq_uses Replier tr zmq_idle = Some (sockets (open_set 0 (reps w)))" using uses w by (simp add: worker_start_def)
  from zmq_uses_lives [OF kept] have "zmq_lives tr zmq_idle = Some (sockets (open_set 0 (reps w)))" by (simp add: zmq_idle_def)
  with kept have "process_ok tr w"
    unfolding process_ok_def turns_kept_def using w worker_ok_start by (metis empty_subsetI)
  with that [of bound] uses bound_to w a2 show thesis by simp
qed

lemma worker_setup_failed:
  assumes "worker_setup z argv a = (Inl status, tr)"
  shows "status = 1 \<and> zmq_uses Replier tr zmq_idle = Some zmq_idle"
proof -
  let ?tr = "[(Ctx_new, True)]"
  have start: "zmq_uses Replier ?tr zmq_idle = Some (sockets {})" by (simp add: zmq_idle_def)
  from assms consider "status = 1" "tr = []" | "status = 1" "tr = [(Ctx_new, False)]" | "status = 1" "tr = ?tr @ [(Ctx_destroy, True)]"
    | bound tr1 where "status = 1" "open_ports z 0 (tl argv) ?tr = (bound, tr1)" "tr = tr1 @ close_all 0 bound @ [(Ctx_destroy, True)]"
    by (auto simp: worker_setup_def Let_def split: if_splits prod.splits)
  then show ?thesis
  proof cases
    case 4
    with open_ports_uses [OF 4(2) start] close_all_uses [of Replier 0 bound] show ?thesis
      by (simp add: zmq_idle_def)
  qed (simp_all add: zmq_idle_def)
qed

lemma worker_main_cases:
  assumes "worker_main z argv a inps = Inr (status, ow, tr)"
  obtains "ow = None" and "worker_setup z argv a = (Inl 1, tr)" and "status = Some 1"
  | w0 tr0 es w tr1 rounds rest where "ow = Some w" and "worker_setup z argv a = (Inr w0, tr0)"
    and "continues w0 tr0 es w tr1" and "length (reps w) = length (reps w0)" and "inps = rounds @ rest"
    and "\<forall>inp \<in> set rounds. pi_running inp \<and> pi_polled inp \<noteq> None"
    and "\<forall>j < length (reps w0). port_served w0 w es j (arrivals j rounds)"
    and "status = Some 0 \<and> tr = tr1 @ close_all 0 (reps w) @ [(Ctx_destroy, True)] \<and> ends_with rest w True
      \<or> status = None \<and> tr = tr1 \<and> ends_with rest w False"
proof (cases "worker_setup z argv a")
  case (Pair res tr0)
  show thesis
  proof (cases res)
    case (Inl s)
    with Pair worker_setup_failed [of z argv a s tr0] assms that(1) show thesis by (simp add: worker_main_def)
  next
    case (Inr w0)
    with Pair have start: "worker_setup z argv a = (Inr w0, tr0)" by simp
    with assms obtain ended w tr1 where loop: "worker_loop z inps w0 tr0 = Inr (ended, w, tr1)"
      and out: "(status, ow, tr) = (if ended then (Some 0, Some w, tr1 @ close_all 0 (reps w) @ [(Ctx_destroy, True)]) else (None, Some w, tr1))"
      by (auto simp: worker_main_def split: sum.splits)
    have ok: "process_ok tr0 w0" using start by (rule worker_setup_ok)
    from worker_loop_continues [OF loop ok] obtain es rounds rest where
      "continues w0 tr0 es w tr1" "length (reps w) = length (reps w0)" "inps = rounds @ rest"
      "\<forall>inp \<in> set rounds. pi_running inp \<and> pi_polled inp \<noteq> None" "ends_with rest w ended"
      "\<forall>j < length (reps w0). port_served w0 w es j (arrivals j rounds)" by blast
    with out that(2) [OF _ start] show thesis by (auto split: if_splits)
  qed
qed

text \<open>C16: The worker process and the rules of ZeroMQ, whatever calls fail.  Sockets are bound, used and closed only
  while they are open, and when the process ends, after a failed set-up, after an interrupt, a failed poll or because
  every port is closed, each socket that it created has been closed exactly once and the context is destroyed after
  that, so that the call returns.  Receiving and sending alternate on every socket as long as no send fails.  The
  result of \<open>zmq_send\<close> is ignored: after a failed send the reply is due for ever, and the only other rule
  that is ever broken is that the next call on that socket is a receive out of turn.\<close>

theorem worker_process_keeps_zmq_rules:
  assumes "worker_main z argv a inps = Inr (status, w, tr)"
  shows "zmq_lives tr zmq_idle = Some
      (case status of Some s \<Rightarrow> zmq_idle
       | None \<Rightarrow> \<lparr>zs_ctx = True, zs_open = {i. i < length (reps (the w)) \<and> reps (the w) ! i}, zs_second = {}\<rparr>)
    \<and> ((\<forall>i m. (Send i m, False) \<notin> set tr) \<longrightarrow> zmq_uses Replier tr zmq_idle = Some
      (case status of Some s \<Rightarrow> zmq_idle
       | None \<Rightarrow> \<lparr>zs_ctx = True, zs_open = {i. i < length (reps (the w)) \<and> reps (the w) ! i}, zs_second = {}\<rparr>))
    \<and> (zmq_uses Replier tr zmq_idle = None \<longrightarrow>
      (\<exists>tr1 i ok tr2 s m. tr = tr1 @ (Recv i, ok) # tr2 \<and> zmq_uses Replier tr1 zmq_idle = Some s
        \<and> i \<in> zs_open s \<and> i \<in> zs_second s \<and> (Send i m, False) \<in> set tr1))"
  using assms
proof (cases rule: worker_main_cases)
  case 1
  from worker_setup_failed [OF 1(2)] have "zmq_uses Replier tr zmq_idle = Some zmq_idle" by simp
  with zmq_uses_lives [OF this] 1(3) show ?thesis by (simp add: zmq_idle_def)
next
  case (2 w0 tr0 es w' tr1 rounds rest)
  let ?S = "open_set 0 (reps w')" and ?close = "close_all 0 (reps w') @ [(Ctx_destroy, True)]"
  have S: "?S = {i. i < length (reps (the w)) \<and> reps (the w) ! i}" using 2(1) by (auto simp: open_set_0)
  from 2(3) have ok: "process_ok tr1 w'" by (rule continues_ok)
  then have lives: "zmq_lives tr1 zmq_idle = Some (sockets ?S)" by (simp add: process_ok_def)
  have "zmq_uses Replier ?close (sockets ?S) = Some zmq_idle"
    by (simp only: zmq_uses_append close_all_uses ctx_destroy_uses bind.bind_lunit)
  from zmq_uses_lives [OF this] have close_lives: "zmq_lives ?close (sockets ?S) = Some zmq_idle" by (simp add: zmq_idle_def)
  have close_uses: "zmq_uses Replier ?close \<lparr>zs_ctx = True, zs_open = ?S, zs_second = P\<rparr> = Some zmq_idle" if "P \<subseteq> ?S" for P
    using close_all_uses_any [OF that, of Replier] by (simp only: zmq_uses_append ctx_destroy_uses bind.bind_lunit)
  consider (early) "early_receive tr1"
    | (kept) P where "P \<subseteq> ?S" "P \<subseteq> failed_sends tr1"
        "zmq_uses Replier tr1 zmq_idle = Some \<lparr>zs_ctx = True, zs_open = ?S, zs_second = P\<rparr>"
    using ok by (auto simp: process_ok_def turns_kept_def)
  note turns = this
  have failed: "failed_sends tr1 \<noteq> {}" if "early_receive tr1" using that by (auto simp: early_receive_def)
  have out_of_turn: "\<exists>tr1 i ok tr2 s m. tr = tr1 @ (Recv i, ok) # tr2 \<and> zmq_uses Replier tr1 zmq_idle = Some s
        \<and> i \<in> zs_open s \<and> i \<in> zs_second s \<and> (Send i m, False) \<in> set tr1" if "early_receive tr"
    using that unfolding early_receive_def failed_sends_def by blast
  from 2(8) show ?thesis
  proof (elim disjE conjE)
    assume out: "status = Some 0" "tr = tr1 @ ?close"
    have none: "failed_sends tr1 = {}" if "\<forall>i m. (Send i m, False) \<notin> set tr" using that out(2) by (auto simp: failed_sends_def)
    from turns show ?thesis
    proof cases
      case early
      then have "early_receive tr" using early_receive_append out(2) by blast
      moreover have "\<exists>i m. (Send i m, False) \<in> set tr" using none failed [OF early] by blast
      moreover have "zmq_lives tr zmq_idle = Some zmq_idle" unfolding out(2) zmq_lives_append lives bind.bind_lunit by (rule close_lives [unfolded zmq_lives_append])
      ultimately show ?thesis using out_of_turn out(1) by auto
    next
      case kept
      with close_uses [OF kept(1)] lives close_lives out show ?thesis by simp
    qed
  next
    assume out: "status = None" "tr = tr1"
    have none: "failed_sends tr1 = {}" if "\<forall>i m. (Send i m, False) \<notin> set tr" using that out(2) by (auto simp: failed_sends_def)
    from turns show ?thesis
    proof cases
      case early
      then have "early_receive tr" using out(2) by simp
      moreover have "\<exists>i m. (Send i m, False) \<in> set tr" using none failed [OF early] by blast
      moreover have "zmq_lives tr zmq_idle = Some (sockets ?S)" using lives out(2) by simp
      ultimately show ?thesis using out_of_turn out(1) S by auto
    next
      case kept
      have "P = {}" if "\<forall>i m. (Send i m, False) \<notin> set tr" using none [OF that] kept(2) by blast
      with kept(3) lives out S show ?thesis by simp
    qed
  qed
qed

text \<open>A process with one port that gets a rip request.\<close>

abbreviation rip_inputs :: "poll_input list" where
  "rip_inputs \<equiv> [\<lparr>pi_running = True, pi_polled = Some [True], pi_received = (\<lambda>i. Some (''rip'' @ [NUL]))\<rparr>]"

lemma rip_run:
  "worker_main (\<lambda>tr c. True) [''worker'', ''7000''] [] rip_inputs =
    Inr (Some 0, Some \<lparr>reps = [False], active = 0, w_alloc = []\<rparr>,
      [(Ctx_new, True), (Open_socket 0, True), (Bind_socket 0 ''tcp://*:7000'', True), (Recv 0, True),
       (Send 0 (''rip'' @ [NUL]), True), (Close_socket 0, True), (Ctx_destroy, True)])"
proof -
  have "worker_serve \<lparr>reps = [True], active = 1, w_alloc = []\<rparr> 0 (''rip'' @ [NUL]) =
      Inr (\<lparr>reps = [False], active = 0, w_alloc = []\<rparr>, Some (''rip'' @ [NUL]))"
    by (simp add: worker_serve_def handle_message_def RECV_BUFFER_SIZE_def is_new_protocol_def HEADER_LEN_def)
  then show ?thesis
    by (simp add: worker_main_def worker_setup_def worker_start_def worker_endpoint_def snprintf_kept_def Let_def)
qed

lemma worker_process_keeps_zmq_rules_witness:
  "zmq_uses Replier [(Ctx_new, True), (Open_socket 0, True), (Bind_socket 0 ''tcp://*:7000'', True), (Recv 0, True),
       (Send 0 (''rip'' @ [NUL]), True), (Close_socket 0, True), (Ctx_destroy, True)] zmq_idle = Some zmq_idle"
  using worker_process_keeps_zmq_rules [OF rip_run] by simp

text \<open>A process whose first reply cannot be sent, and that receives again on the same socket.\<close>

lemma failed_send_upsets_turns:
  "\<exists>tr. worker_main (\<lambda>tr c. \<not> (\<exists>m. c = Send 0 m)) [''worker'', ''7000''] []
      (replicate 2 \<lparr>pi_running = True, pi_polled = Some [True], pi_received = (\<lambda>i. Some ''?'')\<rparr>) =
    Inr (None, Some \<lparr>reps = [True], active = 1, w_alloc = []\<rparr>, tr) \<and> zmq_uses Replier tr zmq_idle = None"
proof -
  have "worker_serve \<lparr>reps = [True], active = 1, w_alloc = []\<rparr> 0 ''?'' =
      Inr (\<lparr>reps = [True], active = 1, w_alloc = []\<rparr>, Some empty_reply)"
    by (simp add: worker_serve_def handle_message_def RECV_BUFFER_SIZE_def)
  then show ?thesis
    by (simp add: worker_main_def worker_setup_def worker_start_def worker_endpoint_def snprintf_kept_def Let_def
        numeral_2_eq_2 zmq_idle_def first_half_def second_half_def)
qed

text \<open>C15: The worker process refines the steps of its request handler.  Once it is set up, it is bound to
  \<open>tcp://*:PORT\<close> for exactly the ports of its command line that could be opened.  In every sequence of rounds of the loop,
  whatever arrives in them and whatever calls fail, everything that it hands to \<open>zmq_send\<close> is what a run of the steps from these
  ports answers, in the same order; on each of these ports the steps serve exactly what has arrived there, in order, up to
  the first rip request, which closes the port.  The process goes on with the rounds as long as a port is open: it
  ends with status 0 if and only if no port is open any more, or a round was interrupted or its poll failed.  (A
  message that fills the receive buffer is not covered: its terminator is written behind the buffer.)\<close>

theorem worker_process_refines_steps:
  assumes "worker_main z argv a inps = Inr (status, Some w, tr)"
  shows "\<exists>bound es rounds rest. length bound = length argv - 1
    \<and> bound_to tr = {(i, worker_endpoint (argv ! Suc i)) |i. i < length bound \<and> bound ! i}
    \<and> worker_run (worker_start bound (tl (tl a))) es w \<and> sent tr = replies es
    \<and> inps = rounds @ rest \<and> (\<forall>inp \<in> set rounds. pi_running inp \<and> pi_polled inp \<noteq> None)
    \<and> (\<forall>i < length bound. requests i es = (if bound ! i then until_rip (arrivals i rounds) else [])
        \<and> (reps w ! i \<longleftrightarrow> bound ! i \<and> (\<forall>msg \<in> set (arrivals i rounds). \<not> is_rip msg)))
    \<and> (if status = None then rest = [] \<and> (\<exists>i < length bound. reps w ! i)
       else status = Some 0 \<and> ((\<forall>i < length bound. \<not> reps w ! i)
         \<or> rest \<noteq> [] \<and> (\<not> pi_running (hd rest) \<or> pi_polled (hd rest) = None)))"
  using assms
proof (cases rule: worker_main_cases)
  case (2 w0 tr0 es w' tr1 rounds rest)
  obtain bound where bound: "length bound = length argv - 1" "w0 = worker_start bound (tl (tl a))"
    and bound': "sent tr0 = []" "bound_to tr0 = {(i, worker_endpoint (argv ! Suc i)) |i. i < length bound \<and> bound ! i}"
    by (rule worker_setup_ok [OF 2(2)])
  from 2(3) have run: "worker_run w0 es w'" and es: "sent tr1 = replies es" "bound_to tr1 = bound_to tr0"
    by (simp_all add: continues_def bound'(1))
  have "sent (tr1 @ close_all 0 (reps w') @ [(Ctx_destroy, True)]) = replies es"
    "bound_to (tr1 @ close_all 0 (reps w') @ [(Ctx_destroy, True)]) = bound_to tr0"
    by (simp_all add: es)
  with 2(8) es have tr: "sent tr = replies es" "bound_to tr = bound_to tr0" by (elim disjE conjE; simp only:)+
  have w: "w' = w" using 2(1) by simp
  have start: "reps w0 = bound" by (simp add: bound(2) worker_start_def)
  have ports: "requests i es = (if bound ! i then until_rip (arrivals i rounds) else [])
      \<and> (reps w ! i \<longleftrightarrow> bound ! i \<and> (\<forall>msg \<in> set (arrivals i rounds). \<not> is_rip msg))" if "i < length bound" for i
    using 2(7) that by (simp add: port_served_def start w)
  have "active w = length (filter (\<lambda>b. b) (reps w))" using continues_ok [OF 2(3)] by (simp add: process_ok_def worker_ok_def w)
  then have none: "active w = 0 \<longleftrightarrow> (\<forall>i < length bound. \<not> reps w ! i)"
    using 2(4) by (auto simp: start w filter_empty_conv all_set_conv_all_nth)
  have "if status = None then rest = [] \<and> (\<exists>i < length bound. reps w ! i)
       else status = Some 0 \<and> ((\<forall>i < length bound. \<not> reps w ! i)
         \<or> rest \<noteq> [] \<and> (\<not> pi_running (hd rest) \<or> pi_polled (hd rest) = None))"
    using 2(8) none by (auto simp: ends_with_def w)
  note ending = this
  have bound_tr: "bound_to tr = {(i, worker_endpoint (argv ! Suc i)) |i. i < length bound \<and> bound ! i}"
    using tr(2) bound'(2) by (rule trans)
  have run': "worker_run (worker_start bound (tl (tl a))) es w" using run unfolding bound(2) w .
  have "\<forall>i < length bound. requests i es = (if bound ! i then until_rip (arrivals i rounds) else [])
      \<and> (reps w ! i \<longleftrightarrow> bound ! i \<and> (\<forall>msg \<in> set (arrivals i rounds). \<not> is_rip msg))" using ports by blast
  with bound(1) bound_tr run' tr(1) 2(5,6) ending show ?thesis
    by (rule_tac exI [of _ bound], rule_tac exI [of _ es], rule_tac exI [of _ rounds], rule_tac exI [of _ rest]) (intro conjI)
qed simp

lemma worker_process_refines_steps_witness:
  "\<exists>bound es. length bound = 1
    \<and> worker_run (worker_start bound []) es \<lparr>reps = [False], active = 0, w_alloc = []\<rparr> \<and> replies es = [(0, ''rip'' @ [NUL])]
    \<and> {(i, worker_endpoint ([''worker'', ''7000''] ! Suc i)) |i. i < length bound \<and> bound ! i} = {(0, ''tcp://*:7000'')}"
proof -
  let ?b = "\<lambda>bound. {(i, worker_endpoint ([''worker'', ''7000''] ! Suc i)) |i. i < length bound \<and> bound ! i}"
  from worker_process_refines_steps [OF rip_run] obtain bound es where l: "length bound = length [''worker'', ''7000''] - 1"
    and b: "bound_to [(Ctx_new, True), (Open_socket 0, True), (Bind_socket 0 ''tcp://*:7000'', True), (Recv 0, True),
       (Send 0 (''rip'' @ [NUL]), True), (Close_socket 0, True), (Ctx_destroy, True)] = ?b bound"
    and run: "worker_run (worker_start bound (tl (tl []))) es \<lparr>reps = [False], active = 0, w_alloc = []\<rparr>"
    and s: "sent [(Ctx_new, True), (Open_socket 0, True), (Bind_socket 0 ''tcp://*:7000'', True), (Recv 0, True),
       (Send 0 (''rip'' @ [NUL]), True), (Close_socket 0, True), (Ctx_destroy, True)] = replies es" by blast
  have "?b bound = {(0, ''tcp://*:7000'')}" unfolding b [symmetric] by simp
  moreover have "length bound = 1" using l by simp
  moreover have "replies es = [(0, ''rip'' @ [NUL])]" unfolding s [symmetric] by simp
  moreover have "worker_run (worker_start bound []) es \<lparr>reps = [False], active = 0, w_alloc = []\<rparr>" using run by (simp only: list.sel)
  ultimately show ?thesis by (intro exI [of _ bound] exI [of _ es] conjI)
qed

end
