(* ===== verification/Distributor_Main.thy ===== *)
theory Distributor_Main
  imports Distributor Zmq_Sockets
begin

section \<open>The distributor as a process (zmq\_distributor.c)\<close>

text \<open>
  \<open>main\<close> from its arguments to its exit: context and connections, the two phases of \<open>Distributor\<close>, the
  shutdown and the clean-up, with all its ZeroMQ calls recorded.  The socket of the worker \<open>i\<close> has the
  number \<open>i\<close>.  A send is taken to succeed; what a receive brings is the network's answer.
\<close>

definition distributor_endpoint :: "string \<Rightarrow> string" where
  "distributor_endpoint port = snprintf_kept 64 (''tcp://localhost:'' @ port)"

text \<open>The loop that creates and connects the sockets; it gives up at the first failure.\<close>

fun connect_workers :: "zmq \<Rightarrow> nat \<Rightarrow> string list \<Rightarrow> zmq_trace \<Rightarrow> bool \<times> zmq_trace" where
  "connect_workers z i [] tr = (True, tr)"
| "connect_workers z i (port # ports) tr =
     (let created = z tr (Open_socket i); tr1 = tr @ [(Open_socket i, created)] in
      if \<not> created then (False, tr1)
      else (let endpoint = distributor_endpoint port; connected = z tr1 (Connect_socket i endpoint);
                tr2 = tr1 @ [(Connect_socket i endpoint, connected)] in
        if \<not> connected then (False, tr2) else connect_workers z (Suc i) ports tr2))"

definition distributor_setup :: "zmq \<Rightarrow> string list \<Rightarrow> alloc \<Rightarrow> (dist_error + alloc) \<times> zmq_trace" where
  "distributor_setup z argv a =
     (if length argv < 3 then (Inl Exit_failure, [])
      else if \<not> z [] Ctx_new then (Inl Exit_failure, [(Ctx_new, False)])
      else (let tr = [(Ctx_new, True)]; (ok, a1) = malloc a in
        if \<not> ok then (Inl Exit_failure, tr @ [(Ctx_destroy, True)])
        else (let (ok, tr1) = connect_workers z 0 (drop 2 argv) tr in
          if ok then (Inr a1, tr1) else (Inl Exit_failure, tr1))))"

subsection \<open>The calls of the phases\<close>

text \<open>One exchange, and those of the two phases, in step with \<open>map_phase\<close> and \<open>reduce_phase\<close>.\<close>

definition exchange :: "network \<Rightarrow> nat \<Rightarrow> nat \<Rightarrow> char list \<Rightarrow> zmq_trace" where
  "exchange net k i msg = [(Send i msg, True), (Recv i, net k i msg \<noteq> None)]"

function map_calls :: "network \<Rightarrow> nat \<Rightarrow> alloc \<Rightarrow> chunker \<Rightarrow> nat \<Rightarrow> nat \<Rightarrow> buffer \<Rightarrow> zmq_trace" where
  "map_calls net workers a c k idx results =
     (let (r, chunk, c') = chunker_next c in
      if r \<noteq> 1 then []
      else (case chunk of None \<Rightarrow> []
        | Some t \<Rightarrow> exchange net k idx (map_message t) @
           (case absorb_reply a results (net k idx (map_message t)) of
              Inl e \<Rightarrow> []
            | Inr (results', a') \<Rightarrow> map_calls net workers a' c' (Suc k) (Suc idx mod workers) results')))"
  by pat_completeness auto
termination
  by (relation "measure (\<lambda>(net, workers, a, c, k, idx, results). unread c)") (auto dest: sym [THEN chunker_next_unread])

declare map_calls.simps [simp del]

function reduce_calls :: "network \<Rightarrow> nat \<Rightarrow> alloc \<Rightarrow> char list \<Rightarrow> nat \<Rightarrow> nat \<Rightarrow> buffer \<Rightarrow> zmq_trace" where
  "reduce_calls net workers a data k idx results =
     (if data = [] then []
      else exchange net k idx (red_message (take (reduce_len data) data)) @
        (case absorb_reply a results (net k idx (red_message (take (reduce_len data) data))) of
           Inl e \<Rightarrow> []
         | Inr (results', a') \<Rightarrow>
             reduce_calls net workers a' (drop (reduce_len data) data) (Suc k) (Suc idx mod workers) results'))"
  by pat_completeness auto
termination
  by (relation "measure (\<lambda>(net, workers, a, data, k, idx, results). length data)")
    (auto simp: reduce_len_pos)

declare reduce_calls.simps [simp del]

text \<open>The shutdown, whose replies are only drained.\<close>

definition rip_calls :: "network \<Rightarrow> nat \<Rightarrow> nat \<Rightarrow> zmq_trace" where
  "rip_calls net k workers = concat (map (\<lambda>(i, msg). exchange net (k + i) i msg) (distributor_send_rip workers))"

text \<open>\<open>main\<close> behind the set-up: its outcome and its calls.\<close>

definition distributor_phases ::
  "network \<Rightarrow> nat \<Rightarrow> alloc \<Rightarrow> char list option \<Rightarrow> (dist_error + string) \<times> zmq_trace" where
  "distributor_phases net workers a contents =
     (let (status, c) = chunker_init contents in
      if status \<noteq> 0 then (Inl Exit_failure, [])
      else (case buffer_init a of None \<Rightarrow> (Inl Exit_failure, [])
        | Some (map_results, a1) \<Rightarrow>
      (let maps = map_calls net workers a1 c 0 0 map_results in
       case map_phase net workers a1 c 0 0 map_results of Inl e \<Rightarrow> (Inl e, maps)
        | Inr (map_results', c', k, a2) \<Rightarrow>
      (case buffer_init a2 of None \<Rightarrow> (Inl Exit_failure, maps)
        | Some (reduce_results, a3) \<Rightarrow>
      (let reds = reduce_calls net workers a3 (bf_data map_results') k 0 reduce_results in
       case reduce_phase net workers a3 (bf_data map_results') k 0 reduce_results of Inl e \<Rightarrow> (Inl e, maps @ reds)
        | Inr (reduce_results', k', a4) \<Rightarrow>
            (Inr (combine_and_print a4 (Some (bf_data reduce_results'))),
             maps @ reds @ rip_calls net k' workers @ close_all 0 (replicate workers True) @ [(Ctx_destroy, True)]))))))"

text \<open>The process: \<open>files\<close> holds the contents of the files that can be opened.\<close>

definition distributor_process ::
  "zmq \<Rightarrow> network \<Rightarrow> (string \<rightharpoonup> char list) \<Rightarrow> string list \<Rightarrow> alloc \<Rightarrow> (dist_error + string) \<times> zmq_trace" where
  "distributor_process z net files argv a =
     (case distributor_setup z argv a of
        (Inl e, tr) \<Rightarrow> (Inl e, tr)
      | (Inr a1, tr) \<Rightarrow>
          (let (res, tr') = distributor_phases net (length argv - 2) a1 (files (argv ! 1)) in (res, tr @ tr')))"

subsection \<open>The connections\<close>

definition connected_to :: "zmq_trace \<Rightarrow> (nat \<times> string) set" where
  "connected_to tr = {(i, e). (Connect_socket i e, True) \<in> set tr}"

lemma connected_to_append [simp]: "connected_to (tr @ tr') = connected_to tr \<union> connected_to tr'"
  by (auto simp: connected_to_def)

lemma connected_to_simps [simp]:
  "connected_to [] = {}" "connected_to ((Ctx_new, ok) # tr) = connected_to tr" "connected_to ((Ctx_destroy, ok) # tr) = connected_to tr"
  "connected_to ((Open_socket i, ok) # tr) = connected_to tr" "connected_to ((Close_socket i, ok) # tr) = connected_to tr"
  "connected_to ((Recv i, ok) # tr) = connected_to tr" "connected_to ((Send i m, ok) # tr) = connected_to tr"
  "connected_to ((Connect_socket i e, ok) # tr) = (if ok then insert (i, e) (connected_to tr) else connected_to tr)"
  by (auto simp: connected_to_def)

lemma connected_to_close_all [simp]: "connected_to (close_all i bs) = {}"
  by (induction bs arbitrary: i) auto

lemma connect_workers_uses:
  "connect_workers z i ports tr = (ok, tr') \<Longrightarrow> zmq_uses r tr zmq_idle = Some (sockets {0..<i}) \<Longrightarrow>
    (\<exists>s. zmq_uses r tr' zmq_idle = Some s \<and> (ok \<longrightarrow> s = sockets {0..<i + length ports})) \<and> sent tr' = sent tr
    \<and> (ok \<longrightarrow> connected_to tr' = connected_to tr \<union> {(i + j, distributor_endpoint (ports ! j)) |j. j < length ports})"
proof (induction ports arbitrary: i tr)
  case (Cons port ports)
  let ?tr1 = "tr @ [(Open_socket i, z tr (Open_socket i))]" and ?e = "distributor_endpoint port"
  let ?tr2 = "?tr1 @ [(Connect_socket i ?e, z ?tr1 (Connect_socket i ?e))]"
  have range: "insert i {0..<i} = {0..<Suc i}" by auto
  have all: "{(i + j, distributor_endpoint ((port # ports) ! j)) |j. j < length (port # ports)}
      = insert (i, ?e) {(Suc i + j, distributor_endpoint (ports ! j)) |j. j < length ports}"
    by (auto simp: less_Suc_eq_0_disj)
  show ?case
  proof (cases "z tr (Open_socket i) \<and> z ?tr1 (Connect_socket i ?e)")
    case True
    then have o: "z tr (Open_socket i)" "z (tr @ [(Open_socket i, True)]) (Connect_socket i ?e)" by auto
    with Cons.prems(1) have rest: "connect_workers z (Suc i) ports ?tr2 = (ok, tr')" by (simp add: Let_def)
    have "zmq_uses r ?tr2 zmq_idle = Some (sockets {0..<Suc i})"
      using True Cons.prems(2) by (simp add: range)
    from Cons.IH [OF rest this] True show ?thesis unfolding all by auto
  next
    case False
    with Cons.prems show ?thesis by (auto simp: Let_def split: if_splits)
  qed
qed auto

subsection \<open>The exchanges\<close>

text \<open>A network on which every message that is no longer than the distributor's buffer gets an answer.\<close>

definition answers_requests :: "network \<Rightarrow> nat \<Rightarrow> bool" where
  "answers_requests net workers \<longleftrightarrow> (\<forall>k i m. i < workers \<longrightarrow> length m \<le> MAX_MSG_LEN \<longrightarrow> net k i m \<noteq> None)"

lemma message_answered [simp]:
  "answers_requests net n \<Longrightarrow> i < n \<Longrightarrow> net k i (map_message t) \<noteq> None"
  "answers_requests net n \<Longrightarrow> i < n \<Longrightarrow> net k i (red_message t) \<noteq> None"
  "answers_requests net n \<Longrightarrow> i < n \<Longrightarrow> net k i (''rip'' @ [NUL]) \<noteq> None"
  by (simp_all add: answers_requests_def map_message_def red_message_def snprintf_kept_def MAX_MSG_LEN_def)

lemma exchange_uses:
  "i \<in> S \<Longrightarrow> net k i msg \<noteq> None \<Longrightarrow> zmq_uses Requester (exchange net k i msg) (sockets S) = Some (sockets S)"
  by (auto simp: exchange_def first_half_def second_half_def)

lemma exchange_connected [simp]: "connected_to (exchange net k i msg) = {}"
  by (simp add: exchange_def)

lemma exchange_sent [simp]: "sent (exchange net k i msg) = [(i, msg)]"
  by (simp add: exchange_def)

lemma map_calls_uses:
  "answers_requests net workers \<Longrightarrow> idx < workers \<Longrightarrow>
    zmq_uses Requester (map_calls net workers a c k idx results) (sockets {0..<workers}) = Some (sockets {0..<workers})
    \<and> connected_to (map_calls net workers a c k idx results) = {}"
proof (induction net workers a c k idx results rule: map_calls.induct)
  case (1 net workers a c k idx results)
  obtain r chunk c' where c: "chunker_next c = (r, chunk, c')" by (metis prod_cases3)
  show ?case
  proof (cases "r = 1 \<and> chunk \<noteq> None")
    case False
    then show ?thesis by (auto simp: map_calls.simps [of net workers a c] c)
  next
    case True
    then obtain t where t: "r = 1" "chunk = Some t" by auto
    have "zmq_uses Requester (exchange net k idx (map_message t)) (sockets {0..<workers}) = Some (sockets {0..<workers})"
      by (rule exchange_uses) (use "1.prems" in auto)
    with 1(1) [OF c [symmetric] refl refl _ t(2)] t "1.prems" show ?thesis
      by (auto simp: map_calls.simps [of net workers a c] c split: sum.split)
  qed
qed

lemma reduce_calls_uses:
  "answers_requests net workers \<Longrightarrow> idx < workers \<Longrightarrow>
    zmq_uses Requester (reduce_calls net workers a data k idx results) (sockets {0..<workers}) = Some (sockets {0..<workers})
    \<and> connected_to (reduce_calls net workers a data k idx results) = {}"
proof (induction net workers a data k idx results rule: reduce_calls.induct)
  case (1 net workers a data k idx results)
  show ?case
  proof (cases "data = []")
    case True
    then show ?thesis by (simp add: reduce_calls.simps [of net workers a "[]"])
  next
    case False
    have "zmq_uses Requester (exchange net k idx (red_message (take (reduce_len data) data))) (sockets {0..<workers}) = Some (sockets {0..<workers})"
      by (rule exchange_uses) (use "1.prems" in auto)
    with 1(1) [OF False] False "1.prems" show ?thesis
      by (auto simp: reduce_calls.simps [of net workers a data] split: sum.split)
  qed
qed

lemma rip_calls_uses:
  assumes "answers_requests net workers"
  shows "zmq_uses Requester (rip_calls net k workers) (sockets {0..<workers}) = Some (sockets {0..<workers})"
proof -
  have "zmq_uses Requester (concat (map (\<lambda>(i, msg). exchange net (k + i) i msg) ims)) (sockets S) = Some (sockets S)"
    if "\<forall>(i, msg) \<in> set ims. i \<in> S \<and> i < workers \<and> msg = ''rip'' @ [NUL]" for ims S
    using that message_answered(3) [OF assms] by (induction ims) (auto simp: exchange_uses)
  moreover have "\<forall>(i, msg) \<in> set (distributor_send_rip workers). i \<in> {0..<workers} \<and> i < workers \<and> msg = ''rip'' @ [NUL]"
    by (auto simp: distributor_send_rip_def)
  ultimately show ?thesis unfolding rip_calls_def .
qed

lemma rip_calls_sent: "sent (rip_calls net k workers) = distributor_send_rip workers"
proof -
  have "sent (concat (map (\<lambda>(i, msg). exchange net (k + i) i msg) ims)) = ims" for ims
    by (induction ims) auto
  then show ?thesis by (simp add: rip_calls_def)
qed

lemma rip_calls_connected: "connected_to (rip_calls net k workers) = {}"
proof -
  have "connected_to (concat (map (\<lambda>(i, msg). exchange net (k + i) i msg) ims)) = {}" for ims
    by (induction ims) auto
  then show ?thesis by (simp add: rip_calls_def)
qed

lemma close_workers_uses:
  "zmq_uses r (close_all 0 (replicate workers True) @ [(Ctx_destroy, True)]) (sockets {0..<workers}) = Some zmq_idle"
proof -
  have "open_set 0 (replicate workers True) = {0..<workers}" by (auto simp: open_set_0)
  with close_all_uses [of r 0 "replicate workers True"] show ?thesis
    by (simp only: zmq_uses_append ctx_destroy_uses bind.bind_lunit)
qed

subsection \<open>The whole process\<close>

lemma distributor_phases_outcome:
  assumes net: "answers_requests net workers" and "0 < workers" and "distributor_phases net workers a contents = (res, tr)"
  shows "\<exists>s. zmq_uses Requester tr (sockets {0..<workers}) = Some s
    \<and> (\<forall>out. res = Inr out \<longrightarrow> s = zmq_idle \<and> connected_to tr = {}
        \<and> (\<exists>before rips. distributor_main net workers a contents = Inr (out, rips) \<and> sent tr = before @ rips))
    \<and> (\<forall>e. res = Inl e \<longrightarrow> distributor_main net workers a contents = Inl e)"
proof -
  note maps = map_calls_uses [OF net assms(2)] and reds = reduce_calls_uses [OF net assms(2)]
  show ?thesis
    using assms(2,3) maps reds rip_calls_uses [OF net] close_workers_uses [of Requester workers]
    by (auto simp: distributor_phases_def distributor_main_def Let_def rip_calls_sent rip_calls_connected
        split: prod.splits if_splits option.splits sum.splits)
qed

lemma distributor_setup_outcome:
  assumes "distributor_setup z argv a = (res, tr)"
  shows "\<exists>s. zmq_uses Requester tr zmq_idle = Some s \<and> sent tr = []
    \<and> (\<forall>a'. res = Inr a' \<longrightarrow> a' = tl a \<and> 2 < length argv \<and> s = sockets {0..<length argv - 2}
        \<and> connected_to tr = {(i, distributor_endpoint (argv ! (i + 2))) |i. i + 2 < length argv})"
proof -
  let ?tr = "[(Ctx_new, True)]"
  have start: "zmq_uses Requester ?tr zmq_idle = Some (sockets {0..<0})" by (simp add: zmq_idle_def)
  have m: "snd (malloc a) = tl a" by (cases a) auto
  from assms consider "res = Inl Exit_failure" "tr = []" | "res = Inl Exit_failure" "tr = [(Ctx_new, False)]"
    | "res = Inl Exit_failure" "tr = ?tr @ [(Ctx_destroy, True)]"
    | ok where "2 < length argv" "connect_workers z 0 (drop 2 argv) ?tr = (ok, tr)" "res = (if ok then Inr (tl a) else Inl Exit_failure)"
    using m by (auto simp: distributor_setup_def Let_def split: if_splits prod.splits)
  then show ?thesis
  proof cases
    case 4
    have "{(0 + j, distributor_endpoint (drop 2 argv ! j)) |j. j < length (drop 2 argv)}
        = {(i, distributor_endpoint (argv ! (i + 2))) |i. i + 2 < length argv}" by (auto simp: add.commute)
    with connect_workers_uses [OF 4(2) start] 4(1,3) show ?thesis by (auto split: if_splits)
  qed (simp_all add: zmq_idle_def)
qed

text \<open>When no call of the set-up fails, the process does what its phases do.\<close>

lemma connect_workers_succeeds: "(\<And>tr c. z tr c) \<Longrightarrow> fst (connect_workers z i ports tr)"
  by (induction ports arbitrary: i tr) (simp_all add: Let_def)

lemma distributor_process_run:
  assumes z: "\<And>tr c. z tr c" and "2 < length argv" and "plenty a" and net: "answers_requests net (length argv - 2)"
    and main: "distributor_main net (length argv - 2) (tl a) (files (argv ! 1)) = Inr (out, rips)"
  shows "\<exists>tr. distributor_process z net files argv a = (Inr out, tr) \<and> zmq_uses Requester tr zmq_idle = Some zmq_idle"
proof -
  obtain tr1 where "connect_workers z 0 (drop 2 argv) [(Ctx_new, True)] = (True, tr1)"
    using connect_workers_succeeds [of z 0 "drop 2 argv" "[(Ctx_new, True)]", OF z]
    by (cases "connect_workers z 0 (drop 2 argv) [(Ctx_new, True)]") auto
  with assms(2,3) have setup_run: "distributor_setup z argv a = (Inr (tl a), tr1)"
    by (simp add: distributor_setup_def z Let_def)
  with distributor_setup_outcome [OF this] have s: "zmq_uses Requester tr1 zmq_idle = Some (sockets {0..<length argv - 2})" by auto
  obtain res tr2 where run: "distributor_phases net (length argv - 2) (tl a) (files (argv ! 1)) = (res, tr2)" by fastforce
  have "0 < length argv - 2" using assms(2) by simp
  from distributor_phases_outcome [OF net this run] main have "res = Inr out" "zmq_uses Requester tr2 (sockets {0..<length argv - 2}) = Some zmq_idle"
    by (cases res; auto)+
  with setup_run run s show ?thesis by (intro exI [of _ "tr1 @ tr2"]) (simp add: distributor_process_def)
qed

text \<open>C17: As long as its requests are answered, the distributor process keeps the rules of ZeroMQ: sockets are connected, used and closed only while
  they are open, and on each of them sending and receiving alternate, even when it gives up early.
  When it succeeds, it was connected to \<open>tcp://localhost:PORT\<close> for every port of its command line,
  prints what the two phases produce from the file that the command line names, ends with a rip
  message to every worker, closes every socket exactly once and then destroys the context.\<close>

theorem distributor_process_keeps_zmq_rules:
  assumes "answers_requests net (length argv - 2)" and "distributor_process z net files argv a = (res, tr)"
  shows "\<exists>s. zmq_uses Requester tr zmq_idle = Some s
    \<and> (\<forall>out. res = Inr out \<longrightarrow> s = zmq_idle
        \<and> connected_to tr = {(i, distributor_endpoint (argv ! (i + 2))) |i. i + 2 < length argv}
        \<and> (\<exists>before. distributor_main net (length argv - 2) (tl a) (files (argv ! 1)) = Inr (out, distributor_send_rip (length argv - 2))
            \<and> sent tr = before @ distributor_send_rip (length argv - 2)))"
proof -
  obtain start tr1 where setup_run: "distributor_setup z argv a = (start, tr1)" by fastforce
  note outcome = distributor_setup_outcome [OF setup_run]
  show ?thesis
  proof (cases start)
    case (Inl e)
    with outcome setup_run assms(2) show ?thesis by (auto simp: distributor_process_def)
  next
    case (Inr a1)
    with outcome have a1: "a1 = tl a" "2 < length argv" and s: "zmq_uses Requester tr1 zmq_idle = Some (sockets {0..<length argv - 2})"
      "sent tr1 = []" "connected_to tr1 = {(i, distributor_endpoint (argv ! (i + 2))) |i. i + 2 < length argv}" by auto
    obtain res2 tr2 where run: "distributor_phases net (length argv - 2) a1 (files (argv ! 1)) = (res2, tr2)" by fastforce
    with assms(2) setup_run Inr have res: "res = res2" "tr = tr1 @ tr2" by (simp_all add: distributor_process_def)
    have "0 < length argv - 2" using a1(2) by simp
    from distributor_phases_outcome [OF assms(1) this run] obtain s2 where
      s2: "zmq_uses Requester tr2 (sockets {0..<length argv - 2}) = Some s2"
      and out: "\<And>out. res2 = Inr out \<Longrightarrow> s2 = zmq_idle \<and> connected_to tr2 = {}
        \<and> (\<exists>before rips. distributor_main net (length argv - 2) a1 (files (argv ! 1)) = Inr (out, rips) \<and> sent tr2 = before @ rips)"
      by blast
    have rips: "rips = distributor_send_rip n" if "distributor_main net n a1 contents = Inr (out, rips)" for n contents out rips
      using that by (auto simp: distributor_main_def Let_def split: if_splits prod.splits option.splits sum.splits)
    have "connected_to tr = connected_to tr1 \<union> connected_to tr2" and sent: "sent tr = sent tr2" unfolding res(2) by (simp_all add: s(2))
    then have conn: "connected_to tr = {(i, distributor_endpoint (argv ! (i + 2))) |i. i + 2 < length argv}"
      if "connected_to tr2 = {}" by (simp only: that s(3) Un_empty_right)
    show ?thesis
    proof (intro exI [of _ s2] conjI allI impI)
      show "zmq_uses Requester tr zmq_idle = Some s2" unfolding res(2) by (simp add: s s2)
    next
      fix out' assume "res = Inr out'"
      with res(1) out [of out'] obtain before rips where o: "s2 = zmq_idle" "connected_to tr2 = {}"
        and d: "distributor_main net (length argv - 2) a1 (files (argv ! 1)) = Inr (out', rips)" "sent tr2 = before @ rips" by blast
      show "s2 = zmq_idle" by (rule o(1))
      show "connected_to tr = {(i, distributor_endpoint (argv ! (i + 2))) |i. i + 2 < length argv}" by (rule conn [OF o(2)])
      show "\<exists>before. distributor_main net (length argv - 2) (tl a) (files (argv ! 1)) = Inr (out', distributor_send_rip (length argv - 2))
            \<and> sent tr = before @ distributor_send_rip (length argv - 2)"
        using d rips [OF d(1)] sent a1(1) by (intro exI [of _ before]) (simp only: simp_thms)
    qed
  qed
qed

lemma distributor_process_keeps_zmq_rules_witness:
  "\<exists>tr. distributor_process (\<lambda>tr c. True) (\<lambda>k i m. Some [NUL]) [''f'' \<mapsto> []] [''d'', ''f'', ''7000''] [] = (Inr [], tr)
    \<and> zmq_uses Requester tr zmq_idle = Some zmq_idle"
proof -
  let ?run = "distributor_process (\<lambda>tr c. True) (\<lambda>k i m. Some [NUL]) [''f'' \<mapsto> []] [''d'', ''f'', ''7000''] []"
  have maps: "map_phase net n a \<lparr>ck_file = Some []\<rparr> k i b = Inr (b, \<lparr>ck_file = Some []\<rparr>, k, a)" for net n a k i b
    by (subst map_phase.simps) (simp add: chunker_next_eof)
  have reds: "reduce_phase net n a [] k i b = Inr (b, k, a)" for net n a k i b
    by (subst reduce_phase.simps) simp
  have "fst (distributor_phases (\<lambda>k i m. Some [NUL]) 1 [] (Some [])) = Inr []"
    by (simp add: distributor_phases_def buffer_init_def chunker_init_def maps reds combine_and_print_def Let_def)
  then have "fst ?run = Inr []"
    by (auto simp: distributor_process_def distributor_setup_def Let_def split: prod.split)
  then obtain tr where run: "?run = (Inr [], tr)" by (metis prod.collapse)
  have "answers_requests (\<lambda>k i m. Some [NUL]) (length [''d'', ''f'', ''7000''] - 2)" by (simp add: answers_requests_def)
  from distributor_process_keeps_zmq_rules [OF this run] have "zmq_uses Requester tr zmq_idle = Some zmq_idle"
    by (elim exE conjE) (drule spec [of _ "[]"], drule mp, rule refl, elim conjE, simp only:)
  with run show ?thesis by (intro exI [of _ tr] conjI)
qed

end
