(* ===== verification/C_Heap.thy ===== *)
theory C_Heap
  imports C_Prelude "HOL-Library.Monad_Syntax"
begin

section \<open>A heap of blocks\<close>

text \<open>
  Memory as \<open>malloc\<close> and \<open>free\<close> see it: a partial map from addresses to the blocks that are allocated,
  where address 0 is NULL.  An operation that dereferences or frees what is not allocated is undefined
  behaviour: its result is \<open>None\<close>.  A new block gets an address that no block had before, so that a
  pointer to a freed block never becomes valid again by accident.  Whether an allocation succeeds is
  decided by the list of outcomes, as in the other models.
\<close>

type_synonym addr = nat

record 'b heap =
  hp_blocks :: "addr \<rightharpoonup> 'b"
  hp_top :: addr
  hp_alloc :: alloc

text \<open>\<open>malloc\<close> with the first contents of the block, which the callers write at once; 0 on failure.\<close>

definition heap_malloc :: "'b \<Rightarrow> 'b heap \<Rightarrow> addr \<times> 'b heap" where
  "heap_malloc b h =
     (let (ok, a) = malloc (hp_alloc h)
      in if ok then (hp_top h, h\<lparr>hp_blocks := (hp_blocks h)(hp_top h \<mapsto> b), hp_top := hp_top h + 1, hp_alloc := a\<rparr>)
         else (0, h\<lparr>hp_alloc := a\<rparr>))"

definition heap_free :: "addr \<Rightarrow> 'b heap \<Rightarrow> 'b heap option" where
  "heap_free p h =
     (if p = 0 then Some h
      else if hp_blocks h p = None then None
      else Some (h\<lparr>hp_blocks := (hp_blocks h)(p := None)\<rparr>))"

definition heap_write :: "addr \<Rightarrow> 'b \<Rightarrow> 'b heap \<Rightarrow> 'b heap option" where
  "heap_write p b h =
     (if hp_blocks h p = None then None else Some (h\<lparr>hp_blocks := (hp_blocks h)(p \<mapsto> b)\<rparr>))"

text \<open>\<open>realloc\<close> of a live block, to a size above 0: the contents move into a new block, as \<open>resize\<close> says, and the old
  one is released; on failure it stays.\<close>

definition heap_realloc :: "addr \<Rightarrow> ('b \<Rightarrow> 'b) \<Rightarrow> 'b heap \<Rightarrow> (addr \<times> 'b heap) option" where
  "heap_realloc p resize h =
     (case hp_blocks h p of None \<Rightarrow> None
      | Some b \<Rightarrow>
         (let (q, h1) = heap_malloc (resize b) h
          in if q = 0 then Some (0, h1) else map_option (\<lambda>h2. (q, h2)) (heap_free p h1)))"

definition heap_ok :: "'b heap \<Rightarrow> bool" where
  "heap_ok h \<longleftrightarrow> 0 < hp_top h \<and> dom (hp_blocks h) \<subseteq> {0<..<hp_top h}"

definition empty_heap :: "alloc \<Rightarrow> 'b heap" where
  "empty_heap a = \<lparr>hp_blocks = Map.empty, hp_top = 1, hp_alloc = a\<rparr>"

named_theorems heap_simps \<open>what the heap operations do on allocated blocks\<close>

lemma empty_heap_ok [simp]: "heap_ok (empty_heap a)"
  by (simp add: heap_ok_def empty_heap_def)

lemma heap_okD: "heap_ok h \<Longrightarrow> hp_blocks h x = Some b \<Longrightarrow> 0 < x \<and> x < hp_top h"
  by (auto simp: heap_ok_def)

lemma heap_ok_fresh [simp]: "heap_ok h \<Longrightarrow> hp_top h \<le> x \<Longrightarrow> hp_blocks h x = None"
  using heap_okD [of h x] by (cases "hp_blocks h x") auto

lemma heap_ok_null [simp]: "heap_ok h \<Longrightarrow> hp_blocks h 0 = None"
  using heap_okD [of h 0] by (cases "hp_blocks h 0") auto

lemma heap_free_live [heap_simps]:
  "hp_blocks h p = Some b \<Longrightarrow> p \<noteq> 0 \<Longrightarrow> heap_free p h = Some (h\<lparr>hp_blocks := (hp_blocks h)(p := None)\<rparr>)"
  by (simp add: heap_free_def)

lemma heap_write_live [heap_simps]:
  "hp_blocks h p = Some b' \<Longrightarrow> heap_write p b h = Some (h\<lparr>hp_blocks := (hp_blocks h)(p \<mapsto> b)\<rparr>)"
  by (simp add: heap_write_def)

lemma heap_ok_update: "heap_ok h \<Longrightarrow> dom m \<subseteq> dom (hp_blocks h) \<Longrightarrow> heap_ok (h\<lparr>hp_blocks := m\<rparr>)"
  by (auto simp: heap_ok_def)

lemma heap_ok_malloc:
  "heap_ok h \<Longrightarrow> heap_ok (h\<lparr>hp_blocks := (hp_blocks h)(hp_top h \<mapsto> b), hp_top := Suc (hp_top h), hp_alloc := a\<rparr>)"
  by (fastforce simp: heap_ok_def)

lemma heap_ok_alloc [simp]: "heap_ok (h\<lparr>hp_alloc := a\<rparr>) = heap_ok h"
  by (simp add: heap_ok_def)

lemma heap_malloc_cases:
  assumes "heap_malloc b h = (p, h')" and "heap_ok h"
  obtains (fail) a where "malloc (hp_alloc h) = (False, a)" "p = 0" "h' = h\<lparr>hp_alloc := a\<rparr>" "heap_ok h'"
  | (new) a where "malloc (hp_alloc h) = (True, a)" "p = hp_top h" "0 < hp_top h" "hp_blocks h (hp_top h) = None"
      "h' = h\<lparr>hp_blocks := (hp_blocks h)(hp_top h \<mapsto> b), hp_top := Suc (hp_top h), hp_alloc := a\<rparr>" "heap_ok h'"
proof -
  obtain ok a where m: "malloc (hp_alloc h) = (ok, a)" by fastforce
  have "0 < hp_top h" "hp_blocks h (hp_top h) = None" using assms(2) by (simp_all add: heap_ok_def)
  with assms m heap_ok_malloc [OF assms(2), of a b] show thesis
    by (cases ok) (auto simp: heap_malloc_def intro: fail new)
qed

lemma heap_realloc_cases:
  assumes "hp_blocks h p = Some b" and "heap_ok h"
  obtains (fail) a where "malloc (hp_alloc h) = (False, a)" "heap_realloc p resize h = Some (0, h\<lparr>hp_alloc := a\<rparr>)"
  | (moved) a q h' where "malloc (hp_alloc h) = (True, a)" "heap_realloc p resize h = Some (q, h')" "q \<noteq> 0" "q \<noteq> p"
      "hp_blocks h q = None" "hp_blocks h' = (hp_blocks h)(p := None, q \<mapsto> resize b)" "hp_alloc h' = a" "heap_ok h'" "hp_top h \<le> hp_top h'"
proof -
  obtain q h1 where m: "heap_malloc (resize b) h = (q, h1)" by fastforce
  from m assms(2) show thesis
  proof (cases rule: heap_malloc_cases)
    case (fail a)
    with assms(1) m show ?thesis by (intro that(1)) (simp_all add: heap_realloc_def)
  next
    case (new a)
    have p: "p \<noteq> 0" "p \<noteq> q" using assms new(2,4) by (metis heap_ok_null option.distinct(1))+
    let ?h = "h1\<lparr>hp_blocks := (hp_blocks h1)(p := None)\<rparr>"
    have "heap_ok ?h" by (rule heap_ok_update [OF new(6)]) auto
    moreover have "heap_realloc p resize h = Some (q, ?h)"
      using assms(1) m new(2,3,5) p by (simp add: heap_realloc_def heap_free_def)
    ultimately show ?thesis using new p by (intro that(2)) (auto simp: fun_upd_twist)
  qed
qed

end
