(* ===== verification/Heap_List.thy ===== *)
theory Heap_List
  imports C_Heap Linked_List
begin

section \<open>The bucket list in memory (mapreduce-wordcount/linked\_list.c)\<close>

text \<open>
  The functions of linked\_list.c once more, now over a heap: with the pointers between the nodes, the
  temporary copies of the key, and every \<open>free\<close>.  A node owns the block of its key.  Where the code
  walks along \<open>next\<close> pointers the model is a partial function: \<open>None\<close> is an access to memory that is not
  allocated, or a walk that never ends.  The strings that callers pass lie outside this heap.
\<close>

datatype block =
    Text_block string
  | Node_block addr i32 addr
  | Table_block "addr list"
  | Map_block nat addr
  | Bytes_block "char option list"
  | Entries_block "(addr \<times> i64) option list"

definition node_at :: "block heap \<Rightarrow> addr \<Rightarrow> (addr \<times> i32 \<times> addr) option" where
  "node_at h p = (case hp_blocks h p of Some (Node_block key cnt nxt) \<Rightarrow> Some (key, cnt, nxt) | _ \<Rightarrow> None)"

definition text_at :: "block heap \<Rightarrow> addr \<Rightarrow> string option" where
  "text_at h p = (case hp_blocks h p of Some (Text_block s) \<Rightarrow> Some s | _ \<Rightarrow> None)"

definition mem_strdup_lower :: "string option \<Rightarrow> block heap \<Rightarrow> addr \<times> block heap" where
  "mem_strdup_lower s h = heap_malloc (Text_block (lower (non_null s))) h"

partial_function (option) mem_scan :: "block heap \<Rightarrow> addr \<Rightarrow> addr \<Rightarrow> addr option" where
  "mem_scan h key_lower node =
     (if node = 0 then Some 0
      else do {
        (k, c, nxt) \<leftarrow> node_at h node;
        s \<leftarrow> text_at h k;
        t \<leftarrow> text_at h key_lower;
        if strcmp s t = 0 then Some node else mem_scan h key_lower nxt
      })"

definition mem_find :: "addr \<Rightarrow> string option \<Rightarrow> block heap \<Rightarrow> (addr \<times> block heap) option" where
  "mem_find head key h =
     (let (key_lower, h1) = mem_strdup_lower (Some (non_null key)) h in
      if key_lower = 0 then Some (0, h1)
      else do {
        node \<leftarrow> mem_scan h1 key_lower head;
        h2 \<leftarrow> heap_free key_lower h1;
        Some (node, h2)
      })"

definition mem_get :: "addr \<Rightarrow> string option \<Rightarrow> bool \<Rightarrow> block heap \<Rightarrow> (i32 option \<times> block heap) option" where
  "mem_get head key has_out h =
     (if \<not> has_out then Some (None, h)
      else do {
        (node, h1) \<leftarrow> mem_find head key h;
        if node \<noteq> 0 then do { (k, c, nxt) \<leftarrow> node_at h1 node; Some (Some c, h1) }
        else Some (None, h1)
      })"

text \<open>The tail that \<open>ll_put_inc\<close> and \<open>ll_set\<close> share; the result is the new value of \<open>*head\<close>.\<close>

definition mem_push_new :: "addr \<Rightarrow> string \<Rightarrow> i32 \<Rightarrow> block heap \<Rightarrow> (int \<times> addr \<times> block heap) option" where
  "mem_push_new head key cnt h =
     (let (key_lower, h1) = mem_strdup_lower (Some key) h in
      if key_lower = 0 then Some (-1, head, h1)
      else (let (new_node, h2) = heap_malloc (Node_block key_lower cnt head) h1 in
        if new_node = 0 then do { h3 \<leftarrow> heap_free key_lower h2; Some (-1, head, h3) }
        else Some (0, new_node, h2)))"

definition mem_put_inc :: "string option \<Rightarrow> i32 \<Rightarrow> addr \<Rightarrow> block heap \<Rightarrow> (int \<times> addr \<times> block heap) option" where
  "mem_put_inc key delta head h =
     do {
       (node, h1) \<leftarrow> mem_find head (Some (non_null key)) h;
       if node \<noteq> 0 then do {
         (k, c, nxt) \<leftarrow> node_at h1 node;
         h2 \<leftarrow> heap_write node (Node_block k (c + delta) nxt) h1;
         Some (0, head, h2)
       } else mem_push_new head (non_null key) delta h1
     }"

definition mem_set :: "string option \<Rightarrow> i32 \<Rightarrow> addr \<Rightarrow> block heap \<Rightarrow> (int \<times> addr \<times> block heap) option" where
  "mem_set key cnt head h =
     do {
       (node, h1) \<leftarrow> mem_find head (Some (non_null key)) h;
       if node \<noteq> 0 then do {
         (k, c, nxt) \<leftarrow> node_at h1 node;
         h2 \<leftarrow> heap_write node (Node_block k cnt nxt) h1;
         Some (0, head, h2)
       } else mem_push_new head (non_null key) cnt h1
     }"

text \<open>The loop of \<open>ll_remove\<close> behind the head: \<open>next\<close> of \<open>current\<close> is redirected around the match.\<close>

partial_function (option) mem_unlink :: "block heap \<Rightarrow> addr \<Rightarrow> addr \<Rightarrow> (int \<times> block heap) option" where
  "mem_unlink h key_lower current =
     do {
       (k, c, temp) \<leftarrow> node_at h current;
       if temp = 0 then Some (0, h)
       else do {
         (k', c', nxt) \<leftarrow> node_at h temp;
         s \<leftarrow> text_at h k';
         t \<leftarrow> text_at h key_lower;
         if strcmp s t = 0 then do {
           h1 \<leftarrow> heap_write current (Node_block k c nxt) h;
           h2 \<leftarrow> heap_free k' h1;
           h3 \<leftarrow> heap_free temp h2;
           Some (1, h3)
         } else mem_unlink h key_lower temp
       }
     }"

definition mem_remove :: "string option \<Rightarrow> addr \<Rightarrow> block heap \<Rightarrow> (int \<times> addr \<times> block heap) option" where
  "mem_remove key head h =
     (if head = 0 then Some (0, head, h)
      else (let (key_lower, h1) = mem_strdup_lower (Some (non_null key)) h in
        if key_lower = 0 then Some (0, head, h1)
        else do {
          (k, c, nxt) \<leftarrow> node_at h1 head;
          s \<leftarrow> text_at h1 k;
          t \<leftarrow> text_at h1 key_lower;
          if strcmp s t = 0 then do {
            h2 \<leftarrow> heap_free k h1;
            h3 \<leftarrow> heap_free head h2;
            h4 \<leftarrow> heap_free key_lower h3;
            Some (1, nxt, h4)
          } else do {
            (r, h2) \<leftarrow> mem_unlink h1 key_lower head;
            h3 \<leftarrow> heap_free key_lower h2;
            Some (r, head, h3)
          }
        }))"

partial_function (option) mem_free :: "addr \<Rightarrow> block heap \<Rightarrow> block heap option" where
  "mem_free current h =
     (if current = 0 then Some h
      else do {
        (k, c, nxt) \<leftarrow> node_at h current;
        h1 \<leftarrow> heap_free k h;
        h2 \<leftarrow> heap_free current h1;
        mem_free nxt h2
      })"

text \<open>The callback may use the memory; the node is read again after it has returned.\<close>

type_synonym 'm callback = "string \<Rightarrow> i32 \<Rightarrow> 'm \<Rightarrow> block heap \<Rightarrow> ('m \<times> block heap) option"

partial_function (option) mem_foreach :: "'m callback \<Rightarrow> addr \<Rightarrow> 'm \<Rightarrow> block heap \<Rightarrow> ('m \<times> block heap) option" where
  "mem_foreach fn node ctx h =
     (if node = 0 then Some (ctx, h)
      else do {
        (k, c, nxt) \<leftarrow> node_at h node;
        s \<leftarrow> text_at h k;
        (ctx', h1) \<leftarrow> fn s c ctx h;
        (k', c', nxt') \<leftarrow> node_at h1 node;
        mem_foreach fn nxt' ctx' h1
      })"

partial_function (option) mem_length :: "block heap \<Rightarrow> addr \<Rightarrow> nat \<Rightarrow> nat option" where
  "mem_length h node n =
     (if node = 0 then Some n
      else do { (k, c, nxt) \<leftarrow> node_at h node; mem_length h nxt (n + 1) })"

subsection \<open>Lists in memory\<close>

text \<open>
  The pairs \<open>cs\<close> are the addresses of the nodes and of their keys, in link order, and \<open>ns\<close> what is stored
  there.  The addresses of a list are pairwise different: no node or key is shared.
\<close>

type_synonym cells = "(addr \<times> addr) list"

definition first :: "cells \<Rightarrow> addr" where
  "first cs = (case cs of [] \<Rightarrow> 0 | c # _ \<Rightarrow> fst c)"

definition cells :: "cells \<Rightarrow> addr list" where
  "cells cs = concat (map (\<lambda>(a, k). [a, k]) cs)"

fun chain :: "(addr \<rightharpoonup> block) \<Rightarrow> cells \<Rightarrow> LLNode list \<Rightarrow> bool" where
  "chain m [] [] \<longleftrightarrow> True"
| "chain m ((a, k) # cs) (n # ns) \<longleftrightarrow> a \<noteq> 0 \<and> k \<noteq> 0 \<and> m a = Some (Node_block k (ll_count n) (first cs))
     \<and> m k = Some (Text_block (ll_key n)) \<and> chain m cs ns"
| "chain m _ _ \<longleftrightarrow> False"

definition list_in :: "block heap \<Rightarrow> cells \<Rightarrow> LLNode list \<Rightarrow> bool" where
  "list_in h cs ns \<longleftrightarrow> heap_ok h \<and> chain (hp_blocks h) cs ns \<and> distinct (cells cs)"

text \<open>
  The frame: an operation that turns the list \<open>cs\<close> into \<open>cs'\<close> leaves all blocks outside these lists alone,
  frees what is no longer used, and takes what it adds from unused addresses.
\<close>

definition frame :: "block heap \<Rightarrow> addr set \<Rightarrow> block heap \<Rightarrow> addr set \<Rightarrow> bool" where
  "frame h A h' A' \<longleftrightarrow> hp_top h \<le> hp_top h' \<and> (\<forall>x. x \<notin> A \<longrightarrow> x \<notin> A' \<longrightarrow> hp_blocks h' x = hp_blocks h x)
     \<and> (\<forall>x \<in> A - A'. hp_blocks h' x = None) \<and> (\<forall>x \<in> A' - A. hp_top h \<le> x)"

lemma first_simps [simp]: "first [] = 0" "first ((a, k) # cs) = a"
  by (simp_all add: first_def)

lemma cells_simps [simp]: "cells [] = []" "cells ((a, k) # cs) = a # k # cells cs" "cells (cs @ ds) = cells cs @ cells ds"
  by (simp_all add: cells_def)

lemma chain_length: "chain m cs ns \<Longrightarrow> length cs = length ns"
  by (induction m cs ns rule: chain.induct) auto

lemma chain_cong: "(\<And>x. x \<in> set (cells cs) \<Longrightarrow> m' x = m x) \<Longrightarrow> chain m' cs ns = chain m cs ns"
  by (induction m cs ns rule: chain.induct) auto

lemma chain_update [simp]: "x \<notin> set (cells cs) \<Longrightarrow> chain (m(x := v)) cs ns = chain m cs ns"
  by (rule chain_cong) auto

lemma chain_live: "chain m cs ns \<Longrightarrow> x \<in> set (cells cs) \<Longrightarrow> x \<in> dom m \<and> x \<noteq> 0"
  by (induction m cs ns rule: chain.induct) auto

lemma chain_Nil [simp]: "chain m [] ns \<longleftrightarrow> ns = []" "chain m cs [] \<longleftrightarrow> cs = []"
  by (cases ns; simp) (cases cs; auto)

lemma chain_first: "chain m cs ns \<Longrightarrow> first cs = 0 \<longleftrightarrow> ns = []"
  by (induction m cs ns rule: chain.induct) auto

lemma chain_node:
  "chain m cs ns \<Longrightarrow> i < length ns \<Longrightarrow> fst (cs ! i) \<noteq> 0 \<and> fst (cs ! i) \<in> set (cells cs)
    \<and> m (fst (cs ! i)) = Some (Node_block (snd (cs ! i)) (ll_count (ns ! i)) (first (drop (Suc i) cs)))"
proof (induction m cs ns arbitrary: i rule: chain.induct)
  case (2 m a k cs n ns)
  then show ?case by (cases i) auto
qed auto

text \<open>Writing the count of one node.\<close>

lemma chain_write:
  "chain m cs ns \<Longrightarrow> distinct (cells cs) \<Longrightarrow> i < length ns \<Longrightarrow>
    chain (m(fst (cs ! i) \<mapsto> Node_block (snd (cs ! i)) c (first (drop (Suc i) cs)))) cs (ns[i := (ns ! i)\<lparr>ll_count := c\<rparr>])"
proof (induction m cs ns arbitrary: i rule: chain.induct)
  case (2 m a k cs n ns)
  show ?case
  proof (cases i)
    case 0
    have "a \<notin> set (cells cs)" "a \<noteq> k" using "2.prems" by auto
    with "2.prems" have "chain (m(a \<mapsto> Node_block k c (first cs))) ((a, k) # cs) (n\<lparr>ll_count := c\<rparr> # ns)"
      by simp
    with 0 show ?thesis by (simp del: chain.simps fun_upd_apply)
  next
    case (Suc j)
    with 2 have "chain m cs ns" "j < length ns" by auto
    from chain_node [OF this] have "fst (cs ! j) \<in> set (cells cs)" by simp
    with 2 Suc show ?thesis by auto
  qed
qed auto

lemma frame_refl: "frame h A h A"
  by (simp add: frame_def)

lemma list_in_kept:
  assumes "list_in h cs ns" and "heap_ok h'" and "\<And>x. x \<in> set (cells cs) \<Longrightarrow> hp_blocks h' x = hp_blocks h x"
  shows "list_in h' cs ns"
  using assms chain_cong [of cs "hp_blocks h'" "hp_blocks h" ns] by (simp add: list_in_def)

subsection \<open>The search\<close>

lemma text_at_simp [simp]: "hp_blocks h p = Some (Text_block s) \<Longrightarrow> text_at h p = Some s"
  by (simp add: text_at_def)

lemma node_at_simp [simp]: "hp_blocks h p = Some (Node_block k c q) \<Longrightarrow> node_at h p = Some (k, c, q)"
  by (simp add: node_at_def)

lemma mem_scan_list:
  "chain (hp_blocks h) cs ns \<Longrightarrow> hp_blocks h kl = Some (Text_block t) \<Longrightarrow>
    mem_scan h kl (first cs) = Some (case ll_search ns t of None \<Rightarrow> 0 | Some i \<Rightarrow> fst (cs ! i))"
proof (induction "hp_blocks h" cs ns rule: chain.induct)
  case (2 a k cs n ns)
  then show ?case by (subst mem_scan.simps) (auto split: option.splits)
qed (auto simp: mem_scan.simps)

text \<open>A search leaves the memory as it was; the copy of the key is freed.\<close>

lemma mem_find_list:
  assumes "list_in h cs ns"
  obtains h' where "mem_find (first cs) key h =
      Some (case fst (ll_find (hp_alloc h) ns key) of None \<Rightarrow> 0 | Some i \<Rightarrow> fst (cs ! i), h')"
    and "hp_blocks h' = hp_blocks h" and "hp_alloc h' = snd (ll_find (hp_alloc h) ns key)"
    and "heap_ok h'" and "hp_top h \<le> hp_top h'"
proof -
  let ?t = "lower (non_null key)"
  from assms have ok: "heap_ok h" and ch: "chain (hp_blocks h) cs ns" by (simp_all add: list_in_def)
  obtain k h1 where m: "heap_malloc (Text_block ?t) h = (k, h1)" by fastforce
  from m ok show thesis
  proof (cases rule: heap_malloc_cases)
    case (fail a)
    with m show thesis
      by (intro that [of h1]) (simp_all add: mem_find_def mem_strdup_lower_def ll_find_def ll_strdup_lower_def)
  next
    case (new a)
    have "chain (hp_blocks h1) cs ns"
      using ch chain_live [OF ch, of "hp_top h"] new(4) by (cases "hp_top h \<in> set (cells cs)") (auto simp: new(5))
    moreover have "hp_blocks h1 k = Some (Text_block ?t)" using new by simp
    moreover have "(hp_blocks h)(hp_top h := None) = hp_blocks h" using new(4) by auto
    ultimately show thesis
      using mem_scan_list [of h1 cs ns k ?t] m new
      by (intro that [of "h1\<lparr>hp_blocks := hp_blocks h\<rparr>"])
        (auto simp: mem_find_def mem_strdup_lower_def ll_find_def ll_strdup_lower_def heap_free_def heap_ok_def)
  qed
qed

subsection \<open>Each operation does in memory what the list model says\<close>

definition the_list :: "'r \<times> LLNode list option \<times> alloc \<Rightarrow> 'r \<times> LLNode list \<times> alloc" where
  "the_list res = (fst res, the (fst (snd res)), snd (snd res))"

definition carries ::
  "block heap \<Rightarrow> cells \<Rightarrow> ('r \<times> addr \<times> block heap) option \<Rightarrow> 'r \<times> LLNode list \<times> alloc \<Rightarrow> bool" where
  "carries h cs run res \<longleftrightarrow> (\<exists>cs' h'. run = Some (fst res, first cs', h') \<and> list_in h' cs' (fst (snd res))
     \<and> hp_alloc h' = snd (snd res) \<and> frame h (set (cells cs)) h' (set (cells cs')))"

lemma the_list_simps [simp]: "the_list (r, Some ns, a) = (r, ns, a)"
  by (simp add: the_list_def)

lemma carries_later:
  assumes "carries h1 cs run res" and "hp_blocks h1 = hp_blocks h" and "hp_top h \<le> hp_top h1"
  shows "carries h cs run res"
proof -
  from assms(1) obtain cs' h' where "run = Some (fst res, first cs', h')" "list_in h' cs' (fst (snd res))"
    "hp_alloc h' = snd (snd res)" and f: "frame h1 (set (cells cs)) h' (set (cells cs'))"
    unfolding carries_def by blast
  moreover have "frame h (set (cells cs)) h' (set (cells cs'))"
    using f assms(2,3) unfolding frame_def by (metis order_trans)
  ultimately show ?thesis unfolding carries_def by blast
qed

lemma carries_same:
  "list_in h' cs ns \<Longrightarrow> hp_alloc h' = a \<Longrightarrow> hp_top h \<le> hp_top h' \<Longrightarrow> hp_blocks h' = hp_blocks h \<Longrightarrow>
    p = first cs \<Longrightarrow> carries h cs (Some (r, p, h')) (r, ns, a)"
  unfolding carries_def by (intro exI [of _ cs] exI [of _ h']) (auto simp: frame_def)

lemma write_count_carries:
  assumes "list_in h cs ns" and "i < length ns"
  shows "carries h cs
    (do { (k, c, nxt) \<leftarrow> node_at h (fst (cs ! i));
          h2 \<leftarrow> heap_write (fst (cs ! i)) (Node_block k (f c) nxt) h;
          Some (r, first cs, h2) })
    (r, ns[i := (ns ! i)\<lparr>ll_count := f (ll_count (ns ! i))\<rparr>], hp_alloc h)"
proof -
  let ?p = "fst (cs ! i)" and ?b = "Node_block (snd (cs ! i)) (f (ll_count (ns ! i))) (first (drop (Suc i) cs))"
  let ?h = "h\<lparr>hp_blocks := (hp_blocks h)(?p \<mapsto> ?b)\<rparr>"
  from assms(1) have ok: "heap_ok h" and ch: "chain (hp_blocks h) cs ns" and d: "distinct (cells cs)"
    by (simp_all add: list_in_def)
  note n = chain_node [OF ch assms(2)]
  have "heap_ok ?h" by (rule heap_ok_update [OF ok]) (use n in auto)
  then have "list_in ?h cs (ns[i := (ns ! i)\<lparr>ll_count := f (ll_count (ns ! i))\<rparr>])"
    using chain_write [OF ch d assms(2), of "f (ll_count (ns ! i))"] d by (simp add: list_in_def)
  moreover have "frame h (set (cells cs)) ?h (set (cells cs))" using n by (simp add: frame_def)
  ultimately show ?thesis
    using n unfolding carries_def by (intro exI [of _ cs] exI [of _ ?h]) (simp add: heap_simps)
qed

lemma push_new_carries:
  assumes "list_in h cs ns"
  shows "carries h cs (mem_push_new (first cs) key c h) (the_list (ll_push_new (hp_alloc h) ns key c))"
proof -
  let ?t = "lower key"
  from assms have ok: "heap_ok h" and ch: "chain (hp_blocks h) cs ns" and d: "distinct (cells cs)"
    by (simp_all add: list_in_def)
  obtain k h1 where m1: "heap_malloc (Text_block ?t) h = (k, h1)" by fastforce
  obtain p h2 where m2: "heap_malloc (Node_block k c (first cs)) h1 = (p, h2)" by fastforce
  note defs = mem_push_new_def mem_strdup_lower_def ll_push_new_def ll_strdup_lower_def
  from m1 ok show ?thesis
  proof (cases rule: heap_malloc_cases)
    case (fail a)
    with assms have "list_in h1 cs ns" by (auto intro: list_in_kept)
    with fail m1 show ?thesis by (simp add: defs carries_same)
  next
    case (new a)
    have k: "hp_top h \<notin> set (cells cs)" using chain_live [OF ch, of "hp_top h"] new(4) by auto
    from m2 new(6) show ?thesis
    proof (cases rule: heap_malloc_cases)
      case (fail a')
      let ?h = "h2\<lparr>hp_blocks := hp_blocks h\<rparr>"
      have "heap_ok ?h" using fail(3) new(5) ok by (auto simp: heap_ok_def)
      then have "list_in ?h cs ns" using assms by (auto intro: list_in_kept)
      moreover have "heap_free k h2 = Some ?h"
        using fail new by (simp add: heap_free_def fun_upd_idem)
      ultimately show ?thesis using new fail m1 m2
        by (simp add: defs carries_same)
    next
      case (new a')
      note new1 = \<open>k = hp_top h\<close> \<open>h1 = _\<close> \<open>0 < hp_top h\<close> \<open>malloc (hp_alloc h) = (True, a)\<close>
      have top: "hp_top h1 = Suc (hp_top h)" "hp_top h2 = Suc (Suc (hp_top h))" using new1 new by simp_all
      have p: "p = Suc (hp_top h)" using new(2) top by simp
      have "hp_blocks h (Suc (hp_top h)) = None" using ok by simp
      then have pn: "p \<notin> set (cells cs)" using chain_live [OF ch, of p] p by auto
      have bl: "hp_blocks h2 = (hp_blocks h)(k \<mapsto> Text_block ?t, p \<mapsto> Node_block k c (first cs))"
        using new1 new(2,5) by simp
      have "list_in h2 ((p, k) # cs) (\<lparr>ll_key = ?t, ll_count = c\<rparr> # ns)"
        using new(6) ch d k pn new1(1,3) p by (simp add: list_in_def bl)
      moreover have "frame h (set (cells cs)) h2 (set (cells ((p, k) # cs)))"
        using new1(1) p top by (auto simp: frame_def bl)
      ultimately have "carries h cs (Some (0, p, h2)) (0, \<lparr>ll_key = ?t, ll_count = c\<rparr> # ns, a')"
        unfolding carries_def by (intro exI [of _ "(p, k) # cs"] exI [of _ h2]) (use new(5) in simp)
      then show ?thesis using new1 new m1 m2 p by (simp add: defs)
    qed
  qed
qed

lemma find_index: "fst (ll_find a ns key) = Some i \<Longrightarrow> i < length ns"
  by (auto simp: ll_find_def ll_strdup_lower_def split: prod.splits if_splits dest: ll_search_Some)

text \<open>What \<open>ll_put_inc\<close> and \<open>ll_set\<close> share: a search, and then a new count or a new node.\<close>

lemma update_carries:
  assumes "list_in h cs ns"
  shows "carries h cs
    (do { (node, h1) \<leftarrow> mem_find (first cs) (Some key) h;
          if node \<noteq> 0 then do {
            (k, c, nxt) \<leftarrow> node_at h1 node;
            h2 \<leftarrow> heap_write node (Node_block k (f c) nxt) h1;
            Some (0, first cs, h2)
          } else mem_push_new (first cs) key c0 h1 })
    (the_list (let (node, a') = ll_find (hp_alloc h) ns (Some key) in
      case node of Some i \<Rightarrow> (0, Some (ns[i := (ns ! i)\<lparr>ll_count := f (ll_count (ns ! i))\<rparr>]), a')
      | None \<Rightarrow> ll_push_new a' ns key c0))"
proof -
  obtain node a' where find: "ll_find (hp_alloc h) ns (Some key) = (node, a')" by fastforce
  from mem_find_list [OF assms, of "Some key"] obtain h1 where
    run: "mem_find (first cs) (Some key) h = Some (case node of None \<Rightarrow> 0 | Some i \<Rightarrow> fst (cs ! i), h1)"
    and h1: "hp_blocks h1 = hp_blocks h" "hp_alloc h1 = a'" "heap_ok h1" "hp_top h \<le> hp_top h1"
    by (auto simp: find)
  have l1: "list_in h1 cs ns" using assms h1 by (auto intro: list_in_kept)
  show ?thesis
  proof (cases node)
    case None
    with push_new_carries [OF l1, of key c0] h1 run find show ?thesis
      by (auto intro: carries_later)
  next
    case (Some i)
    with find find_index [of "hp_alloc h" ns "Some key" i] have i: "i < length ns" by simp
    have "fst (cs ! i) \<noteq> 0" using chain_node [OF _ i] assms by (auto simp: list_in_def)
    with write_count_carries [OF l1 i, of f 0] h1 run find Some show ?thesis
      by (auto intro: carries_later)
  qed
qed

lemma put_inc_carries:
  "list_in h cs ns \<Longrightarrow> carries h cs (mem_put_inc key d (first cs) h) (the_list (ll_put_inc (hp_alloc h) (Some ns) key d))"
  using update_carries [of h cs ns "non_null key" "\<lambda>c. c + d" d] by (simp add: mem_put_inc_def ll_put_inc_def)

lemma set_carries:
  "list_in h cs ns \<Longrightarrow> carries h cs (mem_set key c (first cs) h) (the_list (ll_set (hp_alloc h) (Some ns) key c))"
  using update_carries [of h cs ns "non_null key" "\<lambda>_. c" c] by (simp add: mem_set_def ll_set_def)

lemma get_carries:
  assumes "list_in h cs ns"
  shows "carries h cs (map_option (\<lambda>(r, h'). (r, first cs, h')) (mem_get (first cs) key has_out h))
    (let (r, a') = ll_get (hp_alloc h) ns key has_out in (r, ns, a'))"
proof (cases has_out)
  case True
  obtain node a' where find: "ll_find (hp_alloc h) ns key = (node, a')" by fastforce
  from mem_find_list [OF assms, of key] obtain h1 where
    run: "mem_find (first cs) key h = Some (case node of None \<Rightarrow> 0 | Some i \<Rightarrow> fst (cs ! i), h1)"
    and h1: "hp_blocks h1 = hp_blocks h" "hp_alloc h1 = a'" "heap_ok h1" "hp_top h \<le> hp_top h1"
    by (auto simp: find)
  have l1: "list_in h1 cs ns" using assms h1 by (auto intro: list_in_kept)
  show ?thesis
  proof (cases node)
    case None
    with True run find l1 h1 show ?thesis by (simp add: mem_get_def ll_get_def carries_same)
  next
    case (Some i)
    with find find_index [of "hp_alloc h" ns key i] have i: "i < length ns" by simp
    have "chain (hp_blocks h1) cs ns" using l1 by (simp add: list_in_def)
    from chain_node [OF this i] True run find l1 h1 Some show ?thesis
      by (simp add: mem_get_def ll_get_def carries_same)
  qed
next
  case False
  with assms show ?thesis by (simp add: mem_get_def ll_get_def carries_same)
qed

text \<open>\<open>ll_free\<close> releases exactly the blocks of the list.\<close>

lemma mem_free_list:
  "chain (hp_blocks h) cs ns \<Longrightarrow> distinct (cells cs) \<Longrightarrow>
    mem_free (first cs) h = Some (h\<lparr>hp_blocks := hp_blocks h |` (- set (cells cs))\<rparr>)"
proof (induction cs arbitrary: h ns)
  case Nil
  then show ?case by (simp add: mem_free.simps)
next
  case (Cons c cs)
  obtain a k where c: "c = (a, k)" by (cases c)
  with Cons.prems obtain n ns' where ns: "ns = n # ns'" by (cases ns) auto
  let ?h = "h\<lparr>hp_blocks := (hp_blocks h)(k := None, a := None)\<rparr>"
  have n: "a \<noteq> 0" "k \<noteq> 0" "hp_blocks h a = Some (Node_block k (ll_count n) (first cs))"
    "hp_blocks h k = Some (Text_block (ll_key n))" "chain (hp_blocks h) cs ns'" "a \<noteq> k"
    "a \<notin> set (cells cs)" "k \<notin> set (cells cs)" "distinct (cells cs)"
    using Cons.prems by (simp_all add: c ns)
  have "chain (hp_blocks ?h) cs ns'" using n by simp
  from Cons.IH [OF this n(9)] have "mem_free (first cs) ?h = Some (?h\<lparr>hp_blocks := hp_blocks ?h |` (- set (cells cs))\<rparr>)" .
  moreover have "hp_blocks ?h |` (- set (cells cs)) = hp_blocks h |` (- set (cells (c # cs)))"
    by (auto simp: c restrict_map_def)
  ultimately show ?case using n by (subst mem_free.simps) (simp add: c heap_free_def)
qed

lemma free_carries:
  assumes "list_in h cs ns"
  shows "carries h cs (map_option (\<lambda>h'. ((), 0, h')) (mem_free (first cs) h)) ((), [], hp_alloc h)"
proof -
  from assms have ok: "heap_ok h" and ch: "chain (hp_blocks h) cs ns" and d: "distinct (cells cs)"
    by (simp_all add: list_in_def)
  let ?h = "h\<lparr>hp_blocks := hp_blocks h |` (- set (cells cs))\<rparr>"
  have "heap_ok ?h" by (rule heap_ok_update [OF ok]) auto
  then have "list_in ?h [] []" by (simp add: list_in_def)
  moreover have "frame h (set (cells cs)) ?h {}" by (simp add: frame_def restrict_map_def)
  ultimately show ?thesis
    unfolding carries_def mem_free_list [OF ch d] by (intro exI [of _ "[]"] exI [of _ ?h]) simp
qed

lemma mem_length_list:
  "chain (hp_blocks h) cs ns \<Longrightarrow> mem_length h (first cs) n = Some (n + ll_length ns)"
proof (induction "hp_blocks h" cs ns arbitrary: n rule: chain.induct)
  case (2 a k cs node ns)
  then show ?case by (subst mem_length.simps) simp
qed (simp_all add: mem_length.simps)

text \<open>
  What the iterators ask of a callback over the memory: while \<open>holds\<close> relates the memory and the
  context in it to the context of the model, one call does what the model does, on every entry that
  is \<open>good\<close>, and leaves the addresses \<open>S\<close> alone, where the list lies.
\<close>

locale memory_callback =
  fixes fn :: "'m callback"
    and model :: "string \<Rightarrow> i32 \<Rightarrow> 'c \<Rightarrow> 'c"
    and holds :: "block heap \<Rightarrow> 'm \<Rightarrow> 'c \<Rightarrow> bool"
    and good :: "string \<Rightarrow> i32 \<Rightarrow> bool"
    and S :: "addr set"
  assumes one_call: "holds h m ctx \<Longrightarrow> good key cnt \<Longrightarrow>
    \<exists>m' h'. fn key cnt m h = Some (m', h') \<and> holds h' m' (model key cnt ctx) \<and> (\<forall>x \<in> S. hp_blocks h' x = hp_blocks h x)"
begin

lemma over_list:
  "chain (hp_blocks h) cs ns \<Longrightarrow> set (cells cs) \<subseteq> S \<Longrightarrow> \<forall>n \<in> set ns. good (ll_key n) (ll_count n) \<Longrightarrow> holds h m ctx \<Longrightarrow>
    \<exists>m' h'. mem_foreach fn (first cs) m h = Some (m', h') \<and> holds h' m' (ll_foreach ns (Some model) ctx)
      \<and> (\<forall>x \<in> S. hp_blocks h' x = hp_blocks h x)"
proof (induction cs arbitrary: h ns m ctx)
  case Nil
  then show ?case by (simp add: mem_foreach.simps)
next
  case (Cons ak cs)
  obtain a k where ak: "ak = (a, k)" by (cases ak)
  from Cons.prems(1) ak obtain n ns' where ns: "ns = n # ns'" "a \<noteq> 0" "k \<noteq> 0" "chain (hp_blocks h) cs ns'"
    and blocks: "hp_blocks h a = Some (Node_block k (ll_count n) (first cs))" "hp_blocks h k = Some (Text_block (ll_key n))"
    by (cases ns) auto
  from one_call [OF Cons.prems(4)] Cons.prems(3) ns(1) obtain m1 h1 where
    call: "fn (ll_key n) (ll_count n) m h = Some (m1, h1)" "holds h1 m1 (model (ll_key n) (ll_count n) ctx)"
      "\<forall>x \<in> S. hp_blocks h1 x = hp_blocks h x" by (metis list.set_intros(1))
  have S: "a \<in> S" "set (cells cs) \<subseteq> S" using Cons.prems(2) ak by simp_all
  have "chain (hp_blocks h1) cs ns' = chain (hp_blocks h) cs ns'" by (rule chain_cong) (use call(3) S in blast)
  with ns(4) have "chain (hp_blocks h1) cs ns'" by simp
  from Cons.IH [OF this S(2) _ call(2)] Cons.prems(3) ns(1) obtain m2 h2 where
    rest: "mem_foreach fn (first cs) m1 h1 = Some (m2, h2)"
      "holds h2 m2 (ll_foreach ns' (Some model) (model (ll_key n) (ll_count n) ctx))"
      "\<forall>x \<in> S. hp_blocks h2 x = hp_blocks h1 x" by (metis list.set_intros(2))
  have "hp_blocks h1 a = Some (Node_block k (ll_count n) (first cs))" using call(3) S(1) blocks(1) by simp
  then have "mem_foreach fn (first (ak # cs)) m h = Some (m2, h2)"
    using blocks call(1) rest(1) ns(2) by (subst mem_foreach.simps) (simp add: ak)
  with rest call(3) ns(1) show ?case by (intro exI [of _ m2] exI [of _ h2]) simp
qed

end

text \<open>A callback that uses its context only.\<close>

definition pure_callback :: "(string \<Rightarrow> i32 \<Rightarrow> 'c \<Rightarrow> 'c) \<Rightarrow> 'c callback" where
  "pure_callback f key cnt ctx h = Some (f key cnt ctx, h)"

interpretation pure: memory_callback "pure_callback f" f "\<lambda>h' m ctx. h' = h \<and> m = ctx" "\<lambda>key cnt. True" UNIV for f h
  by unfold_locales (simp add: pure_callback_def)

text \<open>Removal: the link around the node is redirected, and the node and its key are freed.\<close>

lemma mem_unlink_list:
  "chain (hp_blocks h) ((a, k) # cs) (n # ns) \<Longrightarrow> distinct (cells ((a, k) # cs)) \<Longrightarrow>
    hp_blocks h kl = Some (Text_block t) \<Longrightarrow>
    (case ll_unlink ns t of
       None \<Rightarrow> mem_unlink h kl a = Some (0, h)
     | Some ns' \<Rightarrow> \<exists>cs' m. mem_unlink h kl a = Some (1, h\<lparr>hp_blocks := m\<rparr>) \<and> chain m ((a, k) # cs') (n # ns')
         \<and> distinct (cells ((a, k) # cs')) \<and> set (cells cs') \<subseteq> set (cells cs)
         \<and> (\<forall>x. x \<noteq> a \<longrightarrow> x \<notin> set (cells cs) \<longrightarrow> m x = hp_blocks h x) \<and> (\<forall>x \<in> set (cells cs) - set (cells cs'). m x = None))"
proof (induction cs arbitrary: a k n ns)
  case Nil
  then show ?case by (subst mem_unlink.simps) simp
next
  case (Cons c cs)
  obtain b l where c: "c = (b, l)" by (cases c)
  with Cons.prems(1) obtain n' ns' where ns: "ns = n' # ns'" by (cases ns) auto
  have a: "hp_blocks h a = Some (Node_block k (ll_count n) b)" "hp_blocks h k = Some (Text_block (ll_key n))" "a \<noteq> 0" "k \<noteq> 0"
    and b: "hp_blocks h b = Some (Node_block l (ll_count n') (first cs))" "hp_blocks h l = Some (Text_block (ll_key n'))"
      "b \<noteq> 0" "l \<noteq> 0" "chain (hp_blocks h) cs ns'"
    and d: "a \<noteq> k" "a \<noteq> b" "a \<noteq> l" "k \<noteq> b" "k \<noteq> l" "b \<noteq> l" "distinct (cells cs)"
      "a \<notin> set (cells cs)" "k \<notin> set (cells cs)" "b \<notin> set (cells cs)" "l \<notin> set (cells cs)"
    using Cons.prems(1,2) by (auto simp: c ns)
  show ?case
  proof (cases "ll_key n' = t")
    case True
    let ?m = "(hp_blocks h)(a \<mapsto> Node_block k (ll_count n) (first cs), l := None, b := None)"
    have "mem_unlink h kl a = Some (1, h\<lparr>hp_blocks := ?m\<rparr>)"
      using a b d True Cons.prems(3) by (subst mem_unlink.simps) (simp add: heap_write_def heap_free_def)
    moreover have "chain ?m ((a, k) # cs) (n # ns')" using a b d by simp
    moreover have "distinct (cells ((a, k) # cs))" "set (cells cs) \<subseteq> set (cells (c # cs))" using d by (auto simp: c)
    moreover have "\<forall>x. x \<noteq> a \<longrightarrow> x \<notin> set (cells (c # cs)) \<longrightarrow> ?m x = hp_blocks h x" by (simp add: c)
    moreover have "\<forall>x \<in> set (cells (c # cs)) - set (cells cs). ?m x = None" using d by (auto simp: c)
    moreover have unlink: "ll_unlink ns t = Some ns'" using True by (simp add: ns)
    ultimately show ?thesis unfolding unlink option.case by (intro exI [of _ cs] exI [of _ ?m] conjI)
  next
    case False
    have step: "mem_unlink h kl a = mem_unlink h kl b"
      using a(1) b False Cons.prems(3) by (subst mem_unlink.simps) simp
    have ch: "chain (hp_blocks h) ((b, l) # cs) (n' # ns')" "distinct (cells ((b, l) # cs))"
      using b d by simp_all
    note IH = Cons.IH [OF ch Cons.prems(3)]
    show ?thesis
    proof (cases "ll_unlink ns' t")
      case None
      with IH step False show ?thesis by (simp add: ns)
    next
      case (Some ys)
      with IH obtain cs' m where run: "mem_unlink h kl b = Some (1, h\<lparr>hp_blocks := m\<rparr>)"
        and m: "chain m ((b, l) # cs') (n' # ys)" "distinct (cells ((b, l) # cs'))" "set (cells cs') \<subseteq> set (cells cs)"
          "\<forall>x. x \<noteq> b \<longrightarrow> x \<notin> set (cells cs) \<longrightarrow> m x = hp_blocks h x" "\<forall>x \<in> set (cells cs) - set (cells cs'). m x = None"
        by auto
      have "m a = hp_blocks h a" "m k = hp_blocks h k" using m(4) d by auto
      then have "chain m ((a, k) # (b, l) # cs') (n # n' # ys)" using a m(1) by simp
      moreover have "distinct (cells ((a, k) # (b, l) # cs'))" using m(2,3) d by auto
      ultimately show ?thesis using Some False run step m(3-5)
        by (simp add: ns c) (intro exI [of _ "(b, l) # cs'"] exI [of _ m], auto)
    qed
  qed
qed

text \<open>An operation on a list with a temporary copy \<open>p\<close> that is freed at the end.\<close>

lemma without_copy_carries:
  assumes "list_in h cs ns" and "heap_malloc b h = (p, h1)" and "p \<noteq> 0"
    and "chain (m'(p := None)) cs' ns'" and "distinct (cells cs')" and "set (cells cs') \<subseteq> set (cells cs)"
    and "\<forall>x. x \<notin> set (cells cs) \<longrightarrow> m' x = hp_blocks h1 x" and "\<forall>x \<in> set (cells cs) - set (cells cs'). m' x = None"
  shows "carries h cs (Some (r, first cs', h1\<lparr>hp_blocks := m'(p := None)\<rparr>)) (r, ns', hp_alloc h1)"
proof -
  from assms(1) have ok: "heap_ok h" and ch: "chain (hp_blocks h) cs ns" by (simp_all add: list_in_def)
  let ?h = "h1\<lparr>hp_blocks := m'(p := None)\<rparr>"
  from assms(2) ok show ?thesis
  proof (cases rule: heap_malloc_cases)
    case (fail al)
    with assms(3) show ?thesis by simp
  next
    case (new al)
    have p: "p \<notin> set (cells cs)" using chain_live [OF ch, of p] new by auto
    have off: "m' x = hp_blocks h x" if "x \<notin> set (cells cs)" "x \<noteq> p" for x
      using that assms(7) new by simp
    have "dom (m'(p := None)) \<subseteq> dom (hp_blocks h)"
    proof
      fix x
      assume x: "x \<in> dom (m'(p := None))"
      then have "m' x \<noteq> None" "x \<noteq> p" by (auto simp: domIff)
      then show "x \<in> dom (hp_blocks h)"
        using off [of x] chain_live [OF ch, of x] by (cases "x \<in> set (cells cs)") (auto simp: domIff)
    qed
    then have "heap_ok ?h" using new(5,6) ok by (fastforce simp: heap_ok_def)
    moreover have "frame h (set (cells cs)) ?h (set (cells cs'))"
      using off assms(6,8) p new(2,4,5) by (auto simp: frame_def)
    ultimately show ?thesis
      using assms(4,5) new(5) unfolding carries_def list_in_def by (intro exI [of _ cs'] exI [of _ ?h]) simp
  qed
qed

lemma remove_carries:
  assumes "list_in h cs ns"
  shows "carries h cs (mem_remove key (first cs) h) (the_list (ll_remove (hp_alloc h) (Some ns) key))"
proof (cases ns)
  case Nil
  with assms have "cs = []" by (simp add: list_in_def)
  with Nil assms show ?thesis by (simp add: mem_remove_def ll_remove_def carries_same)
next
  case (Cons n rest)
  let ?t = "lower (non_null key)"
  from assms Cons obtain a k cs0 where cs: "cs = (a, k) # cs0" by (cases cs) (auto simp: list_in_def)
  from assms have ok: "heap_ok h" and ch: "chain (hp_blocks h) cs ns" and d: "distinct (cells cs)"
    by (simp_all add: list_in_def)
  then have a: "a \<noteq> 0" "k \<noteq> 0" "hp_blocks h a = Some (Node_block k (ll_count n) (first cs0))"
    "hp_blocks h k = Some (Text_block (ll_key n))" "chain (hp_blocks h) cs0 rest" by (simp_all add: cs Cons)
  have d': "a \<noteq> k" "a \<notin> set (cells cs0)" "k \<notin> set (cells cs0)" "distinct (cells cs0)" using d by (auto simp: cs)
  obtain p h1 where m: "heap_malloc (Text_block ?t) h = (p, h1)" by fastforce
  note defs = mem_remove_def mem_strdup_lower_def ll_remove_def ll_strdup_lower_def
  from m ok show ?thesis
  proof (cases rule: heap_malloc_cases)
    case (fail al)
    with assms have "list_in h1 cs ns" by (auto intro: list_in_kept)
    with fail m a(1) show ?thesis by (simp add: defs carries_same Cons cs)
  next
    case (new al)
    have p: "p \<notin> set (cells cs)" "p \<noteq> 0" "hp_blocks h p = None"
      using chain_live [OF ch, of p] new by auto
    have bl: "hp_blocks h1 = (hp_blocks h)(p \<mapsto> Text_block ?t)" using new by simp
    have ch1: "chain (hp_blocks h1) cs ns" using ch p(1) by (simp add: bl)
    have kl: "hp_blocks h1 p = Some (Text_block ?t)" by (simp add: bl)
    have a1: "hp_blocks h1 a = Some (Node_block k (ll_count n) (first cs0))"
      "hp_blocks h1 k = Some (Text_block (ll_key n))" using a p(1) by (simp_all add: bl cs)
    have pk: "p \<noteq> a" "p \<noteq> k" using p(1) by (auto simp: cs)
    note finish = without_copy_carries [OF assms m p(2)]
    show ?thesis
    proof (cases "ll_key n = ?t")
      case True
      let ?m = "(hp_blocks h1)(k := None, a := None)"
      have ch': "chain (?m(p := None)) cs0 rest" using ch1 d' p(1) by (simp add: cs Cons)
      have "carries h cs (Some (1, first cs0, h1\<lparr>hp_blocks := ?m(p := None)\<rparr>)) (1, rest, hp_alloc h1)"
        by (rule finish) (use ch' d' in \<open>auto simp: cs\<close>)
      moreover have "mem_remove key (first cs) h = Some (1, first cs0, h1\<lparr>hp_blocks := ?m(p := None)\<rparr>)"
        using m p(2) a1 kl True a(1,2) pk d'(1) by (simp add: mem_remove_def mem_strdup_lower_def cs heap_free_def)
      ultimately show ?thesis using new(1,5) True by (simp add: ll_remove_def ll_strdup_lower_def Cons)
    next
      case False
      note u = mem_unlink_list [OF ch1 [unfolded cs Cons] d [unfolded cs] kl]
      have run: "mem_remove key (first cs) h =
          do { (r, h2) \<leftarrow> mem_unlink h1 p a; h3 \<leftarrow> heap_free p h2; Some (r, a, h3) }"
        using m p(2) a1 kl False a(1) by (simp add: mem_remove_def mem_strdup_lower_def cs)
      show ?thesis
      proof (cases "ll_unlink rest ?t")
        case None
        let ?h = "h1\<lparr>hp_blocks := (hp_blocks h1)(p := None)\<rparr>"
        have ch': "chain ((hp_blocks h1)(p := None)) cs ns" using ch1 p(1) by simp
        have "carries h cs (Some (0, first cs, ?h)) (0, ns, hp_alloc h1)"
          by (rule finish) (use ch' d in auto)
        with run u None new(1,5) False p(2) kl show ?thesis
          by (simp add: ll_remove_def ll_strdup_lower_def Cons cs heap_free_def)
      next
        case (Some ys)
        with u obtain cs' m' where un: "mem_unlink h1 p a = Some (1, h1\<lparr>hp_blocks := m'\<rparr>)"
          and m': "chain m' ((a, k) # cs') (n # ys)" "distinct (cells ((a, k) # cs'))" "set (cells cs') \<subseteq> set (cells cs0)"
            "\<forall>x. x \<noteq> a \<longrightarrow> x \<notin> set (cells cs0) \<longrightarrow> m' x = hp_blocks h1 x" "\<forall>x \<in> set (cells cs0) - set (cells cs'). m' x = None"
          by auto
        let ?h = "h1\<lparr>hp_blocks := m'(p := None)\<rparr>"
        have "p \<notin> set (cells ((a, k) # cs'))" using m'(3) p(1) by (auto simp: cs)
        then have ch': "chain (m'(p := None)) ((a, k) # cs') (n # ys)" using m'(1) by (simp del: chain.simps)
        have "carries h cs (Some (1, first ((a, k) # cs'), ?h)) (1, n # ys, hp_alloc h1)"
          by (rule finish) (use ch' m' in \<open>auto simp: cs simp del: chain.simps\<close>)
        moreover have "m' p \<noteq> None" using m'(4) kl p(1) by (auto simp: cs)
        ultimately show ?thesis using run un Some new(1,5) False p(2)
          by (auto simp: ll_remove_def ll_strdup_lower_def Cons heap_free_def)
      qed
    qed
  qed
qed

subsection \<open>Sequences of calls\<close>

text \<open>
  An object in memory and the calls on it: the contract that the list and the map both keep.  Each call
  has the result that the model without memory says, and keeps to the object's own blocks; so does
  every sequence of calls.
\<close>

fun mem_calls ::
  "('c \<Rightarrow> 'p \<Rightarrow> 'h \<Rightarrow> ('r \<times> 'p \<times> 'h) option) \<Rightarrow> 'c list \<Rightarrow> 'p \<Rightarrow> 'h \<Rightarrow> ('r list \<times> 'p \<times> 'h) option" where
  "mem_calls f [] p h = Some ([], p, h)"
| "mem_calls f (c # cs) p h =
     do { (r, p', h') \<leftarrow> f c p h; (rs, p'', h'') \<leftarrow> mem_calls f cs p' h'; Some (r # rs, p'', h'') }"

fun model_calls :: "('c \<Rightarrow> 's \<Rightarrow> alloc \<Rightarrow> 'r \<times> 's \<times> alloc) \<Rightarrow> 'c list \<Rightarrow> 's \<Rightarrow> alloc \<Rightarrow> 'r list \<times> 's \<times> alloc" where
  "model_calls f [] s a = ([], s, a)"
| "model_calls f (c # cs) s a =
     (let (r, s', a') = f c s a; (rs, s'', a'') = model_calls f cs s' a' in (r # rs, s'', a''))"

lemma frame_trans:
  assumes "frame h A h1 B" and "frame h1 B h2 C" and "heap_ok h"
  shows "frame h A h2 C"
proof -
  have "hp_blocks h2 x = hp_blocks h x" if "x \<notin> A" "x \<notin> C" for x
  proof (cases "x \<in> B")
    case True
    then have "hp_blocks h x = None" using assms(1,3) that(1) by (simp add: frame_def)
    moreover have "hp_blocks h2 x = None" using assms(2) that(2) True by (simp add: frame_def)
    ultimately show ?thesis by simp
  next
    case False
    then show ?thesis using assms(1,2) that by (simp add: frame_def)
  qed
  moreover have "hp_blocks h2 x = None" if "x \<in> A - C" for x
    using assms(1,2) that unfolding frame_def by (cases "x \<in> B") auto
  moreover have "hp_top h \<le> x" if "x \<in> C - A" for x
    using assms(1,2) that unfolding frame_def by (cases "x \<in> B") (auto intro: order_trans)
  ultimately show ?thesis using assms(1,2) by (auto simp: frame_def)
qed

locale memory_object =
  fixes holds :: "block heap \<Rightarrow> addr set \<Rightarrow> 'p \<Rightarrow> 's \<Rightarrow> bool"
    and mem_call :: "'c \<Rightarrow> 'p \<Rightarrow> block heap \<Rightarrow> ('r \<times> 'p \<times> block heap) option"
    and model_call :: "'c \<Rightarrow> 's \<Rightarrow> alloc \<Rightarrow> 'r \<times> 's \<times> alloc"
  assumes holds_ok: "holds h A p s \<Longrightarrow> heap_ok h"
    and call: "holds h A p s \<Longrightarrow> model_call c s (hp_alloc h) = (r, s', a') \<Longrightarrow>
      \<exists>A' p' h'. mem_call c p h = Some (r, p', h') \<and> holds h' A' p' s' \<and> hp_alloc h' = a' \<and> frame h A h' A'"
begin

lemma calls:
  "holds h A p s \<Longrightarrow> model_calls model_call cs s (hp_alloc h) = (rs, s', a') \<Longrightarrow>
    \<exists>A' p' h'. mem_calls mem_call cs p h = Some (rs, p', h') \<and> holds h' A' p' s' \<and> hp_alloc h' = a' \<and> frame h A h' A'"
proof (induction cs arbitrary: h A p s rs)
  case Nil
  then show ?case by (auto intro: frame_refl)
next
  case (Cons c cs)
  obtain r s1 a1 where one: "model_call c s (hp_alloc h) = (r, s1, a1)" by (metis prod_cases3)
  with Cons.prems(2) obtain rs' where rest: "model_calls model_call cs s1 a1 = (rs', s', a')" "rs = r # rs'"
    by (auto split: prod.splits)
  from call [OF Cons.prems(1) one] obtain B q h1 where
    h1: "mem_call c p h = Some (r, q, h1)" "holds h1 B q s1" "hp_alloc h1 = a1" "frame h A h1 B" by blast
  from Cons.IH [OF h1(2)] rest(1) h1(3) obtain C p' h' where
    h': "mem_calls mem_call cs q h1 = Some (rs', p', h')" "holds h' C p' s'" "hp_alloc h' = a'" "frame h1 B h' C" by auto
  have "frame h A h' C" using frame_trans [OF h1(4) h'(4)] holds_ok [OF Cons.prems(1)] by simp
  with h1(1) h' rest(2) show ?case by auto
qed

end

subsection \<open>A list from its first call to its release\<close>

datatype list_call = Put_inc "string option" i32 | Put_exactly "string option" i32 | Get "string option" | Remove "string option" | Length

datatype call_result = Returned int | Found "i32 option" | Counted nat | Listed "(string \<times> i32) list" | Nothing_returned

definition mem_list_call :: "list_call \<Rightarrow> addr \<Rightarrow> block heap \<Rightarrow> (call_result \<times> addr \<times> block heap) option" where
  "mem_list_call c head h =
     (case c of
        Put_inc key d \<Rightarrow> do { (r, head', h') \<leftarrow> mem_put_inc key d head h; Some (Returned r, head', h') }
      | Put_exactly key d \<Rightarrow> do { (r, head', h') \<leftarrow> mem_set key d head h; Some (Returned r, head', h') }
      | Get key \<Rightarrow> do { (r, h') \<leftarrow> mem_get head key True h; Some (Found r, head, h') }
      | Remove key \<Rightarrow> do { (r, head', h') \<leftarrow> mem_remove key head h; Some (Returned r, head', h') }
      | Length \<Rightarrow> do { n \<leftarrow> mem_length h head 0; Some (Counted n, head, h) })"

definition model_list_call :: "list_call \<Rightarrow> LLNode list \<Rightarrow> alloc \<Rightarrow> call_result \<times> LLNode list \<times> alloc" where
  "model_list_call c ns a =
     (case c of
        Put_inc key d \<Rightarrow> (let (r, h, a') = ll_put_inc a (Some ns) key d in (Returned r, the h, a'))
      | Put_exactly key d \<Rightarrow> (let (r, h, a') = ll_set a (Some ns) key d in (Returned r, the h, a'))
      | Get key \<Rightarrow> (let (r, a') = ll_get a ns key True in (Found r, ns, a'))
      | Remove key \<Rightarrow> (let (r, h, a') = ll_remove a (Some ns) key in (Returned r, the h, a'))
      | Length \<Rightarrow> (Counted (ll_length ns), ns, a))"

definition list_object :: "block heap \<Rightarrow> addr set \<Rightarrow> addr \<Rightarrow> LLNode list \<Rightarrow> bool" where
  "list_object h A p ns \<longleftrightarrow> (\<exists>cs. A = set (cells cs) \<and> p = first cs \<and> list_in h cs ns)"

lemma list_call_carries:
  assumes "list_in h cs ns"
  shows "carries h cs (mem_list_call c (first cs) h) (model_list_call c ns (hp_alloc h))"
proof (cases c)
  case (Put_inc key d)
  from put_inc_carries [OF assms, of key d] show ?thesis
    by (auto simp: Put_inc mem_list_call_def model_list_call_def carries_def the_list_def split: prod.splits)
next
  case (Put_exactly key d)
  from set_carries [OF assms, of key d] show ?thesis
    by (auto simp: Put_exactly mem_list_call_def model_list_call_def carries_def the_list_def split: prod.splits)
next
  case (Get key)
  from get_carries [OF assms, of key True] show ?thesis
    by (auto simp: Get mem_list_call_def model_list_call_def carries_def split: prod.splits)
next
  case (Remove key)
  from remove_carries [OF assms, of key] show ?thesis
    by (auto simp: Remove mem_list_call_def model_list_call_def carries_def the_list_def split: prod.splits)
next
  case Length
  from assms mem_length_list [of h cs ns 0] show ?thesis
    by (auto simp: Length mem_list_call_def model_list_call_def list_in_def intro!: carries_same)
qed

interpretation list_memory: memory_object list_object mem_list_call model_list_call
proof (unfold_locales, goal_cases)
  case (1 h A p s)
  then show ?case by (auto simp: list_object_def list_in_def)
next
  case (2 h A p s c r s' a')
  then obtain cs where cs: "A = set (cells cs)" "p = first cs" "list_in h cs s" by (auto simp: list_object_def)
  from list_call_carries [OF cs(3), of c] 2(2) cs(1,2) show ?case
    by (fastforce simp: carries_def list_object_def)
qed

lemma frame_empty: "frame h {} h' {} \<Longrightarrow> hp_blocks h' = hp_blocks h"
  by (simp add: frame_def fun_eq_iff)

text \<open>C22: A bucket list in memory: starting from the NULL pointer, any sequence of increments, assignments,
  lookups, removals and counts, whichever allocations fail, accesses and frees only live memory, uses
  a block only as the node or the text it was allocated as, returns what the list model says, and a final \<open>ll_free\<close> leaves the memory as it was before: nothing is freed twice,
  nothing leaks, nothing else is touched.\<close>

theorem list_calls_are_memory_safe:
  assumes "heap_ok h" and "model_calls model_list_call calls [] (hp_alloc h) = (rs, ns, a)"
  shows "\<exists>p h1 h2. mem_calls mem_list_call calls 0 h = Some (rs, p, h1) \<and> mem_free p h1 = Some h2
    \<and> hp_blocks h2 = hp_blocks h \<and> hp_alloc h2 = a"
proof -
  have "list_object h {} 0 []" using assms(1) by (auto simp: list_object_def list_in_def intro!: exI [of _ "[]"])
  from list_memory.calls [OF this assms(2)] obtain A p h1 where
    run: "mem_calls mem_list_call calls 0 h = Some (rs, p, h1)" and "list_object h1 A p ns" "hp_alloc h1 = a" "frame h {} h1 A"
    by blast
  moreover from this(2) obtain cs where cs: "A = set (cells cs)" "p = first cs" "list_in h1 cs ns"
    by (auto simp: list_object_def)
  moreover from free_carries [OF cs(3)] obtain h2 cs' where
    "mem_free (first cs) h1 = Some h2" "list_in h2 cs' []" "hp_alloc h2 = hp_alloc h1" "frame h1 (set (cells cs)) h2 (set (cells cs'))"
    by (auto simp: carries_def)
  moreover from this(2) have "cs' = []" by (simp add: list_in_def)
  ultimately show ?thesis using frame_empty frame_trans [OF _ _ assms(1)] by (metis cells_simps(1) empty_set)
qed

lemma list_calls_are_memory_safe_witness:
  "\<exists>p h1 h2. mem_calls mem_list_call [Put_inc (Some ''A'') 1, Put_inc (Some ''a'') 2, Get (Some ''a''), Remove (Some ''A'')] 0
      (empty_heap []) = Some ([Returned 0, Returned 0, Found (Some 3), Returned 1], p, h1)
    \<and> mem_free p h1 = Some h2 \<and> hp_blocks h2 = Map.empty"
proof -
  let ?calls = "[Put_inc (Some ''A'') 1, Put_inc (Some ''a'') 2, Get (Some ''a''), Remove (Some ''A'')]"
  have "lower ''A'' = ''a''" "lower ''a'' = ''a''" by code_simp+
  then have "model_calls model_list_call ?calls [] (hp_alloc (empty_heap [])) =
      ([Returned 0, Returned 0, Found (Some 3), Returned 1], [], [])"
    by (simp add: model_list_call_def ll_put_inc_def ll_find_def ll_strdup_lower_def ll_push_new_def ll_get_def
        ll_remove_def empty_heap_def)
  from list_calls_are_memory_safe [OF empty_heap_ok this] show ?thesis by (auto simp: empty_heap_def)
qed

end
