(* ===== verification/Heap_Map.thy ===== *)
theory Heap_Map
  imports Heap_List Hash_Map
begin

section \<open>The hash map in memory (mapreduce-wordcount/hashmap.c)\<close>

text \<open>
  The functions of hashmap.c over the heap of \<open>Heap_List\<close>: a block for the map, one for the array of
  bucket heads, and the lists of the buckets.  An access to the array out of its bounds is undefined
  behaviour like one to memory that is not allocated.
\<close>

definition map_at :: "block heap \<Rightarrow> addr \<Rightarrow> (nat \<times> addr) option" where
  "map_at h p = (case hp_blocks h p of Some (Map_block n b) \<Rightarrow> Some (n, b) | _ \<Rightarrow> None)"

definition table_at :: "block heap \<Rightarrow> addr \<Rightarrow> addr list option" where
  "table_at h b = (case hp_blocks h b of Some (Table_block ps) \<Rightarrow> Some ps | _ \<Rightarrow> None)"

definition mem_hm_create :: "nat \<Rightarrow> block heap \<Rightarrow> (addr \<times> block heap) option" where
  "mem_hm_create n h =
     (let n = (if n = 0 then DEFAULT_N_BUCKETS else n);
          (hm, h1) = heap_malloc (Map_block 0 0) h
      in if hm = 0 then Some (0, h1)
         else (let (b, h2) = heap_malloc (Table_block (replicate n 0)) h1
           in if b = 0 then do { h3 \<leftarrow> heap_free hm h2; Some (0, h3) }
              else do { h3 \<leftarrow> heap_write hm (Map_block n b) h2; Some (hm, h3) }))"

text \<open>An operation of linked\_list.c on the address of the bucket head \<open>i\<close>.\<close>

definition mem_on_bucket ::
  "(addr \<Rightarrow> block heap \<Rightarrow> ('r \<times> addr \<times> block heap) option) \<Rightarrow> addr \<Rightarrow> nat \<Rightarrow> block heap \<Rightarrow> ('r \<times> block heap) option" where
  "mem_on_bucket f b i h =
     do {
       ps \<leftarrow> table_at h b;
       if length ps \<le> i then None
       else do {
         (r, p, h1) \<leftarrow> f (ps ! i) h;
         h2 \<leftarrow> heap_write b (Table_block (ps[i := p])) h1;
         Some (r, h2)
       }
     }"

definition mem_bucket_index :: "nat \<Rightarrow> string option \<Rightarrow> nat" where
  "mem_bucket_index n key = bucket_index (Some \<lparr>n_buckets = n, buckets = None\<rparr>) key"

definition mem_hm_put_inc :: "addr \<Rightarrow> string option \<Rightarrow> i32 \<Rightarrow> block heap \<Rightarrow> (int \<times> block heap) option" where
  "mem_hm_put_inc hm key delta h =
     (if hm = 0 then Some (-1, h)
      else do {
        (n, b) \<leftarrow> map_at h hm;
        if b = 0 then Some (-1, h)
        else (let key = Some (non_null key) in mem_on_bucket (mem_put_inc key delta) b (mem_bucket_index n key) h)
      })"

definition mem_hm_set :: "addr \<Rightarrow> string option \<Rightarrow> i32 \<Rightarrow> block heap \<Rightarrow> (int \<times> block heap) option" where
  "mem_hm_set hm key cnt h =
     (if hm = 0 then Some (-1, h)
      else do {
        (n, b) \<leftarrow> map_at h hm;
        if b = 0 then Some (-1, h)
        else (let key = Some (non_null key) in mem_on_bucket (mem_set key cnt) b (mem_bucket_index n key) h)
      })"

text \<open>\<open>ll_get\<close> is given the head itself, which it does not write.\<close>

definition mem_get_at :: "string option \<Rightarrow> bool \<Rightarrow> addr \<Rightarrow> block heap \<Rightarrow> (i32 option \<times> addr \<times> block heap) option" where
  "mem_get_at key has_out p h = map_option (\<lambda>(r, h'). (r, p, h')) (mem_get p key has_out h)"

definition mem_hm_get :: "addr \<Rightarrow> string option \<Rightarrow> bool \<Rightarrow> block heap \<Rightarrow> (i32 option \<times> block heap) option" where
  "mem_hm_get hm key has_out h =
     (if hm = 0 then Some (None, h)
      else do {
        (n, b) \<leftarrow> map_at h hm;
        if b = 0 \<or> \<not> has_out then Some (None, h)
        else (let key = Some (non_null key) in mem_on_bucket (mem_get_at key True) b (mem_bucket_index n key) h)
      })"

text \<open>The loop of \<open>hm_clear\<close> from bucket \<open>i\<close> on, \<open>k\<close> buckets.\<close>

definition mem_free_at :: "addr \<Rightarrow> block heap \<Rightarrow> (unit \<times> addr \<times> block heap) option" where
  "mem_free_at p h = map_option (\<lambda>h'. ((), 0, h')) (mem_free p h)"

fun mem_clear_from :: "nat \<Rightarrow> nat \<Rightarrow> addr \<Rightarrow> block heap \<Rightarrow> block heap option" where
  "mem_clear_from 0 i b h = Some h"
| "mem_clear_from (Suc k) i b h =
     do { (r, h') \<leftarrow> mem_on_bucket mem_free_at b i h; mem_clear_from k (Suc i) b h' }"

definition mem_hm_clear :: "addr \<Rightarrow> block heap \<Rightarrow> block heap option" where
  "mem_hm_clear hm h =
     (if hm = 0 then Some h
      else do { (n, b) \<leftarrow> map_at h hm; if b = 0 then Some h else mem_clear_from n 0 b h })"

text \<open>The loop of \<open>hm_free\<close>: the heads in the array still point to the lists that were freed.\<close>

fun mem_free_heads :: "addr list \<Rightarrow> block heap \<Rightarrow> block heap option" where
  "mem_free_heads [] h = Some h"
| "mem_free_heads (p # ps) h = do { h' \<leftarrow> mem_free p h; mem_free_heads ps h' }"

definition mem_hm_free :: "addr \<Rightarrow> block heap \<Rightarrow> block heap option" where
  "mem_hm_free hm h =
     (if hm = 0 then Some h
      else do {
        (n, b) \<leftarrow> map_at h hm;
        h2 \<leftarrow> (if b = 0 then Some h
              else do {
                ps \<leftarrow> table_at h b;
                if length ps < n then None
                else do { h1 \<leftarrow> mem_free_heads (take n ps) h; heap_free b h1 }
              });
        heap_free hm h2
      })"

fun mem_foreach_from :: "nat \<Rightarrow> nat \<Rightarrow> addr \<Rightarrow> 'm callback \<Rightarrow> 'm \<Rightarrow> block heap \<Rightarrow> ('m \<times> block heap) option" where
  "mem_foreach_from 0 i b fn ctx h = Some (ctx, h)"
| "mem_foreach_from (Suc k) i b fn ctx h =
     do {
       ps \<leftarrow> table_at h b;
       if length ps \<le> i then None
       else do { (ctx', h') \<leftarrow> mem_foreach fn (ps ! i) ctx h; mem_foreach_from k (Suc i) b fn ctx' h' }
     }"

definition mem_hm_foreach :: "addr \<Rightarrow> 'm callback option \<Rightarrow> 'm \<Rightarrow> block heap \<Rightarrow> ('m \<times> block heap) option" where
  "mem_hm_foreach hm fn ctx h =
     (if hm = 0 then Some (ctx, h)
      else do {
        (n, b) \<leftarrow> map_at h hm;
        case fn of None \<Rightarrow> Some (ctx, h)
        | Some f \<Rightarrow> if b = 0 then Some (ctx, h) else mem_foreach_from n 0 b f ctx h
      })"

fun mem_count_heads :: "block heap \<Rightarrow> addr list \<Rightarrow> nat \<Rightarrow> nat option" where
  "mem_count_heads h [] t = Some t"
| "mem_count_heads h (p # ps) t = do { n \<leftarrow> mem_length h p 0; mem_count_heads h ps (t + n) }"

definition mem_hm_entry_count :: "addr \<Rightarrow> block heap \<Rightarrow> nat option" where
  "mem_hm_entry_count hm h =
     (if hm = 0 then Some 0
      else do {
        (n, b) \<leftarrow> map_at h hm;
        if b = 0 then Some 0
        else do { ps \<leftarrow> table_at h b; if length ps < n then None else mem_count_heads h (take n ps) 0 }
      })"

text \<open>The loops of \<open>hm_merge\<close>; \<open>node->next\<close> is read after the entry has been put into the destination.\<close>

partial_function (option) mem_merge_list :: "addr \<Rightarrow> addr \<Rightarrow> block heap \<Rightarrow> (int \<times> block heap) option" where
  "mem_merge_list dst node h =
     (if node = 0 then Some (0, h)
      else do {
        (k, c, nxt) \<leftarrow> node_at h node;
        s \<leftarrow> text_at h k;
        (r, h1) \<leftarrow> mem_hm_put_inc dst (Some s) c h;
        if r \<noteq> 0 then Some (-1, h1)
        else do { (k', c', nxt') \<leftarrow> node_at h1 node; mem_merge_list dst nxt' h1 }
      })"

fun mem_merge_from :: "nat \<Rightarrow> nat \<Rightarrow> addr \<Rightarrow> addr \<Rightarrow> block heap \<Rightarrow> (int \<times> block heap) option" where
  "mem_merge_from 0 i dst b h = Some (0, h)"
| "mem_merge_from (Suc k) i dst b h =
     do {
       ps \<leftarrow> table_at h b;
       if length ps \<le> i then None
       else do {
         (r, h1) \<leftarrow> mem_merge_list dst (ps ! i) h;
         if r \<noteq> 0 then Some (-1, h1) else mem_merge_from k (Suc i) dst b h1
       }
     }"

definition mem_hm_merge :: "addr \<Rightarrow> addr \<Rightarrow> block heap \<Rightarrow> (int \<times> block heap) option" where
  "mem_hm_merge dst src h =
     (if dst = 0 then Some (-1, h)
      else do {
        (n, b) \<leftarrow> map_at h dst;
        if b = 0 then Some (-1, h)
        else if src = 0 then Some (0, h)
        else do { (n', b') \<leftarrow> map_at h src; if b' = 0 then Some (0, h) else mem_merge_from n' 0 dst b' h }
      })"

subsection \<open>A map in memory\<close>

definition map_cells :: "addr \<Rightarrow> addr \<Rightarrow> cells list \<Rightarrow> addr list" where
  "map_cells p b css = p # b # concat (map cells css)"

definition map_in :: "block heap \<Rightarrow> addr \<Rightarrow> addr \<Rightarrow> cells list \<Rightarrow> HashMap \<Rightarrow> bool" where
  "map_in h p b css hm \<longleftrightarrow> heap_ok h \<and> p \<noteq> 0 \<and> b \<noteq> 0 \<and> n_buckets hm \<noteq> 0
     \<and> hp_blocks h p = Some (Map_block (n_buckets hm) b) \<and> hp_blocks h b = Some (Table_block (map first css))
     \<and> distinct (map_cells p b css)
     \<and> (case buckets hm of None \<Rightarrow> False
        | Some nss \<Rightarrow> length nss = n_buckets hm \<and> list_all2 (chain (hp_blocks h)) css nss)"

lemma list_in_bucket:
  assumes "map_in h p b css \<lparr>n_buckets = n, buckets = Some nss\<rparr>" and "i < n"
  shows "list_in h (css ! i) (nss ! i)" and "length css = n" and "length nss = n"
proof -
  from assms(1) have ch: "list_all2 (chain (hp_blocks h)) css nss" and l: "length nss = n"
    and d: "distinct (concat (map cells css))" by (auto simp: map_in_def map_cells_def)
  then show l': "length css = n" "length nss = n" by (auto dest: list_all2_lengthD)
  have "distinct (cells (css ! i))" using d assms(2) l' by (auto simp: distinct_concat_iff)
  moreover have "heap_ok h" using assms(1) by (simp add: map_in_def)
  ultimately show "list_in h (css ! i) (nss ! i)"
    using ch assms(2) l' by (simp add: list_in_def list_all2_conv_all_nth)
qed

lemma map_live: "map_in h p b css hm \<Longrightarrow> x \<in> set (map_cells p b css) \<Longrightarrow> x \<in> dom (hp_blocks h)"
  by (fastforce simp: map_in_def map_cells_def list_all2_conv_all_nth in_set_conv_nth split: option.splits dest: chain_live)

text \<open>What is done to one bucket.\<close>

lemma replace_segment:
  assumes "distinct (L @ X @ R)" and "distinct Y" and "\<forall>x \<in> set (L @ X @ R). (x :: addr) < t"
    and "\<forall>x \<in> set Y. x \<in> set X \<or> t \<le> x"
  shows "distinct (L @ Y @ R)" and "\<And>x. x \<in> set L \<union> set R \<Longrightarrow> x \<notin> set Y \<and> x \<notin> set X"
proof -
  show sep: "x \<notin> set Y \<and> x \<notin> set X" if "x \<in> set L \<union> set R" for x
  proof -
    have "x \<notin> set X" "x < t" using that assms(1,3) by auto
    then show ?thesis using assms(4) by auto
  qed
  show "distinct (L @ Y @ R)" using assms(1,2) sep by auto
qed

lemma on_bucket:
  assumes m: "map_in h p b css \<lparr>n_buckets = n, buckets = Some nss\<rparr>" and i: "i < n"
    and run: "carries h (css ! i) (f (first (css ! i)) h) (r, ns', a')"
  obtains css' h' where "mem_on_bucket f b i h = Some (r, h')"
    and "map_in h' p b css' \<lparr>n_buckets = n, buckets = Some (nss[i := ns'])\<rparr>" and "hp_alloc h' = a'"
    and "frame h (set (map_cells p b css)) h' (set (map_cells p b css'))"
proof -
  note li = list_in_bucket [OF m i]
  let ?X = "cells (css ! i)" and ?L = "p # b # concat (map cells (take i css))" and ?R = "concat (map cells (drop (Suc i) css))"
  from run obtain cs' h1 where f: "f (first (css ! i)) h = Some (r, first cs', h1)" and l1: "list_in h1 cs' ns'"
    and a1: "hp_alloc h1 = a'" and fr: "frame h (set ?X) h1 (set (cells cs'))" by (auto simp: carries_def)
  have css: "css = take i css @ css ! i # drop (Suc i) css" using id_take_nth_drop [of i css] i li(2) by simp
  have all: "map_cells p b css = ?L @ ?X @ ?R" by (subst css) (simp add: map_cells_def)
  let ?css = "css[i := cs']"
  have all': "map_cells p b ?css = ?L @ cells cs' @ ?R"
    using i li(2) by (simp add: map_cells_def upd_conv_take_nth_drop)
  have "distinct (map_cells p b css)" using m by (simp add: map_in_def)
  then have d: "distinct (?L @ ?X @ ?R)" by (simp only: all)
  have old: "\<forall>x \<in> set (map_cells p b css). x < hp_top h"
    using map_live [OF m] heap_okD [of h] m by (fastforce simp: map_in_def)
  have new: "\<forall>x \<in> set (cells cs'). x \<in> set ?X \<or> hp_top h \<le> x" using fr by (auto simp: frame_def)
  have "distinct (cells cs')" using l1 by (simp add: list_in_def)
  note seg = replace_segment [OF d this old [unfolded all] new]
  note d' = seg(1) and sep = seg(2)
  have same: "hp_blocks h1 x = hp_blocks h x" if "x \<in> set ?L \<union> set ?R" for x
    using sep [OF that] fr by (simp add: frame_def)
  have pb: "hp_blocks h1 p = Some (Map_block n b)" "hp_blocks h1 b = Some (Table_block (map first css))" "p \<noteq> b"
    using same [of p] same [of b] m d by (simp_all add: map_in_def)
  let ?h = "h1\<lparr>hp_blocks := (hp_blocks h1)(b \<mapsto> Table_block (map first ?css))\<rparr>"
  have ok: "heap_ok ?h" by (rule heap_ok_update) (use l1 pb in \<open>auto simp: list_in_def\<close>)
  have "chain (hp_blocks ?h) (?css ! j) (nss[i := ns'] ! j)" if j: "j < n" for j
  proof (cases "j = i")
    case True
    have "b \<notin> set (cells cs')" using sep [of b] by simp
    with True l1 i li show ?thesis by (simp add: list_in_def)
  next
    case False
    have sub: "set (cells (css ! j)) \<subseteq> set ?L \<union> set ?R"
    proof (cases "j < i")
      case True
      then have "css ! j \<in> set (take i css)" using li(2) i by (metis in_set_conv_nth length_take min_less_iff_conj nth_take j)
      then show ?thesis by auto
    next
      case f: False
      then have "css ! j = drop (Suc i) css ! (j - Suc i)" "j - Suc i < length (drop (Suc i) css)"
        using False j li(2) by auto
      then have "css ! j \<in> set (drop (Suc i) css)" by (metis nth_mem)
      then show ?thesis by auto
    qed
    have "b \<notin> set (cells (css ! j))"
      using m j li(2) by (auto simp: map_in_def map_cells_def)
    then have "chain (hp_blocks ?h) (css ! j) (nss ! j) = chain (hp_blocks h1) (css ! j) (nss ! j)" by simp
    also have "\<dots> = chain (hp_blocks h) (css ! j) (nss ! j)" by (rule chain_cong) (use same sub in blast)
    finally show ?thesis using m j False li by (simp add: map_in_def list_all2_conv_all_nth)
  qed
  then have ch: "list_all2 (chain (hp_blocks ?h)) ?css (nss[i := ns'])" using li by (simp add: list_all2_conv_all_nth)
  have m': "map_in ?h p b ?css \<lparr>n_buckets = n, buckets = Some (nss[i := ns'])\<rparr>"
    using ok pb ch d' li m by (simp add: map_in_def all')
  have "frame h (set (map_cells p b css)) ?h (set (map_cells p b ?css))"
    unfolding all all' using fr new sep by (auto simp: frame_def)
  moreover have "mem_on_bucket f b i h = Some (r, ?h)"
    using m f i li(2) pb by (simp add: mem_on_bucket_def table_at_def map_in_def heap_write_def map_update)
  ultimately show thesis using that m' a1 by simp
qed

lemma mem_bucket_index_eq: "mem_bucket_index n key = bucket_index (Some \<lparr>n_buckets = n, buckets = bs\<rparr>) key"
  by (simp add: mem_bucket_index_def bucket_index_def)

lemma mem_bucket_index_less: "n \<noteq> 0 \<Longrightarrow> mem_bucket_index n key < n"
  by (simp add: mem_bucket_index_def bucket_index_def)

lemma map_at_in:
  "map_in h p b css \<lparr>n_buckets = n, buckets = bs\<rparr> \<Longrightarrow> map_at h p = Some (n, b) \<and> p \<noteq> 0 \<and> b \<noteq> 0 \<and> n \<noteq> 0"
  by (simp add: map_in_def map_at_def)

subsection \<open>The calls on a map\<close>

text \<open>The bucket operations of the list, each with its model, lifted to a bucket of the map.\<close>

definition map_object :: "block heap \<Rightarrow> addr set \<Rightarrow> addr \<Rightarrow> HashMap \<Rightarrow> bool" where
  "map_object h A p hm \<longleftrightarrow> (\<exists>b css. A = set (map_cells p b css) \<and> map_in h p b css hm)"

locale bucket_operation =
  fixes conc :: "addr \<Rightarrow> block heap \<Rightarrow> ('r \<times> addr \<times> block heap) option"
    and model :: "LLNode list \<Rightarrow> alloc \<Rightarrow> 'r \<times> LLNode list \<times> alloc"
  assumes carried: "list_in h cs ns \<Longrightarrow> carries h cs (conc (first cs) h) (model ns (hp_alloc h))"
begin

lemma in_bucket:
  assumes m: "map_in h p b css \<lparr>n_buckets = n, buckets = Some nss\<rparr>" and i: "i < n"
    and res: "model (nss ! i) (hp_alloc h) = (r, ns', a')"
  obtains css' h' where "mem_on_bucket conc b i h = Some (r, h')"
    and "map_in h' p b css' \<lparr>n_buckets = n, buckets = Some (nss[i := ns'])\<rparr>" and "hp_alloc h' = a'"
    and "frame h (set (map_cells p b css)) h' (set (map_cells p b css'))"
proof -
  have run: "carries h (css ! i) (conc (first (css ! i)) h) (r, ns', a')"
    using carried [OF list_in_bucket(1) [OF m i]] res by simp
  show thesis by (rule on_bucket [where f = conc, OF m i run]) (rule that)
qed

lemma in_map:
  assumes m: "map_in h p b css \<lparr>n_buckets = n, buckets = Some nss\<rparr>" and i: "i < n"
    and res: "model (nss ! i) (hp_alloc h) = (r, ns', a')"
  shows "\<exists>A' h'. mem_on_bucket conc b i h = Some (r, h') \<and> map_object h' A' p \<lparr>n_buckets = n, buckets = Some (nss[i := ns'])\<rparr>
    \<and> hp_alloc h' = a' \<and> frame h (set (map_cells p b css)) h' A'"
  by (rule in_bucket [OF assms]) (auto simp: map_object_def)

end

interpretation put_inc_at: bucket_operation "mem_put_inc key d" "\<lambda>ns a. the_list (ll_put_inc a (Some ns) key d)" for key d
  by unfold_locales (rule put_inc_carries)

interpretation set_at: bucket_operation "mem_set key c" "\<lambda>ns a. the_list (ll_set a (Some ns) key c)" for key c
  by unfold_locales (rule set_carries)

interpretation get_at: bucket_operation "mem_get_at key has_out" "\<lambda>ns a. let (r, a') = ll_get a ns key has_out in (r, ns, a')"
  for key has_out
  by unfold_locales (unfold mem_get_at_def, rule get_carries)

interpretation free_at: bucket_operation mem_free_at "\<lambda>ns a. ((), [], a)"
  by unfold_locales (simp add: mem_free_at_def free_carries)

lemma map_object_cases:
  assumes "map_object h A p hm"
  obtains n b css nss where "hm = \<lparr>n_buckets = n, buckets = Some nss\<rparr>" and "A = set (map_cells p b css)"
    and "map_in h p b css \<lparr>n_buckets = n, buckets = Some nss\<rparr>"
proof -
  obtain n bs where hm: "hm = \<lparr>n_buckets = n, buckets = bs\<rparr>" by (cases hm)
  with assms show thesis by (auto simp: map_object_def map_in_def split: option.splits intro!: that)
qed

lemma put_inc_mem:
  assumes "map_object h A p hm" and "hm_put_inc (hp_alloc h) (Some hm) key d = (r, hm', a')"
  shows "\<exists>A' h' m'. mem_hm_put_inc p key d h = Some (r, h') \<and> hm' = Some m' \<and> map_object h' A' p m'
    \<and> hp_alloc h' = a' \<and> frame h A h' A'"
proof -
  from assms(1) obtain n b css nss where hm: "hm = \<lparr>n_buckets = n, buckets = Some nss\<rparr>"
    and A: "A = set (map_cells p b css)" and m: "map_in h p b css \<lparr>n_buckets = n, buckets = Some nss\<rparr>"
    by (rule map_object_cases)
  let ?key = "Some (non_null key)" and ?i = "mem_bucket_index n (Some (non_null key))"
  have i: "?i < n" using map_at_in [OF m] mem_bucket_index_less by blast
  obtain r1 l a1 where g: "ll_put_inc (hp_alloc h) (Some (nss ! ?i)) ?key d = (r1, l, a1)" by (metis prod_cases3)
  then obtain ns' where l: "l = Some ns'"
    by (auto simp: ll_put_inc_def ll_push_new_def split: prod.splits option.splits if_splits)
  have "the_list (ll_put_inc (hp_alloc h) (Some (nss ! ?i)) ?key d) = (r1, ns', a1)" using g l by simp
  from put_inc_at.in_map [OF m i this] show ?thesis
    using assms(2) map_at_in [OF m] g l
    by (auto simp: hm A mem_hm_put_inc_def hm_put_inc_def Let_def write_bucket_def
        simp flip: mem_bucket_index_eq [of n _ "Some nss"])
qed

lemma set_mem:
  assumes "map_object h A p hm" and "hm_set (hp_alloc h) (Some hm) key c = (r, hm', a')"
  shows "\<exists>A' h' m'. mem_hm_set p key c h = Some (r, h') \<and> hm' = Some m' \<and> map_object h' A' p m'
    \<and> hp_alloc h' = a' \<and> frame h A h' A'"
proof -
  from assms(1) obtain n b css nss where hm: "hm = \<lparr>n_buckets = n, buckets = Some nss\<rparr>"
    and A: "A = set (map_cells p b css)" and m: "map_in h p b css \<lparr>n_buckets = n, buckets = Some nss\<rparr>"
    by (rule map_object_cases)
  let ?key = "Some (non_null key)" and ?i = "mem_bucket_index n (Some (non_null key))"
  have i: "?i < n" using map_at_in [OF m] mem_bucket_index_less by blast
  obtain r1 l a1 where g: "ll_set (hp_alloc h) (Some (nss ! ?i)) ?key c = (r1, l, a1)" by (metis prod_cases3)
  then obtain ns' where l: "l = Some ns'"
    by (auto simp: ll_set_def ll_push_new_def split: prod.splits option.splits if_splits)
  have "the_list (ll_set (hp_alloc h) (Some (nss ! ?i)) ?key c) = (r1, ns', a1)" using g l by simp
  from set_at.in_map [OF m i this] show ?thesis
    using assms(2) map_at_in [OF m] g l
    by (auto simp: hm A mem_hm_set_def hm_set_def Let_def write_bucket_def
        simp flip: mem_bucket_index_eq [of n _ "Some nss"])
qed

lemma get_mem:
  assumes "map_object h A p hm" and "hm_get (hp_alloc h) (Some hm) key True = (r, a')"
  shows "\<exists>A' h'. mem_hm_get p key True h = Some (r, h') \<and> map_object h' A' p hm
    \<and> hp_alloc h' = a' \<and> frame h A h' A'"
proof -
  from assms(1) obtain n b css nss where hm: "hm = \<lparr>n_buckets = n, buckets = Some nss\<rparr>"
    and A: "A = set (map_cells p b css)" and m: "map_in h p b css \<lparr>n_buckets = n, buckets = Some nss\<rparr>"
    by (rule map_object_cases)
  let ?key = "Some (non_null key)" and ?i = "mem_bucket_index n (Some (non_null key))"
  have i: "?i < n" using map_at_in [OF m] mem_bucket_index_less by blast
  obtain r1 a1 where g: "ll_get (hp_alloc h) (nss ! ?i) ?key True = (r1, a1)" by fastforce
  then have "(let (r, a') = ll_get (hp_alloc h) (nss ! ?i) ?key True in (r, nss ! ?i, a')) = (r1, nss ! ?i, a1)" by simp
  from get_at.in_map [OF m i this] show ?thesis
    using assms(2) map_at_in [OF m] g
    by (auto simp: hm A mem_hm_get_def hm_get_def Let_def
        simp flip: mem_bucket_index_eq [of n _ "Some nss"])
qed

text \<open>\<open>hm_clear\<close> frees the lists bucket by bucket.\<close>

lemma clear_from_mem:
  "map_in h p b css \<lparr>n_buckets = n, buckets = Some nss\<rparr> \<Longrightarrow> i + k = n \<Longrightarrow>
    \<exists>css' h'. mem_clear_from k i b h = Some h' \<and> hp_alloc h' = hp_alloc h
      \<and> map_in h' p b css' \<lparr>n_buckets = n, buckets = Some (take i nss @ replicate k [])\<rparr>
      \<and> frame h (set (map_cells p b css)) h' (set (map_cells p b css'))"
proof (induction k arbitrary: i h css nss)
  case 0
  then have "take i nss = nss" using list_in_bucket(3) [OF 0(1)] by (auto simp: map_in_def)
  with 0 show ?case using frame_refl by fastforce
next
  case (Suc k)
  then have i: "i < n" by simp
  obtain css1 h1 where h1: "mem_on_bucket mem_free_at b i h = Some ((), h1)" "hp_alloc h1 = hp_alloc h"
    and m1: "map_in h1 p b css1 \<lparr>n_buckets = n, buckets = Some (nss[i := []])\<rparr>"
    and f1: "frame h (set (map_cells p b css)) h1 (set (map_cells p b css1))"
    by (rule free_at.in_bucket [OF Suc.prems(1) i refl])
  from Suc.IH [OF m1, of "Suc i"] Suc.prems(2) obtain css' h' where h': "mem_clear_from k (Suc i) b h1 = Some h'"
    "hp_alloc h' = hp_alloc h1" "frame h1 (set (map_cells p b css1)) h' (set (map_cells p b css'))"
    and m': "map_in h' p b css' \<lparr>n_buckets = n, buckets = Some (take (Suc i) (nss[i := []]) @ replicate k [])\<rparr>" by auto
  have "length nss = n" using list_in_bucket(3) [OF Suc.prems(1) i] .
  with i have "take (Suc i) (nss[i := []]) @ replicate k [] = take i nss @ replicate (Suc k) []"
    by (simp add: take_Suc_conv_app_nth)
  with m' h1 h' frame_trans [OF f1 h'(3)] Suc.prems(1) show ?case by (auto simp: map_in_def)
qed

lemma clear_mem:
  assumes "map_object h A p hm"
  shows "\<exists>A' h' m'. mem_hm_clear p h = Some h' \<and> hm_clear (Some hm) = Some m' \<and> map_object h' A' p m'
    \<and> hp_alloc h' = hp_alloc h \<and> frame h A h' A'"
proof -
  from assms obtain n b css nss where hm: "hm = \<lparr>n_buckets = n, buckets = Some nss\<rparr>"
    and A: "A = set (map_cells p b css)" and m: "map_in h p b css \<lparr>n_buckets = n, buckets = Some nss\<rparr>"
    by (rule map_object_cases)
  have "length nss = n" using m by (simp add: map_in_def)
  with clear_from_mem [OF m, of 0 n] map_at_in [OF m] show ?thesis
    by (fastforce simp: hm A mem_hm_clear_def hm_clear_def map_object_def)
qed

text \<open>Enumeration only reads.\<close>

context memory_callback
begin

lemma over_buckets:
  "hp_blocks h b = Some (Table_block (map first css)) \<Longrightarrow> list_all2 (chain (hp_blocks h)) css nss \<Longrightarrow>
    b \<in> S \<Longrightarrow> set (concat (map cells css)) \<subseteq> S \<Longrightarrow> \<forall>n \<in> set (concat nss). good (ll_key n) (ll_count n) \<Longrightarrow>
    holds h m ctx \<Longrightarrow> i + k = length css \<Longrightarrow>
    \<exists>m' h'. mem_foreach_from k i b fn m h = Some (m', h')
      \<and> holds h' m' (fold (\<lambda>ns. ll_foreach ns (Some model)) (drop i nss) ctx) \<and> (\<forall>x \<in> S. hp_blocks h' x = hp_blocks h x)"
proof (induction k arbitrary: i h m ctx)
  case 0
  then have "drop i nss = []" by (auto dest: list_all2_lengthD)
  with 0 show ?case by simp
next
  case (Suc k)
  have i: "i < length css" "i < length nss" using Suc.prems(2,7) by (auto dest: list_all2_lengthD)
  have ch: "chain (hp_blocks h) (css ! i) (nss ! i)" using Suc.prems(2) i by (simp add: list_all2_conv_all_nth)
  have "css ! i \<in> set css" "nss ! i \<in> set nss" using i by simp_all
  then have S: "set (cells (css ! i)) \<subseteq> S" and g: "\<forall>n \<in> set (nss ! i). good (ll_key n) (ll_count n)"
    using Suc.prems(4,5) by auto
  from over_list [OF ch S g Suc.prems(6)] obtain m1 h1 where
    one: "mem_foreach fn (first (css ! i)) m h = Some (m1, h1)" "holds h1 m1 (ll_foreach (nss ! i) (Some model) ctx)"
      "\<forall>x \<in> S. hp_blocks h1 x = hp_blocks h x" by blast
  have "chain (hp_blocks h1) cs ns = chain (hp_blocks h) cs ns" if "cs \<in> set css" for cs ns
    by (rule chain_cong) (use that one(3) Suc.prems(4) in auto)
  then have "list_all2 (chain (hp_blocks h1)) css nss" using Suc.prems(2) by (simp add: list_all2_conv_all_nth)
  from Suc.IH [OF _ this Suc.prems(3-5) one(2), of "Suc i"] Suc.prems(1,3,7) one(3) obtain m2 h2 where
    rest: "mem_foreach_from k (Suc i) b fn m1 h1 = Some (m2, h2)"
      "holds h2 m2 (fold (\<lambda>ns. ll_foreach ns (Some model)) (drop (Suc i) nss) (ll_foreach (nss ! i) (Some model) ctx))"
      "\<forall>x \<in> S. hp_blocks h2 x = hp_blocks h1 x" by auto
  have "mem_foreach_from (Suc k) i b fn m h = Some (m2, h2)"
    using Suc.prems(1) one(1) rest(1) i by (simp add: table_at_def)
  moreover have "drop i nss = nss ! i # drop (Suc i) nss" using i by (simp add: Cons_nth_drop_Suc)
  ultimately show ?case using rest one(3) by (intro exI [of _ m2] exI [of _ h2]) simp
qed

lemma over_map:
  assumes "map_object h A p hm" and "A \<subseteq> S" and "\<forall>e \<in> set (hm_entries hm). good (fst e) (snd e)" and "holds h m ctx"
  shows "\<exists>m' h'. mem_hm_foreach p (Some fn) m h = Some (m', h') \<and> holds h' m' (hm_foreach (Some hm) (Some model) ctx)
    \<and> (\<forall>x \<in> S. hp_blocks h' x = hp_blocks h x)"
proof -
  from assms(1) obtain n b css nss where hm: "hm = \<lparr>n_buckets = n, buckets = Some nss\<rparr>" and A: "A = set (map_cells p b css)"
    and m: "map_in h p b css \<lparr>n_buckets = n, buckets = Some nss\<rparr>" by (rule map_object_cases)
  have t: "hp_blocks h b = Some (Table_block (map first css))" "list_all2 (chain (hp_blocks h)) css nss" "length nss = n"
    "length css = n" using m by (auto simp: map_in_def dest: list_all2_lengthD)
  have S: "b \<in> S" "set (concat (map cells css)) \<subseteq> S" using assms(2) A by (auto simp: map_cells_def)
  have "\<forall>n \<in> set (concat nss). good (ll_key n) (ll_count n)" using assms(3) by (fastforce simp: hm hm_entries_def ll_entries_def)
  from over_buckets [OF t(1,2) S this assms(4), of 0 n] t(3,4) map_at_in [OF m] show ?thesis
    by (simp add: hm mem_hm_foreach_def hm_foreach_def)
qed

end

lemma foreach_mem:
  assumes "map_object h A p hm"
  shows "mem_hm_foreach p (Some (pure_callback f)) ctx h = Some (hm_foreach (Some hm) (Some f) ctx, h)"
proof -
  have "\<exists>m' h'. mem_hm_foreach p (Some (pure_callback f)) ctx h = Some (m', h')
    \<and> (h' = h \<and> m' = hm_foreach (Some hm) (Some f) ctx) \<and> (\<forall>x \<in> UNIV. hp_blocks h' x = hp_blocks h x)"
    by (rule pure.over_map [OF assms]) simp_all
  then show ?thesis by blast
qed

lemma count_heads_mem:
  "list_all2 (chain (hp_blocks h)) css nss \<Longrightarrow>
    mem_count_heads h (map first css) n = Some (fold (\<lambda>b t. t + ll_length b) nss n)"
  by (induction css nss arbitrary: n rule: list_all2_induct) (auto simp: mem_length_list)

lemma entry_count_mem:
  assumes "map_object h A p hm"
  shows "mem_hm_entry_count p h = Some (hm_entry_count (Some hm))"
proof -
  from assms obtain n b css nss where hm: "hm = \<lparr>n_buckets = n, buckets = Some nss\<rparr>"
    and m: "map_in h p b css \<lparr>n_buckets = n, buckets = Some nss\<rparr>" by (rule map_object_cases)
  have "length nss = n" "length css = n" "list_all2 (chain (hp_blocks h)) css nss"
    using m by (auto simp: map_in_def dest: list_all2_lengthD)
  moreover have "table_at h b = Some (map first css)" using m by (simp add: map_in_def table_at_def)
  ultimately show ?thesis using count_heads_mem map_at_in [OF m]
    by (simp add: hm mem_hm_entry_count_def hm_entry_count_def)
qed

text \<open>\<open>hm_free\<close> releases the lists, the array and the map.\<close>

lemma free_heads_mem:
  "list_all2 (chain (hp_blocks h)) css nss \<Longrightarrow> distinct (concat (map cells css)) \<Longrightarrow>
    mem_free_heads (map first css) h = Some (h\<lparr>hp_blocks := hp_blocks h |` (- set (concat (map cells css)))\<rparr>)"
proof (induction css arbitrary: h nss)
  case Nil
  then show ?case by simp
next
  case (Cons cs css)
  from Cons.prems(1) obtain ns nss' where ns: "chain (hp_blocks h) cs ns" "list_all2 (chain (hp_blocks h)) css nss'"
    by (auto simp: list_all2_Cons1)
  let ?h = "h\<lparr>hp_blocks := hp_blocks h |` (- set (cells cs))\<rparr>"
  have "chain (hp_blocks ?h) cs' ns' = chain (hp_blocks h) cs' ns'" if "cs' \<in> set css" for cs' ns'
    by (rule chain_cong) (use Cons.prems(2) that in \<open>auto simp: restrict_map_def\<close>)
  then have "list_all2 (chain (hp_blocks ?h)) css nss'" using ns(2) by (auto simp: list_all2_conv_all_nth)
  moreover have "distinct (concat (map cells css))" using Cons.prems(2) by simp
  moreover have "mem_free (first cs) h = Some ?h" using mem_free_list [OF ns(1)] Cons.prems(2) by simp
  moreover have "hp_blocks ?h |` (- set (concat (map cells css))) = hp_blocks h |` (- set (concat (map cells (cs # css))))"
    by (auto simp: restrict_map_def)
  ultimately show ?case using Cons.IH [of ?h nss'] by simp
qed

lemma free_mem:
  assumes "map_object h A p hm"
  shows "\<exists>h'. mem_hm_free p h = Some h' \<and> hp_alloc h' = hp_alloc h \<and> heap_ok h' \<and> frame h A h' {}"
proof -
  from assms obtain n b css nss where hm: "hm = \<lparr>n_buckets = n, buckets = Some nss\<rparr>"
    and A: "A = set (map_cells p b css)" and m: "map_in h p b css \<lparr>n_buckets = n, buckets = Some nss\<rparr>"
    by (rule map_object_cases)
  have c: "length css = n" "list_all2 (chain (hp_blocks h)) css nss" "distinct (map_cells p b css)" "heap_ok h"
    using m by (auto simp: map_in_def dest: list_all2_lengthD)
  have t: "table_at h b = Some (map first css)" using m by (simp add: map_in_def table_at_def)
  let ?C = "set (concat (map cells css))"
  obtain m0 where m0: "m0 = hp_blocks h |` (- ?C)" by blast
  let ?h = "h\<lparr>hp_blocks := m0(b := None, p := None)\<rparr>"
  have free: "mem_free_heads (map first css) h = Some (h\<lparr>hp_blocks := m0\<rparr>)"
    using free_heads_mem [OF c(2)] c(3) by (simp add: map_cells_def m0)
  have live: "m0 b \<noteq> None" "m0 p \<noteq> None" "p \<noteq> b"
    using m by (auto simp: map_in_def map_cells_def restrict_map_def m0)
  have "mem_hm_free p h = Some ?h"
    using free live map_at_in [OF m] c(1) t by (simp add: mem_hm_free_def heap_free_def)
  moreover have "heap_ok ?h" by (rule heap_ok_update [OF c(4)]) (auto simp: m0 restrict_map_def split: if_splits)
  moreover have "frame h A ?h {}" by (auto simp: frame_def A map_cells_def restrict_map_def m0)
  ultimately show ?thesis by auto
qed

lemma create_mem:
  assumes "heap_ok h" and "hm_create (hp_alloc h) n = (res, a')"
  shows "\<exists>p h'. mem_hm_create n h = Some (p, h') \<and> hp_alloc h' = a' \<and> heap_ok h'
    \<and> (case res of None \<Rightarrow> p = 0 \<and> hp_blocks h' = hp_blocks h
       | Some hm \<Rightarrow> p \<noteq> 0 \<and> (\<exists>A. map_object h' A p hm \<and> frame h {} h' A))"
proof -
  let ?n = "if n = 0 then DEFAULT_N_BUCKETS else n"
  have n: "?n \<noteq> 0" by (simp add: DEFAULT_N_BUCKETS_def)
  obtain p h1 where m1: "heap_malloc (Map_block 0 0) h = (p, h1)" by fastforce
  obtain b h2 where m2: "heap_malloc (Table_block (replicate ?n 0)) h1 = (b, h2)" by fastforce
  from m1 assms(1) show ?thesis
  proof (cases rule: heap_malloc_cases)
    case (fail a)
    with m1 assms(2) show ?thesis by (auto simp: mem_hm_create_def hm_create_def Let_def)
  next
    case new1: (new a)
    from m2 new1(6) show ?thesis
    proof (cases rule: heap_malloc_cases)
      case (fail a1)
      with new1 have "heap_free p h2 = Some (h2\<lparr>hp_blocks := hp_blocks h\<rparr>)"
        by (simp add: heap_free_def fun_upd_idem)
      moreover have "heap_ok (h2\<lparr>hp_blocks := hp_blocks h\<rparr>)" using assms(1) fail new1 by (auto simp: heap_ok_def)
      ultimately show ?thesis
        using m1 m2 fail new1(1-3,5) assms(2) by (auto simp: mem_hm_create_def hm_create_def Let_def)
    next
      case new2: (new a1)
      have b: "b = Suc (hp_top h)" "hp_top h2 = Suc (Suc (hp_top h))" using new2(2,5) new1(5) by simp_all
      let ?h = "h2\<lparr>hp_blocks := (hp_blocks h2)(p \<mapsto> Map_block ?n b)\<rparr>"
      have bl: "hp_blocks h2 = (hp_blocks h)(p \<mapsto> Map_block 0 0, b \<mapsto> Table_block (replicate ?n 0))"
        using new1(2,5) new2(2,5) by simp
      have ok: "heap_ok ?h" by (rule heap_ok_update [OF new2(6)]) (auto simp: bl)
      have "map_in ?h p b (replicate ?n []) \<lparr>n_buckets = ?n, buckets = Some (replicate ?n [])\<rparr>"
        using ok n new1(2,3) b
        by (simp add: map_in_def map_cells_def bl list_all2_conv_all_nth del: replicate.simps)
      then have "map_object ?h {p, b} p \<lparr>n_buckets = ?n, buckets = Some (replicate ?n [])\<rparr>"
        unfolding map_object_def by (intro exI [of _ b] exI [of _ "replicate ?n []"]) (simp add: map_cells_def)
      moreover have "frame h {} ?h {p, b}" using new1(2) b by (auto simp: frame_def bl)
      moreover have "mem_hm_create n h = Some (p, ?h)"
        using m1 m2 new1(2,3) b by (simp add: mem_hm_create_def Let_def heap_write_def bl)
      moreover have "hp_alloc ?h = a1" using new2(5) by simp
      ultimately show ?thesis
        using assms(2) new1(1-3,5) new2(1) ok by (auto simp: hm_create_def Let_def)
    qed
  qed
qed

text \<open>An operation leaves alone what lies outside its object.\<close>

lemma frame_disjoint:
  assumes "frame h A h' A'" and "heap_ok h" and "S \<subseteq> dom (hp_blocks h)" and "S \<inter> A = {}"
  shows "S \<inter> A' = {}" and "\<And>x. x \<in> S \<Longrightarrow> hp_blocks h' x = hp_blocks h x" and "S \<subseteq> dom (hp_blocks h')"
proof -
  have lt: "x < hp_top h" if "x \<in> S" for x using that assms(3) heap_okD [OF assms(2), of x] by (fastforce simp: domIff)
  then have "x \<notin> A'" if "x \<in> S" for x using that assms(1,4) unfolding frame_def by (metis DiffI disjoint_iff leD)
  then show "S \<inter> A' = {}" by blast
  then show same: "hp_blocks h' x = hp_blocks h x" if "x \<in> S" for x
    using that assms(1,4) unfolding frame_def by (metis disjoint_iff)
  show "S \<subseteq> dom (hp_blocks h')" using same assms(3) by (auto simp: domIff)
qed

lemma map_object_ok: "map_object h A p hm \<Longrightarrow> heap_ok h"
  by (auto simp: map_object_def map_in_def)

lemma merge_list_mem:
  "map_object h A dst hm \<Longrightarrow> chain (hp_blocks h) cs ns \<Longrightarrow> set (cells cs) \<subseteq> S \<Longrightarrow> S \<subseteq> dom (hp_blocks h) \<Longrightarrow> S \<inter> A = {} \<Longrightarrow>
    hm_merge_bucket (hp_alloc h) (Some hm) ns = (r, hm', a') \<Longrightarrow>
    \<exists>A' h' m'. mem_merge_list dst (first cs) h = Some (r, h') \<and> hm' = Some m' \<and> map_object h' A' dst m'
      \<and> hp_alloc h' = a' \<and> frame h A h' A'"
proof (induction ns arbitrary: h A hm cs)
  case Nil
  then show ?case by (auto simp: mem_merge_list.simps intro: frame_refl)
next
  case (Cons n ns)
  then obtain a k cs' where cs: "cs = (a, k) # cs'" by (cases cs) auto
  obtain r1 d1 a1 where put: "hm_put_inc (hp_alloc h) (Some hm) (Some (ll_key n)) (ll_count n) = (r1, d1, a1)"
    by (metis prod_cases3)
  from put_inc_mem [OF Cons.prems(1) put] obtain A1 h1 m1 where
    run: "mem_hm_put_inc dst (Some (ll_key n)) (ll_count n) h = Some (r1, h1)" and d1: "d1 = Some m1"
    and o1: "map_object h1 A1 dst m1" and a1: "hp_alloc h1 = a1" and f1: "frame h A h1 A1" by blast
  note keep = frame_disjoint [OF f1 map_object_ok [OF Cons.prems(1)] Cons.prems(4,5)]
  have n: "a \<noteq> 0" "hp_blocks h a = Some (Node_block k (ll_count n) (first cs'))"
    "hp_blocks h k = Some (Text_block (ll_key n))" "chain (hp_blocks h) cs' ns" using Cons.prems(2) by (simp_all add: cs)
  have sub: "a \<in> S" "set (cells cs') \<subseteq> S" using Cons.prems(3) by (simp_all add: cs)
  have n1: "hp_blocks h1 a = Some (Node_block k (ll_count n) (first cs'))" using n(2) keep(2) [OF sub(1)] by simp
  have ch1: "chain (hp_blocks h1) cs' ns" using n(4) chain_cong [of cs' "hp_blocks h1" "hp_blocks h" ns] keep(2) sub(2) by auto
  show ?case
  proof (cases "r1 = 0")
    case True
    with Cons.prems(6) put d1 a1 have "hm_merge_bucket (hp_alloc h1) (Some m1) ns = (r, hm', a')" by simp
    from Cons.IH [OF o1 ch1 sub(2) keep(3) keep(1) this] obtain A' h' m' where
      "mem_merge_list dst (first cs') h1 = Some (r, h')" "hm' = Some m'" "map_object h' A' dst m'" "hp_alloc h' = a'"
      "frame h1 A1 h' A'" by blast
    moreover have "mem_merge_list dst (first cs) h = mem_merge_list dst (first cs') h1"
      using n n1 run True by (subst mem_merge_list.simps) (simp add: cs)
    ultimately show ?thesis using frame_trans [OF f1 _ map_object_ok [OF Cons.prems(1)]] by metis
  next
    case False
    then have "mem_merge_list dst (first cs) h = Some (-1, h1)"
      using n run by (subst mem_merge_list.simps) (simp add: cs)
    with False Cons.prems(6) put d1 a1 o1 f1 show ?thesis by auto
  qed
qed

lemma merge_from_mem:
  "map_object h A dst hm \<Longrightarrow> list_all2 (chain (hp_blocks h)) css nss \<Longrightarrow> hp_blocks h b = Some (Table_block (map first css)) \<Longrightarrow>
    b \<in> S \<Longrightarrow> set (concat (map cells css)) \<subseteq> S \<Longrightarrow> S \<subseteq> dom (hp_blocks h) \<Longrightarrow> S \<inter> A = {} \<Longrightarrow> i + k = length nss \<Longrightarrow>
    hm_merge_buckets (hp_alloc h) (Some hm) (drop i nss) = (r, hm', a') \<Longrightarrow>
    \<exists>A' h' m'. mem_merge_from k i dst b h = Some (r, h') \<and> hm' = Some m' \<and> map_object h' A' dst m'
      \<and> hp_alloc h' = a' \<and> frame h A h' A'"
proof (induction k arbitrary: i h A hm)
  case 0
  then show ?case by (auto intro: frame_refl)
next
  case (Suc k)
  then have i: "i < length nss" and len: "length css = length nss" by (auto dest: list_all2_lengthD)
  then have dr: "drop i nss = nss ! i # drop (Suc i) nss" by (simp add: Cons_nth_drop_Suc)
  have ch: "chain (hp_blocks h) (css ! i) (nss ! i)" using Suc.prems(2) i len by (simp add: list_all2_conv_all_nth)
  have "css ! i \<in> set css" using i len by simp
  then have sub: "set (cells (css ! i)) \<subseteq> S" using Suc.prems(5) by auto
  obtain r1 d1 a1 where one: "hm_merge_bucket (hp_alloc h) (Some hm) (nss ! i) = (r1, d1, a1)" by (metis prod_cases3)
  from merge_list_mem [OF Suc.prems(1) ch sub Suc.prems(6,7) one] obtain A1 h1 m1 where
    run: "mem_merge_list dst (first (css ! i)) h = Some (r1, h1)" and d1: "d1 = Some m1"
    and o1: "map_object h1 A1 dst m1" and a1: "hp_alloc h1 = a1" and f1: "frame h A h1 A1" by blast
  note keep = frame_disjoint [OF f1 map_object_ok [OF Suc.prems(1)] Suc.prems(6,7)]
  have "chain (hp_blocks h1) cs ns = chain (hp_blocks h) cs ns" if "cs \<in> set css" for cs ns
    by (rule chain_cong) (use that keep(2) Suc.prems(5) in \<open>auto simp: subset_iff\<close>)
  then have ch1: "list_all2 (chain (hp_blocks h1)) css nss" using Suc.prems(2) by (auto simp: list_all2_conv_all_nth)
  have b1: "hp_blocks h1 b = Some (Table_block (map first css))" using keep(2) [OF Suc.prems(4)] Suc.prems(3) by simp
  have step: "mem_merge_from (Suc k) i dst b h =
      (if r1 \<noteq> 0 then Some (-1, h1) else mem_merge_from k (Suc i) dst b h1)"
    using Suc.prems(3) i len run by (simp add: table_at_def)
  show ?case
  proof (cases "r1 = 0")
    case True
    with Suc.prems(9) one d1 a1 dr have "hm_merge_buckets (hp_alloc h1) (Some m1) (drop (Suc i) nss) = (r, hm', a')" by simp
    from Suc.IH [OF o1 ch1 b1 Suc.prems(4,5) keep(3,1) _ this] Suc.prems(8) obtain A' h' m' where
      "mem_merge_from k (Suc i) dst b h1 = Some (r, h')" "hm' = Some m'" "map_object h' A' dst m'" "hp_alloc h' = a'"
      "frame h1 A1 h' A'" by auto
    with True step show ?thesis using frame_trans [OF f1 _ map_object_ok [OF Suc.prems(1)]] by auto
  next
    case False
    with Suc.prems(9) one d1 a1 o1 f1 dr step show ?thesis by auto
  qed
qed

text \<open>Merging two maps that lie apart: the source stays as it is.\<close>

lemma merge_mem:
  assumes d: "map_object h A dst hm" and s: "map_object h B src sm" and "A \<inter> B = {}"
    and run: "hm_merge (hp_alloc h) (Some hm) (Some sm) = (r, hm', a')"
  shows "\<exists>A' h' m'. mem_hm_merge dst src h = Some (r, h') \<and> hm' = Some m' \<and> map_object h' A' dst m'
    \<and> map_object h' B src sm \<and> A' \<inter> B = {} \<and> hp_alloc h' = a' \<and> frame h A h' A'"
proof -
  from s obtain n b css nss where sm: "sm = \<lparr>n_buckets = n, buckets = Some nss\<rparr>"
    and B: "B = set (map_cells src b css)" and m: "map_in h src b css \<lparr>n_buckets = n, buckets = Some nss\<rparr>"
    by (rule map_object_cases)
  from d obtain n' b' nss' where d': "map_at h dst = Some (n', b')" "dst \<noteq> 0" "b' \<noteq> 0" "hm = \<lparr>n_buckets = n', buckets = Some nss'\<rparr>"
    by (metis map_object_cases map_at_in)
  have m': "list_all2 (chain (hp_blocks h)) css nss" "hp_blocks h b = Some (Table_block (map first css))" "length nss = n"
    using m by (simp_all add: map_in_def)
  have live: "B \<subseteq> dom (hp_blocks h)" using map_live [OF m] by (auto simp: B)
  have parts: "b \<in> B" "set (concat (map cells css)) \<subseteq> B" by (auto simp: B map_cells_def)
  have "hm_merge_buckets (hp_alloc h) (Some hm) (drop 0 nss) = (r, hm', a')"
    using run m'(3) by (simp add: hm_merge_def sm d'(4))
  moreover have dis: "B \<inter> A = {}" and "0 + n = length nss" using assms(3) m'(3) by auto
  ultimately obtain A' h' mm where
    h': "mem_merge_from n 0 dst b h = Some (r, h')" "hm' = Some mm" "map_object h' A' dst mm" "hp_alloc h' = a'" "frame h A h' A'"
    using merge_from_mem [OF d m'(1,2) parts live] by blast
  note keep = frame_disjoint [OF h'(5) map_object_ok [OF d] live dis]
  have "chain (hp_blocks h') cs ns = chain (hp_blocks h) cs ns" if "cs \<in> set css" for cs ns
    by (rule chain_cong) (use that keep(2) parts(2) in \<open>auto simp: subset_iff\<close>)
  then have "list_all2 (chain (hp_blocks h')) css nss" using m'(1) by (auto simp: list_all2_conv_all_nth)
  moreover have "hp_blocks h' src = hp_blocks h src" "hp_blocks h' b = hp_blocks h b"
    by (rule keep(2), simp add: B map_cells_def)+
  ultimately have "map_in h' src b css sm"
    using m map_object_ok [OF h'(3)] by (simp add: sm map_in_def)
  then have "map_object h' B src sm" using B by (auto simp: map_object_def)
  moreover have "mem_hm_merge dst src h = Some (r, h')"
    using d' map_at_in [OF m] h'(1) by (simp add: mem_hm_merge_def)
  ultimately show ?thesis using h' keep(1) by blast
qed

subsection \<open>A map from its creation to its release\<close>

datatype map_call = Map_put_inc "string option" i32 | Map_set "string option" i32 | Map_get "string option" | Map_count | Map_list | Map_clear

definition collect :: "string \<Rightarrow> i32 \<Rightarrow> (string \<times> i32) list \<Rightarrow> (string \<times> i32) list" where
  "collect k c acc = acc @ [(k, c)]"

definition mem_map_call :: "map_call \<Rightarrow> addr \<Rightarrow> block heap \<Rightarrow> (call_result \<times> addr \<times> block heap) option" where
  "mem_map_call c p h =
     (case c of
        Map_put_inc key d \<Rightarrow> do { (r, h') \<leftarrow> mem_hm_put_inc p key d h; Some (Returned r, p, h') }
      | Map_set key n \<Rightarrow> do { (r, h') \<leftarrow> mem_hm_set p key n h; Some (Returned r, p, h') }
      | Map_get key \<Rightarrow> do { (r, h') \<leftarrow> mem_hm_get p key True h; Some (Found r, p, h') }
      | Map_count \<Rightarrow> do { n \<leftarrow> mem_hm_entry_count p h; Some (Counted n, p, h) }
      | Map_list \<Rightarrow> do { (es, h') \<leftarrow> mem_hm_foreach p (Some (pure_callback collect)) [] h; Some (Listed es, p, h') }
      | Map_clear \<Rightarrow> do { h' \<leftarrow> mem_hm_clear p h; Some (Nothing_returned, p, h') })"

definition model_map_call :: "map_call \<Rightarrow> HashMap \<Rightarrow> alloc \<Rightarrow> call_result \<times> HashMap \<times> alloc" where
  "model_map_call c hm a =
     (case c of
        Map_put_inc key d \<Rightarrow> (let (r, m, a') = hm_put_inc a (Some hm) key d in (Returned r, the m, a'))
      | Map_set key n \<Rightarrow> (let (r, m, a') = hm_set a (Some hm) key n in (Returned r, the m, a'))
      | Map_get key \<Rightarrow> (let (r, a') = hm_get a (Some hm) key True in (Found r, hm, a'))
      | Map_count \<Rightarrow> (Counted (hm_entry_count (Some hm)), hm, a)
      | Map_list \<Rightarrow> (Listed (hm_foreach (Some hm) (Some collect) []), hm, a)
      | Map_clear \<Rightarrow> (Nothing_returned, the (hm_clear (Some hm)), a))"

interpretation map_memory: memory_object map_object mem_map_call model_map_call
proof (unfold_locales, goal_cases)
  case (1 h A p s)
  then show ?case by (rule map_object_ok)
next
  case (2 h A p s c r s' a')
  show ?case
  proof (cases c)
    case (Map_put_inc key d)
    obtain r1 m a1 where "hm_put_inc (hp_alloc h) (Some s) key d = (r1, m, a1)" by (metis prod_cases3)
    with put_inc_mem [OF 2(1) this] 2(2) show ?thesis
      by (auto simp: Map_put_inc mem_map_call_def model_map_call_def)
  next
    case (Map_set key n)
    obtain r1 m a1 where "hm_set (hp_alloc h) (Some s) key n = (r1, m, a1)" by (metis prod_cases3)
    with set_mem [OF 2(1) this] 2(2) show ?thesis
      by (auto simp: Map_set mem_map_call_def model_map_call_def)
  next
    case (Map_get key)
    obtain r1 a1 where "hm_get (hp_alloc h) (Some s) key True = (r1, a1)" by fastforce
    with get_mem [OF 2(1) this] 2(2) show ?thesis
      by (auto simp: Map_get mem_map_call_def model_map_call_def)
  next
    case Map_count
    with entry_count_mem [OF 2(1)] 2 show ?thesis
      by (auto simp: mem_map_call_def model_map_call_def intro: frame_refl)
  next
    case Map_list
    with foreach_mem [OF 2(1), of collect "[]"] 2 show ?thesis
      by (auto simp: mem_map_call_def model_map_call_def intro: frame_refl)
  next
    case Map_clear
    with clear_mem [OF 2(1)] 2(2) show ?thesis by (auto simp: mem_map_call_def model_map_call_def)
  qed
qed

text \<open>A whole life of a map: created, used, released.\<close>

definition mem_map_session :: "nat \<Rightarrow> map_call list \<Rightarrow> block heap \<Rightarrow> (call_result list option \<times> block heap) option" where
  "mem_map_session n calls h =
     do {
       (p, h1) \<leftarrow> mem_hm_create n h;
       if p = 0 then Some (None, h1)
       else do {
         (rs, p', h2) \<leftarrow> mem_calls mem_map_call calls p h1;
         h3 \<leftarrow> mem_hm_free p' h2;
         Some (Some rs, h3)
       }
     }"

definition model_map_session :: "nat \<Rightarrow> map_call list \<Rightarrow> alloc \<Rightarrow> call_result list option \<times> alloc" where
  "model_map_session n calls a =
     (let (hm, a1) = hm_create a n in
      case hm of None \<Rightarrow> (None, a1)
      | Some m \<Rightarrow> (let (rs, m', a2) = model_calls model_map_call calls m a1 in (Some rs, a2)))"

text \<open>Two maps at once: both are filled, the second is merged into the first, and both are released.\<close>

definition mem_merge_session ::
  "nat \<Rightarrow> map_call list \<Rightarrow> nat \<Rightarrow> map_call list \<Rightarrow> block heap
    \<Rightarrow> ((call_result list \<times> call_result list \<times> int \<times> (string \<times> i32) list) option \<times> block heap) option"
where
  "mem_merge_session n calls n' calls' h =
     do {
       (p, h1) \<leftarrow> mem_hm_create n h;
       (q, h2) \<leftarrow> mem_hm_create n' h1;
       if p = 0 \<or> q = 0 then do {
         h3 \<leftarrow> mem_hm_free p h2;
         h4 \<leftarrow> mem_hm_free q h3;
         Some (None, h4)
       } else do {
         (rs, p, h3) \<leftarrow> mem_calls mem_map_call calls p h2;
         (rs', q, h4) \<leftarrow> mem_calls mem_map_call calls' q h3;
         (r, h5) \<leftarrow> mem_hm_merge p q h4;
         (es, h5) \<leftarrow> mem_hm_foreach p (Some (pure_callback collect)) [] h5;
         h6 \<leftarrow> mem_hm_free q h5;
         h7 \<leftarrow> mem_hm_free p h6;
         Some (Some (rs, rs', r, es), h7)
       }
     }"

definition model_merge_session ::
  "nat \<Rightarrow> map_call list \<Rightarrow> nat \<Rightarrow> map_call list \<Rightarrow> alloc
    \<Rightarrow> (call_result list \<times> call_result list \<times> int \<times> (string \<times> i32) list) option \<times> alloc"
where
  "model_merge_session n calls n' calls' a =
     (let (d, a1) = hm_create a n; (s, a2) = hm_create a1 n' in
      case (d, s) of
        (Some d, Some s) \<Rightarrow>
          (let (rs, d1, a3) = model_calls model_map_call calls d a2;
               (rs', s1, a4) = model_calls model_map_call calls' s a3;
               (r, d2, a5) = hm_merge a4 (Some d1) (Some s1)
           in (Some (rs, rs', r, hm_foreach d2 (Some collect) []), a5))
      | _ \<Rightarrow> (None, a2))"

lemma frame_Un: "frame h A h' A' \<Longrightarrow> frame h (A \<union> S) h' (A' \<union> S)"
  unfolding frame_def by blast

lemma map_object_kept:
  assumes "map_object h B q s" and "heap_ok h'" and "\<And>x. x \<in> B \<Longrightarrow> hp_blocks h' x = hp_blocks h x"
  shows "map_object h' B q s"
proof -
  from assms(1) obtain n b css nss where s: "s = \<lparr>n_buckets = n, buckets = Some nss\<rparr>"
    and B: "B = set (map_cells q b css)" and m: "map_in h q b css \<lparr>n_buckets = n, buckets = Some nss\<rparr>"
    by (rule map_object_cases)
  have "chain (hp_blocks h') cs ns = chain (hp_blocks h) cs ns" if "cs \<in> set css" for cs ns
    by (rule chain_cong) (use that assms(3) in \<open>auto simp: B map_cells_def\<close>)
  then have "list_all2 (chain (hp_blocks h')) css nss" using m by (auto simp: map_in_def list_all2_conv_all_nth)
  moreover have "hp_blocks h' q = hp_blocks h q" "hp_blocks h' b = hp_blocks h b"
    by (rule assms(3), simp add: B map_cells_def)+
  ultimately have "map_in h' q b css s" using m assms(2) by (simp add: s map_in_def)
  then show ?thesis using B by (auto simp: map_object_def)
qed

lemma map_object_live: "map_object h B q s \<Longrightarrow> B \<subseteq> dom (hp_blocks h)"
  unfolding map_object_def using map_live by blast

text \<open>An operation on one object, seen with another object beside it.\<close>

lemma beside:
  assumes "frame h A h' A'" and "map_object h B q s" and "A \<inter> B = {}" and "heap_ok h'"
  shows "map_object h' B q s \<and> A' \<inter> B = {} \<and> frame h (A \<union> B) h' (A' \<union> B)"
proof -
  have "B \<inter> A = {}" using assms(3) by blast
  note k = frame_disjoint [OF assms(1) map_object_ok [OF assms(2)] map_object_live [OF assms(2)] this]
  show ?thesis using map_object_kept [OF assms(2,4) k(2)] k(1) frame_Un [OF assms(1)] by blast
qed

lemma merge_session_run:
  assumes ok: "heap_ok h" and frame: "frame h0 {} h (A \<union> B)" "heap_ok h0"
    and d: "map_object h A p d" and s: "map_object h B q s" and dis: "A \<inter> B = {}"
    and calls: "model_calls model_map_call calls d (hp_alloc h) = (rs, d1, a3)"
      "model_calls model_map_call calls' s a3 = (rs', s1, a4)" "hm_merge a4 (Some d1) (Some s1) = (r, d2, a5)"
  shows "\<exists>p3 h3 q4 h4 h5 h6 h7. mem_calls mem_map_call calls p h = Some (rs, p3, h3)
    \<and> mem_calls mem_map_call calls' q h3 = Some (rs', q4, h4) \<and> mem_hm_merge p3 q4 h4 = Some (r, h5)
    \<and> mem_hm_foreach p3 (Some (pure_callback collect)) [] h5 = Some (hm_foreach d2 (Some collect) [], h5)
    \<and> mem_hm_free q4 h5 = Some h6 \<and> mem_hm_free p3 h6 = Some h7 \<and> hp_blocks h7 = hp_blocks h0 \<and> hp_alloc h7 = a5"
proof -
  from map_memory.calls [OF d calls(1)] obtain A3 p3 h3 where
    h3: "mem_calls mem_map_call calls p h = Some (rs, p3, h3)" "map_object h3 A3 p3 d1" "hp_alloc h3 = a3" "frame h A h3 A3" by blast
  from beside [OF h3(4) s dis map_object_ok [OF h3(2)]] have
    s3: "map_object h3 B q s" "B \<inter> A3 = {}" and f3: "frame h (A \<union> B) h3 (A3 \<union> B)" by auto
  from map_memory.calls [OF s3(1)] calls(2) h3(3) obtain B4 q4 h4 where
    h4: "mem_calls mem_map_call calls' q h3 = Some (rs', q4, h4)" "map_object h4 B4 q4 s1" "hp_alloc h4 = a4" "frame h3 B h4 B4" by blast
  from beside [OF h4(4) h3(2) s3(2) map_object_ok [OF h4(2)]] have
    d4: "map_object h4 A3 p3 d1" "A3 \<inter> B4 = {}" and f4: "frame h3 (A3 \<union> B) h4 (A3 \<union> B4)" by (auto simp: Un_commute)
  from merge_mem [OF d4(1) h4(2) d4(2)] calls(3) h4(3) obtain A5 h5 m where
    h5: "mem_hm_merge p3 q4 h4 = Some (r, h5)" "d2 = Some m" "map_object h5 A5 p3 m" "map_object h5 B4 q4 s1" "A5 \<inter> B4 = {}"
      "hp_alloc h5 = a5" "frame h4 A3 h5 A5" by blast
  have f5: "frame h4 (A3 \<union> B4) h5 (A5 \<union> B4)" by (rule frame_Un [OF h5(7)])
  from free_mem [OF h5(4)] obtain h6 where
    h6: "mem_hm_free q4 h5 = Some h6" "hp_alloc h6 = hp_alloc h5" "heap_ok h6" "frame h5 B4 h6 {}" by blast
  have "B4 \<inter> A5 = {}" using h5(5) by blast
  from beside [OF h6(4) h5(3) this h6(3)] have d6: "map_object h6 A5 p3 m" and f6: "frame h5 (A5 \<union> B4) h6 A5"
    by (auto simp: Un_commute)
  from free_mem [OF d6] obtain h7 where
    h7: "mem_hm_free p3 h6 = Some h7" "hp_alloc h7 = hp_alloc h6" "frame h6 A5 h7 {}" by blast
  note t = frame_trans [OF _ _ frame(2)]
  have "frame h0 {} h7 {}" using t [OF t [OF t [OF t [OF t [OF frame(1) f3] f4] f5] f6] h7(3)] .
  with h3 h4 h5 h6 h7 foreach_mem [OF h5(3), of collect "[]"] frame_empty show ?thesis by auto
qed

text \<open>C21: A hash map in memory: created with any number of buckets, used by any sequence of increments,
  assignments, lookups, counts, enumerations and clearings, and freed, whichever allocations fail on the way.
  Only live memory is accessed and freed, the results are those of the model of hashmap.c that has no
  memory, and at the end exactly the blocks from before are allocated, with their contents: nothing
  is freed twice, nothing leaks.\<close>

theorem map_session_is_memory_safe:
  assumes "heap_ok h"
  shows "\<exists>h'. mem_map_session n calls h = Some (fst (model_map_session n calls (hp_alloc h)), h')
    \<and> hp_blocks h' = hp_blocks h \<and> hp_alloc h' = snd (model_map_session n calls (hp_alloc h))"
proof -
  obtain res a1 where create: "hm_create (hp_alloc h) n = (res, a1)" by fastforce
  from create_mem [OF assms create] obtain p h1 where
    run: "mem_hm_create n h = Some (p, h1)" "hp_alloc h1 = a1" and res: "case res of None \<Rightarrow> p = 0 \<and> hp_blocks h1 = hp_blocks h
       | Some hm \<Rightarrow> p \<noteq> 0 \<and> (\<exists>A. map_object h1 A p hm \<and> frame h {} h1 A)" by blast
  show ?thesis
  proof (cases res)
    case None
    with run res create show ?thesis by (simp add: mem_map_session_def model_map_session_def)
  next
    case (Some hm)
    with res obtain A where p: "p \<noteq> 0" "map_object h1 A p hm" "frame h {} h1 A" by auto
    obtain rs m a2 where calls: "model_calls model_map_call calls hm (hp_alloc h1) = (rs, m, a2)" by (metis prod_cases3)
    from map_memory.calls [OF p(2) calls] obtain B q h2 where
      h2: "mem_calls mem_map_call calls p h1 = Some (rs, q, h2)" "map_object h2 B q m" "hp_alloc h2 = a2" "frame h1 A h2 B"
      by blast
    from free_mem [OF h2(2)] obtain h3 where
      h3: "mem_hm_free q h2 = Some h3" "hp_alloc h3 = hp_alloc h2" "frame h2 B h3 {}" by blast
    have "frame h {} h3 {}" using frame_trans [OF frame_trans [OF p(3) h2(4) assms] h3(3) assms] .
    with Some run(1,2) p(1) h2 h3 create calls frame_empty show ?thesis
      by (auto simp: mem_map_session_def model_map_session_def)
  qed
qed

lemma map_session_is_memory_safe_witness:
  "\<exists>h'. mem_map_session 1 [Map_put_inc (Some ''A'') 1, Map_put_inc (Some ''a'') 2, Map_get (Some ''a'')] (empty_heap [])
      = Some (Some [Returned 0, Returned 0, Found (Some 3)], h') \<and> hp_blocks h' = Map.empty"
proof -
  let ?calls = "[Map_put_inc (Some ''A'') 1, Map_put_inc (Some ''a'') 2, Map_get (Some ''a'')]"
  have "lower ''A'' = ''a''" "lower ''a'' = ''a''" by code_simp+
  then have "fst (model_map_session 1 ?calls []) = Some [Returned 0, Returned 0, Found (Some 3)]"
    by (simp add: model_map_session_def hm_create_def Let_def model_map_call_def hm_put_inc_def hm_get_def bucket_index_def
        write_bucket_def ll_put_inc_def ll_find_def ll_strdup_lower_def ll_push_new_def ll_get_def)
  with map_session_is_memory_safe [OF empty_heap_ok, of 1 ?calls "[]"] show ?thesis by (auto simp: empty_heap_def)
qed

text \<open>When one of two maps could not be created, freeing both pointers leaves the memory as it was.\<close>

lemma free_after_failed_create:
  assumes "heap_ok h" and "heap_ok h1" and "heap_ok h2"
    and p: "case d of None \<Rightarrow> p = 0 \<and> hp_blocks h1 = hp_blocks h
       | Some hm \<Rightarrow> p \<noteq> 0 \<and> (\<exists>A. map_object h1 A p hm \<and> frame h {} h1 A)"
    and q: "case s of None \<Rightarrow> q = 0 \<and> hp_blocks h2 = hp_blocks h1
       | Some hm \<Rightarrow> q \<noteq> 0 \<and> (\<exists>B. map_object h2 B q hm \<and> frame h1 {} h2 B)"
    and "d = None \<or> s = None"
  shows "\<exists>h3 h4. mem_hm_free p h2 = Some h3 \<and> mem_hm_free q h3 = Some h4 \<and> hp_alloc h4 = hp_alloc h2 \<and> hp_blocks h4 = hp_blocks h"
proof (cases d)
  case None
  with p have p0: "p = 0" "hp_blocks h1 = hp_blocks h" by simp_all
  show ?thesis
  proof (cases s)
    case None
    with q p0 show ?thesis by (simp add: mem_hm_free_def)
  next
    case (Some m)
    with q obtain B where B: "map_object h2 B q m" "frame h1 {} h2 B" by auto
    from free_mem [OF B(1)] obtain h4 where "mem_hm_free q h2 = Some h4" "hp_alloc h4 = hp_alloc h2" "frame h2 B h4 {}" by blast
    with frame_empty [OF frame_trans [OF B(2) this(3) assms(2)]] p0 show ?thesis by (simp add: mem_hm_free_def)
  qed
next
  case (Some m)
  with assms(6) q have q0: "q = 0" "hp_blocks h2 = hp_blocks h1" by auto
  from Some p obtain A where A: "map_object h1 A p m" "frame h {} h1 A" by auto
  have A2: "map_object h2 A p m" by (rule map_object_kept [OF A(1) assms(3)]) (simp add: q0)
  from free_mem [OF A2] obtain h3 where h3: "mem_hm_free p h2 = Some h3" "hp_alloc h3 = hp_alloc h2" "frame h2 A h3 {}" by blast
  have "hp_blocks h3 x = hp_blocks h x" for x
  proof (cases "x \<in> A")
    case True
    then have "hp_top h \<le> x" using A(2) by (auto simp: frame_def)
    then show ?thesis using h3(3) True assms(1) by (simp add: frame_def)
  next
    case False
    then show ?thesis using h3(3) A(2) q0(2) by (simp add: frame_def)
  qed
  then have "hp_blocks h3 = hp_blocks h" by blast
  with h3 q0 show ?thesis by (simp add: mem_hm_free_def)
qed

text \<open>Merging in memory: two maps are created and filled by any calls, \<open>hm_merge\<close> puts the second into the
  first while its nodes are being walked, and both are freed.  Whichever allocations fail, only live
  memory is used, all results and the final contents are those of the model, and the memory is as it
  was before.\<close>

theorem merge_session_is_memory_safe:
  assumes "heap_ok h"
  shows "\<exists>h'. mem_merge_session n calls n' calls' h = Some (fst (model_merge_session n calls n' calls' (hp_alloc h)), h')
    \<and> hp_blocks h' = hp_blocks h \<and> hp_alloc h' = snd (model_merge_session n calls n' calls' (hp_alloc h))"
proof -
  obtain d a1 where d: "hm_create (hp_alloc h) n = (d, a1)" by fastforce
  from create_mem [OF assms d] obtain p h1 where
    h1: "mem_hm_create n h = Some (p, h1)" "hp_alloc h1 = a1" "heap_ok h1" and p: "case d of None \<Rightarrow> p = 0 \<and> hp_blocks h1 = hp_blocks h
       | Some hm \<Rightarrow> p \<noteq> 0 \<and> (\<exists>A. map_object h1 A p hm \<and> frame h {} h1 A)" by blast
  obtain s a2 where s: "hm_create (hp_alloc h1) n' = (s, a2)" by fastforce
  from create_mem [OF h1(3) s] obtain q h2 where
    h2: "mem_hm_create n' h1 = Some (q, h2)" "hp_alloc h2 = a2" "heap_ok h2" and q: "case s of None \<Rightarrow> q = 0 \<and> hp_blocks h2 = hp_blocks h1
       | Some hm \<Rightarrow> q \<noteq> 0 \<and> (\<exists>B. map_object h2 B q hm \<and> frame h1 {} h2 B)" by blast
  show ?thesis
  proof (cases "d = None \<or> s = None")
    case True
    then have pq: "p = 0 \<or> q = 0" using p q by auto
    from free_after_failed_create [OF assms h1(3) h2(3) p q True] h2(2) obtain h3 h4 where
      "mem_hm_free p h2 = Some h3" "mem_hm_free q h3 = Some h4" "hp_alloc h4 = a2" "hp_blocks h4 = hp_blocks h" by blast
    with True pq h1 h2 d s show ?thesis
      by (auto simp: mem_merge_session_def model_merge_session_def split: option.splits)
  next
    case False
    then obtain d0 s0 where ds: "d = Some d0" "s = Some s0" by auto
    with p q obtain A B where A: "p \<noteq> 0" "map_object h1 A p d0" "frame h {} h1 A"
      and B: "q \<noteq> 0" "map_object h2 B q s0" "frame h1 {} h2 B" by auto
    from beside [OF B(3) A(2) _ h2(3)] have A2: "map_object h2 A p d0" "A \<inter> B = {}" and f2: "frame h1 A h2 (A \<union> B)"
      by (auto simp: Un_commute)
    obtain rs d1 a3 where c1: "model_calls model_map_call calls d0 (hp_alloc h2) = (rs, d1, a3)" by (metis prod_cases3)
    obtain rs' s1 a4 where c2: "model_calls model_map_call calls' s0 a3 = (rs', s1, a4)" by (metis prod_cases3)
    obtain r d2 a5 where c3: "hm_merge a4 (Some d1) (Some s1) = (r, d2, a5)" by (metis prod_cases3)
    from merge_session_run [OF h2(3) frame_trans [OF A(3) f2 assms] assms A2(1) B(2) A2(2) c1 c2 c3] ds A(1) B(1) d s h1 h2 c1 c2 c3
    show ?thesis by (auto simp: mem_merge_session_def model_merge_session_def)
  qed
qed

lemma merge_session_is_memory_safe_witness:
  "\<exists>h'. mem_merge_session 1 [Map_put_inc (Some ''A'') 1] 1 [Map_put_inc (Some ''a'') 2] (empty_heap [])
      = Some (Some ([Returned 0], [Returned 0], 0, [(''a'', 3)]), h') \<and> hp_blocks h' = Map.empty"
proof -
  have "lower ''A'' = ''a''" "lower ''a'' = ''a''" by code_simp+
  then have "fst (model_merge_session 1 [Map_put_inc (Some ''A'') 1] 1 [Map_put_inc (Some ''a'') 2] [])
      = Some ([Returned 0], [Returned 0], 0, [(''a'', 3)])"
    by (simp add: model_merge_session_def hm_create_def Let_def model_map_call_def hm_put_inc_def bucket_index_def
        write_bucket_def ll_put_inc_def ll_find_def ll_strdup_lower_def ll_push_new_def hm_merge_def hm_foreach_def
        collect_def)
  with merge_session_is_memory_safe [OF empty_heap_ok, of 1 "[Map_put_inc (Some ''A'') 1]" 1 "[Map_put_inc (Some ''a'') 2]" "[]"]
  show ?thesis by (auto simp: empty_heap_def)
qed

end
