(* ===== verification/Heap_Bytes.thy ===== *)
theory Heap_Bytes
  imports Heap_List
begin

section \<open>Byte buffers in memory\<close>

text \<open>
  A buffer that \<open>malloc\<close> returned: its bytes are unset until they are written.  A store outside the
  buffer is undefined behaviour, and so is reading a string that runs into an unset byte or out of
  the buffer.
\<close>

definition bytes_at :: "block heap \<Rightarrow> addr \<Rightarrow> char option list option" where
  "bytes_at h p = (case hp_blocks h p of Some (Bytes_block bs) \<Rightarrow> Some bs | _ \<Rightarrow> None)"

definition mem_malloc_bytes :: "nat \<Rightarrow> block heap \<Rightarrow> addr \<times> block heap" where
  "mem_malloc_bytes n h = heap_malloc (Bytes_block (replicate n None)) h"

text \<open>\<open>memcpy(p + i, s, strlen(s))\<close>, or one store for a string of one byte.\<close>

definition mem_store :: "addr \<Rightarrow> nat \<Rightarrow> char list \<Rightarrow> block heap \<Rightarrow> block heap option" where
  "mem_store p i s h =
     do {
       bs \<leftarrow> bytes_at h p;
       if length bs < i + length s then None
       else heap_write p (Bytes_block (take i bs @ map Some s @ drop (i + length s) bs)) h
     }"

fun set_string :: "char option list \<Rightarrow> string option" where
  "set_string [] = None"
| "set_string (None # bs) = None"
| "set_string (Some c # bs) = (if c = NUL then Some [] else map_option ((#) c) (set_string bs))"

definition mem_string :: "addr \<Rightarrow> block heap \<Rightarrow> string option" where
  "mem_string p h = do { bs \<leftarrow> bytes_at h p; set_string bs }"

subsection \<open>A buffer and what is written in it\<close>

text \<open>A buffer of \<open>n\<close> bytes that begins with \<open>s\<close>, and memory that differs in the block \<open>p\<close> only.\<close>

definition buffer_in :: "block heap \<Rightarrow> addr \<Rightarrow> nat \<Rightarrow> char list \<Rightarrow> bool" where
  "buffer_in h p n s \<longleftrightarrow> (\<exists>bs. hp_blocks h p = Some (Bytes_block (map Some s @ bs)) \<and> length s + length bs = n)"

definition only_at :: "addr \<Rightarrow> block heap \<Rightarrow> block heap \<Rightarrow> bool" where
  "only_at p h h' \<longleftrightarrow> hp_top h' = hp_top h \<and> hp_alloc h' = hp_alloc h \<and> (\<forall>x. x \<noteq> p \<longrightarrow> hp_blocks h' x = hp_blocks h x)"

lemma only_at_refl [simp]: "only_at p h h"
  by (simp add: only_at_def)

lemma only_at_trans: "only_at p h h1 \<Longrightarrow> only_at p h1 h2 \<Longrightarrow> only_at p h h2"
  by (simp add: only_at_def)

lemma only_at_ok:
  assumes "only_at p h h'" and "heap_ok h" and "hp_blocks h p \<noteq> None"
  shows "heap_ok h'"
proof -
  have "x \<in> dom (hp_blocks h)" if "x \<in> dom (hp_blocks h')" for x
    using that assms(1,3) by (cases "x = p") (auto simp: only_at_def)
  with assms(1,2) show ?thesis unfolding heap_ok_def only_at_def by auto
qed

lemma buffer_live: "buffer_in h p n s \<Longrightarrow> hp_blocks h p \<noteq> None"
  by (auto simp: buffer_in_def)

lemma store_at_end:
  assumes "buffer_in h p n s" and "length s + length t \<le> n"
  shows "\<exists>h'. mem_store p (length s) t h = Some h' \<and> buffer_in h' p n (s @ t) \<and> only_at p h h'"
proof -
  obtain bs where bs: "hp_blocks h p = Some (Bytes_block (map Some s @ bs))" "length s + length bs = n"
    using assms(1) by (auto simp: buffer_in_def)
  let ?h = "h\<lparr>hp_blocks := (hp_blocks h)(p \<mapsto> Bytes_block (map Some s @ map Some t @ drop (length t) bs))\<rparr>"
  have "mem_store p (length s) t h = Some ?h"
    using bs assms(2) by (simp add: mem_store_def bytes_at_def heap_write_live)
  moreover have "buffer_in ?h p n (s @ t)" using bs(2) assms(2) by (auto simp: buffer_in_def)
  ultimately show ?thesis by (simp add: only_at_def)
qed

lemma set_string_terminated: "NUL \<notin> set s \<Longrightarrow> set_string (map Some s @ Some NUL # bs) = Some s"
  by (induction s) auto

lemma string_in_buffer:
  assumes "buffer_in h p n (s @ [NUL])" and "NUL \<notin> set s"
  shows "mem_string p h = Some s"
  using assms by (auto simp: buffer_in_def mem_string_def bytes_at_def set_string_terminated)

text \<open>What a string writes over the front of a buffer hides what was there before.\<close>

lemma store_at_front:
  assumes "hp_blocks h p = Some (Bytes_block bs)" and "length t \<le> length bs"
  shows "\<exists>h'. mem_store p 0 t h = Some h' \<and> buffer_in h' p (length bs) t \<and> only_at p h h'"
  using store_at_end [of h p "length bs" "[]" t] assms by (simp add: buffer_in_def)

lemma malloc_bytes_cases:
  assumes "mem_malloc_bytes n h = (p, h')" and "heap_ok h"
  obtains (fail) a where "malloc (hp_alloc h) = (False, a)" "p = 0" "h' = h\<lparr>hp_alloc := a\<rparr>"
  | (new) a where "malloc (hp_alloc h) = (True, a)" "p \<noteq> 0" "hp_blocks h p = None" "hp_top h \<le> p" "buffer_in h' p n []"
      "hp_alloc h' = a" "hp_top h \<le> hp_top h'" "heap_ok h'" "\<And>x. x \<noteq> p \<Longrightarrow> hp_blocks h' x = hp_blocks h x"
  using assms unfolding mem_malloc_bytes_def
proof (cases rule: heap_malloc_cases)
  case (fail a)
  then show thesis by (intro that(1)) simp_all
next
  case (new a)
  then show thesis by (intro that(2)) (simp_all add: buffer_in_def)
qed

text \<open>The release of the buffer gives the memory of before its allocation.\<close>

lemma free_buffer:
  assumes "buffer_in h' p n s" and "p \<noteq> 0" and "hp_blocks h p = None" and "\<And>x. x \<noteq> p \<Longrightarrow> hp_blocks h' x = hp_blocks h x"
    and "heap_ok h'"
  shows "\<exists>h''. heap_free p h' = Some h'' \<and> hp_blocks h'' = hp_blocks h \<and> hp_top h'' = hp_top h' \<and> hp_alloc h'' = hp_alloc h'
    \<and> heap_ok h''"
proof -
  have "(hp_blocks h')(p := None) = hp_blocks h" using assms(3,4) by auto
  moreover have "heap_ok (h'\<lparr>hp_blocks := (hp_blocks h')(p := None)\<rparr>)"
    by (rule heap_ok_update [OF assms(5)]) auto
  ultimately show ?thesis using assms(1,2) by (auto simp: buffer_in_def heap_free_live)
qed

end
