(* ===== verification/Heap_Worker.thy ===== *)
theory Heap_Worker
  imports Heap_Map Heap_Bytes Worker
begin

section \<open>A request in memory (mapreduce-wordcount/wordcount.c, zmq\_worker.c)\<close>

text \<open>
  The functions of wordcount.c and the request handler of the worker over the heap: the hash map of
  \<open>Heap_Map\<close>, the reply buffer with every byte that is stored in it, and the order in which the
  handler releases them.  The tokenizer and the parser are those of \<open>Word_Count\<close>, here on a map in
  memory.  The message and the array \<open>word\<close> lie on the stack, outside this heap.
\<close>

text \<open>A table in memory: \<open>None\<close> once something undefined has happened.  The result of \<open>hm_put_inc\<close> is ignored.\<close>

definition mem_put :: "addr \<Rightarrow> string \<Rightarrow> i32 \<Rightarrow> block heap option \<Rightarrow> block heap option" where
  "mem_put hm w c m = do { h \<leftarrow> m; (r, h') \<leftarrow> mem_hm_put_inc hm (Some w) c h; Some h' }"

definition mem_wc_tokenize_and_count :: "addr \<Rightarrow> string option \<Rightarrow> block heap \<Rightarrow> block heap option" where
  "mem_wc_tokenize_and_count hm text h =
     (case text of None \<Rightarrow> Some h | Some t \<Rightarrow> if hm = 0 then Some h else wc_scan (mem_put hm) (Some h) [] t)"

definition mem_wc_from_map_format :: "string option \<Rightarrow> block heap \<Rightarrow> (addr \<times> block heap) option" where
  "mem_wc_from_map_format payload h =
     do {
       (hm, h1) \<leftarrow> mem_hm_create 1024 h;
       if hm = 0 then Some (0, h1)
       else case payload of
         None \<Rightarrow> Some (hm, h1)
       | Some t \<Rightarrow> do {
           h2 \<leftarrow> wp_end (mem_put hm) (fold (\<lambda>c p. wc_parse_step (mem_put hm) p c) t
             \<lparr>wp_state = STATE_START, wp_word = [], wp_count = 0, wp_map = Some h1\<rparr>);
           Some (hm, h2)
         }
     }"

subsection \<open>Writing the reply\<close>

record mem_format_ctx =
  mf_buffer :: addr
  mf_pos :: nat
  mf_max_len :: nat
  mf_overflow :: bool

text \<open>The loop \<open>mc->buffer[mc->pos++] = '1'\<close>.\<close>

fun mem_put_ones :: "nat \<Rightarrow> addr \<Rightarrow> nat \<Rightarrow> block heap \<Rightarrow> (nat \<times> block heap) option" where
  "mem_put_ones 0 p pos h = Some (pos, h)"
| "mem_put_ones (Suc k) p pos h = do { h' \<leftarrow> mem_store p pos ''1'' h; mem_put_ones k p (pos + 1) h' }"

definition mem_append_map_entry :: "mem_format_ctx callback" where
  "mem_append_map_entry key cnt mc h =
     (if mf_overflow mc then Some (mc, h)
      else (let key_len = length key;
                needed = of_nat key_len + word_of_int (sint cnt) + (1 :: u64)
            in if of_nat (mf_pos mc) + needed > (of_nat (mf_max_len mc) :: u64)
               then Some (mc\<lparr>mf_overflow := True\<rparr>, h)
               else do {
                 h1 \<leftarrow> mem_store (mf_buffer mc) (mf_pos mc) key h;
                 (pos, h2) \<leftarrow> mem_put_ones (nat (sint cnt)) (mf_buffer mc) (mf_pos mc + key_len) h1;
                 Some (mc\<lparr>mf_pos := pos\<rparr>, h2)
               }))"

definition mem_append_reduce_entry :: "mem_format_ctx callback" where
  "mem_append_reduce_entry key cnt rc h =
     (if mf_overflow rc then Some (rc, h)
      else (let key_len = length key;
                count_str = int_decimal (sint cnt);
                count_len = length count_str
            in if count_len \<ge> 32 then Some (rc\<lparr>mf_overflow := True\<rparr>, h)
               else if mf_pos rc + (key_len + count_len + 1) > mf_max_len rc
               then Some (rc\<lparr>mf_overflow := True\<rparr>, h)
               else do {
                 h1 \<leftarrow> mem_store (mf_buffer rc) (mf_pos rc) key h;
                 h2 \<leftarrow> mem_store (mf_buffer rc) (mf_pos rc + key_len) count_str h1;
                 Some (rc\<lparr>mf_pos := mf_pos rc + key_len + count_len\<rparr>, h2)
               }))"

definition mem_wc_format :: "mem_format_ctx callback \<Rightarrow> addr \<Rightarrow> nat \<Rightarrow> block heap \<Rightarrow> (addr \<times> block heap) option" where
  "mem_wc_format append_entry hm msg_len h =
     (if msg_len \<le> 1 then
        (let (empty, h1) = mem_malloc_bytes 1 h
         in if empty \<noteq> 0 then do { h2 \<leftarrow> mem_store empty 0 [NUL] h1; Some (empty, h2) } else Some (0, h1))
      else
        (let (buffer, h1) = mem_malloc_bytes msg_len h
         in if buffer = 0 then Some (0, h1)
            else do {
              (ctx, h2) \<leftarrow> mem_hm_foreach hm (Some append_entry)
                \<lparr>mf_buffer = buffer, mf_pos = 0, mf_max_len = msg_len, mf_overflow = False\<rparr> h1;
              h3 \<leftarrow> mem_store buffer (mf_pos ctx) [NUL] h2;
              Some (buffer, h3)
            }))"

definition mem_wc_to_map_format :: "addr \<Rightarrow> nat \<Rightarrow> block heap \<Rightarrow> (addr \<times> block heap) option" where
  "mem_wc_to_map_format hm msg_len h = mem_wc_format mem_append_map_entry hm msg_len h"

definition mem_wc_to_reduce_format :: "addr \<Rightarrow> nat \<Rightarrow> block heap \<Rightarrow> (addr \<times> block heap) option" where
  "mem_wc_to_reduce_format hm msg_len h = mem_wc_format mem_append_reduce_entry hm msg_len h"

subsection \<open>The request handler\<close>

text \<open>\<open>zmq_send(reps[i], reply, strlen(reply) + 1, 0); free(reply)\<close>, or the empty reply.\<close>

definition mem_send_reply :: "addr \<Rightarrow> block heap \<Rightarrow> (char list \<times> block heap) option" where
  "mem_send_reply reply h =
     (if reply = 0 then Some (empty_reply, h)
      else do { s \<leftarrow> mem_string reply h; h' \<leftarrow> heap_free reply h; Some (s @ [NUL], h') })"

definition mem_handle_map :: "string \<Rightarrow> nat \<Rightarrow> block heap \<Rightarrow> (char list \<times> block heap) option" where
  "mem_handle_map payload msg_len h =
     do {
       (hm, h1) \<leftarrow> mem_hm_create 1024 h;
       if hm = 0 then Some (empty_reply, h1)
       else do {
         h2 \<leftarrow> mem_wc_tokenize_and_count hm (Some payload) h1;
         (reply, h3) \<leftarrow> mem_wc_to_map_format hm msg_len h2;
         (sent, h4) \<leftarrow> mem_send_reply reply h3;
         h5 \<leftarrow> mem_hm_free hm h4;
         Some (sent, h5)
       }
     }"

definition mem_handle_red :: "string \<Rightarrow> nat \<Rightarrow> block heap \<Rightarrow> (char list \<times> block heap) option" where
  "mem_handle_red payload msg_len h =
     do {
       (hm, h1) \<leftarrow> mem_wc_from_map_format (Some payload) h;
       if hm = 0 then Some (empty_reply, h1)
       else do {
         (reply, h2) \<leftarrow> mem_wc_to_reduce_format hm msg_len h1;
         (sent, h3) \<leftarrow> mem_send_reply reply h2;
         h4 \<leftarrow> mem_hm_free hm h3;
         Some (sent, h4)
       }
     }"

text \<open>One request: what is sent and whether the socket is closed; \<open>None\<close> also where the terminator
  would be stored behind the receive buffer.\<close>

definition mem_handle_message :: "char list \<Rightarrow> block heap \<Rightarrow> ((char list \<times> bool) \<times> block heap) option" where
  "mem_handle_message msg h =
     (if RECV_BUFFER_SIZE \<le> length msg then None
      else if length msg < 3 then Some ((empty_reply, False), h)
      else
       (let is_new = is_new_protocol msg;
            msg_len = (if is_new then parse_msg_len (drop 3 msg) else MAX_MSG_LEN);
            payload = c_str (drop (if is_new then HEADER_LEN else 3) msg);
            type = take 3 msg
        in if type = ''map'' then do { (reply, h') \<leftarrow> mem_handle_map payload msg_len h; Some ((reply, False), h') }
           else if type = ''red'' then do { (reply, h') \<leftarrow> mem_handle_red payload msg_len h; Some ((reply, False), h') }
           else if type = ''rip'' then Some ((if is_new then empty_reply else ''rip'' @ [NUL], True), h)
           else Some ((empty_reply, False), h)))"

fun mem_handle_messages :: "char list list \<Rightarrow> block heap \<Rightarrow> ((char list \<times> bool) list \<times> block heap) option" where
  "mem_handle_messages [] h = Some ([], h)"
| "mem_handle_messages (m # ms) h =
     do { (r, h1) \<leftarrow> mem_handle_message m h; (rs, h2) \<leftarrow> mem_handle_messages ms h1; Some (r # rs, h2) }"

subsection \<open>The tokenizer and the parser on two tables\<close>

lemma valid_push_letter: "word = [] \<or> valid_word word \<Longrightarrow> is_alpha c \<Longrightarrow> valid_word (push_letter word c)"
  by (auto simp: valid_word_def push_letter_def WORD_CAP_def lower_Cons lower_append)

text \<open>
  Two tables with their \<open>put\<close>, related by \<open>holds N\<close> as long as the counts in them are at most \<open>N\<close>: the
  relation survives a \<open>put\<close> of a word, as long as no count can overflow.  Then the code that only uses
  \<open>put\<close> keeps the tables related, and every byte of the text adds at most one to a count.
\<close>

locale counting_tables =
  fixes put :: "string \<Rightarrow> i32 \<Rightarrow> 't \<Rightarrow> 't"
    and put' :: "string \<Rightarrow> i32 \<Rightarrow> 'u \<Rightarrow> 'u"
    and holds :: "nat \<Rightarrow> 't \<Rightarrow> 'u \<Rightarrow> bool"
  assumes puts: "holds N t u \<Longrightarrow> valid_word w \<Longrightarrow> 0 < unat d \<Longrightarrow> N + unat d < 2 ^ 31 \<Longrightarrow>
      holds (N + unat d) (put w d t) (put' w d u)"
    and weaken: "holds N t u \<Longrightarrow> N \<le> M \<Longrightarrow> holds M t u"
begin

lemma scans:
  "holds N t u \<Longrightarrow> word = [] \<or> valid_word word \<Longrightarrow> N + length s + 1 < 2 ^ 31 \<Longrightarrow>
    holds (N + length s + 1) (wc_scan put t word s) (wc_scan put' u word s)"
proof (induction s arbitrary: N t u word)
  case Nil
  then show ?case using puts [of N t u word 1] by (auto intro: weaken)
next
  case (Cons c s)
  have one: "holds (Suc N) (put word 1 t) (put' word 1 u)" if "word \<noteq> []"
    using puts [of N t u word 1] Cons.prems that by auto
  have skip: "holds (Suc N) t u" using Cons.prems(1) by (rule weaken) simp
  show ?case
  proof (cases "is_alpha c")
    case True
    from Cons.IH [OF skip disjI2 [OF valid_push_letter [OF Cons.prems(2) True]]] Cons.prems(3) True show ?thesis by simp
  next
    case False
    with Cons.IH [OF one, of "[]"] Cons.IH [OF skip, of "[]"] Cons.prems(3) show ?thesis by simp
  qed
qed

definition parsers :: "nat \<Rightarrow> 't wc_parser \<Rightarrow> 'u wc_parser \<Rightarrow> bool" where
  "parsers N p q \<longleftrightarrow> wp_state p = wp_state q \<and> wp_word p = wp_word q \<and> wp_count p = wp_count q
     \<and> (wp_state q \<noteq> STATE_START \<longrightarrow> valid_word (wp_word q)) \<and> (wp_state q = STATE_IN_ONES \<longrightarrow> 0 < unat (wp_count q))
     \<and> (\<exists>M. holds M (wp_map p) (wp_map q) \<and> M + (if wp_state q = STATE_IN_ONES then unat (wp_count q) else 0) \<le> N)"

lemma finalizes:
  assumes "parsers N p q" and "wp_state q = STATE_IN_ONES" and "N < 2 ^ 31"
  shows "holds N (wp_finalize put p) (wp_finalize put' q)"
proof -
  from assms(1,2) obtain M where q: "valid_word (wp_word q)" "0 < unat (wp_count q)" and
    M: "holds M (wp_map p) (wp_map q)" "M + unat (wp_count q) \<le> N" by (auto simp: parsers_def)
  have "sint (wp_count q) = int (unat (wp_count q))" using M(2) assms(3) by (intro sint_small) simp
  moreover have "holds N (put (wp_word q) (wp_count q) (wp_map p)) (put' (wp_word q) (wp_count q) (wp_map q))"
    by (rule weaken [OF puts [OF M(1) q] M(2)]) (use M(2) assms(3) in simp)
  moreover have "holds N (wp_map p) (wp_map q)" by (rule weaken [OF M(1)]) (use M(2) in simp)
  ultimately show ?thesis using assms(1) by (simp add: wp_finalize_def parsers_def)
qed

lemma parses_byte:
  assumes "parsers N p q" and "Suc N < 2 ^ 31"
  shows "parsers (Suc N) (wc_parse_step put p c) (wc_parse_step put' q c)"
proof -
  have maps: "holds N (wp_map p) (wp_map q)" using assms(1) by (auto simp: parsers_def intro: weaken)
  note same = assms(1) [unfolded parsers_def]
  show ?thesis
  proof (cases "wp_state q")
    case STATE_START
    with same maps valid_push_letter [of "[]" c] show ?thesis by (auto simp: wc_parse_step_def parsers_def)
  next
    case STATE_IN_WORD
    with same maps valid_push_letter [of "wp_word q" c] show ?thesis by (auto simp: wc_parse_step_def parsers_def)
  next
    case STATE_IN_ONES
    from finalizes [OF assms(1) this] assms(2) have fin: "holds N (wp_finalize put p) (wp_finalize put' q)" by simp
    from same STATE_IN_ONES obtain M where M: "holds M (wp_map p) (wp_map q)" "M + unat (wp_count q) \<le> N" by auto
    have "unat (wp_count q + 1) = Suc (unat (wp_count q))" using M(2) assms(2) by (simp add: unat_word_ariths)
    with same STATE_IN_ONES fin M valid_push_letter [of "[]" c] show ?thesis
      by (auto simp: wc_parse_step_def parsers_def)
  qed
qed

lemma parses:
  "parsers N p q \<Longrightarrow> N + length s < 2 ^ 31 \<Longrightarrow>
    parsers (N + length s) (fold (\<lambda>c p. wc_parse_step put p c) s p) (fold (\<lambda>c q. wc_parse_step put' q c) s q)"
proof (induction s arbitrary: N p q)
  case (Cons c s)
  with Cons.IH [OF parses_byte [OF Cons.prems(1)]] show ?case by simp
qed simp

lemma parses_all:
  assumes "holds 0 t u" and "length s < 2 ^ 31"
  shows "holds (length s)
    (wp_end put (fold (\<lambda>c p. wc_parse_step put p c) s \<lparr>wp_state = STATE_START, wp_word = [], wp_count = 0, wp_map = t\<rparr>))
    (wp_end put' (fold (\<lambda>c p. wc_parse_step put' p c) s \<lparr>wp_state = STATE_START, wp_word = [], wp_count = 0, wp_map = u\<rparr>))"
proof -
  let ?p = "fold (\<lambda>c p. wc_parse_step put p c) s \<lparr>wp_state = STATE_START, wp_word = [], wp_count = 0, wp_map = t\<rparr>"
  let ?q = "fold (\<lambda>c p. wc_parse_step put' p c) s \<lparr>wp_state = STATE_START, wp_word = [], wp_count = 0, wp_map = u\<rparr>"
  have "parsers 0 \<lparr>wp_state = STATE_START, wp_word = [], wp_count = 0, wp_map = t\<rparr>
    \<lparr>wp_state = STATE_START, wp_word = [], wp_count = 0, wp_map = u\<rparr>" using assms(1) by (auto simp: parsers_def)
  from parses [OF this, of s] assms(2) have pq: "parsers (length s) ?p ?q" by simp
  then have "holds (length s) (wp_map ?p) (wp_map ?q)" by (auto simp: parsers_def intro: weaken)
  with finalizes [OF pq _ assms(2)] pq show ?thesis by (simp add: wp_end_def parsers_def)
qed

end

subsection \<open>A map of words with small counts\<close>

definition counted :: "nat \<Rightarrow> HashMap \<Rightarrow> bool" where
  "counted N hm \<longleftrightarrow> (\<forall>e \<in> set (hm_entries hm). valid_word (fst e) \<and> 0 < unat (snd e) \<and> unat (snd e) \<le> N)"

lemma counted_weaken: "counted N hm \<Longrightarrow> N \<le> M \<Longrightarrow> counted M hm"
  by (auto simp: counted_def intro: order_trans)

lemma create_counted: "hm_create a n = (Some hm, a') \<Longrightarrow> counted 0 hm"
  by (auto simp: hm_create_def counted_def hm_entries_def ll_entries_def Let_def split: prod.splits if_splits)

lemma counted_valid: "counted N hm \<Longrightarrow> N < 2 ^ 31 \<Longrightarrow> \<forall>e \<in> set (hm_entries hm). valid_entry (fst e, snd e)"
  by (auto simp: counted_def valid_entry_def)

lemma put_inc_entries:
  assumes "ll_put_inc a (Some ns) (Some w) d = (r, Some ns', a')" and "e \<in> set (ll_entries ns')"
  shows "e \<in> set (ll_entries ns) \<or> e = (lower w, d) \<or> (\<exists>k c. e = (k, c + d) \<and> (k, c) \<in> set (ll_entries ns))"
proof -
  obtain n where n: "n \<in> set ns'" "e = (ll_key n, ll_count n)" using assms(2) by (auto simp: ll_entries_def)
  obtain node a1 where f: "ll_find a ns (Some w) = (node, a1)" by fastforce
  show ?thesis
  proof (cases node)
    case None
    with assms(1) f n show ?thesis
      by (auto simp: ll_put_inc_def ll_push_new_def ll_strdup_lower_def ll_entries_def split: prod.splits if_splits)
  next
    case (Some i)
    then have i: "i < length ns" using f find_index [of a ns "Some w" i] by simp
    have "ns' = ns[i := (ns ! i)\<lparr>ll_count := ll_count (ns ! i) + d\<rparr>]"
      using assms(1) f Some by (simp add: ll_put_inc_def)
    with n(1) set_update_subset_insert have "n = (ns ! i)\<lparr>ll_count := ll_count (ns ! i) + d\<rparr> \<or> n \<in> set ns" by fastforce
    moreover have "ns ! i \<in> set ns" using i by simp
    ultimately show ?thesis using n(2) by (auto simp: ll_entries_def)
  qed
qed

lemma counted_put:
  assumes "counted N \<lparr>n_buckets = n, buckets = Some bs\<rparr>" and "length bs = n" and "n \<noteq> 0"
    and "valid_word w" and "0 < unat d" and "N + unat d < 2 ^ 31"
    and "hm_put_inc a (Some \<lparr>n_buckets = n, buckets = Some bs\<rparr>) (Some w) d = (r, Some m, a')"
  shows "counted (N + unat d) m"
proof -
  let ?h = "\<lparr>n_buckets = n, buckets = Some bs\<rparr>" and ?i = "bucket_index (Some \<lparr>n_buckets = n, buckets = Some bs\<rparr>) (Some w)"
  have i: "?i < length bs" using assms(2,3) by (simp add: bucket_index_def)
  obtain r1 b a1 where p: "ll_put_inc a (Some (bs ! ?i)) (Some w) d = (r1, b, a1)" by (metis prod_cases3)
  then obtain ns' where b: "b = Some ns'"
    by (auto simp: ll_put_inc_def ll_push_new_def split: prod.splits option.splits if_splits)
  have m: "m = \<lparr>n_buckets = n, buckets = Some (bs[?i := ns'])\<rparr>"
    using assms(7) p b by (simp add: hm_put_inc_def write_bucket_def Let_def)
  have old: "valid_word (fst e) \<and> 0 < unat (snd e) \<and> unat (snd e) \<le> N" if "e \<in> set (ll_entries ns)" "ns \<in> set bs" for e ns
    using assms(1) that by (auto simp: counted_def hm_entries_def)
  have "valid_word (fst e) \<and> 0 < unat (snd e) \<and> unat (snd e) \<le> N + unat d" if e: "e \<in> set (hm_entries m)" for e
  proof -
    from e obtain ns where ns: "e \<in> set (ll_entries ns)" "ns \<in> set (bs[?i := ns'])" by (auto simp: m hm_entries_def)
    show ?thesis
    proof (cases "ns \<in> set bs")
      case True
      from old [OF ns(1) True] show ?thesis by simp
    next
      case False
      with ns(2) have "ns = ns'" using set_update_subset_insert by fastforce
      with ns(1) have "e \<in> set (ll_entries ns')" by simp
      from put_inc_entries [OF p [unfolded b] this] consider "e \<in> set (ll_entries (bs ! ?i))" | "e = (lower w, d)"
        | k c where "e = (k, c + d)" "(k, c) \<in> set (ll_entries (bs ! ?i))" by blast
      then show ?thesis
      proof cases
        case 1
        from old [OF 1] i show ?thesis by simp
      next
        case 2
        with assms(4,5) show ?thesis by (simp add: valid_word_def)
      next
        case 3
        from old [OF 3(2)] i have c: "valid_word k" "0 < unat c" "unat c \<le> N" by simp_all
        then have "unat (c + d) = unat c + unat d" using assms(6) by (simp add: unat_word_ariths)
        with 3(1) c show ?thesis by simp
      qed
    qed
  qed
  then show ?thesis by (simp add: counted_def)
qed

text \<open>A map in memory and the same map in the model, with counts of at most \<open>N\<close>; all that was
  allocated since \<open>h0\<close> belongs to it.\<close>

definition table_in :: "block heap \<Rightarrow> addr \<Rightarrow> nat \<Rightarrow> block heap option \<Rightarrow> wc_table \<Rightarrow> bool" where
  "table_in h0 p N m t \<longleftrightarrow> heap_ok h0 \<and> p \<noteq> 0 \<and> (\<exists>h A hm. m = Some h \<and> t = (hp_alloc h, Some hm)
     \<and> map_object h A p hm \<and> frame h0 {} h A \<and> counted N hm)"

lemma table_in_put:
  assumes "table_in h0 p N m t" and "valid_word w" and "0 < unat d" and "N + unat d < 2 ^ 31"
  shows "table_in h0 p (N + unat d) (mem_put p w d m) (hm_store_put w d t)"
proof -
  from assms(1) obtain h A hm where h: "m = Some h" "t = (hp_alloc h, Some hm)" "map_object h A p hm" "frame h0 {} h A"
    "counted N hm" "heap_ok h0" "p \<noteq> 0" by (auto simp: table_in_def)
  from h(3) obtain n b css nss where hm: "hm = \<lparr>n_buckets = n, buckets = Some nss\<rparr>"
    and mi: "map_in h p b css \<lparr>n_buckets = n, buckets = Some nss\<rparr>" by (rule map_object_cases)
  obtain r hm' a' where put: "hm_put_inc (hp_alloc h) (Some hm) (Some w) d = (r, hm', a')" by (metis prod_cases3)
  from put_inc_mem [OF h(3) put] obtain A' h' m' where
    h': "mem_hm_put_inc p (Some w) d h = Some (r, h')" "hm' = Some m'" "map_object h' A' p m'" "hp_alloc h' = a'" "frame h A h' A'"
    by blast
  have "length nss = n" "n \<noteq> 0" using mi by (auto simp: map_in_def)
  from counted_put [OF h(5) [unfolded hm] this assms(2-4) put [unfolded hm h'(2)]] have "counted (N + unat d) m'" .
  moreover have "frame h0 {} h' A'" using frame_trans [OF h(4) h'(5) h(6)] .
  ultimately show ?thesis using h h' put by (auto simp: table_in_def mem_put_def hm_store_put_def)
qed

lemma table_in_weaken: "table_in h0 p N m t \<Longrightarrow> N \<le> M \<Longrightarrow> table_in h0 p M m t"
  unfolding table_in_def by (metis counted_weaken)

interpretation in_memory: counting_tables "mem_put p" hm_store_put "table_in h0 p" for p h0
  by unfold_locales (rule table_in_put table_in_weaken; assumption)+

subsection \<open>Writing into the reply buffer\<close>

text \<open>
  Behind \<open>hb\<close>, the memory in which the buffer \<open>p\<close> of \<open>n\<close> bytes was allocated: only the buffer has
  changed, it holds the bytes of the model's context, and there is room for the terminator.
\<close>

definition writing :: "block heap \<Rightarrow> addr \<Rightarrow> nat \<Rightarrow> block heap \<Rightarrow> mem_format_ctx \<Rightarrow> format_ctx \<Rightarrow> bool" where
  "writing hb p n h m ctx \<longleftrightarrow> only_at p hb h \<and> buffer_in h p n (fc_buffer ctx)
     \<and> m = \<lparr>mf_buffer = p, mf_pos = length (fc_buffer ctx), mf_max_len = n, mf_overflow = fc_overflow ctx\<rparr>
     \<and> fc_max_len ctx = n \<and> length (fc_buffer ctx) < n \<and> n \<le> 2 ^ 31 \<and> NUL \<notin> set (fc_buffer ctx)"

lemma writing_more:
  assumes "writing hb p n h m ctx" and "buffer_in h' p n (fc_buffer ctx @ s)" and "only_at p h h'"
    and "length (fc_buffer ctx) + length s < n" and "NUL \<notin> set s"
  shows "writing hb p n h' (m\<lparr>mf_pos := mf_pos m + length s\<rparr>) (ctx\<lparr>fc_buffer := fc_buffer ctx @ s\<rparr>)"
  using assms by (auto simp: writing_def intro: only_at_trans)

lemma put_ones:
  "buffer_in h p n s \<Longrightarrow> length s + k \<le> n \<Longrightarrow>
    \<exists>h'. mem_put_ones k p (length s) h = Some (length s + k, h') \<and> buffer_in h' p n (s @ replicate k (CHR ''1'')) \<and> only_at p h h'"
proof (induction k arbitrary: h s)
  case (Suc k)
  from store_at_end [OF Suc.prems(1), of "''1''"] Suc.prems(2) obtain h1 where
    h1: "mem_store p (length s) ''1'' h = Some h1" "buffer_in h1 p n (s @ ''1'')" "only_at p h h1" by auto
  from Suc.IH [OF h1(2)] Suc.prems(2) obtain h2 where
    "mem_put_ones k p (Suc (length s)) h1 = Some (Suc (length s + k), h2)"
    "buffer_in h2 p n (s @ replicate (Suc k) (CHR ''1''))" "only_at p h1 h2" by (auto simp: replicate_append_same)
  with h1 show ?case by (auto intro: only_at_trans)
qed simp

lemma valid_entry_NUL: "valid_entry (key, cnt) \<Longrightarrow> NUL \<notin> set key"
  by (auto simp: valid_entry_def valid_word_def list_all_iff)

lemma needed_fits:
  assumes "valid_entry (key, cnt)" and "pos \<le> 2 ^ 31" and "n \<le> 2 ^ 31"
  shows "(of_nat pos + (of_nat (length key) + word_of_int (sint cnt) + (1 :: u64)) > (of_nat n :: u64))
    = (n < pos + (length key + unat cnt) + 1)"
proof -
  have k: "length key \<le> 255" "unat cnt < 2 ^ 31"
    using assms(1) by (simp_all add: valid_entry_def valid_word_def WORD_CAP_def)
  then have "(of_nat pos + (of_nat (length key) + word_of_int (sint cnt) + 1) :: u64) = of_nat (pos + length key + unat cnt + 1)"
    by (simp add: sint_small)
  moreover have "pos + length key + unat cnt + 1 < 2 ^ 64" "n < 2 ^ 64" using assms k by simp_all
  ultimately show ?thesis by (simp only: word_of_nat_less_iff) (simp add: take_bit_nat_eq_self add.assoc)
qed

text \<open>What the two callbacks share: on a word with a count that is not negative, the callback in memory does
  what the callback of the model does, inside the buffer.\<close>

locale buffer_writer =
  fixes mem_append :: "mem_format_ctx callback"
    and append_entry :: "string \<Rightarrow> i32 \<Rightarrow> format_ctx \<Rightarrow> format_ctx"
  assumes appends: "writing hb p n h m ctx \<Longrightarrow> valid_entry (key, cnt) \<Longrightarrow>
    \<exists>m' h'. mem_append key cnt m h = Some (m', h') \<and> writing hb p n h' m' (append_entry key cnt ctx)"

sublocale buffer_writer < entry: memory_callback mem_append append_entry "writing hb p n" "\<lambda>key cnt. valid_entry (key, cnt)" "- {p}"
  for hb p n
proof (unfold_locales, goal_cases)
  case (1 h m ctx key cnt)
  from appends [OF 1] obtain m' h' where w: "mem_append key cnt m h = Some (m', h')" "writing hb p n h' m' (append_entry key cnt ctx)"
    by blast
  with 1(1) show ?case by (intro exI [of _ m'] exI [of _ h']) (simp add: writing_def only_at_def)
qed

interpretation map_writer: buffer_writer mem_append_map_entry append_map_entry
proof (unfold_locales, goal_cases)
  case (1 hb p n h m ctx key cnt)
  let ?s = "key @ replicate (unat cnt) (CHR ''1'')"
  have fits: "valid_entry (key, cnt)" "length (fc_buffer ctx) \<le> 2 ^ 31" "n \<le> 2 ^ 31" using 1 by (simp_all add: writing_def)
  have key: "NUL \<notin> set key" using 1(2) by (rule valid_entry_NUL)
  have cnt: "sint cnt = int (unat cnt)" using 1(2) by (intro sint_small) (simp add: valid_entry_def)
  show ?case
  proof (cases "fc_overflow ctx \<or> n < length (fc_buffer ctx) + (length key + unat cnt) + 1")
    case True
    with 1(1) needed_fits [OF fits] show ?thesis
      by (auto simp: writing_def mem_append_map_entry_def append_map_entry_def)
  next
    case False
    then have room: "length (fc_buffer ctx) + (length key + unat cnt) < n" by simp
    have m: "mf_buffer m = p" "mf_pos m = length (fc_buffer ctx)" "mf_max_len m = n" "mf_overflow m = fc_overflow ctx"
      "fc_max_len ctx = n" "buffer_in h p n (fc_buffer ctx)" using 1(1) by (auto simp: writing_def)
    from store_at_end [OF m(6), of key] room obtain h1 where
      h1: "mem_store p (length (fc_buffer ctx)) key h = Some h1" "buffer_in h1 p n (fc_buffer ctx @ key)" "only_at p h h1" by auto
    from put_ones [OF h1(2), of "unat cnt"] room obtain h2 where
      h2: "mem_put_ones (unat cnt) p (length (fc_buffer ctx) + length key) h1 = Some (length (fc_buffer ctx) + length ?s, h2)"
        "buffer_in h2 p n (fc_buffer ctx @ ?s)" "only_at p h1 h2" by (auto simp: add.assoc)
    have "mem_append_map_entry key cnt m h = Some (m\<lparr>mf_pos := mf_pos m + length ?s\<rparr>, h2)"
      using False m h1(1) h2(1) needed_fits [OF fits] cnt by (simp add: mem_append_map_entry_def Let_def)
    moreover have "append_map_entry key cnt ctx = ctx\<lparr>fc_buffer := fc_buffer ctx @ ?s\<rparr>"
      using False m needed_fits [OF fits] cnt by (simp add: append_map_entry_def Let_def)
    moreover have "writing hb p n h2 (m\<lparr>mf_pos := mf_pos m + length ?s\<rparr>) (ctx\<lparr>fc_buffer := fc_buffer ctx @ ?s\<rparr>)"
      by (rule writing_more [OF 1(1) h2(2) only_at_trans [OF h1(3) h2(3)]]) (use room key in auto)
    ultimately show ?thesis by (intro exI conjI) (assumption, simp only:)
  qed
qed

interpretation reduce_writer: buffer_writer mem_append_reduce_entry append_reduce_entry
proof (unfold_locales, goal_cases)
  case (1 hb p n h m ctx key cnt)
  let ?c = "decimal (unat cnt)"
  have cnt: "int_decimal (sint cnt) = ?c" "length ?c < 32"
    using 1(2) length_decimal_31 [of "unat cnt"] by (simp_all add: valid_entry_def sint_small int_decimal_def)
  have nul: "NUL \<notin> set (key @ ?c)" using valid_entry_NUL [OF 1(2)] decimal_digits [of "unat cnt"] by (auto simp: list_all_iff)
  show ?case
  proof (cases "fc_overflow ctx \<or> n < length (fc_buffer ctx) + (length key + length ?c + 1)")
    case True
    with 1(1) cnt show ?thesis by (auto simp: writing_def mem_append_reduce_entry_def append_reduce_entry_def)
  next
    case False
    then have room: "length (fc_buffer ctx) + length (key @ ?c) < n" by simp
    have m: "mf_buffer m = p" "mf_pos m = length (fc_buffer ctx)" "mf_max_len m = n" "mf_overflow m = fc_overflow ctx"
      "fc_max_len ctx = n" "buffer_in h p n (fc_buffer ctx)" using 1(1) by (auto simp: writing_def)
    from store_at_end [OF m(6), of key] room obtain h1 where
      h1: "mem_store p (length (fc_buffer ctx)) key h = Some h1" "buffer_in h1 p n (fc_buffer ctx @ key)" "only_at p h h1" by auto
    from store_at_end [OF h1(2), of ?c] room obtain h2 where
      h2: "mem_store p (length (fc_buffer ctx) + length key) ?c h1 = Some h2" "buffer_in h2 p n (fc_buffer ctx @ key @ ?c)"
        "only_at p h1 h2" by auto
    have "mem_append_reduce_entry key cnt m h = Some (m\<lparr>mf_pos := mf_pos m + length (key @ ?c)\<rparr>, h2)"
      using False m h1(1) h2(1) cnt by (simp add: mem_append_reduce_entry_def Let_def add.assoc)
    moreover have "append_reduce_entry key cnt ctx = ctx\<lparr>fc_buffer := fc_buffer ctx @ key @ ?c\<rparr>"
      using False m cnt by (simp add: append_reduce_entry_def Let_def)
    moreover have "writing hb p n h2 (m\<lparr>mf_pos := mf_pos m + length (key @ ?c)\<rparr>) (ctx\<lparr>fc_buffer := fc_buffer ctx @ key @ ?c\<rparr>)"
      by (rule writing_more [OF 1(1) h2(2) only_at_trans [OF h1(3) h2(3)] room nul])
    ultimately show ?thesis by (intro exI conjI) (assumption, simp only:)
  qed
qed

text \<open>The buffer is terminated, sent and released.\<close>

lemma terminated_reply:
  assumes "buffer_in h' p n s" and "length s < n" and "NUL \<notin> set s" and "p \<noteq> 0" and "hp_blocks h p = None"
    and "\<And>x. x \<noteq> p \<Longrightarrow> hp_blocks h' x = hp_blocks h x" and "heap_ok h'"
  shows "\<exists>h1 h2. mem_store p (length s) [NUL] h' = Some h1 \<and> mem_send_reply p h1 = Some (s @ [NUL], h2)
    \<and> hp_blocks h2 = hp_blocks h \<and> hp_top h2 = hp_top h' \<and> hp_alloc h2 = hp_alloc h' \<and> heap_ok h2"
proof -
  from store_at_end [OF assms(1), of "[NUL]"] assms(2) obtain h1 where
    h1: "mem_store p (length s) [NUL] h' = Some h1" "buffer_in h1 p n (s @ [NUL])" "only_at p h' h1" by auto
  have "heap_ok h1" using only_at_ok [OF h1(3) assms(7) buffer_live [OF assms(1)]] .
  from free_buffer [OF h1(2) assms(4,5) _ this] h1(3) assms(6) obtain h2 where
    "heap_free p h1 = Some h2" "hp_blocks h2 = hp_blocks h" "hp_top h2 = hp_top h1" "hp_alloc h2 = hp_alloc h1" "heap_ok h2"
    by (auto simp: only_at_def)
  with h1 string_in_buffer [OF h1(2) assms(3)] assms(4) show ?thesis by (auto simp: mem_send_reply_def only_at_def)
qed

context buffer_writer
begin

lemma replies:
  assumes "map_object h A q hm" and "counted N hm" and "N < 2 ^ 31" and "n \<le> 2 ^ 31"
    and "wc_format append_entry (hp_alloc h) (Some hm) n = (reply, a')"
  shows "\<exists>p h1 h2. mem_wc_format mem_append q n h = Some (p, h1) \<and> mem_send_reply p h1 = Some (reply_bytes reply, h2)
    \<and> hp_blocks h2 = hp_blocks h \<and> hp_top h \<le> hp_top h2 \<and> hp_alloc h2 = a' \<and> heap_ok h2"
proof -
  let ?size = "if n \<le> 1 then 1 else n"
  obtain p h1 where m: "mem_malloc_bytes ?size h = (p, h1)" by fastforce
  from m map_object_ok [OF assms(1)] show ?thesis
  proof (cases rule: malloc_bytes_cases)
    case (fail a)
    with assms(5) m map_object_ok [OF assms(1)] show ?thesis
      by (auto simp: mem_wc_format_def wc_format_def mem_send_reply_def reply_bytes_def split: if_splits)
  next
    case (new a)
    show ?thesis
    proof (cases "n \<le> 1")
      case True
      from new(5) True have b: "buffer_in h1 p 1 []" by simp
      from terminated_reply [OF b _ _ new(2,3,9,8)] show ?thesis
        using True m new(1,2,6,7) assms(5) by (auto simp: mem_wc_format_def wc_format_def reply_bytes_def)
    next
      case False
      then have n: "1 < n" "?size = n" by simp_all
      let ?m = "\<lparr>mf_buffer = p, mf_pos = 0, mf_max_len = n, mf_overflow = False\<rparr>"
        and ?ctx = "\<lparr>fc_buffer = [], fc_max_len = n, fc_overflow = False\<rparr>"
      have "A \<subseteq> - {p}" using map_object_live [OF assms(1)] new(3) by auto
      moreover have "map_object h1 A q hm"
        by (rule map_object_kept [OF assms(1) new(8)], rule new(9)) (use calculation in auto)
      moreover have "writing h1 p n h1 ?m ?ctx" using new(5) n assms(4) by (simp add: writing_def)
      moreover have "\<forall>e \<in> set (hm_entries hm). valid_entry (fst e, snd e)" using counted_valid [OF assms(2,3)] .
      ultimately obtain m' h2 where h2: "mem_hm_foreach q (Some mem_append) ?m h1 = Some (m', h2)"
        "writing h1 p n h2 m' (hm_foreach (Some hm) (Some append_entry) ?ctx)"
        using entry.over_map [where n = n and hb = h1] by meson
      let ?s = "fc_buffer (hm_foreach (Some hm) (Some append_entry) ?ctx)"
      from h2(2) have b: "buffer_in h2 p n ?s" "length ?s < n" "NUL \<notin> set ?s" "mf_pos m' = length ?s" and o: "only_at p h1 h2"
        by (auto simp: writing_def)
      have "heap_ok h2" using only_at_ok [OF o new(8) buffer_live [OF new(5)]] .
      with terminated_reply [OF b(1-3) new(2,3)] o new(9) obtain h3 h4 where
        "mem_store p (length ?s) [NUL] h2 = Some h3" "mem_send_reply p h3 = Some (?s @ [NUL], h4)" "hp_blocks h4 = hp_blocks h"
        "hp_top h4 = hp_top h2" "hp_alloc h4 = hp_alloc h2" "heap_ok h4" by (auto simp: only_at_def)
      then show ?thesis using n m new(1,2,6,7) h2(1) b(4) o assms(5)
        by (auto simp: mem_wc_format_def wc_format_def reply_bytes_def only_at_def)
    qed
  qed
qed

end

subsection \<open>A request leaves no trace in memory\<close>

text \<open>The table is turned into the reply, the reply is sent and released, and the table is released.\<close>

lemma reply_and_release:
  assumes "buffer_writer mem_append append_entry" and "table_in h0 p N (Some h) (a, hm)" and "N < 2 ^ 31" and "n \<le> 2 ^ 31"
    and "wc_format append_entry a hm n = (reply, a')"
  shows "\<exists>q h1 h2 h3. mem_wc_format mem_append p n h = Some (q, h1) \<and> mem_send_reply q h1 = Some (reply_bytes reply, h2)
    \<and> mem_hm_free p h2 = Some h3 \<and> hp_blocks h3 = hp_blocks h0 \<and> hp_alloc h3 = a' \<and> heap_ok h3"
proof -
  from assms(2) obtain A m where t: "hm = Some m" "a = hp_alloc h" "map_object h A p m" "frame h0 {} h A" "counted N m" "heap_ok h0"
    by (auto simp: table_in_def)
  from buffer_writer.replies [OF assms(1) t(3,5) assms(3,4)] assms(5) t(1,2) obtain q h1 h2 where
    h2: "mem_wc_format mem_append p n h = Some (q, h1)" "mem_send_reply q h1 = Some (reply_bytes reply, h2)"
      "hp_blocks h2 = hp_blocks h" "hp_top h \<le> hp_top h2" "hp_alloc h2 = a'" "heap_ok h2" by blast
  have "map_object h2 A p m" by (rule map_object_kept [OF t(3) h2(6)]) (simp add: h2(3))
  from free_mem [OF this] obtain h3 where
    h3: "mem_hm_free p h2 = Some h3" "hp_alloc h3 = hp_alloc h2" "heap_ok h3" "frame h2 A h3 {}" by blast
  have "frame h A h2 A" using h2(3,4) by (simp add: frame_def)
  from frame_trans [OF frame_trans [OF t(4) this t(6)] h3(4) t(6)] have "hp_blocks h3 = hp_blocks h0" by (rule frame_empty)
  with h2 h3 show ?thesis by auto
qed

lemma handle_map_mem:
  assumes "heap_ok h" and "length s < 2 ^ 30" and "n \<le> 2 ^ 31" and "handle_map (hp_alloc h) s n = (reply, a')"
  shows "\<exists>h'. mem_handle_map s n h = Some (reply, h') \<and> hp_blocks h' = hp_blocks h \<and> hp_alloc h' = a' \<and> heap_ok h'"
proof -
  obtain hm a1 where create: "hm_create (hp_alloc h) 1024 = (hm, a1)" by fastforce
  from create_mem [OF assms(1) create] obtain p h1 where
    run: "mem_hm_create 1024 h = Some (p, h1)" "hp_alloc h1 = a1" "heap_ok h1"
    and res: "case hm of None \<Rightarrow> p = 0 \<and> hp_blocks h1 = hp_blocks h
       | Some m \<Rightarrow> p \<noteq> 0 \<and> (\<exists>A. map_object h1 A p m \<and> frame h {} h1 A)" by blast
  show ?thesis
  proof (cases hm)
    case None
    with run res create assms(4) show ?thesis by (auto simp: mem_handle_map_def handle_map_def)
  next
    case (Some m)
    with res run create_counted [of "hp_alloc h" 1024] create assms(1) have
      start: "table_in h p 0 (Some h1) (a1, Some m)" "p \<noteq> 0" by (auto simp: table_in_def)
    from in_memory.scans [OF start(1), of "[]" s] assms(2) have
      end_: "table_in h p (length s + 1) (wc_scan (mem_put p) (Some h1) [] s) (wc_scan hm_store_put (a1, Some m) [] s)" by simp
    then obtain h2 a2 hm2 where h2: "wc_scan (mem_put p) (Some h1) [] s = Some h2" "wc_scan hm_store_put (a1, Some m) [] s = (a2, Some hm2)"
      by (auto simp: table_in_def)
    obtain r a3 where fmt: "wc_format append_map_entry a2 (Some hm2) n = (r, a3)" by fastforce
    from reply_and_release [OF map_writer.buffer_writer_axioms end_ [unfolded h2] _ assms(3) fmt] assms(2) obtain q h3 h4 h5 where
      "mem_wc_format mem_append_map_entry p n h2 = Some (q, h3)" "mem_send_reply q h3 = Some (reply_bytes r, h4)"
      "mem_hm_free p h4 = Some h5" "hp_blocks h5 = hp_blocks h" "hp_alloc h5 = a3" "heap_ok h5" by auto
    with Some run(1) start(2) h2 fmt create assms(4) show ?thesis
      by (auto simp: mem_handle_map_def handle_map_def mem_wc_tokenize_and_count_def wc_tokenize_and_count_def
          mem_wc_to_map_format_def wc_to_map_format_def)
  qed
qed

lemma handle_red_mem:
  assumes "heap_ok h" and "length s < 2 ^ 30" and "n \<le> 2 ^ 31" and "handle_red (hp_alloc h) s n = (reply, a')"
  shows "\<exists>h'. mem_handle_red s n h = Some (reply, h') \<and> hp_blocks h' = hp_blocks h \<and> hp_alloc h' = a' \<and> heap_ok h'"
proof -
  obtain hm a1 where create: "hm_create (hp_alloc h) 1024 = (hm, a1)" by fastforce
  from create_mem [OF assms(1) create] obtain p h1 where
    run: "mem_hm_create 1024 h = Some (p, h1)" "hp_alloc h1 = a1" "heap_ok h1"
    and res: "case hm of None \<Rightarrow> p = 0 \<and> hp_blocks h1 = hp_blocks h
       | Some m \<Rightarrow> p \<noteq> 0 \<and> (\<exists>A. map_object h1 A p m \<and> frame h {} h1 A)" by blast
  show ?thesis
  proof (cases hm)
    case None
    with run res create assms(4) show ?thesis
      by (auto simp: mem_handle_red_def handle_red_def mem_wc_from_map_format_def wc_from_map_format_def)
  next
    case (Some m)
    let ?parse = "\<lambda>put t. wp_end put (fold (\<lambda>c p. wc_parse_step put p c) s
      \<lparr>wp_state = STATE_START, wp_word = [], wp_count = 0, wp_map = t\<rparr>)"
    from Some res run create_counted [of "hp_alloc h" 1024] create assms(1) have
      start: "table_in h p 0 (Some h1) (a1, Some m)" "p \<noteq> 0" by (auto simp: table_in_def)
    from in_memory.parses_all [OF start(1), of s] assms(2) have
      end_: "table_in h p (length s) (?parse (mem_put p) (Some h1)) (?parse hm_store_put (a1, Some m))" by simp
    then obtain h2 a2 hm2 where h2: "?parse (mem_put p) (Some h1) = Some h2" "?parse hm_store_put (a1, Some m) = (a2, Some hm2)"
      by (auto simp: table_in_def)
    obtain r a3 where fmt: "wc_format append_reduce_entry a2 (Some hm2) n = (r, a3)" by fastforce
    from reply_and_release [OF reduce_writer.buffer_writer_axioms end_ [unfolded h2] _ assms(3) fmt] assms(2) obtain q h3 h4 h5 where
      "mem_wc_format mem_append_reduce_entry p n h2 = Some (q, h3)" "mem_send_reply q h3 = Some (reply_bytes r, h4)"
      "mem_hm_free p h4 = Some h5" "hp_blocks h5 = hp_blocks h" "hp_alloc h5 = a3" "heap_ok h5" by auto
    with Some run(1) start(2) h2 fmt create assms(4) show ?thesis
      by (auto simp: mem_handle_red_def handle_red_def mem_wc_from_map_format_def wc_from_map_format_def
          mem_wc_to_reduce_format_def wc_to_reduce_format_def)
  qed
qed

lemma parse_msg_len_le: "parse_msg_len p \<le> MAX_MSG_LEN"
  by (induction p rule: parse_msg_len.induct) (simp_all add: Let_def)

lemma handle_message_mem:
  assumes "heap_ok h" and "handle_message (hp_alloc h) msg = Inr (reply, close, a')"
  shows "\<exists>h'. mem_handle_message msg h = Some ((reply, close), h') \<and> hp_blocks h' = hp_blocks h \<and> hp_alloc h' = a' \<and> heap_ok h'"
proof -
  let ?new = "is_new_protocol msg"
  let ?len = "if ?new then parse_msg_len (drop 3 msg) else MAX_MSG_LEN" and ?s = "c_str (drop (if ?new then HEADER_LEN else 3) msg)"
  have short: "length msg < RECV_BUFFER_SIZE" using assms(2) by (auto simp: handle_message_def split: if_splits)
  have "length ?s \<le> length msg" using length_c_str le_trans [OF _ diff_le_self] by (metis length_drop)
  with short have s: "length ?s < 2 ^ 30" by (simp add: RECV_BUFFER_SIZE_def)
  have n: "?len \<le> 2 ^ 31" using parse_msg_len_le [of "drop 3 msg"] by (auto simp: MAX_MSG_LEN_def)
  obtain rm am where m: "handle_map (hp_alloc h) ?s ?len = (rm, am)" by fastforce
  obtain rr ar where r: "handle_red (hp_alloc h) ?s ?len = (rr, ar)" by fastforce
  from handle_map_mem [OF assms(1) s n m] handle_red_mem [OF assms(1) s n r] obtain hm hr where
    "mem_handle_map ?s ?len h = Some (rm, hm)" "hp_blocks hm = hp_blocks h" "hp_alloc hm = am" "heap_ok hm"
    "mem_handle_red ?s ?len h = Some (rr, hr)" "hp_blocks hr = hp_blocks h" "hp_alloc hr = ar" "heap_ok hr" by blast
  with assms m r short show ?thesis
    by (cases "length msg < 3")
      (simp add: mem_handle_message_def handle_message_def, simp add: mem_handle_message_def handle_message_def Let_def split: if_split_asm)
qed

text \<open>The requests of a worker one after the other, in the model without memory.\<close>

fun handle_messages :: "alloc \<Rightarrow> char list list \<Rightarrow> worker_error + ((char list \<times> bool) list \<times> alloc)" where
  "handle_messages a [] = Inr ([], a)"
| "handle_messages a (m # ms) =
     (case handle_message a m of
        Inl e \<Rightarrow> Inl e
      | Inr (reply, close, a1) \<Rightarrow>
         (case handle_messages a1 ms of Inl e \<Rightarrow> Inl e | Inr (rs, a2) \<Rightarrow> Inr ((reply, close) # rs, a2)))"

lemma handle_message_returns:
  "length m < RECV_BUFFER_SIZE \<Longrightarrow> \<exists>reply close a'. handle_message a m = Inr (reply, close, a')"
  unfolding handle_message_def Let_def by (auto split: prod.splits)

text \<open>C20: Any sequence of requests that a worker serves, of any bytes and whichever allocations fail, only accesses
  live memory, stores every byte of a reply inside its buffer and reads no byte that was not written;
  the replies are those of the request handler of the model, and behind the last request exactly the
  blocks from before are allocated, with their contents: a worker does not leak.  The requests must be
  shorter than the receive buffer, as the terminator is stored behind longer ones.\<close>

theorem worker_requests_are_memory_safe:
  assumes "heap_ok h" and "\<forall>m \<in> set ms. length m < RECV_BUFFER_SIZE"
  shows "\<exists>rs a' h'. handle_messages (hp_alloc h) ms = Inr (rs, a') \<and> mem_handle_messages ms h = Some (rs, h')
    \<and> hp_blocks h' = hp_blocks h \<and> hp_alloc h' = a'"
  using assms
proof (induction ms arbitrary: h)
  case Nil
  then show ?case by simp
next
  case (Cons m ms)
  from Cons.prems(2) handle_message_returns [of m "hp_alloc h"] obtain reply close a1 where
    one: "handle_message (hp_alloc h) m = Inr (reply, close, a1)" by auto
  from handle_message_mem [OF Cons.prems(1) one] obtain h1 where
    h1: "mem_handle_message m h = Some ((reply, close), h1)" "hp_blocks h1 = hp_blocks h" "hp_alloc h1 = a1" "heap_ok h1" by blast
  from Cons.IH [OF h1(4)] Cons.prems(2) obtain rs a2 h2 where
    "handle_messages a1 ms = Inr (rs, a2)" "mem_handle_messages ms h1 = Some (rs, h2)" "hp_blocks h2 = hp_blocks h1" "hp_alloc h2 = a2"
    using h1(3) by auto
  with one h1 show ?case by simp
qed

lemma worker_requests_are_memory_safe_witness:
  "\<exists>h'. mem_handle_messages [map_request ''To be'', ''rip'' @ [NUL]] (empty_heap [False])
      = Some ([(empty_reply, False), (''rip'' @ [NUL], True)], h') \<and> hp_blocks h' = Map.empty"
proof -
  have new: "is_new_protocol (map_request ''To be'') = False" "is_new_protocol (''rip'' @ [NUL]) = False" by code_simp+
  have l: "\<forall>m \<in> set [map_request ''To be'', ''rip'' @ [NUL]]. length m < RECV_BUFFER_SIZE"
    by (simp add: map_request_def RECV_BUFFER_SIZE_def)
  have t: "take 3 (map_request ''To be'') = ''map''" "3 \<le> length (map_request ''To be'')" by (simp_all add: map_request_def)
  have "handle_messages [False] [map_request ''To be'', ''rip'' @ [NUL]]
      = Inr ([(empty_reply, False), (''rip'' @ [NUL], True)], [])"
    using new l t by (simp add: handle_message_def handle_map_def hm_create_def Let_def)
  with worker_requests_are_memory_safe [OF empty_heap_ok l, of "[False]"] show ?thesis by (auto simp: empty_heap_def)
qed

end
