(* ===== verification/Heap_Combine.thy ===== *)
theory Heap_Combine
  imports Heap_Bytes Combine
begin

section \<open>Combining in memory (mapreduce-wordcount/combine.c)\<close>

text \<open>
  \<open>combine_and_print\<close> over the heap: the growing array of entries, the copy of every word, and each \<open>free\<close>.
  A slot of the array is unset until it is written; an access behind the array, or to an unset slot,
  is undefined behaviour.  The text that is combined lies in a buffer that nobody writes meanwhile.
\<close>

definition entries_at :: "block heap \<Rightarrow> addr \<Rightarrow> (addr \<times> i64) option list option" where
  "entries_at h t = (case hp_blocks h t of Some (Entries_block es) \<Rightarrow> Some es | _ \<Rightarrow> None)"

definition mem_entry :: "block heap \<Rightarrow> addr \<Rightarrow> nat \<Rightarrow> (addr \<times> i64) option" where
  "mem_entry h t i = do { es \<leftarrow> entries_at h t; if i < length es then es ! i else None }"

definition mem_set_entry :: "addr \<Rightarrow> nat \<Rightarrow> addr \<times> i64 \<Rightarrow> block heap \<Rightarrow> block heap option" where
  "mem_set_entry t i e h =
     do { es \<leftarrow> entries_at h t; if i < length es then heap_write t (Entries_block (es[i := Some e])) h else None }"

text \<open>\<open>realloc(entries, cap * sizeof(entry_t))\<close>.\<close>

definition resize_entries :: "nat \<Rightarrow> block \<Rightarrow> block" where
  "resize_entries cap b =
     (case b of Entries_block es \<Rightarrow> Entries_block (take cap es @ replicate (cap - length es) None) | _ \<Rightarrow> b)"

text \<open>The search for \<open>word\<close> from slot \<open>i\<close> on, among \<open>k\<close> entries.\<close>

fun mem_entry_index :: "block heap \<Rightarrow> addr \<Rightarrow> addr \<Rightarrow> nat \<Rightarrow> nat \<Rightarrow> nat option option" where
  "mem_entry_index h t word i 0 = Some None"
| "mem_entry_index h t word i (Suc k) =
     do {
       (w, c) \<leftarrow> mem_entry h t i;
       s \<leftarrow> text_at h w;
       s' \<leftarrow> text_at h word;
       if strcmp s s' = 0 then Some (Some i) else mem_entry_index h t word (Suc i) k
     }"

text \<open>The array: its capacity, its length and its address.\<close>

type_synonym entries = "nat \<times> nat \<times> addr"

text \<open>Adding the count of \<open>word\<close>; the flag tells that the function returns.\<close>

definition mem_accumulate :: "entries \<Rightarrow> addr \<Rightarrow> i64 \<Rightarrow> block heap \<Rightarrow> (bool \<times> entries \<times> block heap) option" where
  "mem_accumulate v word cnt h =
     (case v of (cap, len, t) \<Rightarrow>
        do {
          found \<leftarrow> mem_entry_index h t word 0 len;
          case found of
            Some i \<Rightarrow> do {
              (w, c) \<leftarrow> mem_entry h t i;
              h1 \<leftarrow> mem_set_entry t i (w, c + cnt) h;
              h2 \<leftarrow> heap_free word h1;
              Some (False, (cap, len, t), h2)
            }
          | None \<Rightarrow>
              (if len = cap then do {
                 (t', h1) \<leftarrow> heap_realloc t (resize_entries (cap * 2)) h;
                 if t' = 0 then do { h2 \<leftarrow> heap_free word h1; Some (True, (cap * 2, len, 0), h2) }
                 else do { h2 \<leftarrow> mem_set_entry t' len (word, cnt) h1; Some (False, (cap * 2, len + 1, t'), h2) }
               } else do {
                 h1 \<leftarrow> mem_set_entry t len (word, cnt) h;
                 Some (False, (cap, len + 1, t), h1)
               })
        })"

partial_function (option) mem_combine_parse :: "entries \<Rightarrow> string \<Rightarrow> block heap \<Rightarrow> (bool \<times> entries \<times> block heap) option" where
  "mem_combine_parse v p h =
     (let p1 = dropWhile (\<lambda>c. \<not> is_alpha c) p in
      if p1 = [] then Some (False, v, h)
      else (let p2 = dropWhile is_alpha p1; (word, h1) = heap_malloc (Text_block (takeWhile is_alpha p1)) h in
        if word = 0 then Some (False, v, h1)
        else (let digits = takeWhile is_digit p2; p3 = dropWhile is_digit p2 in
          if digits = [] then do { h2 \<leftarrow> heap_free word h1; mem_combine_parse v p3 h2 }
          else do {
            (return, v', h2) \<leftarrow> mem_accumulate v word (read_count digits) h1;
            if return then Some (True, v', h2) else mem_combine_parse v' p3 h2
          })))"

text \<open>\<open>qsort(entries, len, sizeof(entry_t), cmp_by_count_desc_word_asc)\<close>: the comparison reads the words.\<close>

definition mem_cmp :: "block heap \<Rightarrow> addr \<times> i64 \<Rightarrow> addr \<times> i64 \<Rightarrow> int" where
  "mem_cmp h x y = cmp_by_count_desc_word_asc (Entry (the (text_at h (fst x))) (snd x)) (Entry (the (text_at h (fst y))) (snd y))"

definition mem_qsort :: "addr \<Rightarrow> nat \<Rightarrow> block heap \<Rightarrow> block heap option" where
  "mem_qsort t len h =
     do {
       es \<leftarrow> entries_at h t;
       if length es < len \<or> (\<exists>e \<in> set (take len es). case e of None \<Rightarrow> True | Some (w, c) \<Rightarrow> text_at h w = None) then None
       else heap_write t (Entries_block (map Some (qsort (mem_cmp h) (map the (take len es))) @ drop len es)) h
     }"

text \<open>The loop that prints an entry and releases its word, from slot \<open>i\<close> on, \<open>k\<close> entries.\<close>

fun mem_print_entries :: "addr \<Rightarrow> nat \<Rightarrow> nat \<Rightarrow> block heap \<Rightarrow> (string \<times> block heap) option" where
  "mem_print_entries t i 0 h = Some ([], h)"
| "mem_print_entries t i (Suc k) h =
     do {
       (w, c) \<leftarrow> mem_entry h t i;
       s \<leftarrow> text_at h w;
       h1 \<leftarrow> heap_free w h;
       (out, h2) \<leftarrow> mem_print_entries t (Suc i) k h1;
       Some (csv_line (Entry s c) @ out, h2)
     }"

definition mem_combine_and_print :: "string option \<Rightarrow> block heap \<Rightarrow> (string \<times> block heap) option" where
  "mem_combine_and_print reduce_data h =
     (case reduce_data of None \<Rightarrow> Some ([], h)
      | Some data \<Rightarrow>
         if data = [] then Some ([], h)
         else (let (t, h1) = heap_malloc (Entries_block (replicate 128 None)) h in
           if t = 0 then Some ([], h1)
           else do {
             (return, (cap, len, t'), h2) \<leftarrow> mem_combine_parse (128, 0, t) data h1;
             if return then Some ([], h2)
             else do {
               h3 \<leftarrow> mem_qsort t' len h2;
               (out, h4) \<leftarrow> mem_print_entries t' 0 len h3;
               h5 \<leftarrow> heap_free t' h4;
               Some (csv_header @ out, h5)
             }
           }))"

subsection \<open>An array of entries in memory\<close>

definition row_entry :: "block heap \<Rightarrow> addr \<times> i64 \<Rightarrow> entry" where
  "row_entry h r = Entry (the (text_at h (fst r))) (snd r)"

text \<open>The rows \<open>rs\<close> of the array are the entries \<open>es\<close>.\<close>

definition rows_in :: "block heap \<Rightarrow> (addr \<times> i64) list \<Rightarrow> entry list \<Rightarrow> bool" where
  "rows_in h rs es \<longleftrightarrow> (\<forall>r \<in> set rs. fst r \<noteq> 0 \<and> text_at h (fst r) \<noteq> None) \<and> es = map (row_entry h) rs"

text \<open>Beside the blocks \<open>base\<close>, exactly the array and the words of its entries are allocated.\<close>

definition entries_in :: "(addr \<rightharpoonup> block) \<Rightarrow> block heap \<Rightarrow> entries \<Rightarrow> entry list \<Rightarrow> bool" where
  "entries_in base h v es \<longleftrightarrow> (case v of (cap, len, t) \<Rightarrow> heap_ok h \<and> t \<noteq> 0 \<and> 0 < cap \<and> len \<le> cap
     \<and> (\<exists>rs. hp_blocks h t = Some (Entries_block (map Some rs @ replicate (cap - len) None)) \<and> length rs = len
         \<and> rows_in h rs es \<and> distinct (t # map fst rs) \<and> (\<forall>x \<in> set (t # map fst rs). base x = None)
         \<and> (\<forall>x. x \<notin> set (t # map fst rs) \<longrightarrow> hp_blocks h x = base x)))"

lemma text_at_cong: "hp_blocks h' x = hp_blocks h x \<Longrightarrow> text_at h' x = text_at h x"
  by (simp add: text_at_def)

lemma rows_in_cong: "(\<And>r. r \<in> set rs \<Longrightarrow> hp_blocks h' (fst r) = hp_blocks h (fst r)) \<Longrightarrow> rows_in h' rs es = rows_in h rs es"
  by (auto simp: rows_in_def row_entry_def text_at_cong [of h' _ h])

lemma rows_in_length: "rows_in h rs es \<Longrightarrow> length es = length rs"
  by (simp add: rows_in_def)

lemma entries_inE:
  assumes "entries_in base h (cap, len, t) es"
  obtains rs where "heap_ok h" "t \<noteq> 0" "0 < cap" "len \<le> cap" "length rs = len" "length es = len"
    "hp_blocks h t = Some (Entries_block (map Some rs @ replicate (cap - len) None))" "rows_in h rs es"
    "distinct (t # map fst rs)" "\<forall>x \<in> set (t # map fst rs). base x = None"
    "\<forall>x. x \<notin> set (t # map fst rs) \<longrightarrow> hp_blocks h x = base x"
proof -
  from assms obtain rs where "heap_ok h" "t \<noteq> 0" "0 < cap" "len \<le> cap" "length rs = len" 
    "hp_blocks h t = Some (Entries_block (map Some rs @ replicate (cap - len) None))" "rows_in h rs es"
    "distinct (t # map fst rs)" "\<forall>x \<in> set (t # map fst rs). base x = None"
    "\<forall>x. x \<notin> set (t # map fst rs) \<longrightarrow> hp_blocks h x = base x"
    unfolding entries_in_def prod.case by blast
  note r = this
  have "length es = len" using rows_in_length [OF r(7)] r(5) by simp
  from r(1-5) this r(6-10) show thesis by (rule that)
qed

lemma entries_inI:
  assumes "heap_ok h" "t \<noteq> 0" "0 < cap" "len \<le> cap" "length rs = len"
    "hp_blocks h t = Some (Entries_block (map Some rs @ replicate (cap - len) None))" "rows_in h rs es"
    "distinct (t # map fst rs)" "\<And>x. x \<in> set (t # map fst rs) \<Longrightarrow> base x = None"
    "\<And>x. x \<notin> set (t # map fst rs) \<Longrightarrow> hp_blocks h x = base x"
  shows "entries_in base h (cap, len, t) es"
  using assms by (auto simp: entries_in_def)

lemma entry_in_row:
  assumes "hp_blocks h t = Some (Entries_block (map Some rs @ post))" and "i < length rs"
  shows "mem_entry h t i = Some (rs ! i)"
  using assms by (simp add: mem_entry_def entries_at_def nth_append)

lemma index_mem:
  assumes "hp_blocks h t = Some (Entries_block (map Some rs @ post))" and "rows_in h rs es" and "text_at h w = Some s"
  shows "i + k = length rs \<Longrightarrow> mem_entry_index h t w i k = Some (map_option (\<lambda>j. i + j) (entry_index (drop i es) s))"
proof (induction k arbitrary: i)
  case 0
  then show ?case using rows_in_length [OF assms(2)] by simp
next
  case (Suc k)
  then have i: "i < length rs" "i < length es" using rows_in_length [OF assms(2)] by simp_all
  obtain a c where r: "rs ! i = (a, c)" by (cases "rs ! i")
  have "rs ! i \<in> set rs" using i by simp
  then obtain u where u: "text_at h a = Some u" "es ! i = Entry u c"
    using assms(2) r i by (auto simp: rows_in_def row_entry_def)
  have "drop i es = es ! i # drop (Suc i) es" using i(2) by (simp add: Cons_nth_drop_Suc)
  with Suc.IH [of "Suc i"] Suc.prems entry_in_row [OF assms(1) i(1)] r u assms(3) show ?case
    by (auto simp: option.map_comp comp_def intro!: arg_cong [where f = Some] option.map_cong)
qed

lemma write_row:
  assumes "hp_blocks h t = Some (Entries_block es)" and "i < length es"
  shows "mem_set_entry t i e h = Some (h\<lparr>hp_blocks := (hp_blocks h)(t \<mapsto> Entries_block (es[i := Some e]))\<rparr>)"
  using assms by (simp add: mem_set_entry_def entries_at_def heap_write_def)

text \<open>The count of a word that is there already; its second copy, which the base holds, is released.\<close>

lemma add_found:
  assumes e: "entries_in (base(w \<mapsto> Text_block s)) h (cap, len, t) es" and w: "base w = None" "w \<noteq> 0"
    and i: "entry_index es s = Some i"
  shows "\<exists>h'. mem_accumulate (cap, len, t) w cnt h = Some (False, (cap, len, t), h')
    \<and> entries_in base h' (cap, len, t) (es[i := Entry (en_word (es ! i)) (en_count (es ! i) + cnt)]) \<and> hp_alloc h' = hp_alloc h"
proof -
  from e obtain rs where ok: "heap_ok h" and c: "t \<noteq> 0" "0 < cap" "len \<le> cap" "length rs = len" and l: "length es = len"
    and t: "hp_blocks h t = Some (Entries_block (map Some rs @ replicate (cap - len) None))" and r: "rows_in h rs es"
    and d: "distinct (t # map fst rs)" and new: "\<forall>x \<in> set (t # map fst rs). (base(w \<mapsto> Text_block s)) x = None"
    and old: "\<forall>x. x \<notin> set (t # map fst rs) \<longrightarrow> hp_blocks h x = (base(w \<mapsto> Text_block s)) x" by (rule entries_inE)
  have w': "w \<notin> set (t # map fst rs)" using new by force
  then have wt: "hp_blocks h w = Some (Text_block s)" using old by simp
  have i': "i < length rs" using entry_index_Some [OF i] c(4) l by simp
  obtain a k where row: "rs ! i = (a, k)" by (cases "rs ! i")
  let ?rs = "rs[i := (a, k + cnt)]"
  let ?h1 = "h\<lparr>hp_blocks := (hp_blocks h)(t \<mapsto> Entries_block (map Some ?rs @ replicate (cap - len) None))\<rparr>"
  let ?h2 = "?h1\<lparr>hp_blocks := (hp_blocks ?h1)(w := None)\<rparr>"
  have keys: "map fst ?rs = map fst rs" using i' row by (simp add: map_update list_update_same_conv)
  have es: "es = map (row_entry h) rs" using r by (simp add: rows_in_def)
  then have ei: "es ! i = Entry (the (text_at h a)) k" using i' row by (simp add: row_entry_def)
  have same: "hp_blocks ?h2 x = hp_blocks h x" if "x \<noteq> t" "x \<noteq> w" for x using that by simp
  have "rows_in h ?rs (es[i := Entry (en_word (es ! i)) (en_count (es ! i) + cnt)])"
    unfolding rows_in_def
  proof
    show "\<forall>r \<in> set ?rs. fst r \<noteq> 0 \<and> text_at h (fst r) \<noteq> None"
    proof
      fix r' assume "r' \<in> set ?rs"
      then have "fst r' \<in> set (map fst ?rs)" by simp
      then have "fst r' \<in> set (map fst rs)" by (simp only: keys)
      then show "fst r' \<noteq> 0 \<and> text_at h (fst r') \<noteq> None" using r by (auto simp: rows_in_def)
    qed
    show "es[i := Entry (en_word (es ! i)) (en_count (es ! i) + cnt)] = map (row_entry h) ?rs"
      using ei by (simp add: es map_update row_entry_def)
  qed
  moreover have "rows_in ?h2 ?rs es' = rows_in h ?rs es'" for es'
  proof (rule rows_in_cong, rule same)
    fix r' assume "r' \<in> set ?rs"
    then have "fst r' \<in> set (map fst ?rs)" by simp
    then have "fst r' \<in> set (map fst rs)" by (simp only: keys)
    then show "fst r' \<noteq> t" "fst r' \<noteq> w" using d w' by auto
  qed
  ultimately have rows: "rows_in ?h2 ?rs (es[i := Entry (en_word (es ! i)) (en_count (es ! i) + cnt)])" by simp
  have live: "hp_blocks ?h1 w = Some (Text_block s)" using wt w' by simp
  have "heap_ok ?h1" by (rule heap_ok_update [OF ok]) (use t in auto)
  then have "heap_ok ?h2" by (rule heap_ok_update) auto
  moreover have "hp_blocks ?h2 t = Some (Entries_block (map Some ?rs @ replicate (cap - len) None))" using w' by auto
  moreover have lr: "length ?rs = len" using c(4) by simp
  ultimately have "entries_in base ?h2 (cap, len, t) (es[i := Entry (en_word (es ! i)) (en_count (es ! i) + cnt)])"
  proof (intro entries_inI [OF _ c(1-3) lr _ rows])
    show "distinct (t # map fst ?rs)" unfolding keys by (rule d)
    show "base x = None" if "x \<in> set (t # map fst ?rs)" for x
      using that new w' unfolding keys by (metis fun_upd_other)
    show "hp_blocks ?h2 x = base x" if "x \<notin> set (t # map fst ?rs)" for x
      using that old w(1) unfolding keys by auto
  qed
  moreover have "mem_entry_index h t w 0 len = Some (Some i)"
    using index_mem [OF t r, of w s 0 len] i wt c(4) by (simp add: text_at_def)
  moreover have "mem_set_entry t i (a, k + cnt) h = Some ?h1"
    using write_row [OF t, of i] i' by (simp add: list_update_append map_update)
  moreover have "mem_entry h t i = Some (a, k)" using entry_in_row [OF t i'] row by simp
  moreover have "heap_free w ?h1 = Some ?h2" using heap_free_live [OF live w(2)] .
  ultimately show ?thesis by (simp add: mem_accumulate_def)
qed

text \<open>A copy that is not used is released.\<close>

lemma release_word:
  assumes e: "entries_in (base(w \<mapsto> Text_block s)) h (cap, len, t) es" and w: "base w = None" "w \<noteq> 0"
  shows "\<exists>h'. heap_free w h = Some h' \<and> entries_in base h' (cap, len, t) es \<and> hp_alloc h' = hp_alloc h"
proof -
  from e obtain rs where ok: "heap_ok h" and c: "t \<noteq> 0" "0 < cap" "len \<le> cap" "length rs = len" and l: "length es = len"
    and t: "hp_blocks h t = Some (Entries_block (map Some rs @ replicate (cap - len) None))" and r: "rows_in h rs es"
    and d: "distinct (t # map fst rs)" and new: "\<forall>x \<in> set (t # map fst rs). (base(w \<mapsto> Text_block s)) x = None"
    and old: "\<forall>x. x \<notin> set (t # map fst rs) \<longrightarrow> hp_blocks h x = (base(w \<mapsto> Text_block s)) x" by (rule entries_inE)
  have w': "w \<notin> set (t # map fst rs)" using new by force
  then have wt: "hp_blocks h w = Some (Text_block s)" using old by simp
  let ?h = "h\<lparr>hp_blocks := (hp_blocks h)(w := None)\<rparr>"
  have "heap_ok ?h" by (rule heap_ok_update [OF ok]) auto
  moreover have "rows_in ?h rs es = rows_in h rs es" by (rule rows_in_cong) (use w' in auto)
  moreover have "base x = None" if "x \<in> set (t # map fst rs)" for x using that new w' by (metis fun_upd_other)
  moreover have "hp_blocks ?h x = base x" if "x \<notin> set (t # map fst rs)" for x using that old w(1) by auto
  ultimately have "entries_in base ?h (cap, len, t) es" using r t c d w' by (intro entries_inI [where rs = rs]) auto
  with heap_free_live [OF wt w(2)] show ?thesis by auto
qed

text \<open>A new word goes into the next slot; its copy moves from the base into the array.\<close>

lemma add_slot:
  assumes e: "entries_in (base(w \<mapsto> Text_block s)) h (cap, len, t) es" and w: "base w = None" "w \<noteq> 0" and room: "len < cap"
  shows "\<exists>h'. mem_set_entry t len (w, cnt) h = Some h' \<and> entries_in base h' (cap, len + 1, t) (es @ [Entry s cnt])
    \<and> hp_alloc h' = hp_alloc h"
proof -
  from e obtain rs where ok: "heap_ok h" and c: "t \<noteq> 0" "0 < cap" "len \<le> cap" "length rs = len" and l: "length es = len"
    and t: "hp_blocks h t = Some (Entries_block (map Some rs @ replicate (cap - len) None))" and r: "rows_in h rs es"
    and d: "distinct (t # map fst rs)" and new: "\<forall>x \<in> set (t # map fst rs). (base(w \<mapsto> Text_block s)) x = None"
    and old: "\<forall>x. x \<notin> set (t # map fst rs) \<longrightarrow> hp_blocks h x = (base(w \<mapsto> Text_block s)) x" by (rule entries_inE)
  have w': "w \<notin> set (t # map fst rs)" using new by force
  then have wt: "hp_blocks h w = Some (Text_block s)" using old by simp
  let ?rs = "rs @ [(w, cnt)]"
  let ?h = "h\<lparr>hp_blocks := (hp_blocks h)(t \<mapsto> Entries_block (map Some ?rs @ replicate (cap - (len + 1)) None))\<rparr>"
  have "heap_ok ?h" by (rule heap_ok_update [OF ok]) (use t in auto)
  moreover have "rows_in ?h ?rs (es @ [Entry s cnt])"
  proof -
    have "rows_in h ?rs (es @ [Entry s cnt])" using r wt w(2) by (simp add: rows_in_def row_entry_def text_at_def)
    moreover have "rows_in ?h ?rs (es @ [Entry s cnt]) = rows_in h ?rs (es @ [Entry s cnt])"
      by (rule rows_in_cong) (use d w' in auto)
    ultimately show ?thesis by simp
  qed
  moreover have "length ?rs = len + 1" "len + 1 \<le> cap" using c(4) room by simp_all
  moreover have "distinct (t # map fst ?rs)" using d w' by auto
  moreover have "base x = None" if "x \<in> set (t # map fst ?rs)" for x
    using that new w(1) w' by (cases "x = w") (auto split: if_splits)
  moreover have "hp_blocks ?h x = base x" if "x \<notin> set (t # map fst ?rs)" for x using that old by auto
  ultimately have "entries_in base ?h (cap, len + 1, t) (es @ [Entry s cnt])"
    by (intro entries_inI [where rs = "rs @ [(w, cnt)]"] c(1,2)) simp_all
  moreover have "replicate (cap - len) None = None # replicate (cap - (len + 1)) (None :: (addr \<times> i64) option)"
    using room by (simp flip: replicate_Suc add: Suc_diff_Suc)
  then have "mem_set_entry t len (w, cnt) h = Some ?h"
    using write_row [OF t, of len] c(4) room by (simp add: list_update_append)
  ultimately show ?thesis by auto
qed

text \<open>The array is full: it moves to one of twice the size, or stays where it is.\<close>

lemma grow_array:
  assumes e: "entries_in base h (cap, cap, t) es" and m: "malloc (hp_alloc h) = (good, a)"
  shows "\<exists>t' h'. heap_realloc t (resize_entries (cap * 2)) h = Some (t', h') \<and> hp_alloc h' = a
    \<and> (if good then entries_in base h' (cap * 2, cap, t') es else t' = 0 \<and> entries_in base h' (cap, cap, t) es)"
proof -
  from e obtain rs where ok: "heap_ok h" and c: "t \<noteq> 0" "0 < cap" "length rs = cap"
    and t: "hp_blocks h t = Some (Entries_block (map Some rs @ replicate (cap - cap) None))" and r: "rows_in h rs es"
    and d: "distinct (t # map fst rs)" and new: "\<forall>x \<in> set (t # map fst rs). base x = None"
    and old: "\<forall>x. x \<notin> set (t # map fst rs) \<longrightarrow> hp_blocks h x = base x" by (rule entries_inE)
  from t ok show ?thesis
  proof (cases rule: heap_realloc_cases [where resize = "resize_entries (cap * 2)"])
    case (fail a')
    have "rows_in (h\<lparr>hp_alloc := a\<rparr>) rs es" using r rows_in_cong [of rs "h\<lparr>hp_alloc := a\<rparr>" h es] by simp
    then have "entries_in base (h\<lparr>hp_alloc := a\<rparr>) (cap, cap, t) es"
      using ok c t d new old by (intro entries_inI [where rs = rs]) auto
    with fail m show ?thesis by auto
  next
    case (moved a' q h')
    have q: "q \<notin> set (t # map fst rs)"
    proof
      assume "q \<in> set (t # map fst rs)"
      then have "q \<in> set (map fst rs)" using moved(4) by simp
      then obtain x where "x \<in> set rs" "fst x = q" by auto
      then show False using r moved(5) by (auto simp: rows_in_def text_at_def)
    qed
    have block: "resize_entries (cap * 2) (Entries_block (map Some rs @ replicate (cap - cap) None))
      = Entries_block (map Some rs @ replicate (cap * 2 - cap) None)" using c(3) by (simp add: resize_entries_def)
    have keep: "hp_blocks h' x = hp_blocks h x" if "x \<noteq> t" "x \<noteq> q" for x using moved(6) that by simp
    have "rows_in h' rs es = rows_in h rs es"
      by (rule rows_in_cong, rule keep) (use d q in auto)
    then have "rows_in h' rs es" using r by simp
    moreover have "hp_blocks h' q = Some (Entries_block (map Some rs @ replicate (cap * 2 - cap) None))"
      using moved(6) by (simp only: block fun_upd_same)
    moreover have "distinct (q # map fst rs)" using d q by simp
    moreover have "base q = None" using old q moved(5) by metis
    then have "base x = None" if "x \<in> set (q # map fst rs)" for x using that new by auto
    moreover have "hp_blocks h' x = base x" if "x \<notin> set (q # map fst rs)" for x
      using that old keep [of x] new moved(4,6) by (cases "x = t") auto
    ultimately have "entries_in base h' (cap * 2, cap, q) es"
      using moved(3,8) c by (intro entries_inI [where rs = rs]) simp_all
    with moved m show ?thesis by auto
  qed
qed

lemma accumulate_mem:
  assumes e: "entries_in (base(w \<mapsto> Text_block s)) h (cap, len, t) es" and w: "base w = None" "w \<noteq> 0"
  shows "case accumulate (hp_alloc h) cap es s cnt of
      None \<Rightarrow> \<exists>v h'. mem_accumulate (cap, len, t) w cnt h = Some (True, v, h') \<and> entries_in base h' (cap, len, t) es
    | Some (a', cap', es') \<Rightarrow> \<exists>len' t' h'. mem_accumulate (cap, len, t) w cnt h = Some (False, (cap', len', t'), h')
        \<and> entries_in base h' (cap', len', t') es' \<and> hp_alloc h' = a'"
proof (cases "entry_index es s")
  case (Some i)
  from add_found [OF e w Some, of cnt] Some show ?thesis by (auto simp: accumulate_def)
next
  case None
  from e obtain rs where l: "length rs = len" "length es = len" "len \<le> cap" and
    t: "hp_blocks h t = Some (Entries_block (map Some rs @ replicate (cap - len) None))" and r: "rows_in h rs es"
    and new: "\<forall>x \<in> set (t # map fst rs). (base(w \<mapsto> Text_block s)) x = None"
    and old: "\<forall>x. x \<notin> set (t # map fst rs) \<longrightarrow> hp_blocks h x = (base(w \<mapsto> Text_block s)) x" by (rule entries_inE)
  have w': "w \<notin> set (t # map fst rs)" using new by force
  then have "text_at h w = Some s" using old by (simp add: text_at_def)
  from index_mem [OF t r this, of 0 len] None l have idx: "mem_entry_index h t w 0 len = Some None" by simp
  show ?thesis
  proof (cases "len = cap")
    case False
    with l(3) have "len < cap" by simp
    from add_slot [OF e w this, of cnt] idx None False l(2) show ?thesis
      by (auto simp: mem_accumulate_def accumulate_def)
  next
    case True
    obtain good a where m: "malloc (hp_alloc h) = (good, a)" by fastforce
    from grow_array [OF _ m] e True obtain t' h1 where
      h1: "heap_realloc t (resize_entries (cap * 2)) h = Some (t', h1)" "hp_alloc h1 = a"
        "if good then entries_in (base(w \<mapsto> Text_block s)) h1 (cap * 2, cap, t') es
         else t' = 0 \<and> entries_in (base(w \<mapsto> Text_block s)) h1 (cap, cap, t) es" by blast
    show ?thesis
    proof (cases good)
      case good: True
      with h1(3) have g: "entries_in (base(w \<mapsto> Text_block s)) h1 (cap * 2, cap, t') es" by simp
      then have "t' \<noteq> 0" "cap < cap * 2" by (auto elim: entries_inE)
      with add_slot [OF g w, of cnt] idx None True l(2) h1(1,2) m good show ?thesis
        by (auto simp: mem_accumulate_def accumulate_def)
    next
      case bad: False
      with h1(3) have t': "t' = 0" "entries_in (base(w \<mapsto> Text_block s)) h1 (cap, cap, t) es" by simp_all
      from release_word [OF t'(2) w] obtain h2 where "heap_free w h1 = Some h2" "entries_in base h2 (cap, cap, t) es" by blast
      with idx None True l(2) h1(1) t'(1) m bad show ?thesis by (auto simp: mem_accumulate_def accumulate_def)
    qed
  qed
qed

lemma entries_in_cong:
  assumes "entries_in base h v es" and "hp_blocks h' = hp_blocks h" and "heap_ok h'"
  shows "entries_in base h' v es"
proof -
  have "rows_in h' rs es = rows_in h rs es" for rs by (rule rows_in_cong) (simp add: assms(2))
  with assms show ?thesis by (simp add: entries_in_def split: prod.splits)
qed

lemma entries_in_word:
  assumes "entries_in base h v es" and "hp_blocks h w = None" and "hp_blocks h' = (hp_blocks h)(w \<mapsto> Text_block s)" and "heap_ok h'"
  shows "entries_in (base(w \<mapsto> Text_block s)) h' v es" and "base w = None"
proof -
  obtain cap len t where v: "v = (cap, len, t)" by (cases v)
  from assms(1) [unfolded v] obtain rs where c: "t \<noteq> 0" "0 < cap" "len \<le> cap" "length rs = len"
    and t: "hp_blocks h t = Some (Entries_block (map Some rs @ replicate (cap - len) None))" and r: "rows_in h rs es"
    and d: "distinct (t # map fst rs)" and new: "\<forall>x \<in> set (t # map fst rs). base x = None"
    and old: "\<forall>x. x \<notin> set (t # map fst rs) \<longrightarrow> hp_blocks h x = base x" by (rule entries_inE)
  have w: "w \<notin> set (t # map fst rs)" using t r assms(2) by (auto simp: rows_in_def text_at_def)
  with old assms(2) show "base w = None" by metis
  have "rows_in h' rs es = rows_in h rs es" by (rule rows_in_cong) (use w assms(3) in auto)
  moreover have "(base(w \<mapsto> Text_block s)) x = None" if "x \<in> set (t # map fst rs)" for x using that new w by auto
  moreover have "hp_blocks h' x = (base(w \<mapsto> Text_block s)) x" if "x \<notin> set (t # map fst rs)" for x
    using that old assms(3) by simp
  ultimately show "entries_in (base(w \<mapsto> Text_block s)) h' v es"
    unfolding v using r t c d w assms(3,4) by (intro entries_inI [where rs = rs]) auto
qed

lemma parse_mem:
  "entries_in base h (cap, len, t) es \<Longrightarrow>
    case combine_parse (hp_alloc h) cap p es of
      None \<Rightarrow> \<exists>v h' v' es'. mem_combine_parse (cap, len, t) p h = Some (True, v, h') \<and> entries_in base h' v' es'
    | Some es' \<Rightarrow> \<exists>cap' len' t' h'. mem_combine_parse (cap, len, t) p h = Some (False, (cap', len', t'), h')
        \<and> entries_in base h' (cap', len', t') es'"
proof (induction "length p" arbitrary: p h cap len t es rule: less_induct)
  case less
  let ?p1 = "dropWhile (\<lambda>c. \<not> is_alpha c) p"
  let ?w = "takeWhile is_alpha ?p1" and ?p2 = "dropWhile is_alpha ?p1"
  let ?d = "takeWhile is_digit ?p2" and ?p3 = "dropWhile is_digit ?p2"
  note eqs = combine_parse.simps [of "hp_alloc h" cap p es] mem_combine_parse.simps [of "(cap, len, t)" p h]
  show ?case
  proof (cases "?p1 = []")
    case True
    with less.prems show ?thesis by (simp add: eqs)
  next
    case False
    from combine_shorter [OF this] have shorter: "length ?p3 < length p" .
    have ok: "heap_ok h" using less.prems by (simp add: entries_in_def)
    obtain w h1 where m: "heap_malloc (Text_block ?w) h = (w, h1)" by fastforce
    from m ok show ?thesis
    proof (cases rule: heap_malloc_cases)
      case (fail a)
      with entries_in_cong [OF less.prems, of h1] m False show ?thesis by (simp add: eqs Let_def del: dropWhile_eq_Nil_conv)
    next
      case (new a)
      then have w: "w \<noteq> 0" "hp_blocks h w = None" "hp_blocks h1 = (hp_blocks h)(w \<mapsto> Text_block ?w)" "hp_alloc h1 = a"
        by simp_all
      note e1 = entries_in_word [OF less.prems w(2,3) new(6)]
      show ?thesis
      proof (cases "?d = []")
        case True
        from release_word [OF e1 w(1)] obtain h2 where
          h2: "heap_free w h1 = Some h2" "entries_in base h2 (cap, len, t) es" "hp_alloc h2 = a" using w(4) by auto
        from less.hyps [OF shorter h2(2)] h2(1,3) m False True new(1) w(1) show ?thesis
          by (simp add: eqs Let_def del: dropWhile_eq_Nil_conv split: option.splits)
      next
        case digits: False
        note acc = accumulate_mem [OF e1 w(1), of "read_count ?d"]
        show ?thesis
        proof (cases "accumulate a cap es ?w (read_count ?d)")
          case None
          with acc w(4) obtain v h2 where "mem_accumulate (cap, len, t) w (read_count ?d) h1 = Some (True, v, h2)"
            "entries_in base h2 (cap, len, t) es" by auto
          with None m False digits new(1) w(1) show ?thesis by (cases v) (auto simp: eqs Let_def simp del: dropWhile_eq_Nil_conv)
        next
          case (Some x)
          obtain a2 cap2 es2 where x: "x = (a2, cap2, es2)" by (cases x)
          with acc Some w(4) obtain len2 t2 h2 where
            h2: "mem_accumulate (cap, len, t) w (read_count ?d) h1 = Some (False, (cap2, len2, t2), h2)"
              "entries_in base h2 (cap2, len2, t2) es2" "hp_alloc h2 = a2" by auto
          from less.hyps [OF shorter h2(2)] h2(1,3) Some x m False digits new(1) w(1) show ?thesis
            by (simp add: eqs Let_def del: dropWhile_eq_Nil_conv split: option.splits)
        qed
      qed
    qed
  qed
qed

subsection \<open>Sorting, printing, releasing\<close>

lemma map_qsort_insert:
  "map g (qsort_insert (\<lambda>x y. cmp (g x) (g y)) x ys) = qsort_insert cmp (g x) (map g ys)"
  by (induction ys) auto

lemma map_qsort: "map g (qsort (\<lambda>x y. cmp (g x) (g y)) xs) = qsort cmp (map g xs)"
  by (induction xs) (simp_all add: map_qsort_insert)

lemma mset_qsort_insert: "mset (qsort_insert cmp x ys) = add_mset x (mset ys)"
  by (induction ys) auto

lemma mset_qsort: "mset (qsort cmp xs) = mset xs"
  by (induction xs) (simp_all add: mset_qsort_insert)

lemma qsort_mem:
  assumes "entries_in base h (cap, len, t) es"
  shows "\<exists>h'. mem_qsort t len h = Some h' \<and> entries_in base h' (cap, len, t) (qsort cmp_by_count_desc_word_asc es)
    \<and> hp_alloc h' = hp_alloc h"
proof -
  from assms obtain rs where ok: "heap_ok h" and c: "t \<noteq> 0" "0 < cap" "len \<le> cap" "length rs = len" and l: "length es = len"
    and t: "hp_blocks h t = Some (Entries_block (map Some rs @ replicate (cap - len) None))" and r: "rows_in h rs es"
    and d: "distinct (t # map fst rs)" and new: "\<forall>x \<in> set (t # map fst rs). base x = None"
    and old: "\<forall>x. x \<notin> set (t # map fst rs) \<longrightarrow> hp_blocks h x = base x" by (rule entries_inE)
  let ?rs = "qsort (mem_cmp h) rs"
  let ?h = "h\<lparr>hp_blocks := (hp_blocks h)(t \<mapsto> Entries_block (map Some ?rs @ replicate (cap - len) None))\<rparr>"
  have m: "mset ?rs = mset rs" by (rule mset_qsort)
  have same: "set ?rs = set rs" "length ?rs = len" "mset (map fst ?rs) = mset (map fst rs)"
    using mset_eq_setD [OF m] mset_eq_length [OF m] c(4) by (simp_all add: m)
  then have keys: "set (map fst ?rs) = set (map fst rs)" by simp
  have d': "distinct (t # map fst ?rs)"
    using d keys mset_eq_imp_distinct_iff [OF same(3)] by simp
  have "mem_cmp h = (\<lambda>x y. cmp_by_count_desc_word_asc (row_entry h x) (row_entry h y))"
    by (simp add: mem_cmp_def row_entry_def fun_eq_iff)
  then have "rows_in h ?rs (qsort cmp_by_count_desc_word_asc es)"
    using r same(1) by (simp add: rows_in_def map_qsort)
  moreover have "rows_in ?h ?rs es' = rows_in h ?rs es'" for es' by (rule rows_in_cong) (use d' in auto)
  moreover have "heap_ok ?h" by (rule heap_ok_update [OF ok]) (use t in auto)
  moreover have "hp_blocks ?h x = base x" if "x \<notin> set (t # map fst ?rs)" for x using that old keys by auto
  moreover have "base x = None" if "x \<in> set (t # map fst ?rs)" for x using that new keys by auto
  ultimately have "entries_in base ?h (cap, len, t) (qsort cmp_by_count_desc_word_asc es)"
    using c same(2) d' by (intro entries_inI [where rs = ?rs]) simp_all
  moreover have "mem_qsort t len h = Some ?h"
  proof -
    have "\<not> (\<exists>e \<in> set (map Some rs). case e of None \<Rightarrow> True | Some (w, c) \<Rightarrow> text_at h w = None)"
      using r by (auto simp: rows_in_def)
    then show ?thesis using t c(4) by (simp add: mem_qsort_def entries_at_def heap_write_def comp_def)
  qed
  ultimately show ?thesis by auto
qed

lemma print_mem:
  "hp_blocks h t = Some (Entries_block (pre @ map Some rs @ post)) \<Longrightarrow> length pre = i \<Longrightarrow>
    \<forall>r \<in> set rs. fst r \<noteq> 0 \<and> text_at h (fst r) \<noteq> None \<Longrightarrow> distinct (t # map fst rs) \<Longrightarrow> heap_ok h \<Longrightarrow>
    \<exists>h'. mem_print_entries t i (length rs) h = Some (concat (map csv_line (map (row_entry h) rs)), h')
      \<and> hp_blocks h' = hp_blocks h |` (- set (map fst rs)) \<and> heap_ok h' \<and> hp_alloc h' = hp_alloc h"
proof (induction rs arbitrary: pre i h)
  case Nil
  then show ?case by simp
next
  case (Cons r rs)
  obtain w c where r: "r = (w, c)" by (cases r)
  with Cons.prems(3) obtain s where s: "text_at h w = Some s" "w \<noteq> 0" by auto
  then have live: "hp_blocks h w = Some (Text_block s)" by (auto simp: text_at_def split: option.splits block.splits)
  let ?h = "h\<lparr>hp_blocks := (hp_blocks h)(w := None)\<rparr>"
  have d: "w \<noteq> t" "w \<notin> fst ` set rs" using Cons.prems(4) r by auto
  have ok: "heap_ok ?h" by (rule heap_ok_update [OF Cons.prems(5)]) auto
  have block: "hp_blocks ?h t = Some (Entries_block ((pre @ [Some r]) @ map Some rs @ post))"
    using Cons.prems(1) d(1) by simp
  have t: "text_at ?h (fst x) = text_at h (fst x)" if "x \<in> set rs" for x
    using d(2) that by (intro text_at_cong) auto
  have live': "\<forall>x \<in> set rs. fst x \<noteq> 0 \<and> text_at ?h (fst x) \<noteq> None" using Cons.prems(3) t by simp
  have "length (pre @ [Some r]) = Suc i" "distinct (t # map fst rs)" using Cons.prems(2,4) by simp_all
  from Cons.IH [OF block this(1) live' this(2) ok] obtain h' where
    h': "mem_print_entries t (Suc i) (length rs) ?h = Some (concat (map csv_line (map (row_entry ?h) rs)), h')"
    "hp_blocks h' = hp_blocks ?h |` (- set (map fst rs))" "heap_ok h'" "hp_alloc h' = hp_alloc ?h" by blast
  have out: "map (row_entry ?h) rs = map (row_entry h) rs" using t by (simp add: row_entry_def)
  have "mem_entry h t i = Some (w, c)"
    using Cons.prems(1,2) r by (simp add: mem_entry_def entries_at_def nth_append)
  then have "mem_print_entries t i (length (r # rs)) h
      = Some (csv_line (row_entry h r) @ concat (map csv_line (map (row_entry ?h) rs)), h')"
    using s(1) h'(1) heap_free_live [OF live s(2)] r by (simp add: row_entry_def)
  then have "mem_print_entries t i (length (r # rs)) h = Some (concat (map csv_line (map (row_entry h) (r # rs))), h')"
    by (simp only: out list.map concat.simps)
  moreover have "hp_blocks h' = hp_blocks h |` (- set (map fst (r # rs)))"
    using r h'(2) by (auto simp: restrict_map_def fun_eq_iff)
  ultimately show ?case using h'(3,4) by (intro exI [of _ h']) simp
qed

lemma entries_in_start:
  assumes "heap_malloc (Entries_block (replicate 128 None)) h = (t, h1)" and "t \<noteq> 0" and "heap_ok h"
  shows "entries_in (hp_blocks h) h1 (128, 0, t) []"
  using assms(1,3)
proof (cases rule: heap_malloc_cases)
  case (new a)
  then show ?thesis using assms(2) by (intro entries_inI [where rs = "[]"]) (auto simp: rows_in_def)
qed (use assms(2) in simp)

text \<open>C19: \<open>combine_and_print\<close> in memory, on any text and whichever allocations fail: every access is to live memory
  that has been written, nothing is freed twice, the output is that of the model without memory, and
  all that was allocated is released, with one exception: where \<open>realloc\<close> fails to enlarge the array, the
  function returns without its array and the words in it, which stay allocated for ever.\<close>

theorem combine_leaks_only_on_failed_realloc:
  assumes "heap_ok h"
  shows "\<exists>h'. mem_combine_and_print (Some data) h = Some (combine_and_print (hp_alloc h) (Some data), h')
    \<and> (hp_blocks h' = hp_blocks h \<longleftrightarrow>
        \<not> (data \<noteq> [] \<and> fst (malloc (hp_alloc h)) \<and> combine_parse (snd (malloc (hp_alloc h))) 128 data [] = None))
    \<and> (\<forall>x \<in> dom (hp_blocks h). hp_blocks h' x = hp_blocks h x)"
proof (cases "data = []")
  case True
  then show ?thesis by (simp add: mem_combine_and_print_def combine_and_print_def)
next
  case data: False
  obtain t h1 where m: "heap_malloc (Entries_block (replicate 128 None)) h = (t, h1)" by fastforce
  from m assms show ?thesis
  proof (cases rule: heap_malloc_cases)
    case (fail a)
    with data m show ?thesis by (simp add: mem_combine_and_print_def combine_and_print_def)
  next
    case (new a)
    then have a: "hp_alloc h1 = a" "t \<noteq> 0" by simp_all
    from entries_in_start [OF m a(2) assms] have e1: "entries_in (hp_blocks h) h1 (128, 0, t) []" .
    note p = parse_mem [OF e1, of data, unfolded a(1)]
    show ?thesis
    proof (cases "combine_parse a 128 data []")
      case None
      with p obtain v h2 v' es' where h2: "mem_combine_parse (128, 0, t) data h1 = Some (True, v, h2)"
        "entries_in (hp_blocks h) h2 v' es'" by auto
      obtain cap len t' where v': "v' = (cap, len, t')" by (cases v')
      from h2(2) [unfolded v'] obtain rs where
        t': "hp_blocks h2 t' = Some (Entries_block (map Some rs @ replicate (cap - len) None))"
        and l: "\<forall>x \<in> set (t' # map fst rs). hp_blocks h x = None"
        "\<forall>x. x \<notin> set (t' # map fst rs) \<longrightarrow> hp_blocks h2 x = hp_blocks h x" by (rule entries_inE)
      then have "hp_blocks h t' = None" by simp
      with t' have "hp_blocks h2 \<noteq> hp_blocks h" by auto
      moreover have "\<forall>x \<in> dom (hp_blocks h). hp_blocks h2 x = hp_blocks h x"
      proof
        fix x assume "x \<in> dom (hp_blocks h)"
        then have "hp_blocks h x \<noteq> None" by (simp add: domIff)
        then have "x \<notin> set (t' # map fst rs)" using bspec [OF l(1), of x] by metis
        with l(2) show "hp_blocks h2 x = hp_blocks h x" by blast
      qed
      ultimately show ?thesis using data m new(1) a(2) h2(1) None
        by (cases v) (simp add: mem_combine_and_print_def combine_and_print_def)
    next
      case (Some es)
      with p obtain cap len t2 h2 where h2: "mem_combine_parse (128, 0, t) data h1 = Some (False, (cap, len, t2), h2)"
        "entries_in (hp_blocks h) h2 (cap, len, t2) es" by auto
      from qsort_mem [OF h2(2)] obtain h3 where
        h3: "mem_qsort t2 len h2 = Some h3" "entries_in (hp_blocks h) h3 (cap, len, t2) (qsort cmp_by_count_desc_word_asc es)" by blast
      from h3(2) obtain rs where ok: "heap_ok h3" and c: "t2 \<noteq> 0" "length rs = len"
        and t: "hp_blocks h3 t2 = Some (Entries_block (map Some rs @ replicate (cap - len) None))"
        and r: "rows_in h3 rs (qsort cmp_by_count_desc_word_asc es)" and d: "distinct (t2 # map fst rs)"
        and own: "\<forall>x \<in> set (t2 # map fst rs). hp_blocks h x = None"
        "\<forall>x. x \<notin> set (t2 # map fst rs) \<longrightarrow> hp_blocks h3 x = hp_blocks h x" by (rule entries_inE)
      from print_mem [of h3 t2 "[]" rs "replicate (cap - len) None" 0] t r d ok c(2) obtain h4 where
        h4: "mem_print_entries t2 0 len h3 = Some (concat (map csv_line (qsort cmp_by_count_desc_word_asc es)), h4)"
          "hp_blocks h4 = hp_blocks h3 |` (- set (map fst rs))" "heap_ok h4" by (auto simp: rows_in_def)
      have "hp_blocks h4 t2 = Some (Entries_block (map Some rs @ replicate (cap - len) None))"
        using t d h4(2) by simp
      from heap_free_live [OF this c(1)] have free: "heap_free t2 h4 = Some (h4\<lparr>hp_blocks := (hp_blocks h4)(t2 := None)\<rparr>)" .
      have "(hp_blocks h4)(t2 := None) = hp_blocks h"
      proof
        fix x
        show "((hp_blocks h4)(t2 := None)) x = hp_blocks h x"
          using own by (cases "x \<in> set (t2 # map fst rs)") (auto simp: h4(2) restrict_map_def)
      qed
      with free data m new(1) a(2) h2(1) h3(1) h4(1) Some show ?thesis
        by (simp add: mem_combine_and_print_def combine_and_print_def)
    qed
  qed
qed

lemma combine_leaks_only_on_failed_realloc_witness:
  "\<exists>h'. mem_combine_and_print (Some ''a1'') (empty_heap []) = Some (csv_header @ csv_line (Entry ''a'' 1), h')
    \<and> hp_blocks h' = Map.empty"
proof -
  have c: "is_alpha (CHR ''a'')" "is_digit (CHR ''1'')" "\<not> is_alpha (CHR ''1'')" "\<not> is_digit (CHR ''a'')" by code_simp+
  have "read_count ''1'' = 1" by (simp add: read_count_dec)
  then have p: "combine_parse [] 128 ''a1'' [] = Some [Entry ''a'' 1]"
    using c by (simp add: combine_parse.simps [of "[]" 128 "''a1''" "[]"] combine_parse.simps [of "[]" 128 "[]"] accumulate_def)
  then have "combine_and_print [] (Some ''a1'') = csv_header @ csv_line (Entry ''a'' 1)" by (simp add: combine_and_print_def)
  with combine_leaks_only_on_failed_realloc [OF empty_heap_ok, of "''a1''" "[]"] p show ?thesis by (auto simp: empty_heap_def)
qed

end
