(* ===== verification/Heap_Distributor.thy ===== *)
theory Heap_Distributor
  imports Heap_Combine Distributor
begin

section \<open>The distributor in memory (mapreduce-wordcount/zmq\_distributor.c)\<close>

text \<open>
  The two growing buffers of \<open>main\<close> over the heap: every \<open>realloc\<close>, every byte that is stored and every
  byte that is read to cut the payloads, and the call of \<open>combine_and_print\<close> on the second buffer.  The
  chunker, the messages and the replies lie on the stack.  \<open>None\<close> inside a result is an exit of the program.
\<close>

record mem_buffer =
  mb_data :: addr
  mb_len :: nat
  mb_cap :: nat

definition mem_buffer_init :: "block heap \<Rightarrow> (mem_buffer option \<times> block heap) option" where
  "mem_buffer_init h =
     (let (p, h1) = mem_malloc_bytes 4096 h
      in if p = 0 then Some (None, h1)
         else do { h2 \<leftarrow> mem_store p 0 [NUL] h1; Some (Some \<lparr>mb_data = p, mb_len = 0, mb_cap = 4096\<rparr>, h2) })"

definition resize_bytes :: "nat \<Rightarrow> block \<Rightarrow> block" where
  "resize_bytes n b = (case b of Bytes_block bs \<Rightarrow> Bytes_block (take n bs @ replicate (n - length bs) None) | _ \<Rightarrow> b)"

partial_function (option) mem_buffer_grow :: "addr \<Rightarrow> nat \<Rightarrow> nat \<Rightarrow> block heap \<Rightarrow> ((addr \<times> nat) option \<times> block heap) option" where
  "mem_buffer_grow data cap need h =
     (if need \<le> cap then Some (Some (data, cap), h)
      else do {
        (data', h1) \<leftarrow> heap_realloc data (resize_bytes (cap * 2)) h;
        if data' = 0 then Some (None, h1) else mem_buffer_grow data' (cap * 2) need h1
      })"

definition mem_buffer_append :: "mem_buffer \<Rightarrow> string \<Rightarrow> block heap \<Rightarrow> (mem_buffer option \<times> block heap) option" where
  "mem_buffer_append b s h =
     (let add = length s in
      do {
        (r, h1) \<leftarrow> mem_buffer_grow (mb_data b) (mb_cap b) (mb_len b + add + 1) h;
        case r of None \<Rightarrow> Some (None, h1)
        | Some (data, cap) \<Rightarrow> do {
            h2 \<leftarrow> mem_store data (mb_len b) (s @ [NUL]) h1;
            Some (Some \<lparr>mb_data = data, mb_len = mb_len b + add, mb_cap = cap\<rparr>, h2)
          }
      })"

definition mem_buffer_free :: "mem_buffer \<Rightarrow> block heap \<Rightarrow> (mem_buffer \<times> block heap) option" where
  "mem_buffer_free b h = do { h' \<leftarrow> heap_free (mb_data b) h; Some (\<lparr>mb_data = 0, mb_len = 0, mb_cap = 0\<rparr>, h') }"

text \<open>Reading \<open>n\<close> bytes that have been written.\<close>

definition mem_load :: "addr \<Rightarrow> nat \<Rightarrow> nat \<Rightarrow> block heap \<Rightarrow> char list option" where
  "mem_load p i n h = do { bs \<leftarrow> bytes_at h p; if length bs < i + n then None else those (take n (drop i bs)) }"

fun mem_find_split :: "block heap \<Rightarrow> addr \<Rightarrow> nat \<Rightarrow> nat \<Rightarrow> nat option option" where
  "mem_find_split h data off 0 = Some None"
| "mem_find_split h data off (Suc i) =
     do {
       x \<leftarrow> mem_load data (off + i) 1 h;
       y \<leftarrow> mem_load data (off + i + 1) 1 h;
       if is_digit (hd x) \<and> is_alpha (hd y) then Some (Some (Suc i)) else mem_find_split h data off i
     }"

definition mem_find_safe_split :: "block heap \<Rightarrow> addr \<Rightarrow> nat \<Rightarrow> nat \<Rightarrow> nat option" where
  "mem_find_safe_split h data off max_len =
     (if max_len = 0 then Some 0
      else do { r \<leftarrow> mem_find_split h data off max_len; Some (case r of Some i \<Rightarrow> i | None \<Rightarrow> max_len) })"

subsection \<open>The two phases\<close>

definition mem_absorb_reply :: "mem_buffer \<Rightarrow> char list option \<Rightarrow> block heap \<Rightarrow> (mem_buffer option \<times> block heap) option" where
  "mem_absorb_reply b reply h =
     (case reply of None \<Rightarrow> Some (Some b, h)
      | Some r \<Rightarrow>
          if length r = 0 then Some (Some b, h)
          else if MAX_MSG_LEN \<le> length r then None
          else mem_buffer_append b (c_str r) h)"

partial_function (option) mem_map_phase ::
  "network \<Rightarrow> nat \<Rightarrow> chunker \<Rightarrow> nat \<Rightarrow> nat \<Rightarrow> mem_buffer \<Rightarrow> block heap \<Rightarrow> ((mem_buffer \<times> nat) option \<times> block heap) option"
where
  "mem_map_phase net workers c k idx results h =
     (let (r, chunk, c') = chunker_next c in
      if r \<noteq> 1 then Some (Some (results, k), h)
      else (case chunk of None \<Rightarrow> Some (Some (results, k), h)
        | Some t \<Rightarrow> do {
            (b, h1) \<leftarrow> mem_absorb_reply results (net k idx (map_message t)) h;
            case b of None \<Rightarrow> Some (None, h1)
            | Some results' \<Rightarrow> mem_map_phase net workers c' (Suc k) (Suc idx mod workers) results' h1
          }))"

text \<open>The payload at \<open>offset\<close>: its length, then its bytes.\<close>

definition mem_reduce_len :: "block heap \<Rightarrow> mem_buffer \<Rightarrow> nat \<Rightarrow> nat option" where
  "mem_reduce_len h m offset =
     (let remaining = mb_len m - offset;
          to_copy = (if remaining > PAYLOAD_MAX then PAYLOAD_MAX else remaining)
      in if remaining > PAYLOAD_MAX
         then do {
           safe \<leftarrow> mem_find_safe_split h (mb_data m) offset to_copy;
           Some (if 0 < safe \<and> safe < to_copy then safe else to_copy)
         }
         else Some to_copy)"

partial_function (option) mem_reduce_phase ::
  "network \<Rightarrow> nat \<Rightarrow> mem_buffer \<Rightarrow> nat \<Rightarrow> nat \<Rightarrow> nat \<Rightarrow> mem_buffer \<Rightarrow> block heap \<Rightarrow> (mem_buffer option \<times> block heap) option"
where
  "mem_reduce_phase net workers m offset k idx results h =
     (if mb_len m \<le> offset then Some (Some results, h)
      else do {
        to_copy \<leftarrow> mem_reduce_len h m offset;
        payload \<leftarrow> mem_load (mb_data m) offset to_copy h;
        (b, h1) \<leftarrow> mem_absorb_reply results (net k idx (red_message payload)) h;
        case b of None \<Rightarrow> Some (None, h1)
        | Some results' \<Rightarrow> mem_reduce_phase net workers m (offset + to_copy) (Suc k) (Suc idx mod workers) results' h1
      })"

text \<open>From the second buffer on, after the map phase with its \<open>k\<close> exchanges.\<close>

definition mem_distributor_rest ::
  "network \<Rightarrow> nat \<Rightarrow> mem_buffer \<Rightarrow> nat \<Rightarrow> block heap \<Rightarrow> ((string \<times> (nat \<times> char list) list) option \<times> block heap) option"
where
  "mem_distributor_rest net workers map_results k h =
     do {
       (b, h1) \<leftarrow> mem_buffer_init h;
       case b of None \<Rightarrow> Some (None, h1)
       | Some reduce_results \<Rightarrow> do {
           (b, h2) \<leftarrow> mem_reduce_phase net workers map_results 0 k 0 reduce_results h1;
           case b of None \<Rightarrow> Some (None, h2)
           | Some reduce_results \<Rightarrow> do {
               (m, h3) \<leftarrow> mem_buffer_free map_results h2;
               data \<leftarrow> mem_string (mb_data reduce_results) h3;
               (out, h4) \<leftarrow> mem_combine_and_print (Some data) h3;
               (r, h5) \<leftarrow> mem_buffer_free reduce_results h4;
               Some (Some (out, distributor_send_rip workers), h5)
             }
         }
     }"

definition mem_distributor_main ::
  "network \<Rightarrow> nat \<Rightarrow> char list option \<Rightarrow> block heap \<Rightarrow> ((string \<times> (nat \<times> char list) list) option \<times> block heap) option"
where
  "mem_distributor_main net workers contents h =
     (if workers < 1 then Some (None, h) else
      let (status, c) = chunker_init contents in
      if status \<noteq> 0 then Some (None, h)
      else do {
        (b, h1) \<leftarrow> mem_buffer_init h;
        case b of None \<Rightarrow> Some (None, h1)
        | Some map_results \<Rightarrow> do {
            (b, h2) \<leftarrow> mem_map_phase net workers c 0 0 map_results h1;
            case b of None \<Rightarrow> Some (None, h2)
            | Some (map_results, k) \<Rightarrow> mem_distributor_rest net workers map_results k h2
          }
      })"

subsection \<open>A buffer in memory\<close>

text \<open>Beside the blocks \<open>base\<close>, exactly the buffer \<open>m\<close> is allocated; it holds the text of \<open>b\<close>, terminated.\<close>

definition holds_buffer :: "(addr \<rightharpoonup> block) \<Rightarrow> block heap \<Rightarrow> mem_buffer \<Rightarrow> buffer \<Rightarrow> bool" where
  "holds_buffer base h m b \<longleftrightarrow> heap_ok h \<and> mb_data m \<noteq> 0 \<and> base (mb_data m) = None
     \<and> (\<forall>x. x \<noteq> mb_data m \<longrightarrow> hp_blocks h x = base x) \<and> buffer_in h (mb_data m) (mb_cap m) (bf_data b @ [NUL])
     \<and> mb_len m = length (bf_data b) \<and> mb_cap m = bf_cap b \<and> NUL \<notin> set (bf_data b)"

lemma buffer_in_prefix: "buffer_in h p n (s @ t) \<Longrightarrow> buffer_in h p n s"
  unfolding buffer_in_def by (elim exE, rule exI) auto

lemma buffer_in_blocks: "hp_blocks h' p = hp_blocks h p \<Longrightarrow> buffer_in h p n s \<Longrightarrow> buffer_in h' p n s"
  by (simp add: buffer_in_def)

lemma those_map_Some: "those (map Some xs) = Some xs"
  by (induction xs) auto

lemma load_in:
  assumes "buffer_in h p n s" and "i + k \<le> length s"
  shows "mem_load p i k h = Some (take k (drop i s))"
proof -
  obtain bs where bs: "hp_blocks h p = Some (Bytes_block (map Some s @ bs))" using assms(1) by (auto simp: buffer_in_def)
  have "take k (drop i (map Some s @ bs)) = map Some (take k (drop i s))" using assms(2) by (simp add: take_map drop_map)
  with bs assms(2) show ?thesis by (simp add: mem_load_def bytes_at_def those_map_Some)
qed

lemma resized:
  assumes "buffer_in h p n s" and "hp_blocks h' q = Some (resize_bytes (n * 2) (the (hp_blocks h p)))"
  shows "buffer_in h' q (n * 2) s"
proof -
  obtain bs where bs: "hp_blocks h p = Some (Bytes_block (map Some s @ bs))" "length s + length bs = n"
    using assms(1) by (auto simp: buffer_in_def)
  then have "hp_blocks h' q = Some (Bytes_block (map Some s @ (bs @ replicate n None)))"
    using assms(2) by (simp add: resize_bytes_def)
  then show ?thesis unfolding buffer_in_def using bs(2) by (intro exI conjI) (assumption, simp)
qed

lemma init_mem:
  assumes "heap_ok h"
  shows "case buffer_init (hp_alloc h) of None \<Rightarrow> \<exists>h'. mem_buffer_init h = Some (None, h')
    | Some (b, a') \<Rightarrow> \<exists>m h'. mem_buffer_init h = Some (Some m, h') \<and> holds_buffer (hp_blocks h) h' m b \<and> bf_data b = [] \<and> hp_alloc h' = a'"
proof -
  obtain p h1 where m: "mem_malloc_bytes 4096 h = (p, h1)" by fastforce
  from m assms show ?thesis
  proof (cases rule: malloc_bytes_cases)
    case (fail a)
    with m show ?thesis by (simp add: mem_buffer_init_def buffer_init_def)
  next
    case (new a)
    from store_at_end [OF new(5), of "[NUL]"] obtain h2 where
      h2: "mem_store p 0 [NUL] h1 = Some h2" "buffer_in h2 p 4096 [NUL]" "only_at p h1 h2" by auto
    have "heap_ok h2" using only_at_ok [OF h2(3) new(8) buffer_live [OF new(5)]] .
    with h2 new m show ?thesis
      by (auto simp: mem_buffer_init_def buffer_init_def holds_buffer_def only_at_def)
  qed
qed

lemma grow_mem:
  "heap_ok h \<Longrightarrow> p \<noteq> 0 \<Longrightarrow> base p = None \<Longrightarrow> \<forall>x. x \<noteq> p \<longrightarrow> hp_blocks h x = base x \<Longrightarrow> buffer_in h p cap s \<Longrightarrow> 0 < cap \<Longrightarrow>
    case buffer_grow (hp_alloc h) cap need of None \<Rightarrow> \<exists>h'. mem_buffer_grow p cap need h = Some (None, h')
    | Some (cap', a') \<Rightarrow> \<exists>q h'. mem_buffer_grow p cap need h = Some (Some (q, cap'), h') \<and> heap_ok h' \<and> q \<noteq> 0 \<and> base q = None
        \<and> (\<forall>x. x \<noteq> q \<longrightarrow> hp_blocks h' x = base x) \<and> buffer_in h' q cap' s \<and> hp_alloc h' = a' \<and> need \<le> cap'"
proof (induction "need - cap" arbitrary: h p cap rule: less_induct)
  case less
  note eqs = buffer_grow.simps [of "hp_alloc h" cap need] mem_buffer_grow.simps [of p cap need h]
  show ?case
  proof (cases "need \<le> cap")
    case True
    with less.prems show ?thesis by (simp add: eqs)
  next
    case False
    obtain b where b: "hp_blocks h p = Some b" using buffer_live [OF less.prems(5)] by blast
    from b less.prems(1) show ?thesis
    proof (cases rule: heap_realloc_cases [where resize = "resize_bytes (cap * 2)"])
      case (fail a)
      with False less.prems(6) show ?thesis by (simp add: eqs)
    next
      case (moved a q h')
      have "base q = None" using less.prems(4) moved(4,5) by metis
      moreover have "\<forall>x. x \<noteq> q \<longrightarrow> hp_blocks h' x = base x" using less.prems(3,4) moved(6) by auto
      moreover have "buffer_in h' q (cap * 2) s" by (rule resized [OF less.prems(5)]) (simp add: moved(6) b)
      moreover have "need - cap * 2 < need - cap" "0 < cap * 2" using False less.prems(6) by simp_all
      ultimately have "case buffer_grow a (cap * 2) need of None \<Rightarrow> \<exists>h''. mem_buffer_grow q (cap * 2) need h' = Some (None, h'')
        | Some (cap', a') \<Rightarrow> \<exists>q' h''. mem_buffer_grow q (cap * 2) need h' = Some (Some (q', cap'), h'') \<and> heap_ok h'' \<and> q' \<noteq> 0
            \<and> base q' = None \<and> (\<forall>x. x \<noteq> q' \<longrightarrow> hp_blocks h'' x = base x) \<and> buffer_in h'' q' cap' s \<and> hp_alloc h'' = a' \<and> need \<le> cap'"
        using less.hyps [of "cap * 2" h' q] moved(3,7,8) by simp
      with False less.prems(6) moved(1-3) show ?thesis
        by (cases "buffer_grow a (cap * 2) need") (auto simp: eqs)
    qed
  qed
qed

lemma append_mem:
  assumes "holds_buffer base h m b" and "NUL \<notin> set s"
  shows "case buffer_append (hp_alloc h) b s of None \<Rightarrow> \<exists>h'. mem_buffer_append m s h = Some (None, h')
    | Some (b', a') \<Rightarrow> \<exists>m' h'. mem_buffer_append m s h = Some (Some m', h') \<and> holds_buffer base h' m' b' \<and> hp_alloc h' = a'"
proof -
  from assms(1) have m: "heap_ok h" "mb_data m \<noteq> 0" "base (mb_data m) = None" "\<forall>x. x \<noteq> mb_data m \<longrightarrow> hp_blocks h x = base x"
    "buffer_in h (mb_data m) (mb_cap m) (bf_data b @ [NUL])" "mb_len m = length (bf_data b)" "mb_cap m = bf_cap b" "NUL \<notin> set (bf_data b)"
    by (auto simp: holds_buffer_def)
  have "0 < mb_cap m" using m(5) by (auto simp: buffer_in_def)
  note g = grow_mem [OF m(1-4) buffer_in_prefix [OF m(5)] this, of "length (bf_data b) + length s + 1"]
  show ?thesis
  proof (cases "buffer_grow (hp_alloc h) (bf_cap b) (length (bf_data b) + length s + 1)")
    case None
    with g m(6,7) show ?thesis by (auto simp: mem_buffer_append_def buffer_append_def Let_def)
  next
    case (Some x)
    obtain cap a' where x: "x = (cap, a')" by (cases x)
    with g Some m(7) obtain q h1 where
      h1: "mem_buffer_grow (mb_data m) (mb_cap m) (length (bf_data b) + length s + 1) h = Some (Some (q, cap), h1)" "heap_ok h1"
        "q \<noteq> 0" "base q = None" "\<forall>x. x \<noteq> q \<longrightarrow> hp_blocks h1 x = base x" "buffer_in h1 q cap (bf_data b)" "hp_alloc h1 = a'"
        "length (bf_data b) + length s + 1 \<le> cap" by auto
    from store_at_end [OF h1(6), of "s @ [NUL]"] h1(8) obtain h2 where
      h2: "mem_store q (length (bf_data b)) (s @ [NUL]) h1 = Some h2" "buffer_in h2 q cap (bf_data b @ s @ [NUL])" "only_at q h1 h2"
      by auto
    have "heap_ok h2" using only_at_ok [OF h2(3) h1(2) buffer_live [OF h1(6)]] .
    moreover have "\<forall>x. x \<noteq> q \<longrightarrow> hp_blocks h2 x = base x" "hp_alloc h2 = a'" using h1(5,7) h2(3) by (auto simp: only_at_def)
    ultimately show ?thesis using h1 h2(1,2) Some x m(6-8) assms(2)
      by (auto simp: mem_buffer_append_def buffer_append_def Let_def holds_buffer_def)
  qed
qed

text \<open>A reply: \<open>None\<close> where it overruns, an exit where an allocation fails.\<close>

definition same_outcome :: "(('m option \<times> block heap) option) \<Rightarrow> dist_error + ('b \<times> alloc) \<Rightarrow> (block heap \<Rightarrow> 'm \<Rightarrow> 'b \<Rightarrow> bool) \<Rightarrow> bool" where
  "same_outcome run res R \<longleftrightarrow> (case res of
      Inl Reply_overrun \<Rightarrow> run = None
    | Inl Exit_failure \<Rightarrow> \<exists>h'. run = Some (None, h')
    | Inr (b, a') \<Rightarrow> \<exists>m' h'. run = Some (Some m', h') \<and> R h' m' b \<and> hp_alloc h' = a')"

lemma absorb_mem:
  assumes "holds_buffer base h m b"
  shows "same_outcome (mem_absorb_reply m reply h) (absorb_reply (hp_alloc h) b reply) (holds_buffer base)"
proof (cases reply)
  case None
  with assms show ?thesis by (simp add: same_outcome_def mem_absorb_reply_def absorb_reply_def)
next
  case (Some r)
  with assms append_mem [OF assms NUL_c_str, of r] show ?thesis
    by (auto simp: same_outcome_def mem_absorb_reply_def absorb_reply_def split: option.splits)
qed


subsection \<open>The map phase\<close>

lemma map_phase_mem:
  "holds_buffer base h m b \<Longrightarrow>
    case map_phase net workers (hp_alloc h) c k idx b of
      Inl Reply_overrun \<Rightarrow> mem_map_phase net workers c k idx m h = None
    | Inl Exit_failure \<Rightarrow> \<exists>h'. mem_map_phase net workers c k idx m h = Some (None, h')
    | Inr (b', c', k', a') \<Rightarrow> \<exists>m' h'. mem_map_phase net workers c k idx m h = Some (Some (m', k'), h')
        \<and> holds_buffer base h' m' b' \<and> hp_alloc h' = a'"
proof (induction "unread c" arbitrary: h m b c k idx rule: less_induct)
  case less
  note eqs = map_phase.simps [of net workers "hp_alloc h" c k idx b] mem_map_phase.simps [of net workers c k idx m h]
  obtain r chunk c' where n: "chunker_next c = (r, chunk, c')" by (cases "chunker_next c")
  show ?case
  proof (cases "r \<noteq> 1 \<or> chunk = None")
    case True
    with n less.prems show ?thesis by (auto simp: eqs)
  next
    case False
    then obtain t where t: "r = 1" "chunk = Some t" by auto
    with n have shorter: "unread c' < unread c" by (simp add: chunker_next_unread)
    note out = absorb_mem [OF less.prems, of "net k idx (map_message t)"]
    show ?thesis
    proof (cases "absorb_reply (hp_alloc h) b (net k idx (map_message t))")
      case (Inl e)
      with out n t show ?thesis by (cases e) (auto simp: eqs same_outcome_def)
    next
      case (Inr x)
      obtain b1 a1 where x: "x = (b1, a1)" by (cases x)
      with out Inr obtain m1 h1 where
        h1: "mem_absorb_reply m (net k idx (map_message t)) h = Some (Some m1, h1)" "holds_buffer base h1 m1 b1" "hp_alloc h1 = a1"
        by (auto simp: same_outcome_def)
      have r1: "mem_map_phase net workers c k idx m h = mem_map_phase net workers c' (Suc k) (Suc idx mod workers) m1 h1"
        using h1(1) n t by (simp add: eqs(2))
      have r2: "map_phase net workers (hp_alloc h) c k idx b
          = map_phase net workers (hp_alloc h1) c' (Suc k) (Suc idx mod workers) b1"
        using Inr x h1(3) n t by (simp add: eqs(1))
      show ?thesis unfolding r1 r2 by (rule less.hyps [OF shorter h1(2)])
    qed
  qed
qed

subsection \<open>The reduce phase\<close>

lemma find_split_mem:
  assumes "buffer_in h p n s"
  shows "off + i < length s \<Longrightarrow> mem_find_split h p off i = Some (find_split_from (drop off s) i)"
proof (induction i)
  case (Suc i)
  have "mem_load p j 1 h = Some [s ! j]" if "j < length s" for j
    using load_in [OF assms, of j 1] that by (simp add: take_Suc hd_drop_conv_nth)
  from this [of "off + i"] this [of "off + i + 1"] Suc show ?case by simp
qed simp

lemma reduce_len_le: "reduce_len data \<le> length data"
  by (simp add: reduce_len_def Let_def)

lemma reduce_len_mem:
  assumes "buffer_in h (mb_data m) n s" and "mb_len m = length s"
  shows "mem_reduce_len h m off = Some (reduce_len (drop off s))"
proof (cases "length s - off > PAYLOAD_MAX")
  case True
  then have "off + PAYLOAD_MAX < length s" by simp
  from find_split_mem [OF assms(1) this] True assms(2) show ?thesis
    by (simp add: mem_reduce_len_def reduce_len_def mem_find_safe_split_def find_safe_split_def Let_def)
next
  case False
  with assms(2) show ?thesis by (simp add: mem_reduce_len_def reduce_len_def Let_def)
qed

text \<open>The map results lie in the memory \<open>h0\<close> of before the phase.\<close>

lemma reduce_phase_mem:
  assumes "buffer_in h0 (mb_data mr) n s" and "mb_len mr = length s"
  shows "holds_buffer (hp_blocks h0) h m b \<Longrightarrow> data = drop off s \<Longrightarrow>
    case reduce_phase net workers (hp_alloc h) data k idx b of
      Inl Reply_overrun \<Rightarrow> mem_reduce_phase net workers mr off k idx m h = None
    | Inl Exit_failure \<Rightarrow> \<exists>h'. mem_reduce_phase net workers mr off k idx m h = Some (None, h')
    | Inr (b', k', a') \<Rightarrow> \<exists>m' h'. mem_reduce_phase net workers mr off k idx m h = Some (Some m', h')
        \<and> holds_buffer (hp_blocks h0) h' m' b' \<and> hp_alloc h' = a'"
proof (induction "length data" arbitrary: data h m b off k idx rule: less_induct)
  case less
  note eqs = reduce_phase.simps [of net workers "hp_alloc h" data k idx b] mem_reduce_phase.simps [of net workers mr off k idx m h]
  show ?case
  proof (cases "data = []")
    case True
    with less.prems(2) assms(2) have "mem_reduce_phase net workers mr off k idx m h = Some (Some m, h)" by (simp add: eqs(2))
    moreover have "reduce_phase net workers (hp_alloc h) data k idx b = Inr (b, k, hp_alloc h)" using True by (subst eqs(1)) simp
    ultimately show ?thesis using less.prems(1) by simp
  next
    case False
    let ?n = "reduce_len data"
    let ?reply = "net k idx (red_message (take ?n data))"
    from False less.prems(2) have off: "off < length s" by simp
    have "hp_blocks h (mb_data mr) = hp_blocks h0 (mb_data mr)"
      using less.prems(1) buffer_live [OF assms(1)] by (metis holds_buffer_def)
    then have at: "buffer_in h (mb_data mr) n s" using assms(1) by (rule buffer_in_blocks)
    have len: "mem_reduce_len h mr off = Some ?n" using reduce_len_mem [OF at assms(2)] less.prems(2) by simp
    have "off + ?n \<le> length s" using reduce_len_le [of data] less.prems(2) off by simp
    from load_in [OF at this] have load: "mem_load (mb_data mr) off ?n h = Some (take ?n data)" using less.prems(2) by simp
    note out = absorb_mem [OF less.prems(1), of ?reply]
    have run: "mem_reduce_phase net workers mr off k idx m h = do {
        (b, h1) \<leftarrow> mem_absorb_reply m ?reply h;
        case b of None \<Rightarrow> Some (None, h1)
        | Some m' \<Rightarrow> mem_reduce_phase net workers mr (off + ?n) (Suc k) (Suc idx mod workers) m' h1 }"
      using off assms(2) len load by (simp add: eqs(2))
    show ?thesis
    proof (cases "absorb_reply (hp_alloc h) b ?reply")
      case (Inl e)
      with out False show ?thesis by (cases e) (auto simp: run eqs(1) same_outcome_def)
    next
      case (Inr x)
      obtain b1 a1 where x: "x = (b1, a1)" by (cases x)
      with out Inr obtain m1 h1 where
        h1: "mem_absorb_reply m ?reply h = Some (Some m1, h1)" "holds_buffer (hp_blocks h0) h1 m1 b1" "hp_alloc h1 = a1"
        by (auto simp: same_outcome_def)
      have r1: "mem_reduce_phase net workers mr off k idx m h
          = mem_reduce_phase net workers mr (off + ?n) (Suc k) (Suc idx mod workers) m1 h1"
        using h1(1) by (simp add: run)
      have r2: "reduce_phase net workers (hp_alloc h) data k idx b
          = reduce_phase net workers (hp_alloc h1) (drop ?n data) (Suc k) (Suc idx mod workers) b1"
        using Inr x h1(3) False by (simp add: eqs(1))
      have "length (drop ?n data) < length data" using reduce_len_pos [OF False] False by simp
      moreover have "drop ?n data = drop (off + ?n) s" using less.prems(2) by (simp add: add.commute)
      ultimately show ?thesis unfolding r1 r2 by (rule less.hyps [OF _ h1(2)])
    qed
  qed
qed

subsection \<open>A run\<close>

lemma buffer_grow_keeps_plenty: "buffer_grow a cap need = Some (cap', a') \<Longrightarrow> plenty a \<Longrightarrow> plenty a'"
proof (induction a cap need rule: buffer_grow.induct)
  case (1 a cap need)
  then show ?case by (auto simp: buffer_grow.simps [of a cap need] split: if_splits)
qed

lemma absorb_keeps_plenty: "absorb_reply a b reply = Inr (b', a') \<Longrightarrow> plenty a \<Longrightarrow> plenty a'"
  by (auto simp: absorb_reply_def buffer_append_def split: option.splits if_splits dest: buffer_grow_keeps_plenty)

lemma map_phase_keeps_plenty:
  "map_phase net workers a c k idx b = Inr (b', c', k', a') \<Longrightarrow> plenty a \<Longrightarrow> plenty a'"
proof (induction "unread c" arbitrary: a c k idx b rule: less_induct)
  case less
  obtain r chunk c1 where n: "chunker_next c = (r, chunk, c1)" by (cases "chunker_next c")
  note eq = map_phase.simps [of net workers a c k idx b]
  show ?case
  proof (cases "r \<noteq> 1 \<or> chunk = None")
    case True
    with n less.prems show ?thesis by (auto simp: eq split: if_splits)
  next
    case False
    then obtain t where t: "r = 1" "chunk = Some t" by auto
    with less.prems(1) n obtain b1 a1 where
      1: "absorb_reply a b (net k idx (map_message t)) = Inr (b1, a1)"
        "map_phase net workers a1 c1 (Suc k) (Suc idx mod workers) b1 = Inr (b', c', k', a')"
      by (auto simp: eq split: sum.splits)
    have "unread c1 < unread c" using n t by (simp add: chunker_next_unread)
    from less.hyps [OF this 1(2)] absorb_keeps_plenty [OF 1(1) less.prems(2)] show ?thesis .
  qed
qed

lemma reduce_phase_keeps_plenty:
  "reduce_phase net workers a data k idx b = Inr (b', k', a') \<Longrightarrow> plenty a \<Longrightarrow> plenty a'"
proof (induction "length data" arbitrary: a data k idx b rule: less_induct)
  case less
  note eq = reduce_phase.simps [of net workers a data k idx b]
  show ?case
  proof (cases "data = []")
    case True
    with less.prems have "Inr (b, k, a) = (Inr (b', k', a') :: dist_error + buffer \<times> nat \<times> alloc)" by (metis eq)
    with less.prems(2) show ?thesis by simp
  next
    case False
    with less.prems(1) obtain b1 a1 where
      1: "absorb_reply a b (net k idx (red_message (take (reduce_len data) data))) = Inr (b1, a1)"
        "reduce_phase net workers a1 (drop (reduce_len data) data) (Suc k) (Suc idx mod workers) b1 = Inr (b', k', a')"
      by (auto simp: eq split: sum.splits)
    have "length (drop (reduce_len data) data) < length data" using reduce_len_pos [OF False] False by simp
    from less.hyps [OF this 1(2)] absorb_keeps_plenty [OF 1(1) less.prems(2)] show ?thesis .
  qed
qed

lemma combine_parse_plenty: "plenty a \<Longrightarrow> combine_parse a cap p es \<noteq> None"
proof (induction a cap p es rule: combine_parse.induct)
  case (1 a cap p es)
  show ?case
    by (subst combine_parse.simps)
      (use 1 in \<open>auto simp: Let_def accumulate_def split: option.splits prod.splits if_splits\<close>)
qed

text \<open>Combining and releasing the second buffer.\<close>

lemma combine_buffer:
  assumes b: "holds_buffer base h m b"
  shows "\<exists>h6 h7. mem_string (mb_data m) h = Some (bf_data b)
    \<and> mem_combine_and_print (Some (bf_data b)) h = Some (combine_and_print (hp_alloc h) (Some (bf_data b)), h6)
    \<and> (\<exists>r. mem_buffer_free m h6 = Some (r, h7))
    \<and> (\<forall>x \<in> dom base. hp_blocks h7 x = base x) \<and> (plenty (hp_alloc h) \<longrightarrow> hp_blocks h7 = base)"
proof -
  from b have m: "heap_ok h" "mb_data m \<noteq> 0" "base (mb_data m) = None" "\<forall>x. x \<noteq> mb_data m \<longrightarrow> hp_blocks h x = base x"
    "buffer_in h (mb_data m) (mb_cap m) (bf_data b @ [NUL])" "NUL \<notin> set (bf_data b)"
    by (auto simp: holds_buffer_def)
  from combine_leaks_only_on_failed_realloc [OF m(1), of "bf_data b"] obtain h6 where
    h6: "mem_combine_and_print (Some (bf_data b)) h = Some (combine_and_print (hp_alloc h) (Some (bf_data b)), h6)"
    "plenty (hp_alloc h) \<longrightarrow> hp_blocks h6 = hp_blocks h" "\<forall>x \<in> dom (hp_blocks h). hp_blocks h6 x = hp_blocks h x"
    using combine_parse_plenty [of "snd (malloc (hp_alloc h))" 128 "bf_data b" "[]"] by fastforce
  obtain bs where live: "hp_blocks h (mb_data m) = Some bs" using buffer_live [OF m(5)] by blast
  then have "hp_blocks h6 (mb_data m) = Some bs" using h6(3) by (metis domI)
  note free = heap_free_live [OF this m(2)]
  have "\<forall>x \<in> dom base. hp_blocks h6 x = base x"
  proof
    fix x assume "x \<in> dom base"
    then have "x \<noteq> mb_data m" "base x \<noteq> None" using m(3) by auto
    then have "hp_blocks h x = base x" "x \<in> dom (hp_blocks h)" using m(4) by (auto simp: domIff)
    then show "hp_blocks h6 x = base x" using h6(3) by simp
  qed
  then have keeps: "\<forall>x \<in> dom base. ((hp_blocks h6)(mb_data m := None)) x = base x" using m(3) by auto
  have undo: "(hp_blocks h)(mb_data m := None) = base" using m(3,4) by auto
  have str: "mem_string (mb_data m) h = Some (bf_data b)"
    using m(5,6) by (auto simp: buffer_in_def mem_string_def bytes_at_def set_string_terminated)
  show ?thesis
  proof (rule exI [of _ h6], rule exI [of _ "h6\<lparr>hp_blocks := (hp_blocks h6)(mb_data m := None)\<rparr>"], intro conjI)
    show "plenty (hp_alloc h) \<longrightarrow> hp_blocks (h6\<lparr>hp_blocks := (hp_blocks h6)(mb_data m := None)\<rparr>) = base"
      using h6(2) undo by simp
  qed (use h6(1) free keeps str in \<open>simp_all add: mem_buffer_free_def\<close>)
qed

text \<open>The first buffer is released while the second one stays.\<close>

lemma release_first:
  assumes m: "holds_buffer base h m b" and m2: "holds_buffer (hp_blocks h) h2 m2 b2"
  shows "\<exists>h3. mem_buffer_free m h2 = Some (\<lparr>mb_data = 0, mb_len = 0, mb_cap = 0\<rparr>, h3) \<and> holds_buffer base h3 m2 b2
    \<and> hp_alloc h3 = hp_alloc h2"
proof -
  from m have 1: "mb_data m \<noteq> 0" "base (mb_data m) = None" "\<forall>x. x \<noteq> mb_data m \<longrightarrow> hp_blocks h x = base x"
    "hp_blocks h (mb_data m) \<noteq> None" using buffer_live by (auto simp: holds_buffer_def)
  from m2 have 2: "heap_ok h2" "hp_blocks h (mb_data m2) = None" "\<forall>x. x \<noteq> mb_data m2 \<longrightarrow> hp_blocks h2 x = hp_blocks h x"
    "buffer_in h2 (mb_data m2) (mb_cap m2) (bf_data b2 @ [NUL])" by (auto simp: holds_buffer_def)
  from 1(4) 2(2) have ne: "mb_data m2 \<noteq> mb_data m" by metis
  let ?h = "h2\<lparr>hp_blocks := (hp_blocks h2)(mb_data m := None)\<rparr>"
  obtain y where "hp_blocks h2 (mb_data m) = Some y" using 1(4) 2(3) ne by fastforce
  from heap_free_live [OF this 1(1)] have "mem_buffer_free m h2 = Some (\<lparr>mb_data = 0, mb_len = 0, mb_cap = 0\<rparr>, ?h)"
    by (simp add: mem_buffer_free_def)
  moreover have "heap_ok ?h" by (rule heap_ok_update [OF 2(1)]) auto
  moreover have "buffer_in ?h (mb_data m2) (mb_cap m2) (bf_data b2 @ [NUL])"
    by (rule buffer_in_blocks [OF _ 2(4)]) (use ne in simp)
  moreover have "base (mb_data m2) = None" using 1(3) 2(2) ne by metis
  moreover have "hp_blocks ?h x = base x" if "x \<noteq> mb_data m2" for x using that 1(2,3) 2(3) by simp
  ultimately show ?thesis using m2 by (intro exI [of _ ?h]) (simp add: holds_buffer_def)
qed

text \<open>The same part of the run without memory.\<close>

definition distributor_rest :: "network \<Rightarrow> nat \<Rightarrow> buffer \<Rightarrow> nat \<Rightarrow> alloc \<Rightarrow> dist_error + (string \<times> (nat \<times> char list) list)" where
  "distributor_rest net workers map_results k a =
     (case buffer_init a of None \<Rightarrow> Inl Exit_failure
      | Some (reduce_results, a3) \<Rightarrow>
         (case reduce_phase net workers a3 (bf_data map_results) k 0 reduce_results of Inl e \<Rightarrow> Inl e
          | Inr (reduce_results', k', a4) \<Rightarrow>
              Inr (combine_and_print a4 (Some (bf_data reduce_results')), distributor_send_rip workers)))"

lemma rest_mem:
  assumes m: "holds_buffer base h m b"
  shows "case distributor_rest net workers b k (hp_alloc h) of
      Inl Reply_overrun \<Rightarrow> mem_distributor_rest net workers m k h = None
    | Inl Exit_failure \<Rightarrow> \<exists>h'. mem_distributor_rest net workers m k h = Some (None, h')
    | Inr r \<Rightarrow> \<exists>h'. mem_distributor_rest net workers m k h = Some (Some r, h')
        \<and> (\<forall>x \<in> dom base. hp_blocks h' x = base x) \<and> (plenty (hp_alloc h) \<longrightarrow> hp_blocks h' = base)"
proof -
  from m have ok: "heap_ok h" "mb_data m \<noteq> 0" "base (mb_data m) = None" "\<forall>x. x \<noteq> mb_data m \<longrightarrow> hp_blocks h x = base x"
    "mb_len m = length (bf_data b)" "buffer_in h (mb_data m) (mb_cap m) (bf_data b @ [NUL])" by (auto simp: holds_buffer_def)
  note defs = distributor_rest_def mem_distributor_rest_def
  show ?thesis
  proof (cases "buffer_init (hp_alloc h)")
    case None
    with init_mem [OF ok(1)] show ?thesis by (auto simp: defs)
  next
    case (Some x)
    obtain b1 a1 where x: "x = (b1, a1)" by (cases x)
    with init_mem [OF ok(1)] Some obtain m1 h1 where
      h1: "mem_buffer_init h = Some (Some m1, h1)" "holds_buffer (hp_blocks h) h1 m1 b1" "hp_alloc h1 = a1" by auto
    note step = reduce_phase_mem [OF buffer_in_prefix [OF ok(6)] ok(5) h1(2), of "bf_data b" 0 net workers k 0, OF drop_0 [symmetric]]
    show ?thesis
    proof (cases "reduce_phase net workers a1 (bf_data b) k 0 b1")
      case (Inl e)
      with step h1 Some x show ?thesis by (cases e) (auto simp: defs)
    next
      case (Inr y)
      obtain b2 k2 a2 where y: "y = (b2, k2, a2)" by (cases y)
      with step Inr h1(3) obtain m2 h2 where
        h2: "mem_reduce_phase net workers m 0 k 0 m1 h1 = Some (Some m2, h2)" "holds_buffer (hp_blocks h) h2 m2 b2"
          "hp_alloc h2 = a2" by auto
      obtain h3 where h3: "mem_buffer_free m h2 = Some (\<lparr>mb_data = 0, mb_len = 0, mb_cap = 0\<rparr>, h3)" "holds_buffer base h3 m2 b2"
        "hp_alloc h3 = a2" using release_first [OF m h2(2)] h2(3) by auto
      from combine_buffer [OF h3(2)] obtain h4 r h5 where
        h5: "mem_string (mb_data m2) h3 = Some (bf_data b2)"
          "mem_combine_and_print (Some (bf_data b2)) h3 = Some (combine_and_print a2 (Some (bf_data b2)), h4)"
          "mem_buffer_free m2 h4 = Some (r, h5)" "\<forall>x \<in> dom base. hp_blocks h5 x = base x" "plenty a2 \<longrightarrow> hp_blocks h5 = base"
        unfolding h3(3) by blast
      have "distributor_rest net workers b k (hp_alloc h) = Inr (combine_and_print a2 (Some (bf_data b2)), distributor_send_rip workers)"
        using Some x Inr y by (simp add: distributor_rest_def)
      moreover have "mem_distributor_rest net workers m k h
          = Some (Some (combine_and_print a2 (Some (bf_data b2)), distributor_send_rip workers), h5)"
        using h1(1) h2(1) h3(1) h5(1-3) by (simp add: mem_distributor_rest_def)
      moreover have "plenty a1" if "plenty (hp_alloc h)" using that Some x by (auto simp: buffer_init_def)
      then have "plenty a2" if "plenty (hp_alloc h)" using that reduce_phase_keeps_plenty Inr y by blast
      ultimately show ?thesis using h5(4,5) by simp
    qed
  qed
qed

lemma distributor_mem:
  assumes "heap_ok h"
  shows "case distributor_main net workers (hp_alloc h) contents of
      Inl Reply_overrun \<Rightarrow> mem_distributor_main net workers contents h = None
    | Inl Exit_failure \<Rightarrow> \<exists>h'. mem_distributor_main net workers contents h = Some (None, h')
    | Inr r \<Rightarrow> \<exists>h'. mem_distributor_main net workers contents h = Some (Some r, h')
        \<and> (\<forall>x \<in> dom (hp_blocks h). hp_blocks h' x = hp_blocks h x)
        \<and> (plenty (hp_alloc h) \<longrightarrow> hp_blocks h' = hp_blocks h)"
proof -
  obtain status c where c: "chunker_init contents = (status, c)" by fastforce
  show ?thesis
  proof (cases "workers < 1 \<or> status \<noteq> 0")
    case True
    with c show ?thesis by (auto simp: distributor_main_def mem_distributor_main_def)
  next
    case start: False
    note defs = distributor_main_def mem_distributor_main_def
    show ?thesis
    proof (cases "buffer_init (hp_alloc h)")
      case None
      with init_mem [OF assms] start c show ?thesis by (auto simp: defs)
    next
      case (Some x)
      obtain b1 a1 where x: "x = (b1, a1)" by (cases x)
      with init_mem [OF assms] Some obtain m1 h1 where
        h1: "mem_buffer_init h = Some (Some m1, h1)" "holds_buffer (hp_blocks h) h1 m1 b1" "hp_alloc h1 = a1" by auto
      have p1: "plenty (hp_alloc h) \<Longrightarrow> plenty a1" using Some x by (auto simp: buffer_init_def)
      note step1 = map_phase_mem [OF h1(2), of net workers c 0 0]
      show ?thesis
      proof (cases "map_phase net workers a1 c 0 0 b1")
        case (Inl e)
        with step1 h1 Some x start c show ?thesis by (cases e) (auto simp: defs)
      next
        case (Inr y)
        obtain b2 c2 k a2 where y: "y = (b2, c2, k, a2)" by (cases y)
        with step1 Inr h1(3) obtain m2 h2 where
          h2: "mem_map_phase net workers c 0 0 m1 h1 = Some (Some (m2, k), h2)" "holds_buffer (hp_blocks h) h2 m2 b2"
            "hp_alloc h2 = a2" by auto
        have p2: "plenty (hp_alloc h) \<Longrightarrow> plenty a2" using map_phase_keeps_plenty Inr y p1 by blast
        have run: "distributor_main net workers (hp_alloc h) contents = distributor_rest net workers b2 k a2"
          "mem_distributor_main net workers contents h = mem_distributor_rest net workers m2 k h2"
          using Some x start c h1 h2(1) Inr y by (simp_all add: defs distributor_rest_def mem_distributor_rest_def)
        from rest_mem [OF h2(2), of net workers k] p2 h2(3) show ?thesis
          unfolding run by (auto split: sum.splits dist_error.splits)
      qed
    qed
  qed
qed

text \<open>C18: A run of the distributor in memory: whichever allocations fail, it ends as the model without memory does, with
  the same output and the same requests; every byte it stores lies inside a buffer that is allocated,
  every byte it reads to cut a payload has been written, and nothing is freed twice.  Where it comes to
  its end and no allocation fails, both buffers and all that the combination allocated are released.\<close>

theorem distributor_in_memory:
  assumes "heap_ok h"
  shows "case distributor_main net workers (hp_alloc h) contents of
      Inl Reply_overrun \<Rightarrow> mem_distributor_main net workers contents h = None
    | Inl Exit_failure \<Rightarrow> \<exists>h'. mem_distributor_main net workers contents h = Some (None, h')
    | Inr r \<Rightarrow> \<exists>h'. mem_distributor_main net workers contents h = Some (Some r, h')
        \<and> (\<forall>x \<in> dom (hp_blocks h). hp_blocks h' x = hp_blocks h x)
        \<and> (plenty (hp_alloc h) \<longrightarrow> hp_blocks h' = hp_blocks h)"
  using distributor_mem [OF assms] .

lemma distributor_in_memory_witness:
  "\<exists>h'. mem_distributor_main (\<lambda>k i m. None) 1 (Some []) (empty_heap []) = Some (Some ([], [(0, ''rip'' @ [NUL])]), h')
    \<and> hp_blocks h' = Map.empty"
proof -
  have eof: "chunker_next \<lparr>ck_file = Some []\<rparr> = (0, None, \<lparr>ck_file = Some []\<rparr>)" by (simp add: chunker_next_eof)
  then have "map_phase (\<lambda>k i m. None) 1 [] \<lparr>ck_file = Some []\<rparr> 0 0 b = Inr (b, \<lparr>ck_file = Some []\<rparr>, 0, [])" for b
    by (subst map_phase.simps) simp
  then have "distributor_main (\<lambda>k i m. None) 1 [] (Some []) = Inr ([], [(0, ''rip'' @ [NUL])])"
    by (simp add: distributor_main_def chunker_init_def buffer_init_def reduce_phase.simps [of _ _ _ "[]"]
        combine_and_print_def distributor_send_rip_def)
  with distributor_in_memory [where h = "empty_heap []" and net = "\<lambda>k i m. None" and workers = 1 and contents = "Some []",
      OF empty_heap_ok] show ?thesis by (auto simp: empty_heap_def)
qed

end
