(* ===== verification/Chord_Util.thy ===== *)
theory Chord_Util
  imports C_Prelude
begin

section \<open>Helpers of the Chord node (chord-node/util.c)\<close>

text \<open>
  What the C library's \<open>memchr\<close>, \<open>strncmp\<close> and \<open>strtoul\<close> do on a memory given as the list of its
  bytes, then \<open>memstr\<close>, \<open>safe_strtoul\<close> and \<open>pseudo_hash\<close>.  A fault is a way in which the program
  stops behaving: it loops for ever, touches memory outside an object, frees what was not
  allocated, or exits.
\<close>

datatype fault = Hang | Out_of_bounds | Bad_free | Exit_failure

unbundle bit_operations_syntax

subsection \<open>memchr, strncmp, strtoul\<close>

text \<open>The first position of \<open>c\<close> in the bytes \<open>from .. until-1\<close>.\<close>

definition memchr :: "char list \<Rightarrow> nat \<Rightarrow> nat \<Rightarrow> char \<Rightarrow> nat option" where
  "memchr mem from until c =
     (let window = take (until - from) (drop from mem); k = length (takeWhile (\<lambda>d. d \<noteq> c) window)
      in if k < length window then Some (from + k) else None)"

text \<open>\<open>None\<close>: the comparison reads behind the end of one of the two.\<close>

fun strncmp :: "char list \<Rightarrow> char list \<Rightarrow> nat \<Rightarrow> int option" where
  "strncmp s t 0 = Some 0"
| "strncmp (a # s) (b # t) (Suc n) =
     (if byte a < byte b then Some (-1) else if byte b < byte a then Some 1
      else if a = NUL then Some 0 else strncmp s t n)"
| "strncmp _ _ (Suc n) = None"

definition is_space :: "char \<Rightarrow> bool" where
  "is_space c \<longleftrightarrow> byte c \<in> {9, 10, 11, 12, 13, 32}"

text \<open>
  \<open>strtoul\<close> in base 10: white space, an optional sign, digits.  The result and whether \<open>errno\<close> is set
  to \<open>ERANGE\<close>; the value saturates, and is negated modulo \<open>2^64\<close> behind a minus sign.  \<open>None\<close>: the
  number reads behind the end of the memory.
\<close>

definition strtoul :: "char list \<Rightarrow> (u64 \<times> bool) option" where
  "strtoul s =
     (let s1 = dropWhile is_space s;
          neg = (s1 \<noteq> [] \<and> hd s1 = CHR ''-'');
          s2 = (if s1 \<noteq> [] \<and> (hd s1 = CHR ''-'' \<or> hd s1 = CHR ''+'') then tl s1 else s1);
          v = dec_value 0 (takeWhile is_digit s2)
      in if dropWhile is_digit s2 = [] then None
         else if 2 ^ 64 \<le> v then Some (- 1, True)
         else Some (if neg then - of_nat v else of_nat v, False))"

definition safe_strtoul :: "string \<Rightarrow> fault + u16" where
  "safe_strtoul nptr =
     (case strtoul (nptr @ [NUL]) of None \<Rightarrow> Inl Out_of_bounds
      | Some (v, range_error) \<Rightarrow> if range_error then Inl Exit_failure else Inr (ucast v))"

subsection \<open>memstr\<close>

text \<open>
  Positions are offsets into the memory \<open>mem\<close>, the searched bytes are those from \<open>pos\<close> to
  \<open>until - 1\<close>.  The loop never advances behind a first byte that does not start the needle, so it is
  a partial function: \<open>None\<close> is the value of a call that does not return.
\<close>

partial_function (option) memstr :: "char list \<Rightarrow> nat \<Rightarrow> nat \<Rightarrow> string \<Rightarrow> (fault + nat option) option" where
  "memstr mem pos until needle =
     (if until < pos then Some (Inl Out_of_bounds)
      else (case memchr mem pos until (hd (needle @ [NUL])) of
          None \<Rightarrow> Some (Inr None)
        | Some p \<Rightarrow>
           (case strncmp (drop p mem) (needle @ [NUL]) (length needle) of
              None \<Rightarrow> Some (Inl Out_of_bounds)
            | Some r \<Rightarrow> if r = 0 then Some (Inr (Some p)) else memstr mem p until needle)))"

subsection \<open>pseudo\_hash\<close>

text \<open>The sum of the 16-bit words of the padded buffer, in 32 bits, and its fold.\<close>

fun sum_words :: "u32 \<Rightarrow> char list \<Rightarrow> u32" where
  "sum_words hash [] = hash"
| "sum_words hash [a] = hash + (push_bit 8 (of_nat (byte a)) OR 0)"
| "sum_words hash (a # b # s) = sum_words (hash + (push_bit 8 (of_nat (byte a)) OR of_nat (byte b))) s"

definition pseudo_hash :: "char list \<Rightarrow> u16" where
  "pseudo_hash buffer =
     (let hash = sum_words 0 buffer;
          folded = (hash AND 0xFFFF) + drop_bit 16 hash
      in ucast (NOT folded))"

subsection \<open>Facts on memchr and memstr\<close>

lemma memchr_Some:
  assumes "memchr mem from until c = Some p"
  shows "from \<le> p \<and> p < until \<and> p < length mem \<and> mem ! p = c
    \<and> (\<forall>j. from \<le> j \<longrightarrow> j < p \<longrightarrow> mem ! j \<noteq> c)"
proof -
  let ?w = "take (until - from) (drop from mem)"
  let ?k = "length (takeWhile (\<lambda>d. d \<noteq> c) ?w)"
  from assms have k: "?k < length ?w" and p: "p = from + ?k"
    by (auto simp: memchr_def Let_def split: if_splits)
  have "?w ! ?k = c" using nth_length_takeWhile [OF k] by simp
  have w: "?w ! i = mem ! (from + i)" if "i < length ?w" for i
    using that by (auto intro!: nth_drop)
  have "?w ! i \<noteq> c" if "i < ?k" for i
    using that set_takeWhileD [of "?w ! i" "\<lambda>d. d \<noteq> c" ?w] by (metis nth_mem takeWhile_nth)
  note before = this
  have "mem ! j \<noteq> c" if "from \<le> j" "j < p" for j
  proof -
    have "j - from < ?k" using that unfolding p by linarith
    moreover from this k have "j - from < length ?w" by (rule less_trans)
    ultimately show ?thesis using before [of "j - from"] w [of "j - from"] that(1) by simp
  qed
  moreover have "mem ! p = c" using \<open>?w ! ?k = c\<close> w [OF k] p by simp
  ultimately show ?thesis using k p by auto
qed

lemma memchr_hit:
  assumes "i < until" and "i < length mem" and "mem ! i = c"
  shows "memchr mem i until c = Some i"
proof -
  have "drop i mem = c # drop (Suc i) mem" using assms(2,3) Cons_nth_drop_Suc by fastforce
  moreover have "until - i = Suc (until - Suc i)" using assms(1) by simp
  ultimately show ?thesis by (simp add: memchr_def)
qed

lemma memchr_None:
  "memchr mem from until c = None \<longleftrightarrow> c \<notin> set (take (until - from) (drop from mem))"
proof -
  have "length (takeWhile (\<lambda>d. d \<noteq> c) w) < length w \<longleftrightarrow> c \<in> set w" for w
    by (induction w) auto
  then show ?thesis by (simp add: memchr_def Let_def)
qed

text \<open>A search that starts at a hit finds it at once.\<close>

lemma memchr_again: "memchr mem from until c = Some p \<Longrightarrow> memchr mem p until c = Some p"
  using memchr_Some memchr_hit by blast

lemma memstr_stuck:
  assumes "pos \<le> until" and "memchr mem pos until (hd (needle @ [NUL])) = Some pos"
    and "strncmp (drop pos mem) (needle @ [NUL]) (length needle) = Some r" and "r \<noteq> 0"
  shows "memstr mem pos until needle = None"
proof -
  have "memstr m p u n = Some y \<Longrightarrow>
      \<not> (p \<le> u \<and> memchr m p u (hd (n @ [NUL])) = Some p
         \<and> (\<exists>r. strncmp (drop p m) (n @ [NUL]) (length n) = Some r \<and> r \<noteq> 0))" for m p u n y
    by (rule memstr.raw_induct [of "\<lambda>m p u n y. \<not> (p \<le> u \<and> memchr m p u (hd (n @ [NUL])) = Some p
         \<and> (\<exists>r. strncmp (drop p m) (n @ [NUL]) (length n) = Some r \<and> r \<noteq> 0))"])
      (auto split: if_splits option.splits)
  with assms show ?thesis by (cases "memstr mem pos until needle") blast+
qed

text \<open>One round decides: the loop either returns in its first round or never.\<close>

lemma memstr_eq [code]:
  "memstr mem pos until needle =
     (if until < pos then Some (Inl Out_of_bounds)
      else (case memchr mem pos until (hd (needle @ [NUL])) of
          None \<Rightarrow> Some (Inr None)
        | Some p \<Rightarrow>
           (case strncmp (drop p mem) (needle @ [NUL]) (length needle) of
              None \<Rightarrow> Some (Inl Out_of_bounds)
            | Some r \<Rightarrow> if r = 0 then Some (Inr (Some p)) else None)))"
proof (cases "until < pos")
  case False
  show ?thesis
  proof (cases "memchr mem pos until (hd (needle @ [NUL]))")
    case (Some p)
    have "memstr mem p until needle = None"
      if "strncmp (drop p mem) (needle @ [NUL]) (length needle) = Some r" and "r \<noteq> 0" for r
      using memchr_Some [OF Some] memchr_again [OF Some] that by (intro memstr_stuck) auto
    with Some False show ?thesis
      by (subst memstr.simps) (auto split: option.splits)
  qed (subst memstr.simps, use False in simp)
qed (subst memstr.simps, simp)

lemma memstr_bounds:
  "memstr mem pos until needle = Some (Inr (Some p)) \<Longrightarrow> pos \<le> p \<and> p < until"
  by (auto simp: memstr_eq split: if_splits option.splits dest: memchr_Some)

subsection \<open>The hash as arithmetic\<close>

text \<open>The sum of the big-endian 16-bit words of a byte string, an odd last byte padded with zero.\<close>

fun word_sum :: "char list \<Rightarrow> nat" where
  "word_sum [] = 0"
| "word_sum [a] = 256 * byte a"
| "word_sum (a # b # s) = 256 * byte a + byte b + word_sum s"

lemma or_bytes: "a < 256 \<Longrightarrow> b < 256 \<Longrightarrow> push_bit 8 (of_nat a) OR of_nat b = (of_nat (256 * a + b) :: u32)"
proof -
  assume "a < 256" and b: "b < 256"
  then have "take_bit 8 (of_nat b :: u32) = of_nat b"
    by (simp add: take_bit_of_nat take_bit_nat_eq_self)
  then have "\<not> bit (of_nat b :: u32) n" if "8 \<le> n" for n
    using that by (metis bit_take_bit_iff linorder_not_less)
  then have "push_bit 8 (of_nat a) AND (of_nat b :: u32) = 0"
    by (intro bit_eqI) (auto simp: bit_simps)
  then have "push_bit 8 (of_nat a) OR of_nat b = push_bit 8 (of_nat a) + (of_nat b :: u32)"
    by (rule disjunctive_add_eq_or [symmetric])
  then show ?thesis by (simp add: push_bit_eq_mult)
qed

lemma sum_words_eq: "sum_words h s = h + of_nat (word_sum s)"
proof (induction h s rule: sum_words.induct)
  case (2 h a)
  then show ?case by (simp add: push_bit_eq_mult)
next
  case (3 h a b s)
  then show ?case using or_bytes [of "byte a" "byte b"] by (simp add: add.assoc)
qed simp

lemma pseudo_hash_value:
  "unat (pseudo_hash s) =
    65535 - (word_sum s mod 2 ^ 32 mod 65536 + word_sum s mod 2 ^ 32 div 65536) mod 65536"
proof -
  let ?h = "of_nat (word_sum s) :: u32"
  let ?f = "(?h AND 0xFFFF) + drop_bit 16 ?h"
  have h: "unat ?h = word_sum s mod 2 ^ 32" by (simp add: unat_of_nat take_bit_eq_mod)
  have mask: "?h AND 0xFFFF = take_bit 16 ?h" by (simp add: take_bit_eq_mask mask_eq_exp_minus_1)
  have low: "unat (?h AND 0xFFFF) = unat ?h mod 65536"
    by (simp only: mask unsigned_take_bit_eq) (simp add: take_bit_eq_mod)
  have high: "unat (drop_bit 16 ?h) = unat ?h div 65536"
    by (simp only: unat_drop_bit_eq) (simp add: drop_bit_eq_div)
  have "unat ?h div 65536 < 65536" using unsigned_less [of ?h, where ?'a = nat] by (simp add: div_less_iff_less_mult)
  then have f: "unat ?f = unat ?h mod 65536 + unat ?h div 65536"
    by (simp add: unat_word_ariths low high)
  have "unat (ucast (NOT f) :: u16) = 65535 - unat f mod 65536" for f :: u32
  proof -
    have "uint (NOT f) = 4294967295 - uint f"
      using unsigned_less [of f, where ?'a = int]
      by (simp add: unsigned_not_eq take_bit_not_eq_mask_diff mask_eq_exp_minus_1 take_bit_int_eq_self)
    then have "nat (uint (NOT f)) = 4294967295 - nat (uint f)"
      using uint_ge_0 [of f] by linarith
    then have "unat (NOT f) = 4294967295 - unat f" by (simp only: nat_uint_eq)
    moreover have "(4294967295 - m) mod 65536 = 65535 - m mod 65536" if "m < 4294967296" for m :: nat
    proof -
      have "m div 65536 \<le> 65535" using that by linarith
      moreover have "m = 65536 * (m div 65536) + m mod 65536" by simp
      ultimately have "4294967295 - m = (65535 - m mod 65536) + (65535 - m div 65536) * 65536" by linarith
      then have "(4294967295 - m) mod 65536 = (65535 - m mod 65536) mod 65536"
        by (simp only: mod_mult_self1)
      moreover have "65535 - m mod 65536 < 65536" by simp
      ultimately show ?thesis by (simp only: mod_less)
    qed
    moreover have "unat f < 4294967296" using unsigned_less [of f, where ?'a = nat] by simp
    ultimately show ?thesis by (simp add: unsigned_ucast_eq take_bit_eq_mod)
  qed
  from this [of ?f] show ?thesis
    unfolding pseudo_hash_def sum_words_eq Let_def add_0_left f h .
qed

lemma strncmp_equal:
  "NUL \<notin> set t \<Longrightarrow> length t \<le> length s \<Longrightarrow>
    \<exists>r. strncmp s (t @ [NUL]) (length t) = Some r \<and> (r = 0 \<longleftrightarrow> take (length t) s = t)"
proof (induction t arbitrary: s)
  case (Cons b t)
  then obtain a s' where s: "s = a # s'" by (cases s) auto
  have IH: "\<exists>r. strncmp s' (t @ [NUL]) (length t) = Some r \<and> (r = 0 \<longleftrightarrow> take (length t) s' = t)"
    using Cons.IH [of s'] Cons.prems s by simp
  have "b \<noteq> NUL" using Cons.prems(1) by auto
  then show ?case
    by (rule_tac byte_cases [of a b]) (use IH in \<open>auto simp: s\<close>)
qed simp

subsection \<open>Properties\<close>

text \<open>A call of \<open>memstr\<close> on a window of its memory fails to return exactly where the first byte that
  equals the needle's first byte does not start the needle; where it returns a position, the needle
  stands there and no earlier byte of the window equals its first byte.\<close>

theorem memstr_returns_iff:
  assumes "needle \<noteq> []" and "NUL \<notin> set needle" and "pos \<le> until"
    and "until + length needle \<le> length mem + 1"
  shows "(memstr mem pos until needle = None \<longleftrightarrow>
      (\<exists>p. memchr mem pos until (hd needle) = Some p \<and> take (length needle) (drop p mem) \<noteq> needle))
    \<and> (\<forall>p. memstr mem pos until needle = Some (Inr (Some p)) \<longrightarrow>
          pos \<le> p \<and> p < until \<and> take (length needle) (drop p mem) = needle
          \<and> (\<forall>j. pos \<le> j \<longrightarrow> j < p \<longrightarrow> mem ! j \<noteq> hd needle))"
proof -
  have hd: "hd (needle @ [NUL]) = hd needle" using assms(1) by simp
  have cmp: "\<exists>r. strncmp (drop p mem) (needle @ [NUL]) (length needle) = Some r
      \<and> (r = 0 \<longleftrightarrow> take (length needle) (drop p mem) = needle)"
    if "memchr mem pos until (hd needle) = Some p" for p
  proof (rule strncmp_equal [OF assms(2)])
    show "length needle \<le> length (drop p mem)" using memchr_Some [OF that] assms(4) by (simp, linarith)
  qed
  show ?thesis
  proof (cases "memchr mem pos until (hd needle)")
    case None
    then show ?thesis using assms(3) by (simp add: memstr_eq hd)
  next
    case (Some p)
    with cmp [OF Some] memchr_Some [OF Some] assms(3) show ?thesis
      by (auto simp: memstr_eq hd)
  qed
qed

lemma memstr_returns_iff_witness:
  "memstr [CHR ''a'', CR, CHR ''b'', CR, LF] 0 4 [CR, LF] = None"
proof -
  have "memchr [CHR ''a'', CR, CHR ''b'', CR, LF] 0 4 CR = Some 1" by code_simp
  then show ?thesis
    using memstr_returns_iff [of "[CR, LF]" 0 4 "[CHR ''a'', CR, CHR ''b'', CR, LF]"] by simp
qed

text \<open>\<open>pseudo_hash\<close> is the complement of the sum of the big-endian 16-bit words of its input, the
  last one padded with zero, whose carries are added back once; a carry of that addition is lost.\<close>

theorem pseudo_hash_folds_once:
  "unat (pseudo_hash s) =
    65535 - (word_sum s mod 2 ^ 32 mod 65536 + word_sum s mod 2 ^ 32 div 65536) mod 65536"
  by (rule pseudo_hash_value)

end
