(* ===== verification/Chord_Wire.thy ===== *)
theory Chord_Wire
  imports Chord_Util
begin

section \<open>Identifiers and datagrams of the Chord protocol (chord-node/webserver.c)\<close>

text \<open>
  The interval test on 16-bit identifiers, the textual and the binary form of IPv4 addresses
  (\<open>inet_pton\<close> and \<open>inet_ntop\<close> of the C library), and the 11-byte messages: flags, identifier, then
  identifier, address and port of a peer, in network byte order.
\<close>

definition INET_ADDRSTRLEN :: nat where
  "INET_ADDRSTRLEN = 16"

definition is_responsible :: "u16 \<Rightarrow> u16 \<Rightarrow> u16 \<Rightarrow> bool" where
  "is_responsible hash self_id pred_id =
     (if pred_id < self_id then pred_id < hash \<and> hash \<le> self_id
      else pred_id < hash \<or> hash \<le> self_id)"

subsection \<open>Addresses\<close>

fun split_dots :: "string \<Rightarrow> string list" where
  "split_dots [] = [[]]"
| "split_dots (c # s) =
     (if c = CHR ''.'' then [] # split_dots s
      else (case split_dots s of [] \<Rightarrow> [[c]] | p # ps \<Rightarrow> (c # p) # ps))"

definition octet :: "string \<Rightarrow> char option" where
  "octet s =
     (if s \<noteq> [] \<and> list_all is_digit s \<and> length s \<le> 3 \<and> (length s > 1 \<longrightarrow> hd s \<noteq> CHR ''0'')
         \<and> dec_value 0 s < 256
      then Some (char_of (dec_value 0 s)) else None)"

definition inet_pton :: "string \<Rightarrow> char list option" where
  "inet_pton s =
     (case map octet (split_dots s) of [Some a, Some b, Some c, Some d] \<Rightarrow> Some [a, b, c, d] | _ \<Rightarrow> None)"

fun inet_ntop :: "char list \<Rightarrow> string" where
  "inet_ntop [] = []"
| "inet_ntop [b] = decimal (byte b)"
| "inet_ntop (b # bs) = decimal (byte b) @ CHR ''.'' # inet_ntop bs"

subsection \<open>Messages\<close>

definition put16 :: "u16 \<Rightarrow> char list" where
  "put16 w = [char_of (unat (drop_bit 8 w)), char_of (unat (take_bit 8 w))]"

definition get16 :: "char list \<Rightarrow> nat \<Rightarrow> u16" where
  "get16 msg i = of_nat (byte (msg ! i) * 256 + byte (msg ! (i + 1)))"

definition MSG_SIZE :: nat where
  "MSG_SIZE = 11"

definition build_message :: "char \<Rightarrow> u16 \<Rightarrow> u16 \<Rightarrow> char list \<Rightarrow> u16 \<Rightarrow> char list" where
  "build_message flags ident peer_id ipbuf peer_port =
     flags # put16 ident @ put16 peer_id @ ipbuf @ put16 peer_port"

text \<open>The address that goes into a message; an invalid one is sent as four zero bytes.\<close>

definition address_bytes :: "string \<Rightarrow> char list" where
  "address_bytes ip = (case inet_pton ip of None \<Rightarrow> replicate 4 NUL | Some a \<Rightarrow> a)"

abbreviation LOOKUP :: char where
  "LOOKUP \<equiv> CHR 0x00"

abbreviation REPLY :: char where
  "REPLY \<equiv> CHR 0x01"

subsection \<open>The interval test\<close>

text \<open>The distance from the predecessor, going up the ring, decides.\<close>

lemma unat_diff: "unat (a - b :: u16) = (if b \<le> a then unat a - unat b else 65536 + unat a - unat b)"
proof (cases "b \<le> a")
  case True
  then show ?thesis by (simp add: unat_sub)
next
  case False
  then have "unat a < unat b" by (simp add: word_less_nat_alt not_le)
  moreover have "unat b < 65536" using unsigned_less [of b, where ?'a = nat] by simp
  ultimately show ?thesis using False by (simp add: unat_sub_if')
qed

lemma is_responsible_distance:
  "pred \<noteq> self \<Longrightarrow> is_responsible h self pred \<longleftrightarrow> 0 < unat (h - pred) \<and> unat (h - pred) \<le> unat (self - pred)"
proof -
  assume ne: "pred \<noteq> self"
  have lt: "unat h < 65536" "unat pred < 65536" "unat self < 65536"
    using unsigned_less [where ?'a = nat and ?'b = 16] by simp_all
  have "unat pred \<noteq> unat self" using ne by (simp add: word_unat_eq_iff)
  then show ?thesis using lt
    unfolding is_responsible_def unat_diff word_less_nat_alt word_le_nat_alt by auto
qed

lemma is_responsible_single: "is_responsible h self self"
  by (auto simp: is_responsible_def)

subsection \<open>Round trips\<close>

lemma length_put16 [simp]: "length (put16 w) = 2"
  by (simp add: put16_def)

lemma get16_put16:
  assumes "msg ! i = put16 w ! 0" and "msg ! (i + 1) = put16 w ! 1"
  shows "get16 msg i = w"
proof -
  have lt: "unat w < 65536" using unsigned_less [of w, where ?'a = nat] by simp
  have hi: "unat (drop_bit 8 w) = unat w div 256"
    by (simp only: unat_drop_bit_eq) (simp add: drop_bit_eq_div)
  have lo: "unat (take_bit 8 w) = unat w mod 256"
    by (simp only: unsigned_take_bit_eq) (simp add: take_bit_eq_mod)
  have "unat w div 256 < 256" using lt by (simp add: div_less_iff_less_mult)
  then have "byte (put16 w ! 0) = unat w div 256" and "byte (put16 w ! 1) = unat w mod 256"
    unfolding put16_def hi lo by simp_all
  then have "byte (msg ! i) * 256 + byte (msg ! (i + 1)) = unat w"
    using assms by simp
  then show ?thesis unfolding get16_def by (simp only: of_nat_unat) simp
qed

lemma length_build_message: "length ip = 4 \<Longrightarrow> length (build_message f i p ip port) = MSG_SIZE"
  by (simp add: build_message_def MSG_SIZE_def)

lemma build_message_fields:
  assumes "length ip = 4"
  shows "build_message f i p ip port ! 0 = f \<and> get16 (build_message f i p ip port) 1 = i
    \<and> get16 (build_message f i p ip port) 3 = p
    \<and> take 4 (drop 5 (build_message f i p ip port)) = ip
    \<and> get16 (build_message f i p ip port) 9 = port"
proof -
  from assms obtain a b c d where abcd: "ip = [a, b, c, d]"
    by (auto simp: numeral_eq_Suc length_Suc_conv)
  have m: "build_message f i p ip port =
      [f, put16 i ! 0, put16 i ! 1, put16 p ! 0, put16 p ! 1, a, b, c, d, put16 port ! 0, put16 port ! 1]"
    unfolding abcd by (simp add: build_message_def put16_def)
  show ?thesis unfolding m by (auto simp: abcd intro!: get16_put16)
qed

lemma split_dots_no_dot: "CHR ''.'' \<notin> set s \<Longrightarrow> split_dots s = [s]"
  by (induction s) auto

lemma split_dots_append: "CHR ''.'' \<notin> set s \<Longrightarrow> split_dots (s @ CHR ''.'' # t) = s # split_dots t"
  by (induction s) auto

lemma length_decimal_3: "n < 1000 \<Longrightarrow> length (decimal n) \<le> 3"
  by (simp add: decimal.simps [of n] decimal.simps [of "n div 10"] decimal.simps [of "n div 10 div 10"])

lemma decimal_hd_nonzero: "0 < n \<Longrightarrow> hd (decimal n) \<noteq> CHR ''0''"
proof (induction n rule: decimal.induct)
  case (1 n)
  show ?case
  proof (cases "n < 10")
    case True
    have "byte (digit_char n) \<noteq> byte (CHR ''0'')" using True "1.prems" by (simp add: byte_digit_char)
    then have "digit_char n \<noteq> CHR ''0''" by metis
    with True show ?thesis by (simp add: decimal.simps [of n])
  next
    case False
    then have "0 < n div 10" by simp
    with "1.IH" [OF False] False show ?thesis by (simp add: decimal.simps [of n] decimal_nonempty)
  qed
qed

lemma octet_decimal: "octet (decimal (byte b)) = Some b"
proof -
  have "length (decimal (byte b)) \<le> 3"
    using nat_of_char_less_256 [of b] by (intro length_decimal_3) linarith
  moreover have "hd (decimal n) \<noteq> CHR ''0''" if "1 < length (decimal n)" for n
    using that decimal_hd_nonzero [of n] by (cases "n = 0") (simp_all add: decimal.simps [of 0])
  ultimately show ?thesis
    by (simp add: octet_def decimal_digits decimal_nonempty dec_value_decimal)
qed

lemma inet_roundtrip: "length a = 4 \<Longrightarrow> inet_pton (inet_ntop a) = Some a"
proof -
  assume "length a = 4"
  then obtain w x y z where a: "a = [w, x, y, z]"
    by (auto simp: numeral_eq_Suc length_Suc_conv)
  have nodot: "CHR ''.'' \<notin> set (decimal n)" for n
    using decimal_digits [of n] by (auto simp: list_all_iff is_digit_def)
  have "split_dots (inet_ntop a) = map (\<lambda>b. decimal (byte b)) a"
    by (simp add: a split_dots_append nodot split_dots_no_dot)
  then show ?thesis by (simp add: inet_pton_def a octet_decimal)
qed

lemma length_inet_pton: "inet_pton s = Some a \<Longrightarrow> length a = 4"
  by (auto simp: inet_pton_def split: list.splits option.splits)

lemma length_address_bytes [simp]: "length (address_bytes ip) = 4"
  by (auto simp: address_bytes_def length_inet_pton split: option.splits)

lemma length_inet_ntop: "length a = 4 \<Longrightarrow> length (inet_ntop a) \<le> 15"
proof -
  assume "length a = 4"
  then obtain w x y z where a: "a = [w, x, y, z]" by (auto simp: numeral_eq_Suc length_Suc_conv)
  have "length (decimal (byte b)) \<le> 3" for b
    using nat_of_char_less_256 [of b] by (intro length_decimal_3) linarith
  from this [of w] this [of x] this [of y] this [of z] show ?thesis by (simp add: a)
qed

subsection \<open>Properties\<close>

text \<open>The test for responsibility, with its two cases, is the test on distances going up the circle
  of 65536 identifiers: a hash belongs to a node when its distance from the predecessor is positive and
  at most the distance of the node itself; a node that is its own predecessor owns everything.\<close>

theorem is_responsible_circular:
  "is_responsible h self pred \<longleftrightarrow>
    pred = self \<or> 0 < unat (h - pred) \<and> unat (h - pred) \<le> unat (self - pred)"
  using is_responsible_distance is_responsible_single by (cases "pred = self") auto

end
