(* ===== verification/Chord_Http.thy ===== *)
theory Chord_Http
  imports Chord_Util
begin

section \<open>Parsing HTTP requests (chord-node/http.c)\<close>

text \<open>
  The memory \<open>mem\<close> is what can be read from the start of the window on; the window is its first \<open>n\<close>
  bytes.  Pointers into it are offsets, a \<open>struct non_string\<close> is an offset with a length.  A request
  is parsed in place: \<open>parse_request\<close> writes a NUL behind each of its strings, and returns the number
  of bytes that it consumed (0: incomplete, -1: malformed).
\<close>

definition HTTP_MAX_SIZE :: nat where
  "HTTP_MAX_SIZE = 8192"

definition HTTP_MAX_HEADERS :: nat where
  "HTTP_MAX_HEADERS = 40"

abbreviation SP :: char where
  "SP \<equiv> CHR 0x20"

definition line_separator :: string where
  "line_separator = [CR, LF]"

record non_string =
  ns_start :: nat
  ns_n :: nat

record request =
  rq_method :: "string option"
  rq_uri :: "string option"
  rq_headers :: "(string \<times> string) list"
  rq_payload :: nat
  rq_payload_length :: int

definition parse_request_line :: "char list \<Rightarrow> nat \<Rightarrow> nat \<Rightarrow> (non_string \<times> non_string) option" where
  "parse_request_line mem buffer n =
     (let until = buffer + n in
      case memchr mem buffer until SP of None \<Rightarrow> None
      | Some pos \<Rightarrow>
         (case memchr mem (pos + 1) until SP of None \<Rightarrow> None
          | Some pos2 \<Rightarrow>
              Some (\<lparr>ns_start = buffer, ns_n = pos - buffer\<rparr>,
                \<lparr>ns_start = pos + 1, ns_n = pos2 - (pos + 1)\<rparr>)))"

definition parse_header :: "char list \<Rightarrow> nat \<Rightarrow> nat \<Rightarrow> (non_string \<times> non_string) option" where
  "parse_header mem buffer n =
     (case memchr mem buffer (buffer + n) (CHR '':'') of None \<Rightarrow> None
      | Some field_name_end \<Rightarrow>
          Some (\<lparr>ns_start = buffer, ns_n = field_name_end - buffer\<rparr>,
            \<lparr>ns_start = field_name_end + 1, ns_n = buffer + n - (field_name_end + 1)\<rparr>))"

text \<open>The next line separator of the window; not returning is the fault \<open>Hang\<close>.\<close>

definition find_line :: "char list \<Rightarrow> nat \<Rightarrow> nat \<Rightarrow> fault + nat option" where
  "find_line mem pos until =
     (case memstr mem pos until line_separator of None \<Rightarrow> Inl Hang | Some r \<Rightarrow> r)"

lemma find_line_bounds: "find_line mem pos until = Inr (Some p) \<Longrightarrow> pos \<le> p \<and> p < until"
  by (auto simp: find_line_def split: option.splits dest: memstr_bounds)

text \<open>
  The header loop.  It returns from \<open>parse_request\<close> (\<open>Inl\<close> of the value), or ends at the empty line
  with its position and the headers.  A 41st header is written behind the array before the test for
  too many headers sees it.
\<close>

function scan_headers ::
  "char list \<Rightarrow> nat \<Rightarrow> nat \<Rightarrow> (non_string \<times> non_string) list
    \<Rightarrow> fault + (int + nat \<times> (non_string \<times> non_string) list)"
where
  "scan_headers mem pos until headers =
     (case find_line mem pos until of Inl f \<Rightarrow> Inl f
      | Inr line_end \<Rightarrow>
         (if line_end = Some pos then Inr (Inr (pos, headers))
          else if HTTP_MAX_HEADERS < length headers then Inl Exit_failure
          else (case line_end of None \<Rightarrow> Inr (Inl 0)
            | Some e \<Rightarrow>
               (case parse_header mem pos (e - pos) of None \<Rightarrow> Inr (Inl (-1))
                | Some h \<Rightarrow>
                   (if HTTP_MAX_HEADERS \<le> length headers then Inl Out_of_bounds
                    else scan_headers mem (e + length line_separator) until (headers @ [h]))))))"
  by pat_completeness auto
termination
  by (relation "measure (\<lambda>(mem, pos, until, headers). until + 2 - pos)")
    (auto simp: line_separator_def dest: find_line_bounds)

declare scan_headers.simps [simp del]

text \<open>The search for the payload length; \<open>strncmp\<close> compares as many bytes as the key has.\<close>

fun content_length :: "char list \<Rightarrow> (non_string \<times> non_string) list \<Rightarrow> fault + u64 option" where
  "content_length mem [] = Inr None"
| "content_length mem ((key, val) # headers) =
     (case strncmp (drop (ns_start key) mem) (''Content-Length'' @ [NUL]) (ns_n key) of
        None \<Rightarrow> Inl Out_of_bounds
      | Some r \<Rightarrow>
         (if r = 0 then
            (case strtoul (drop (ns_start val) mem) of None \<Rightarrow> Inl Out_of_bounds
             | Some (v, range_error) \<Rightarrow> Inr (Some v))
          else content_length mem headers))"

text \<open>Terminating a string in place, and reading one.\<close>

definition terminate :: "non_string \<Rightarrow> char list \<Rightarrow> char list" where
  "terminate s mem = mem[ns_start s + ns_n s := NUL]"

definition terminate_all :: "non_string list \<Rightarrow> char list \<Rightarrow> char list" where
  "terminate_all ss mem = fold terminate ss mem"

definition string_at :: "char list \<Rightarrow> non_string \<Rightarrow> string" where
  "string_at mem s = c_str (drop (ns_start s) mem)"

definition parse_request ::
  "char list \<Rightarrow> nat \<Rightarrow> request \<Rightarrow> fault + (int \<times> request \<times> char list)" where
  "parse_request mem n request =
     (case find_line mem 0 n of Inl f \<Rightarrow> Inl f
      | Inr None \<Rightarrow> Inr (0, request, mem)
      | Inr (Some line_end) \<Rightarrow>
     (case parse_request_line mem 0 line_end of None \<Rightarrow> Inr (-1, request, mem)
      | Some (method, uri) \<Rightarrow>
     (case scan_headers mem (line_end + length line_separator) n [] of Inl f \<Rightarrow> Inl f
      | Inr (Inl r) \<Rightarrow> Inr (r, request, mem)
      | Inr (Inr (empty_line, headers)) \<Rightarrow>
     (let pos = empty_line + length line_separator in
      case content_length mem headers of Inl f \<Rightarrow> Inl f
      | Inr found \<Rightarrow>
     (let len = (case found of None \<Rightarrow> rq_payload_length request | Some v \<Rightarrow> sint v) in
      if len < 0 \<and> (case rq_method request of None \<Rightarrow> False | Some m \<Rightarrow> take 3 m = ''PUT'')
      then Inr (-1, request\<lparr>rq_payload_length := len\<rparr>, mem)
      else
     (let len = (if len < 0 then 0 else len);
          request = request\<lparr>rq_payload := pos, rq_payload_length := len\<rparr>
      in
      if int n < int pos + len then Inr (0, request, mem)
      else
     (let mem' = terminate_all ([method, uri] @ concat (map (\<lambda>(k, v). [k, v]) headers)) mem
      in Inr (int pos + len,
           request\<lparr>rq_method := Some (string_at mem' method), rq_uri := Some (string_at mem' uri),
             rq_headers := map (\<lambda>(k, v). (string_at mem' k, string_at mem' v)) headers\<rparr>,
           mem'))))))))"

fun get_header :: "(string \<times> string) list \<Rightarrow> string \<Rightarrow> string option" where
  "get_header [] name = None"
| "get_header ((key, val) # headers) name =
     (if strcmp key name = 0 then Some val else get_header headers name)"

subsection \<open>Finding a line\<close>

lemma memchr_at:
  assumes "drop pos mem = l @ c # rest" and "c \<notin> set l" and "pos + length l < n"
  shows "memchr mem pos n c = Some (pos + length l)"
proof -
  have "length l < n - pos" using assms(3) by simp
  then obtain k where "n - pos = Suc (length l + k)" using less_imp_Suc_add by blast
  then have k: "n - pos = length l + Suc k" by simp
  have "takeWhile (\<lambda>d. d \<noteq> c) (l @ c # take k rest) = l"
    using assms(2) by (induction l) auto
  then show ?thesis by (simp add: memchr_def assms(1) k Let_def)
qed

lemma memchr_absent:
  assumes "drop pos mem = l @ rest" and "c \<notin> set l" and "n \<le> pos + length l"
  shows "memchr mem pos n c = None"
proof -
  have "take (n - pos) (l @ rest) = take (n - pos) l" using assms(3) by simp
  with assms show ?thesis by (auto simp: memchr_None dest: in_set_takeD)
qed

lemma find_line_at:
  assumes "drop pos mem = l @ CR # LF # rest" and "CR \<notin> set l" and "pos + length l < n"
  shows "find_line mem pos n = Inr (Some (pos + length l))"
proof -
  have "drop (pos + length l) mem = CR # LF # rest"
    using assms(1) by (metis add.commute append_eq_conv_conj drop_drop)
  with memchr_at [OF assms] assms(3) show ?thesis
    by (simp add: find_line_def memstr_eq line_separator_def)
qed

lemma find_line_absent:
  assumes "drop pos mem = l @ rest" and "CR \<notin> set l" and "n = pos + length l"
  shows "find_line mem pos n = Inr None"
  using memchr_absent [OF assms(1,2)] assms(3) by (simp add: find_line_def memstr_eq line_separator_def)

lemma find_line_hang:
  assumes "drop pos mem = l @ CR # d # rest" and "CR \<notin> set l" and "d \<noteq> LF" and "pos + length l < n"
  shows "find_line mem pos n = Inl Hang"
proof -
  have drop: "drop (pos + length l) mem = CR # d # rest"
    using assms(1) by (metis add.commute append_eq_conv_conj drop_drop)
  have "byte d < byte LF \<or> byte LF < byte d"
    using assms(3) by (rule_tac byte_cases [of d LF]) auto
  then have "strncmp (drop (pos + length l) mem) [CR, LF, NUL] (Suc (Suc 0)) \<in> {Some (-1), Some 1}"
    by (auto simp: drop)
  with memchr_at [OF assms(1,2,4)] assms(4) show ?thesis
    by (auto simp: find_line_def memstr_eq line_separator_def)
qed

subsection \<open>Strings terminated in place\<close>

definition ns_end :: "non_string \<Rightarrow> nat" where
  "ns_end s = ns_start s + ns_n s"

lemma length_terminate_all [simp]: "length (terminate_all ss mem) = length mem"
  by (induction ss arbitrary: mem) (auto simp: terminate_all_def terminate_def)

lemma nth_terminate_all:
  "i < length mem \<Longrightarrow> terminate_all ss mem ! i = (if i \<in> ns_end ` set ss then NUL else mem ! i)"
proof (induction ss arbitrary: mem)
  case (Cons s ss)
  from Cons.IH [of "terminate s mem"] Cons.prems show ?case
    by (auto simp: terminate_all_def terminate_def ns_end_def nth_list_update)
qed (simp add: terminate_all_def)

lemma string_at_terminated:
  assumes "s \<in> set ss" and "ns_end s < length mem"
    and "\<And>i. ns_start s \<le> i \<Longrightarrow> i < ns_end s \<Longrightarrow> i \<notin> ns_end ` set ss"
    and "NUL \<notin> set (take (ns_n s) (drop (ns_start s) mem))"
  shows "string_at (terminate_all ss mem) s = take (ns_n s) (drop (ns_start s) mem)"
proof -
  let ?m = "terminate_all ss mem" and ?w = "take (ns_n s) (drop (ns_start s) mem)"
  have len: "length ?w = ns_n s" using assms(2) by (simp add: ns_end_def)
  have same: "take (ns_n s) (drop (ns_start s) ?m) = ?w"
  proof (rule nth_equalityI)
    fix i assume "i < length (take (ns_n s) (drop (ns_start s) ?m))"
    then show "take (ns_n s) (drop (ns_start s) ?m) ! i = ?w ! i"
      using assms(2,3) by (auto simp: nth_terminate_all ns_end_def)
  qed (use assms(2) in \<open>simp add: ns_end_def\<close>)
  have "ns_end s < length ?m" using assms(2) by simp
  then have "drop (ns_end s) ?m = ?m ! ns_end s # drop (Suc (ns_end s)) ?m"
    by (rule Cons_nth_drop_Suc [symmetric])
  also have "?m ! ns_end s = NUL" using assms(1,2) by (simp add: nth_terminate_all)
  finally have "drop (ns_start s) ?m = ?w @ NUL # drop (Suc (ns_end s)) ?m"
    by (metis add.commute append_take_drop_id drop_drop ns_end_def same)
  with assms(4) show ?thesis by (simp add: string_at_def c_str_terminated)
qed

text \<open>Strings that follow each other with a byte between them do not disturb each other.\<close>

definition separated :: "non_string list \<Rightarrow> bool" where
  "separated ss \<longleftrightarrow> sorted_wrt (\<lambda>s t. ns_end s < ns_start t) ss"

lemma separated_ends:
  assumes "separated ss" and "s \<in> set ss" and "ns_start s \<le> i" and "i < ns_end s"
  shows "i \<notin> ns_end ` set ss"
proof
  assume "i \<in> ns_end ` set ss"
  then obtain t where t: "t \<in> set ss" "i = ns_end t" by auto
  from assms(2) t(1) obtain a b where ab: "a < length ss" "ss ! a = s" "b < length ss" "ss ! b = t"
    by (meson in_set_conv_nth)
  consider "a < b" | "a = b" | "b < a" by linarith
  then show False
  proof cases
    case 1
    then have "ns_end s < ns_start t"
      using sorted_wrt_nth_less [OF assms(1) [unfolded separated_def] 1] ab by simp
    then show ?thesis using t(2) assms(4) by (simp add: ns_end_def)
  next
    case 3
    then have "ns_end t < ns_start s"
      using sorted_wrt_nth_less [OF assms(1) [unfolded separated_def] 3] ab by simp
    then show ?thesis using t(2) assms(3) by simp
  qed (use ab t assms(4) in simp)
qed

subsection \<open>The text of a request\<close>

definition header_line :: "string \<times> string \<Rightarrow> string" where
  "header_line h = fst h @ CHR '':'' # snd h @ line_separator"

definition request_line :: "string \<Rightarrow> string \<Rightarrow> string \<Rightarrow> string" where
  "request_line m u ver = m @ SP # u @ SP # ver"

definition head_text :: "string \<Rightarrow> string \<Rightarrow> string \<Rightarrow> (string \<times> string) list \<Rightarrow> string" where
  "head_text m u ver hs = request_line m u ver @ line_separator @ concat (map header_line hs) @ line_separator"

definition token :: "char list \<Rightarrow> string \<Rightarrow> bool" where
  "token special s \<longleftrightarrow> list_all (\<lambda>c. c \<notin> set special) s"

definition good_header :: "string \<times> string \<Rightarrow> bool" where
  "good_header h \<longleftrightarrow> token [NUL, CR, CHR '':''] (fst h) \<and> token [NUL, CR] (snd h)"

definition good_head :: "string \<Rightarrow> string \<Rightarrow> string \<Rightarrow> (string \<times> string) list \<Rightarrow> bool" where
  "good_head m u ver hs \<longleftrightarrow> token [NUL, CR, SP] m \<and> token [NUL, CR, SP] u \<and> token [CR] ver
     \<and> list_all good_header hs \<and> length hs \<le> HTTP_MAX_HEADERS"

text \<open>Where the strings of the headers lie.\<close>

fun header_spans :: "nat \<Rightarrow> (string \<times> string) list \<Rightarrow> (non_string \<times> non_string) list" where
  "header_spans pos [] = []"
| "header_spans pos ((k, v) # hs) =
     (\<lparr>ns_start = pos, ns_n = length k\<rparr>, \<lparr>ns_start = pos + length k + 1, ns_n = length v\<rparr>)
       # header_spans (pos + length (header_line (k, v))) hs"

lemma length_header_spans [simp]: "length (header_spans pos hs) = length hs"
  by (induction pos hs rule: header_spans.induct) auto

lemma token_iff: "token special s \<longleftrightarrow> (\<forall>c \<in> set special. c \<notin> set s)"
  by (auto simp: token_def list_all_iff)

lemma length_header_line: "length (header_line (k, v)) = length k + length v + 3"
  by (simp add: header_line_def line_separator_def)

lemma drop_cut: "drop pos mem = l @ rest \<Longrightarrow> drop (pos + length l) mem = rest"
  by (metis add.commute append_eq_conv_conj drop_drop)

text \<open>A line of the header block, and the end of the block.\<close>

lemma scan_header_line:
  assumes "drop pos mem = header_line (k, v) @ rest" and "good_header (k, v)"
    and "pos + length (header_line (k, v)) \<le> n" and "length acc < HTTP_MAX_HEADERS"
  shows "scan_headers mem pos n acc =
    scan_headers mem (pos + length (header_line (k, v))) n (acc @ header_spans pos [(k, v)])"
proof -
  let ?l = "k @ CHR '':'' # v"
  have l: "drop pos mem = ?l @ CR # LF # rest" using assms(1) by (simp add: header_line_def line_separator_def)
  have cr: "CR \<notin> set ?l" and colon: "CHR '':'' \<notin> set k"
    using assms(2) by (auto simp: good_header_def token_iff)
  have len: "length (header_line (k, v)) = length ?l + 2" by (simp add: length_header_line)
  have find: "find_line mem pos n = Inr (Some (pos + length ?l))"
    using assms(3) len by (intro find_line_at [OF l cr]) simp
  have "memchr mem pos (pos + length ?l) (CHR '':'') = Some (pos + length k)"
    using memchr_at [of pos mem k "CHR '':''" "v @ CR # LF # rest"] l colon by simp
  then have "parse_header mem pos (pos + length ?l - pos) =
      Some (\<lparr>ns_start = pos, ns_n = length k\<rparr>, \<lparr>ns_start = pos + length k + 1, ns_n = length v\<rparr>)"
    by (simp add: parse_header_def)
  with find assms(4) show ?thesis
    by (subst scan_headers.simps) (simp add: line_separator_def length_header_line numeral_3_eq_3)
qed

lemma scan_headers_block:
  "drop pos mem = concat (map header_line hs) @ rest \<Longrightarrow> list_all good_header hs \<Longrightarrow>
    pos + length (concat (map header_line hs)) \<le> n \<Longrightarrow> length acc + length hs \<le> HTTP_MAX_HEADERS \<Longrightarrow>
    scan_headers mem pos n acc =
      scan_headers mem (pos + length (concat (map header_line hs))) n (acc @ header_spans pos hs)"
proof (induction hs arbitrary: pos acc)
  case (Cons h hs)
  obtain k v where h: "h = (k, v)" by (cases h)
  let ?l = "header_line (k, v)"
  have d: "drop pos mem = ?l @ concat (map header_line hs) @ rest" using Cons.prems(1) h by simp
  from Cons.prems h have "scan_headers mem pos n acc =
      scan_headers mem (pos + length ?l) n (acc @ header_spans pos [(k, v)])"
    by (intro scan_header_line [OF d]) auto
  also have "\<dots> = scan_headers mem (pos + length ?l + length (concat (map header_line hs))) n
      ((acc @ header_spans pos [(k, v)]) @ header_spans (pos + length ?l) hs)"
    using Cons.prems h by (intro Cons.IH drop_cut [OF d]) auto
  finally show ?case using h by (simp add: add.assoc)
qed simp

lemma scan_headers_end:
  assumes "drop pos mem = line_separator @ rest" and "pos < n"
  shows "scan_headers mem pos n acc = Inr (Inr (pos, acc))"
  using find_line_at [of pos mem "[]" rest n] assms
  by (subst scan_headers.simps) (simp add: line_separator_def)

lemma header_spans_facts:
  assumes "drop pos mem = concat (map header_line hs) @ rest"
  shows "map (\<lambda>(k, v). (take (ns_n k) (drop (ns_start k) mem), take (ns_n v) (drop (ns_start v) mem)))
      (header_spans pos hs) = hs
    \<and> separated (concat (map (\<lambda>(k, v). [k, v]) (header_spans pos hs)))
    \<and> (\<forall>s \<in> set (concat (map (\<lambda>(k, v). [k, v]) (header_spans pos hs))).
         pos \<le> ns_start s \<and> ns_end s < pos + length (concat (map header_line hs)))"
  using assms
proof (induction hs arbitrary: pos)
  case (Cons h hs)
  obtain k v where h: "h = (k, v)" by (cases h)
  let ?l = "header_line (k, v)"
  have d: "drop pos mem = ?l @ concat (map header_line hs) @ rest" using Cons.prems h by simp
  have v: "drop (pos + length k + 1) mem = v @ line_separator @ concat (map header_line hs) @ rest"
    using drop_cut [of pos mem "k @ [CHR '':'']"] d by (simp add: header_line_def)
  let ?k = "\<lparr>ns_start = pos, ns_n = length k\<rparr>" and ?v = "\<lparr>ns_start = pos + length k + 1, ns_n = length v\<rparr>"
  let ?rest = "header_spans (pos + length ?l) hs"
  from Cons.IH [OF drop_cut [OF d]] have
    IH1: "map (\<lambda>(k, v). (take (ns_n k) (drop (ns_start k) mem), take (ns_n v) (drop (ns_start v) mem))) ?rest = hs"
    and IH2: "separated (concat (map (\<lambda>(k, v). [k, v]) ?rest))"
    and IH3: "\<And>s. s \<in> set (concat (map (\<lambda>(k, v). [k, v]) ?rest)) \<Longrightarrow> pos + length ?l \<le> ns_start s
      \<and> ns_end s < pos + length ?l + length (concat (map header_line hs))" by blast+
  have eq: "header_spans pos (h # hs) = (?k, ?v) # ?rest" by (simp add: h)
  have 1: "take (length k) (drop pos mem) = k" using d by (simp add: header_line_def)
  have 2: "take (length v) (drop (pos + length k + 1) mem) = v" using v by simp
  have 3: "ns_end ?k < ns_start ?v" "ns_end ?v < pos + length ?l"
    by (simp_all add: ns_end_def length_header_line)
  have 4: "ns_end ?k < ns_start s \<and> ns_end ?v < ns_start s"
    if "s \<in> set (concat (map (\<lambda>(k, v). [k, v]) ?rest))" for s
    using IH3 [OF that] 3 by (simp add: ns_end_def)
  have "separated (?k # ?v # concat (map (\<lambda>(k, v). [k, v]) ?rest))"
    using IH2 3(1) 4 unfolding separated_def sorted_wrt.simps by (simp only: list.set ball_simps) blast
  moreover have "pos \<le> ns_start s \<and> ns_end s < pos + length (concat (map header_line (h # hs)))"
    if "s = ?k \<or> s = ?v \<or> s \<in> set (concat (map (\<lambda>(k, v). [k, v]) ?rest))" for s
    using that
  proof (elim disjE)
    assume "s \<in> set (concat (map (\<lambda>(k, v). [k, v]) ?rest))"
    from IH3 [OF this] show ?thesis by (simp add: h)
  qed (simp_all add: h ns_end_def length_header_line)
  ultimately show ?case unfolding eq using IH1 1 2 by (auto simp: h)
qed (simp add: separated_def)

subsection \<open>The payload length\<close>

fun announced :: "(string \<times> string) list \<Rightarrow> string option" where
  "announced [] = None"
| "announced ((k, v) # hs) = (if take (length k) ''Content-Length'' = k then Some v else announced hs)"

definition number_of :: "string \<Rightarrow> nat option" where
  "number_of v =
     (let d = dropWhile is_space v
      in if d \<noteq> [] \<and> list_all is_digit d \<and> dec_value 0 d < 2 ^ 63 then Some (dec_value 0 d) else None)"

definition body_length :: "(string \<times> string) list \<Rightarrow> nat option" where
  "body_length hs = (case announced hs of None \<Rightarrow> Some 0 | Some v \<Rightarrow> number_of v)"

lemma strncmp_prefix:
  "NUL \<notin> set k \<Longrightarrow> \<exists>r. strncmp (k @ c # s) (t @ [NUL]) (length k) = Some r
    \<and> (r = 0 \<longleftrightarrow> take (length k) t = k)"
proof (induction k arbitrary: t)
  case (Cons a k)
  then have a: "a \<noteq> NUL" and "0 < byte a" by (auto simp flip: neq0_conv)
  show ?case
  proof (cases t)
    case Nil
    with \<open>0 < byte a\<close> show ?thesis by simp
  next
    case (Cons b t')
    have IH: "\<exists>r. strncmp (k @ c # s) (t' @ [NUL]) (length k) = Some r \<and> (r = 0 \<longleftrightarrow> take (length k) t' = k)"
      using Cons.IH [of t'] Cons.prems by simp
    show ?thesis
      by (rule byte_cases [of a b]) (use IH a in \<open>auto simp: \<open>t = b # t'\<close>\<close>)
  qed
qed simp

lemma digit_not_space: "is_digit c \<Longrightarrow> \<not> is_space c \<and> c \<noteq> CHR ''-'' \<and> c \<noteq> CHR ''+''"
  by (auto simp: is_digit_def is_space_def)

lemma strtoul_number:
  assumes "number_of v = Some L"
  shows "strtoul (v @ CR # rest) = Some (of_nat L, False)" and "sint (of_nat L :: u64) = int L"
proof -
  let ?d = "dropWhile is_space v"
  have d: "?d \<noteq> []" "list_all is_digit ?d" "dec_value 0 ?d < 2 ^ 63" and L: "L = dec_value 0 ?d"
    using assms by (auto simp: number_of_def Let_def split: if_splits)
  then obtain c r where c: "?d = c # r" "is_digit c" by (cases ?d) auto
  have "\<exists>x \<in> set v. \<not> is_space x" using d(1) by (simp add: dropWhile_eq_Nil_conv)
  then have s1: "dropWhile is_space (v @ CR # rest) = ?d @ CR # rest"
    by (meson dropWhile_append1)
  have cr: "\<not> is_digit CR" by (simp add: is_digit_def)
  have "takeWhile is_digit (?d @ CR # rest) = ?d" "dropWhile is_digit (?d @ CR # rest) = CR # rest"
    using d(2) cr by (simp_all add: takeWhile_append_all dropWhile_append_all)
  then show "strtoul (v @ CR # rest) = Some (of_nat L, False)"
    using s1 c cr digit_not_space [OF c(2)] d(3) L by (simp add: strtoul_def Let_def)
  show "sint (of_nat L :: u64) = int L"
    using d(3) L by (simp add: signed_of_nat signed_take_bit_int_eq_self_iff)
qed

lemma content_length_spans:
  assumes "drop pos mem = concat (map header_line hs) @ rest" and "list_all good_header hs"
    and "\<And>v. announced hs = Some v \<Longrightarrow> number_of v = Some L"
  shows "content_length mem (header_spans pos hs) = Inr (map_option (\<lambda>v. of_nat L) (announced hs))"
  using assms
proof (induction hs arbitrary: pos)
  case (Cons h hs)
  obtain k v where h: "h = (k, v)" by (cases h)
  let ?l = "header_line (k, v)"
  have d: "drop pos mem = ?l @ concat (map header_line hs) @ rest" using Cons.prems(1) h by simp
  have dk: "drop pos mem = k @ CHR '':'' # (v @ line_separator @ concat (map header_line hs) @ rest)"
    using d by (simp add: header_line_def)
  have dv: "drop (pos + length k + 1) mem = v @ CR # (LF # concat (map header_line hs) @ rest)"
    using drop_cut [of pos mem "k @ [CHR '':'']"] d by (simp add: header_line_def line_separator_def)
  have "NUL \<notin> set k" using Cons.prems(2) h by (auto simp: good_header_def token_iff)
  from strncmp_prefix [OF this, of "CHR '':''" "v @ line_separator @ concat (map header_line hs) @ rest"
      "''Content-Length''"]
  obtain r where r: "strncmp (drop pos mem) (''Content-Length'' @ [NUL]) (length k) = Some r"
    "r = 0 \<longleftrightarrow> take (length k) ''Content-Length'' = k" unfolding dk by blast
  show ?case
  proof (cases "r = 0")
    case True
    then have "number_of v = Some L" using r(2) Cons.prems(3) [of v] h by simp
    from strtoul_number(1) [OF this] r True h dv show ?thesis by simp
  next
    case False
    then have "announced (h # hs) = announced hs" using r(2) h by simp
    moreover from this Cons have "content_length mem (header_spans (pos + length ?l) hs)
        = Inr (map_option (\<lambda>v. of_nat L) (announced hs))"
      by (intro Cons.IH drop_cut [OF d]) auto
    ultimately show ?thesis using r False h by (simp del: announced.simps)
  qed
qed simp

subsection \<open>A complete request\<close>

definition fresh_request :: request where
  "fresh_request = \<lparr>rq_method = None, rq_uri = None, rq_headers = [], rq_payload = 0, rq_payload_length = -1\<rparr>"

lemma request_line_spans:
  assumes "mem = request_line m u ver @ rest" and "SP \<notin> set m" and "SP \<notin> set u"
  shows "parse_request_line mem 0 (length (request_line m u ver)) =
    Some (\<lparr>ns_start = 0, ns_n = length m\<rparr>, \<lparr>ns_start = length m + 1, ns_n = length u\<rparr>)"
proof -
  let ?n = "length (request_line m u ver)"
  have len: "?n = length m + length u + length ver + 2" by (simp add: request_line_def)
  have d1: "drop 0 mem = m @ SP # (u @ SP # ver @ rest)" using assms(1) by (simp add: request_line_def)
  have "drop (0 + length (m @ [SP])) mem = u @ SP # ver @ rest" using d1 by (intro drop_cut) simp
  then have d2: "drop (length m + 1) mem = u @ SP # (ver @ rest)" by simp
  have "memchr mem 0 ?n SP = Some (length m)"
    using memchr_at [OF d1 assms(2), of ?n] len by simp
  moreover have "memchr mem (length m + 1) ?n SP = Some (length m + 1 + length u)"
    using memchr_at [OF d2 assms(3), of ?n] len by simp
  ultimately show ?thesis by (simp add: parse_request_line_def)
qed

text \<open>Once the head is complete, the number of bytes behind it decides.\<close>

lemma parse_request_head:
  assumes mem: "mem = head_text m u ver hs @ rest" and good: "good_head m u ver hs"
    and n: "length (head_text m u ver hs) \<le> n" and L: "body_length hs = Some L"
  shows "parse_request mem n fresh_request =
    (let head = length (head_text m u ver hs);
         r0 = fresh_request\<lparr>rq_payload := head, rq_payload_length := int L\<rparr>;
         spans = [\<lparr>ns_start = 0, ns_n = length m\<rparr>, \<lparr>ns_start = length m + 1, ns_n = length u\<rparr>]
           @ concat (map (\<lambda>(k, v). [k, v]) (header_spans (length (request_line m u ver) + 2) hs))
     in if n < head + L then Inr (0, r0, mem)
        else Inr (int (head + L), r0\<lparr>rq_method := Some m, rq_uri := Some u, rq_headers := hs\<rparr>,
               terminate_all spans mem))
   \<and> (\<forall>s \<in> set ([\<lparr>ns_start = 0, ns_n = length m\<rparr>, \<lparr>ns_start = length m + 1, ns_n = length u\<rparr>]
           @ concat (map (\<lambda>(k, v). [k, v]) (header_spans (length (request_line m u ver) + 2) hs))).
        ns_end s < length (head_text m u ver hs))"
proof -
  let ?R = "request_line m u ver" and ?H = "concat (map header_line hs)"
  let ?head = "length (head_text m u ver hs)"
  let ?p = "length ?R + 2"
  let ?m = "\<lparr>ns_start = 0, ns_n = length m\<rparr>" and ?u = "\<lparr>ns_start = length m + 1, ns_n = length u\<rparr>"
  let ?hs = "header_spans ?p hs"
  let ?spans = "[?m, ?u] @ concat (map (\<lambda>(k, v). [k, v]) ?hs)"
  have g: "NUL \<notin> set m" "SP \<notin> set m" "CR \<notin> set m" "NUL \<notin> set u" "SP \<notin> set u" "CR \<notin> set u"
    "CR \<notin> set ver" "list_all good_header hs" "length hs \<le> HTTP_MAX_HEADERS"
    using good by (auto simp: good_head_def token_iff)
  have head: "?head = ?p + length ?H + 2" by (simp add: head_text_def line_separator_def)
  have lenR: "length ?R = length m + length u + length ver + 2" by (simp add: request_line_def)
  have d0: "drop 0 mem = ?R @ CR # LF # (?H @ line_separator @ rest)"
    by (simp add: mem head_text_def line_separator_def)
  have crR: "CR \<notin> set ?R" using g by (simp add: request_line_def)
  have f: "find_line mem 0 n = Inr (Some (length ?R))"
    using find_line_at [OF d0 crR, of n] n head by simp
  have rl: "parse_request_line mem 0 (length ?R) = Some (?m, ?u)"
    using request_line_spans [of mem m u ver] d0 g(2,5) by simp
  have "drop (0 + length (?R @ [CR, LF])) mem = ?H @ line_separator @ rest" using d0 by (intro drop_cut) simp
  then have dH: "drop ?p mem = ?H @ (line_separator @ rest)" by simp
  have sh: "scan_headers mem (length ?R + length line_separator) n [] = Inr (Inr (?p + length ?H, ?hs))"
    using scan_headers_block [OF dH g(8), of n "[]"] n head g(9)
      scan_headers_end [OF drop_cut [OF dH], of n ?hs] by (simp add: line_separator_def)
  have cl: "content_length mem ?hs = Inr (map_option (\<lambda>v. of_nat L) (announced hs))"
    using L by (intro content_length_spans [OF dH g(8)]) (simp add: body_length_def)
  have L0: "announced hs = None \<Longrightarrow> L = 0" and sL: "announced hs = Some v \<Longrightarrow> sint (of_nat L :: u64) = int L" for v
    using L strtoul_number(2) [of _ L] by (auto simp: body_length_def)
  have spans: "map (\<lambda>(k, v). (take (ns_n k) (drop (ns_start k) mem), take (ns_n v) (drop (ns_start v) mem))) ?hs = hs"
    and sep: "separated (concat (map (\<lambda>(k, v). [k, v]) ?hs))"
    and inside: "\<And>s. s \<in> set (concat (map (\<lambda>(k, v). [k, v]) ?hs)) \<Longrightarrow> ?p \<le> ns_start s \<and> ns_end s < ?p + length ?H"
    using header_spans_facts [OF dH] by blast+
  have front: "ns_end ?m < ns_start ?u" "ns_end ?u < ?p" using lenR by (simp_all add: ns_end_def)
  have sep': "separated ?spans"
    using sep front inside by (fastforce simp: separated_def ns_end_def)
  have ends: "ns_end s < ?head" if "s \<in> set ?spans" for s
    using that inside [of s] front head by (fastforce simp: ns_end_def)
  have strings: "string_at (terminate_all ?spans mem) s = take (ns_n s) (drop (ns_start s) mem)"
    if "s \<in> set ?spans" and "NUL \<notin> set (take (ns_n s) (drop (ns_start s) mem))" for s
  proof (rule string_at_terminated [OF that(1) _ _ that(2)])
    show "ns_end s < length mem" using ends [OF that(1)] by (simp add: mem)
    show "i \<notin> ns_end ` set ?spans" if "ns_start s \<le> i" "i < ns_end s" for i
      using separated_ends [OF sep' \<open>s \<in> set ?spans\<close> that] .
  qed
  have sm: "string_at (terminate_all ?spans mem) ?m = m"
    using strings [of ?m] g(1) d0 by (simp add: request_line_def)
  have "drop (length m + 1) mem = u @ SP # ver @ CR # LF # (?H @ line_separator @ rest)"
    using drop_cut [of 0 mem "m @ [SP]"] d0 by (simp add: request_line_def)
  then have su: "string_at (terminate_all ?spans mem) ?u = u"
    using strings [of ?u] g(4) by simp
  have shs: "map (\<lambda>(k, v). (string_at (terminate_all ?spans mem) k, string_at (terminate_all ?spans mem) v)) ?hs = hs"
  proof -
    have "map (\<lambda>(k, v). (string_at (terminate_all ?spans mem) k, string_at (terminate_all ?spans mem) v)) ?hs
        = map (\<lambda>(k, v). (take (ns_n k) (drop (ns_start k) mem), take (ns_n v) (drop (ns_start v) mem))) ?hs"
    proof (rule map_cong [OF refl])
      fix kv assume kv: "kv \<in> set ?hs"
      obtain k v where kv': "kv = (k, v)" by (cases kv)
      from kv spans have "(take (ns_n k) (drop (ns_start k) mem), take (ns_n v) (drop (ns_start v) mem)) \<in> set hs"
        unfolding kv' by (metis (mono_tags, lifting) case_prod_conv imageI list.set_map)
      with g(8) have "NUL \<notin> set (take (ns_n k) (drop (ns_start k) mem))"
        "NUL \<notin> set (take (ns_n v) (drop (ns_start v) mem))"
        by (auto simp: list_all_iff good_header_def token_iff)
      moreover have "k \<in> set ?spans" "v \<in> set ?spans" using kv kv' by force+
      ultimately show "(\<lambda>(k, v). (string_at (terminate_all ?spans mem) k, string_at (terminate_all ?spans mem) v)) kv
          = (\<lambda>(k, v). (take (ns_n k) (drop (ns_start k) mem), take (ns_n v) (drop (ns_start v) mem))) kv"
        using strings kv' by simp
    qed
    with spans show ?thesis by simp
  qed
  have "parse_request mem n fresh_request =
     (if n < ?head + L then Inr (0, fresh_request\<lparr>rq_payload := ?head, rq_payload_length := int L\<rparr>, mem)
      else Inr (int (?head + L), fresh_request\<lparr>rq_payload := ?head, rq_payload_length := int L,
        rq_method := Some m, rq_uri := Some u, rq_headers := hs\<rparr>, terminate_all ?spans mem))"
    unfolding parse_request_def f sum.case option.case rl prod.case sh cl Let_def
    by (cases "announced hs")
      (use L0 sL sm su shs head in \<open>simp_all add: fresh_request_def line_separator_def\<close>)
  with ends show ?thesis by (simp add: Let_def)
qed

lemma drop_terminate_all:
  assumes "\<And>s. s \<in> set ss \<Longrightarrow> ns_end s < k" shows "drop k (terminate_all ss mem) = drop k mem"
proof (rule nth_equalityI)
  fix i assume i: "i < length (drop k (terminate_all ss mem))"
  then have "k + i \<notin> ns_end ` set ss" using assms by fastforce
  with i show "drop k (terminate_all ss mem) ! i = drop k mem ! i" by (simp add: nth_terminate_all)
qed simp

subsection \<open>Any request\<close>

lemma scan_headers_bounds:
  "scan_headers mem pos until hs = Inr (Inr (p, hs')) \<Longrightarrow>
    \<forall>(k, v) \<in> set hs. ns_end k < pos \<and> ns_end v < pos \<Longrightarrow>
    pos \<le> p \<and> p < until \<and> (\<forall>(k, v) \<in> set hs'. ns_end k < p + 2 \<and> ns_end v < p + 2)"
proof (induction mem pos until hs rule: scan_headers.induct)
  case (1 mem pos until hs)
  obtain le where le: "find_line mem pos until = Inr le"
    using "1.prems"(1) by (subst (asm) scan_headers.simps) (auto split: sum.splits)
  show ?case
  proof (cases "le = Some pos")
    case True
    with "1.prems" le find_line_bounds [of mem pos until pos] show ?thesis
      by (subst (asm) scan_headers.simps) auto
  next
    case False
    with "1.prems"(1) le obtain e h where
      e: "le = Some e" and h: "parse_header mem pos (e - pos) = Some h"
      and few: "\<not> HTTP_MAX_HEADERS < length hs" "\<not> HTTP_MAX_HEADERS \<le> length hs"
      and rec: "scan_headers mem (e + length line_separator) until (hs @ [h]) = Inr (Inr (p, hs'))"
      by (subst (asm) scan_headers.simps) (auto split: if_splits option.splits)
    have b: "pos \<le> e" "e < until" using find_line_bounds le e by auto
    obtain k v where kv: "h = (k, v)" by (cases h)
    with h b have "ns_end k < e + 2 \<and> ns_end v < e + 2"
      by (auto simp: parse_header_def ns_end_def split: option.splits dest!: memchr_Some)
    with "1.prems"(2) kv b have "\<forall>(k, v) \<in> set (hs @ [h]).
        ns_end k < e + length line_separator \<and> ns_end v < e + length line_separator"
      by (fastforce simp: line_separator_def)
    from "1.IH" [OF le False few(1) e h few(2) rec this] b show ?thesis
      by (auto simp: line_separator_def)
  qed
qed

lemma scan_headers_returns: "scan_headers mem pos until hs = Inr (Inl r) \<Longrightarrow> r = 0 \<or> r = -1"
proof (induction mem pos until hs rule: scan_headers.induct)
  case (1 mem pos until hs)
  from "1.prems" [unfolded scan_headers.simps [of mem pos until hs]] "1.IH" show ?case
    by (auto split: sum.splits if_splits option.splits)
qed

lemma parse_request_cases:
  assumes "parse_request mem n req = Inr (r, req', mem')"
  shows "(r = -1 \<or> r = 0) \<and> mem' = mem
    \<or> 0 < r \<and> r \<le> int n \<and> length mem' = length mem \<and> drop (nat r) mem' = drop (nat r) mem
        \<and> rq_method req' \<noteq> None \<and> rq_uri req' \<noteq> None
        \<and> 0 \<le> rq_payload_length req' \<and> r = int (rq_payload req') + rq_payload_length req'"
proof (cases "r = 0 \<or> r = -1")
  case True
  with assms show ?thesis
    by (auto simp: parse_request_def Let_def line_separator_def
        split: sum.splits option.splits prod.splits if_splits)
next
  case False
  with assms obtain le m u p hs found where
    le: "find_line mem 0 n = Inr (Some le)" and rl: "parse_request_line mem 0 le = Some (m, u)"
    and sh: "scan_headers mem (le + length line_separator) n [] = Inr (Inr (p, hs))"
    and cl: "content_length mem hs = Inr found"
    by (auto simp: parse_request_def Let_def dest: scan_headers_returns
        split: sum.splits option.splits prod.splits if_splits)
  have len: "\<exists>len \<ge> 0. r = int (p + 2) + len \<and> r \<le> int n
      \<and> mem' = terminate_all ([m, u] @ concat (map (\<lambda>(k, v). [k, v]) hs)) mem
      \<and> rq_method req' \<noteq> None \<and> rq_uri req' \<noteq> None \<and> rq_payload req' = p + 2 \<and> rq_payload_length req' = len"
    using assms False le rl sh cl
    by (auto simp: parse_request_def Let_def line_separator_def split: if_splits)
  then have r: "p + 2 \<le> nat r" by auto
  have "le + 2 \<le> p" "\<forall>(k, v) \<in> set hs. ns_end k < p + 2 \<and> ns_end v < p + 2"
    using scan_headers_bounds [OF sh] by (auto simp: line_separator_def)
  moreover have "ns_end m < le \<and> ns_end u < le"
    using rl by (auto simp: parse_request_line_def ns_end_def split: option.splits dest!: memchr_Some)
  ultimately have "\<And>s. s \<in> set ([m, u] @ concat (map (\<lambda>(k, v). [k, v]) hs)) \<Longrightarrow> ns_end s < nat r"
    using r by fastforce
  then have "drop (nat r) (terminate_all ([m, u] @ concat (map (\<lambda>(k, v). [k, v]) hs)) mem) = drop (nat r) mem"
    by (rule drop_terminate_all)
  with len show ?thesis by auto
qed

subsection \<open>A request that is not complete\<close>

lemma parse_request_scan:
  assumes mem: "mem = (request_line m u ver @ line_separator @ concat (map header_line hs)) @ rest"
    and good: "good_head m u ver hs"
    and n: "length (request_line m u ver @ line_separator @ concat (map header_line hs)) \<le> n"
  shows "case scan_headers mem (length (request_line m u ver @ line_separator @ concat (map header_line hs))) n
        (header_spans (length (request_line m u ver) + 2) hs) of
      Inl f \<Rightarrow> parse_request mem n fresh_request = Inl f
    | Inr (Inl r) \<Rightarrow> parse_request mem n fresh_request = Inr (r, fresh_request, mem)
    | Inr (Inr x) \<Rightarrow> True"
proof -
  let ?R = "request_line m u ver" and ?H = "concat (map header_line hs)"
  have g: "SP \<notin> set m" "SP \<notin> set u" "CR \<notin> set ?R" "list_all good_header hs" "length hs \<le> HTTP_MAX_HEADERS"
    using good by (auto simp: good_head_def token_iff request_line_def)
  have d0: "drop 0 mem = ?R @ CR # LF # (?H @ rest)" by (simp add: mem line_separator_def)
  have f: "find_line mem 0 n = Inr (Some (length ?R))"
    using find_line_at [OF d0 g(3), of n] n by (simp add: line_separator_def)
  have rl: "parse_request_line mem 0 (length ?R) =
      Some (\<lparr>ns_start = 0, ns_n = length m\<rparr>, \<lparr>ns_start = length m + 1, ns_n = length u\<rparr>)"
    using request_line_spans [of mem m u ver] d0 g(1,2) by simp
  have "drop (0 + length (?R @ [CR, LF])) mem = ?H @ rest" using d0 by (intro drop_cut) simp
  then have dH: "drop (length ?R + length line_separator) mem = ?H @ rest" by (simp add: line_separator_def)
  have sh: "scan_headers mem (length ?R + length line_separator) n [] =
      scan_headers mem (length (?R @ line_separator @ ?H)) n (header_spans (length ?R + 2) hs)"
    using scan_headers_block [OF dH g(4), of n "[]"] n g(5)
    by (simp add: line_separator_def add.assoc)
  show ?thesis
    unfolding parse_request_def f sum.case option.case rl prod.case sh by (auto split: sum.splits)
qed

lemma parse_request_prefix:
  assumes "good_head m u ver hs"
    and "pre = request_line m u ver @ line_separator @ concat (map header_line hs)"
    and "length pre \<le> n"
  shows "case find_line (pre @ t) (length pre) n of
      Inl f \<Rightarrow> parse_request (pre @ t) n fresh_request = Inl f
    | Inr None \<Rightarrow> parse_request (pre @ t) n fresh_request = Inr (0, fresh_request, pre @ t)
    | Inr (Some p) \<Rightarrow> True"
proof -
  let ?hs = "header_spans (length (request_line m u ver) + 2) hs"
  have "\<not> HTTP_MAX_HEADERS < length ?hs" using assms(1) by (simp add: good_head_def)
  then have "scan_headers (pre @ t) (length pre) n ?hs =
      (case find_line (pre @ t) (length pre) n of Inl f \<Rightarrow> Inl f | Inr None \<Rightarrow> Inr (Inl 0)
       | Inr (Some p) \<Rightarrow> scan_headers (pre @ t) (length pre) n ?hs)"
    by (cases "find_line (pre @ t) (length pre) n")
      (auto simp: scan_headers.simps [of "pre @ t" "length pre"] split: option.split)
  with parse_request_scan [of "pre @ t" m u ver hs t n] assms show ?thesis
    by (auto split: sum.splits option.splits)
qed

text \<open>
  Every way to cut a well-formed head: behind some whole lines and a part of a line, or between the two bytes of a
  line separator.  In the second case the comparison with the separator finds the byte that lies behind
  the window.
\<close>

lemma take_concat:
  "n < length (concat xs) \<Longrightarrow>
    \<exists>i k. i < length xs \<and> k < length (xs ! i) \<and> take n (concat xs) = concat (take i xs) @ take k (xs ! i)"
proof (induction xs arbitrary: n)
  case (Cons x xs)
  show ?case
  proof (cases "n < length x")
    case True
    then show ?thesis by (intro exI [of _ 0] exI [of _ n]) simp
  next
    case False
    with Cons.prems have "n - length x < length (concat xs)" by simp
    from Cons.IH [OF this] obtain i k where "i < length xs" "k < length (xs ! i)"
      "take (n - length x) (concat xs) = concat (take i xs) @ take k (xs ! i)" by blast
    with False show ?thesis by (intro exI [of _ "Suc i"] exI [of _ k]) simp
  qed
qed simp

lemma find_line_cut:
  assumes "drop pos mem = l @ CR # z" and "CR \<notin> set l" and "z = [] \<or> hd z \<noteq> LF" and "n = pos + length l + 1"
  shows "find_line mem pos n = Inl (if z = [] then Out_of_bounds else Hang)"
proof (cases z)
  case Nil
  have "drop (pos + length l) mem = [CR]"
    using assms(1) Nil by (metis add.commute append_eq_conv_conj drop_drop)
  with memchr_at [OF assms(1,2), of n] assms(4) Nil show ?thesis
    by (simp add: find_line_def memstr_eq line_separator_def)
next
  case (Cons d rest)
  with find_line_hang [of pos mem l d rest n] assms show ?thesis by simp
qed

definition head_lines :: "string \<Rightarrow> string \<Rightarrow> string \<Rightarrow> (string \<times> string) list \<Rightarrow> char list list" where
  "head_lines m u ver hs = request_line m u ver # map (\<lambda>(k, v). k @ CHR '':'' # v) hs @ [[]]"

lemma head_text_lines: "head_text m u ver hs = concat (map (\<lambda>l. l @ line_separator) (head_lines m u ver hs))"
proof -
  have "concat (map header_line hs) = concat (map (\<lambda>l. l @ line_separator) (map (\<lambda>(k, v). k @ CHR '':'' # v) hs))"
    by (induction hs) (auto simp: header_line_def)
  then show ?thesis by (simp add: head_text_def head_lines_def)
qed

lemma head_lines_no_CR: "good_head m u ver hs \<Longrightarrow> l \<in> set (head_lines m u ver hs) \<Longrightarrow> CR \<notin> set l"
  by (fastforce simp: head_lines_def good_head_def good_header_def token_iff list_all_iff request_line_def)

lemma parse_request_lines:
  assumes "good_head m u ver hs" and "i < length (head_lines m u ver hs)"
    and "pre = concat (take i (map (\<lambda>l. l @ line_separator) (head_lines m u ver hs)))" and "length pre \<le> n"
  shows "case find_line (pre @ t) (length pre) n of
      Inl f \<Rightarrow> parse_request (pre @ t) n fresh_request = Inl f
    | Inr None \<Rightarrow> parse_request (pre @ t) n fresh_request = Inr (0, fresh_request, pre @ t)
    | Inr (Some p) \<Rightarrow> True"
proof (cases i)
  case 0
  with assms(3) show ?thesis by (simp add: parse_request_def split: sum.split option.split)
next
  case (Suc j)
  then have j: "j \<le> length hs" using assms(2) by (simp add: head_lines_def)
  have "take j (map (\<lambda>l. l @ line_separator) (map (\<lambda>(k, v). k @ CHR '':'' # v) hs @ [[]])) = map header_line (take j hs)"
    using j by (auto simp: take_map header_line_def)
  then have pre: "pre = request_line m u ver @ line_separator @ concat (map header_line (take j hs))"
    using Suc assms(3) by (simp add: head_lines_def)
  have "good_head m u ver (take j hs)" using assms(1) by (auto simp: good_head_def list_all_iff dest: in_set_takeD)
  from parse_request_prefix [OF this pre assms(4)] show ?thesis .
qed

lemma incomplete_head:
  assumes good: "good_head m u ver hs" and n: "n < length (head_text m u ver hs)" and p: "p = take n (head_text m u ver hs)"
  shows "p = [] \<or> last p \<noteq> CR \<Longrightarrow> parse_request (p @ z) (length p) fresh_request = Inr (0, fresh_request, p @ z)"
    and "p \<noteq> [] \<Longrightarrow> last p = CR \<Longrightarrow> z = [] \<or> hd z \<noteq> LF \<Longrightarrow>
      parse_request (p @ z) (length p) fresh_request = Inl (if z = [] then Out_of_bounds else Hang)"
proof -
  let ?ls = "head_lines m u ver hs" and ?xs = "map (\<lambda>l. l @ line_separator) (head_lines m u ver hs)"
  from take_concat [of n ?xs] n obtain i k where i: "i < length ?ls" "k < length (?ls ! i) + 2"
    and cut: "p = concat (take i ?xs) @ take k (?ls ! i @ line_separator)"
    unfolding p head_text_lines by (auto simp: line_separator_def)
  let ?pre = "concat (take i ?xs)" and ?l = "take k (?ls ! i)"
  have cr: "CR \<notin> set (?ls ! i)" using head_lines_no_CR [OF good] i(1) by simp
  then have l: "CR \<notin> set ?l" by (auto dest: in_set_takeD)
  have parse: "find_line (?pre @ t) (length ?pre) n = Inl f \<Longrightarrow> parse_request (?pre @ t) n fresh_request = Inl f"
    "find_line (?pre @ t) (length ?pre) n = Inr None \<Longrightarrow>
      parse_request (?pre @ t) n fresh_request = Inr (0, fresh_request, ?pre @ t)"
    if "length ?pre \<le> n" for n t f
    using parse_request_lines [OF good i(1) refl that, of t] by auto
  have pre_last: "?pre = [] \<or> last ?pre = LF"
    using i(1) by (cases i) (auto simp: take_Suc_conv_app_nth line_separator_def)
  have whole: "p = ?pre @ ?l" if "k \<le> length (?ls ! i)" using cut that by simp
  have "k = Suc (length (?ls ! i))" if "\<not> k \<le> length (?ls ! i)" using that i(2) by simp
  then have split: "p = ?pre @ ?ls ! i @ [CR]" if "\<not> k \<le> length (?ls ! i)"
    using cut that by (simp add: line_separator_def)
  have no_cr: "p = [] \<or> last p \<noteq> CR" if "k \<le> length (?ls ! i)"
  proof (cases "?l = []")
    case True
    then show ?thesis using whole [OF that] pre_last by (simp del: concat_eq_Nil_conv) auto
  next
    case False
    then have "last p = last ?l" using whole [OF that] by simp
    moreover have "last ?l \<in> set ?l" using False by (rule last_in_set)
    ultimately show ?thesis using l by metis
  qed
  show "parse_request (p @ z) (length p) fresh_request = Inr (0, fresh_request, p @ z)" if "p = [] \<or> last p \<noteq> CR"
  proof -
    have k: "k \<le> length (?ls ! i)" using split that by fastforce
    have "find_line (?pre @ ?l @ z) (length ?pre) (length p) = Inr None"
      by (rule find_line_absent [of _ _ ?l z]) (use l whole [OF k] in simp_all)
    from parse(2) [OF _ this] whole [OF k] show ?thesis by simp
  qed
  show "parse_request (p @ z) (length p) fresh_request = Inl (if z = [] then Out_of_bounds else Hang)"
    if "p \<noteq> []" "last p = CR" "z = [] \<or> hd z \<noteq> LF"
  proof -
    have k: "\<not> k \<le> length (?ls ! i)" using no_cr that(1,2) by blast
    have "find_line (?pre @ ?ls ! i @ CR # z) (length ?pre) (length p) = Inl (if z = [] then Out_of_bounds else Hang)"
      by (rule find_line_cut [of _ _ "?ls ! i" z]) (use cr that(3) split [OF k] in simp_all)
    from parse(1) [OF _ this] split [OF k] show ?thesis by simp
  qed
qed

lemma scan_headers_overflow:
  assumes "drop pos mem = header_line h @ rest" and "good_header h" and "pos + length (header_line h) \<le> n"
    and "length acc = HTTP_MAX_HEADERS"
  shows "scan_headers mem pos n acc = Inl Out_of_bounds"
proof -
  obtain k v where h: "h = (k, v)" by (cases h)
  let ?l = "k @ CHR '':'' # v"
  have l: "drop pos mem = ?l @ CR # LF # rest" using assms(1) by (simp add: h header_line_def line_separator_def)
  have cr: "CR \<notin> set ?l" and colon: "CHR '':'' \<notin> set k"
    using assms(2) by (auto simp: h good_header_def token_iff)
  have find: "find_line mem pos n = Inr (Some (pos + length ?l))"
    using assms(3) by (intro find_line_at [OF l cr]) (simp add: h length_header_line)
  have "memchr mem pos (pos + length ?l) (CHR '':'') = Some (pos + length k)"
    using memchr_at [of pos mem k "CHR '':''" "v @ CR # LF # rest"] l colon by simp
  then have "parse_header mem pos (pos + length ?l - pos) \<noteq> None" by (simp add: parse_header_def)
  with find assms(4) show ?thesis by (subst scan_headers.simps) auto
qed

subsection \<open>Properties\<close>

text \<open>C29: Every well-formed request is read back: with its head and its payload in the window, the parser
  consumes exactly these bytes and delivers the method, the URI, the headers in order, the position
  and the length of the payload, leaving payload and following bytes untouched; with the payload
  still incomplete it consumes nothing and changes nothing.\<close>

theorem well_formed_request_is_read_back:
  assumes "mem = head_text m u ver hs @ body" and "good_head m u ver hs" and "body_length hs = Some len"
    and "length (head_text m u ver hs) \<le> n"
  shows "if length (head_text m u ver hs) + len \<le> n
    then \<exists>req mem'. parse_request mem n fresh_request = Inr (int (length (head_text m u ver hs) + len), req, mem')
      \<and> rq_method req = Some m \<and> rq_uri req = Some u \<and> rq_headers req = hs
      \<and> rq_payload_length req = int len \<and> drop (rq_payload req) mem' = body
    else \<exists>req. parse_request mem n fresh_request = Inr (0, req, mem)"
proof -
  let ?head = "length (head_text m u ver hs)"
  let ?spans = "[\<lparr>ns_start = 0, ns_n = length m\<rparr>, \<lparr>ns_start = length m + 1, ns_n = length u\<rparr>]
           @ concat (map (\<lambda>(k, v). [k, v]) (header_spans (length (request_line m u ver) + 2) hs))"
  have run: "parse_request mem n fresh_request =
      (let r0 = fresh_request\<lparr>rq_payload := ?head, rq_payload_length := int len\<rparr>
       in if n < ?head + len then Inr (0, r0, mem)
          else Inr (int (?head + len), r0\<lparr>rq_method := Some m, rq_uri := Some u, rq_headers := hs\<rparr>,
                 terminate_all ?spans mem))"
    and ends: "\<forall>s \<in> set ?spans. ns_end s < ?head"
    using parse_request_head [OF assms(1,2,4,3)] unfolding Let_def by blast+
  have "drop ?head (terminate_all ?spans mem) = drop ?head mem"
    by (rule drop_terminate_all) (use ends in blast)
  moreover have "drop ?head mem = body" by (simp add: assms(1))
  ultimately show ?thesis
    unfolding run Let_def by (cases "?head + len \<le> n") (simp_all add: not_less)
qed

lemma well_formed_request_is_read_back_witness:
  "\<exists>req mem'. parse_request (''PUT /a HTTP/1.1'' @ [CR, LF] @ ''Content-Length: 2'' @ [CR, LF, CR, LF] @ ''hi'') 40 fresh_request
      = Inr (40, req, mem') \<and> rq_uri req = Some ''/a'' \<and> drop (rq_payload req) mem' = ''hi''"
proof -
  let ?hs = "[(''Content-Length'', '' 2'')]"
  have t: "head_text ''PUT'' ''/a'' ''HTTP/1.1'' ?hs
      = ''PUT /a HTTP/1.1'' @ [CR, LF] @ ''Content-Length: 2'' @ [CR, LF, CR, LF]"
    by (simp add: head_text_def request_line_def header_line_def line_separator_def)
  have g: "good_head ''PUT'' ''/a'' ''HTTP/1.1'' ?hs" by code_simp
  have "is_space SP" "\<not> is_space (CHR ''2'')" "is_digit (CHR ''2'')" by code_simp+
  then have "body_length ?hs = Some 2" by (simp add: body_length_def number_of_def)
  from well_formed_request_is_read_back [OF refl g \<open>body_length ?hs = Some 2\<close>, of 40 "''hi''"] show ?thesis
    unfolding t by auto
qed

text \<open>On any memory, what the parser reports as consumed lies within the window, a request is only
  reported with a positive number of bytes, and no byte behind the reported ones is changed; an
  incomplete or malformed request changes nothing.\<close>

theorem parse_request_bounds:
  assumes "parse_request mem n req = Inr (r, req', mem')"
  shows "(r = -1 \<or> r = 0) \<and> mem' = mem
    \<or> 0 < r \<and> r \<le> int n \<and> length mem' = length mem \<and> drop (nat r) mem' = drop (nat r) mem
        \<and> rq_method req' \<noteq> None \<and> rq_uri req' \<noteq> None
        \<and> 0 \<le> rq_payload_length req' \<and> r = int (rq_payload req') + rq_payload_length req'"
  using assms by (rule parse_request_cases)

lemma parse_request_bounds_witness:
  "\<exists>req' mem'. parse_request (''GET /a X'' @ [CR, LF, CR, LF]) 12 fresh_request = Inr (12, req', mem')
    \<and> rq_uri req' \<noteq> None"
proof -
  have "good_head ''GET'' ''/a'' ''X'' []" "body_length [] = Some 0" by code_simp+
  moreover have "head_text ''GET'' ''/a'' ''X'' [] = ''GET /a X'' @ [CR, LF, CR, LF]"
    by (simp add: head_text_def request_line_def line_separator_def)
  ultimately obtain req' mem' where run:
    "parse_request (''GET /a X'' @ [CR, LF, CR, LF]) 12 fresh_request = Inr (12, req', mem')"
    using parse_request_head [of _ "''GET''" "''/a''" "''X''" "[]" "[]" 12 0] by (auto simp: Let_def)
  from parse_request_bounds [OF run] run show ?thesis by auto
qed

text \<open>C36: A request that has not arrived in full is waited for: with only a part of the request line, or
  complete header lines and a part of the next one in the window, nothing is consumed and the memory
  is unchanged.  But if the received bytes end directly behind a carriage return, so that its line feed
  is still to come, the parser never returns.\<close>

theorem incomplete_requests:
  assumes "good_head m u ver hs" and "CR \<notin> set l" and "length hs < HTTP_MAX_HEADERS" and "d \<noteq> LF"
    and "pre = request_line m u ver @ line_separator @ concat (map header_line hs)"
  shows "parse_request (l @ rest) (length l) fresh_request = Inr (0, fresh_request, l @ rest)
    \<and> parse_request (pre @ l @ rest) (length (pre @ l)) fresh_request = Inr (0, fresh_request, pre @ l @ rest)
    \<and> parse_request (l @ CR # d # rest) (length l + 1) fresh_request = Inl Hang
    \<and> parse_request (pre @ l @ CR # d # rest) (length (pre @ l) + 1) fresh_request = Inl Hang"
proof -
  let ?first = "find_line (l @ CR # d # rest) 0 (length l + 1)"
  have "find_line (l @ rest) 0 (length l) = Inr None"
    by (rule find_line_absent [of 0 "l @ rest" l rest]) (use assms(2) in simp_all)
  moreover have "?first = Inl Hang"
    by (rule find_line_hang [of 0 _ l d rest]) (use assms(2,4) in simp_all)
  ultimately have first: "parse_request (l @ rest) (length l) fresh_request = Inr (0, fresh_request, l @ rest)"
    "parse_request (l @ CR # d # rest) (length l + 1) fresh_request = Inl Hang"
    by (simp_all add: parse_request_def)
  have later: "parse_request (pre @ t) n fresh_request =
      (case find_line (pre @ t) (length pre) n of Inl f \<Rightarrow> Inl f
       | Inr x \<Rightarrow> parse_request (pre @ t) n fresh_request)"
    and absent: "find_line (pre @ t) (length pre) n = Inr None \<Longrightarrow>
      parse_request (pre @ t) n fresh_request = Inr (0, fresh_request, pre @ t)"
    if "length pre \<le> n" for t n
    using parse_request_prefix [OF assms(1,5) that, of t] by (auto split: sum.splits)
  have "find_line (pre @ l @ rest) (length pre) (length (pre @ l)) = Inr None"
    by (rule find_line_absent [of _ _ l rest]) (use assms(2) in simp_all)
  moreover have "find_line (pre @ l @ CR # d # rest) (length pre) (length (pre @ l) + 1) = Inl Hang"
    by (rule find_line_hang [of _ _ l d rest]) (use assms(2,4) in simp_all)
  ultimately show ?thesis
    using first absent [of "length (pre @ l)" "l @ rest"]
      later [of "length (pre @ l) + 1" "l @ CR # d # rest"] by simp
qed

lemma incomplete_requests_witness:
  "parse_request (''GET /a'' @ CR # NUL # [NUL]) (length ''GET /a'' + 1) fresh_request = Inl Hang"
proof -
  have "good_head ''GET'' ''/a'' ''X'' []" and "CR \<notin> set ''GET /a''" by code_simp+
  moreover have "length [] < HTTP_MAX_HEADERS" by (simp add: HTTP_MAX_HEADERS_def)
  ultimately show ?thesis
    using incomplete_requests [of "''GET''" "''/a''" "''X''" "[]" "''GET /a''" NUL _ "[NUL]"] by blast
qed

text \<open>C40: The array of headers has 40 entries, but the test for too many of them comes one header late: a
  41st header is written behind the array.\<close>

theorem forty_first_header_overflows:
  assumes "mem = request_line m u ver @ line_separator @ concat (map header_line hs) @ rest"
    and "good_head m u ver (take HTTP_MAX_HEADERS hs)" and "list_all good_header hs"
    and "length hs = HTTP_MAX_HEADERS + 1"
    and "length (request_line m u ver @ line_separator @ concat (map header_line hs)) \<le> n"
  shows "parse_request mem n fresh_request = Inl Out_of_bounds"
proof -
  let ?R = "request_line m u ver" and ?hs = "take HTTP_MAX_HEADERS hs"
  obtain h where hs: "hs = ?hs @ [h]" and h: "good_header h"
    using assms(3,4) by (metis append_take_drop_id drop_eq_Nil id_take_nth_drop le_refl lessI
        list_all_length plus_1_eq_Suc add.commute take_Suc_conv_app_nth)
  have mem: "mem = (?R @ line_separator @ concat (map header_line ?hs)) @ header_line h @ rest"
    using assms(1) by (subst (asm) hs) simp
  let ?pos = "length (?R @ line_separator @ concat (map header_line ?hs))"
  have n: "?pos + length (header_line h) \<le> n"
    using assms(5) by (subst (asm) hs) simp
  have "scan_headers mem ?pos n (header_spans (length ?R + 2) ?hs) = Inl Out_of_bounds"
    by (rule scan_headers_overflow [OF _ h n]) (simp_all add: mem assms(4))
  with parse_request_scan [OF mem assms(2), of n] n show ?thesis by simp
qed

lemma forty_first_header_overflows_witness:
  "parse_request (request_line ''GET'' ''/a'' ''X'' @ line_separator
      @ concat (map header_line (replicate 41 (''k'', ''v'')))) 300 fresh_request = Inl Out_of_bounds"
proof -
  let ?hs = "replicate 41 (''k'', ''v'')"
  have "good_header (''k'', ''v'')" "good_head ''GET'' ''/a'' ''X'' []" by code_simp+
  then have "good_head ''GET'' ''/a'' ''X'' (take HTTP_MAX_HEADERS ?hs)" "list_all good_header ?hs"
    by (auto simp: good_head_def list_all_iff HTTP_MAX_HEADERS_def)
  moreover have "length (request_line ''GET'' ''/a'' ''X'' @ line_separator
      @ concat (map header_line ?hs)) \<le> 300"
    by (simp add: length_concat map_replicate sum_list_replicate request_line_def line_separator_def header_line_def)
  ultimately show ?thesis
    using forty_first_header_overflows [of _ "''GET''" "''/a''" "''X''" ?hs "[]" 300]
    by (simp add: HTTP_MAX_HEADERS_def)
qed

end
