(* ===== verification/Resource_Table.thy ===== *)
theory Resource_Table
  imports C_Prelude
begin

section \<open>The contract of a resource table\<close>

text \<open>
  What both HTTP servers rely on: a lookup, and a step for each of the two updates of a resource.  The client's requests are a list of updates; the table answers like the map
  that the same updates make.
\<close>

datatype update = Create string "char list" | Delete string

fun apply_update :: "update \<Rightarrow> (string \<rightharpoonup> char list) \<Rightarrow> (string \<rightharpoonup> char list)" where
  "apply_update (Create k v) m = m(k \<mapsto> v)"
| "apply_update (Delete k) m = m(k := None)"

locale resource_table =
  fixes invar :: "'s \<Rightarrow> bool"
    and lookup :: "'s \<Rightarrow> string \<rightharpoonup> char list"
    and enabled :: "update \<Rightarrow> 's \<Rightarrow> bool"
    and step :: "update \<Rightarrow> 's \<Rightarrow> 's"
  assumes step_invar: "invar s \<Longrightarrow> enabled u s \<Longrightarrow> invar (step u s)"
    and step_lookup: "invar s \<Longrightarrow> enabled u s \<Longrightarrow> lookup (step u s) = apply_update u (lookup s)"
begin

fun all_enabled :: "update list \<Rightarrow> 's \<Rightarrow> bool" where
  "all_enabled [] s = True"
| "all_enabled (u # us) s = (enabled u s \<and> all_enabled us (step u s))"

lemma steps_lookup:
  "invar s \<Longrightarrow> all_enabled us s \<Longrightarrow>
    invar (fold step us s) \<and> lookup (fold step us s) = fold apply_update us (lookup s)"
  by (induction us arbitrary: s) (auto simp: step_invar step_lookup)

lemma all_enabled_prefixes:
  "(\<And>us1 u us2. us = us1 @ u # us2 \<Longrightarrow> enabled u (fold step us1 s)) \<Longrightarrow> all_enabled us s"
proof (induction us arbitrary: s)
  case (Cons u us)
  have "enabled u s" using Cons.prems [of "[]" u us] by simp
  moreover have "enabled v (fold step us1 (step u s))" if "us = us1 @ v # us2" for us1 v us2
    using Cons.prems [of "u # us1" v us2] that by simp
  ultimately show ?case using Cons.IH [of "step u s"] by auto
qed simp

lemma last_write_wins:
  assumes "invar s" and "all_enabled (us @ [Create k v] @ vs) s"
    and "\<forall>u \<in> set vs. \<forall>w. u \<noteq> Create k w \<and> u \<noteq> Delete k"
  shows "lookup (fold step (us @ [Create k v] @ vs) s) k = Some v"
proof -
  have keep: "fold apply_update us m k = m k"
    if "\<forall>u \<in> set us. \<forall>w. u \<noteq> Create k w \<and> u \<noteq> Delete k" for us m
    using that
  proof (induction us arbitrary: m)
    case (Cons u us)
    then show ?case by (cases u) auto
  qed simp
  from steps_lookup [OF assms(1,2)] keep [OF assms(3)] show ?thesis by simp
qed

end

end
