(* ===== verification/Chord_Data.thy ===== *)
theory Chord_Data
  imports Chord_Util Resource_Table
begin

section \<open>The resource table (chord-node/data.c)\<close>

text \<open>
  An array of \<open>struct tuple\<close>; a slot whose key is NULL is free.  A value is the block of
  \<open>value_length\<close> bytes behind the pointer.  The slots that the program starts with point to string
  literals (\<open>tp_static\<close>), all others to the heap, and \<open>free\<close> is only defined on the latter.  The
  value to store is given as the memory from its pointer on, of which \<open>value_length\<close> bytes belong to
  it.  \<open>fresh\<close> is the contents that \<open>malloc\<close> happens to leave in a new block.  No result of \<open>malloc\<close>
  is tested in this file; here they succeed, and \<open>Chord_Heap\<close> has the failing ones.
\<close>

record tuple =
  tp_key :: "string option"
  tp_value :: "char list"
  tp_static :: bool

definition free_tuple :: tuple where
  "free_tuple = \<lparr>tp_key = None, tp_value = [], tp_static = False\<rparr>"

fun data_find :: "string \<Rightarrow> tuple list \<Rightarrow> nat option" where
  "data_find key [] = None"
| "data_find key (t # tuples) =
     (if (case tp_key t of None \<Rightarrow> False | Some k \<Rightarrow> strcmp key k = 0) then Some 0
      else map_option Suc (data_find key tuples))"

definition data_get :: "string \<Rightarrow> tuple list \<Rightarrow> char list option" where
  "data_get key tuples = map_option (\<lambda>i. tp_value (tuples ! i)) (data_find key tuples)"

fun free_slot :: "tuple list \<Rightarrow> nat option" where
  "free_slot [] = None"
| "free_slot (t # tuples) = (if tp_key t = None then Some 0 else map_option Suc (free_slot tuples))"

text \<open>
  Overwriting copies with \<open>strcpy\<close>, up to and including the first NUL behind the value's start,
  into a block of \<open>value_length\<close> bytes.
\<close>

definition data_set ::
  "(nat \<Rightarrow> char) \<Rightarrow> string \<Rightarrow> char list \<Rightarrow> nat \<Rightarrow> tuple list \<Rightarrow> fault + (bool \<times> tuple list)" where
  "data_set fresh key memory value_length tuples =
     (case data_find key tuples of
        Some i \<Rightarrow>
          (if tp_static (tuples ! i) then Inl Bad_free
           else if NUL \<notin> set memory \<or> value_length < length (c_str memory) + 1 then Inl Out_of_bounds
           else Inr (True, tuples[i := (tuples ! i)\<lparr>tp_value :=
               c_str memory @ [NUL] @ map fresh [length (c_str memory) + 1 ..< value_length]\<rparr>]))
      | None \<Rightarrow>
          (case free_slot tuples of
             None \<Rightarrow> Inr (False, tuples)
           | Some i \<Rightarrow>
               (if length memory < value_length then Inl Out_of_bounds
                else Inr (False, tuples[i := \<lparr>tp_key = Some key, tp_value = take value_length memory,
                  tp_static = False\<rparr>]))))"

definition data_delete :: "string \<Rightarrow> tuple list \<Rightarrow> fault + (bool \<times> tuple list)" where
  "data_delete key tuples =
     (case data_find key tuples of
        Some i \<Rightarrow>
          (if tp_static (tuples ! i) then Inl Bad_free
           else Inr (True, tuples[i := (tuples ! i)\<lparr>tp_key := None, tp_value := []\<rparr>]))
      | None \<Rightarrow> Inr (False, tuples))"

subsection \<open>Invariant and abstraction\<close>

text \<open>No key occupies two slots.  The table means the map from its keys to their values.\<close>

definition slot_keys :: "tuple list \<Rightarrow> string list" where
  "slot_keys tuples = List.map_filter tp_key tuples"

definition data_wf :: "tuple list \<Rightarrow> bool" where
  "data_wf tuples \<longleftrightarrow> distinct (slot_keys tuples)"

lemma slot_keys_simps [simp]:
  "slot_keys [] = []"
  "slot_keys (t # ts) = (case tp_key t of None \<Rightarrow> slot_keys ts | Some k \<Rightarrow> k # slot_keys ts)"
  by (simp_all add: slot_keys_def List.map_filter_def split: option.splits)

lemma data_find_None: "data_find k ts = None \<longleftrightarrow> k \<notin> set (slot_keys ts)"
  by (induction ts) (auto split: option.splits)

lemma data_find_Some: "data_find k ts = Some i \<Longrightarrow> i < length ts \<and> tp_key (ts ! i) = Some k"
  by (induction ts arbitrary: i) (auto split: option.splits if_splits)

lemma data_get_simps [simp]:
  "data_get k [] = None"
  "data_get k (t # ts) = (if tp_key t = Some k then Some (tp_value t) else data_get k ts)"
  by (auto simp: data_get_def option.map_comp comp_def split: option.splits)

lemma data_get_None: "data_get k ts = None \<longleftrightarrow> k \<notin> set (slot_keys ts)"
  by (simp add: data_get_def data_find_None)

lemma free_slot_Some: "free_slot ts = Some i \<Longrightarrow> i < length ts \<and> tp_key (ts ! i) = None"
  by (induction ts arbitrary: i) (auto split: if_splits)

lemma free_slot_None: "free_slot ts = None \<longleftrightarrow> (\<forall>t \<in> set ts. tp_key t \<noteq> None)"
  by (induction ts) auto

text \<open>Writing a slot that is free, deleting one, and changing the value of one.\<close>

lemma fill_slot:
  assumes "i < length ts" and "tp_key (ts ! i) = None" and "k \<notin> set (slot_keys ts)" and "tp_key t = Some k"
  shows "set (slot_keys (ts[i := t])) = insert k (set (slot_keys ts))
    \<and> (data_wf ts \<longrightarrow> data_wf (ts[i := t]))
    \<and> data_get k' (ts[i := t]) = (if k' = k then Some (tp_value t) else data_get k' ts)"
  using assms(1-3)
proof (induction ts arbitrary: i)
  case (Cons s ts)
  show ?case
  proof (cases i)
    case 0
    with Cons.prems assms(4) show ?thesis
      by (auto simp: data_wf_def data_get_None [symmetric])
  next
    case (Suc j)
    with Cons.prems have "j < length ts" "tp_key (ts ! j) = None" "k \<notin> set (slot_keys ts)"
      by (auto split: option.splits)
    from Cons.IH [OF this] Suc Cons.prems show ?thesis
      by (auto simp: data_wf_def split: option.splits)
  qed
qed simp

lemma clear_slot:
  assumes "i < length ts" and "tp_key (ts ! i) = Some k" and "data_wf ts" and "tp_key t = None"
  shows "set (slot_keys (ts[i := t])) = set (slot_keys ts) - {k} \<and> data_wf (ts[i := t])
    \<and> data_get k' (ts[i := t]) = (if k' = k then None else data_get k' ts)"
  using assms(1-3)
proof (induction ts arbitrary: i)
  case (Cons s ts)
  show ?case
  proof (cases i)
    case 0
    with Cons.prems have s: "tp_key s = Some k" and "k \<notin> set (slot_keys ts)" "distinct (slot_keys ts)"
      by (simp_all add: data_wf_def)
    then have "data_get k ts = None" by (simp add: data_get_None)
    with 0 s \<open>k \<notin> set (slot_keys ts)\<close> \<open>distinct (slot_keys ts)\<close> assms(4) show ?thesis
      by (simp add: data_wf_def)
  next
    case (Suc j)
    with Cons.prems have j: "j < length ts" "tp_key (ts ! j) = Some k" "data_wf ts"
      by (auto simp: data_wf_def split: option.splits)
    have "k \<in> set (slot_keys ts)"
      using j(1,2) by (auto simp: slot_keys_def List.map_filter_def intro!: image_eqI [of _ _ "ts ! j"])
    then have ne: "tp_key s \<noteq> Some k" using Cons.prems(3) by (auto simp: data_wf_def)
    have IH: "set (slot_keys (ts[j := t])) = set (slot_keys ts) - {k}" "distinct (slot_keys (ts[j := t]))"
      "data_get k' (ts[j := t]) = (if k' = k then None else data_get k' ts)"
      using Cons.IH [OF j] by (simp_all add: data_wf_def)
    show ?thesis
    proof (cases "tp_key s")
      case None
      with IH Suc show ?thesis by (simp add: data_wf_def)
    next
      case (Some a)
      with ne have "a \<noteq> k" by simp
      moreover have "a \<notin> set (slot_keys ts)" using Cons.prems(3) Some by (simp add: data_wf_def)
      ultimately show ?thesis using IH Suc Some
        by (cases "k' = k") (simp_all add: data_wf_def insert_Diff_if)
    qed
  qed
qed simp

lemma write_slot:
  assumes "i < length ts" and "tp_key (ts ! i) = Some k" and "data_wf ts" and "tp_key t = Some k"
  shows "slot_keys (ts[i := t]) = slot_keys ts
    \<and> data_get k' (ts[i := t]) = (if k' = k then Some (tp_value t) else data_get k' ts)"
  using assms(1-3)
proof (induction ts arbitrary: i)
  case (Cons s ts)
  show ?case
  proof (cases i)
    case 0
    with Cons.prems assms(4) show ?thesis by (auto simp: data_wf_def)
  next
    case (Suc j)
    with Cons.prems have j: "j < length ts" "tp_key (ts ! j) = Some k" "data_wf ts"
      by (auto simp: data_wf_def split: option.splits)
    have "k \<in> set (slot_keys ts)"
      using j(1,2) by (auto simp: slot_keys_def List.map_filter_def intro!: image_eqI [of _ _ "ts ! j"])
    with Cons.IH [OF j] Suc Cons.prems show ?thesis
      by (auto simp: data_wf_def split: option.splits)
  qed
qed simp

subsection \<open>The array provides the contract\<close>

text \<open>A heap resource is created in a free slot, or deleted.\<close>

definition data_enabled :: "update \<Rightarrow> tuple list \<Rightarrow> bool" where
  "data_enabled u ts =
     (case u of
        Create k v \<Rightarrow> k \<notin> set (slot_keys ts) \<and> free_slot ts \<noteq> None
      | Delete k \<Rightarrow> (case data_find k ts of None \<Rightarrow> True | Some i \<Rightarrow> \<not> tp_static (ts ! i)))"

definition data_step :: "update \<Rightarrow> tuple list \<Rightarrow> tuple list" where
  "data_step u ts =
     (case (case u of Create k v \<Rightarrow> data_set (\<lambda>i. NUL) k v (length v) ts | Delete k \<Rightarrow> data_delete k ts) of
        Inl f \<Rightarrow> ts | Inr (b, ts') \<Rightarrow> ts')"

lemma data_set_create:
  assumes "data_wf ts" and "k \<notin> set (slot_keys ts)" and "free_slot ts \<noteq> None" and "n \<le> length memory"
  shows "\<exists>ts'. data_set fresh k memory n ts = Inr (False, ts') \<and> data_wf ts' \<and> length ts' = length ts
    \<and> data_get k' ts' = (if k' = k then Some (take n memory) else data_get k' ts)"
proof -
  from assms(3) obtain i where i: "free_slot ts = Some i" by auto
  let ?t = "\<lparr>tp_key = Some k, tp_value = take n memory, tp_static = False\<rparr>"
  have none: "data_find k ts = None" using assms(2) by (simp add: data_find_None)
  from fill_slot [of i ts k ?t k'] free_slot_Some [OF i] assms(1,2) have
    "data_wf (ts[i := ?t])" "data_get k' (ts[i := ?t]) = (if k' = k then Some (take n memory) else data_get k' ts)"
    by auto
  with none i assms(4) show ?thesis by (simp add: data_set_def)
qed

lemma data_delete_heap:
  assumes "data_wf ts" and "\<forall>i. data_find k ts = Some i \<longrightarrow> \<not> tp_static (ts ! i)"
  shows "\<exists>ts'. data_delete k ts = Inr (k \<in> set (slot_keys ts), ts') \<and> data_wf ts' \<and> length ts' = length ts
    \<and> data_get k' ts' = (if k' = k then None else data_get k' ts)"
proof (cases "data_find k ts")
  case None
  then have "k \<notin> set (slot_keys ts)" by (simp add: data_find_None)
  moreover from this have "data_get k ts = None" by (simp add: data_get_None)
  ultimately show ?thesis using None assms by (simp add: data_delete_def)
next
  case (Some i)
  let ?t = "(ts ! i)\<lparr>tp_key := None, tp_value := []\<rparr>"
  from clear_slot [of i ts k ?t k'] data_find_Some [OF Some] assms(1) have
    "data_wf (ts[i := ?t])" "data_get k' (ts[i := ?t]) = (if k' = k then None else data_get k' ts)"
    by auto
  moreover have "k \<in> set (slot_keys ts)" using Some data_find_None [of k ts] by auto
  ultimately show ?thesis using Some assms(2) by (simp add: data_delete_def)
qed

text \<open>Whatever the updates do, they keep the invariant and the size of the array.\<close>

lemma data_set_wf:
  assumes "data_wf ts" and "data_set fresh k memory n ts = Inr (b, ts')"
  shows "data_wf ts' \<and> length ts' = length ts"
proof (cases "data_find k ts")
  case (Some i)
  with assms(2) obtain v where "ts' = ts[i := (ts ! i)\<lparr>tp_value := v\<rparr>]"
    by (auto simp: data_set_def split: if_splits)
  then show ?thesis
    using write_slot [of i ts k "(ts ! i)\<lparr>tp_value := v\<rparr>"] data_find_Some [OF Some] assms(1)
    by (simp add: data_wf_def)
next
  case None
  then have k: "k \<notin> set (slot_keys ts)" by (simp add: data_find_None)
  from assms(2) None consider "ts' = ts"
    | i where "free_slot ts = Some i" and "ts' = ts[i := \<lparr>tp_key = Some k, tp_value = take n memory, tp_static = False\<rparr>]"
    by (auto simp: data_set_def split: option.splits if_splits)
  then show ?thesis
  proof cases
    case 2
    with fill_slot [of i ts k "\<lparr>tp_key = Some k, tp_value = take n memory, tp_static = False\<rparr>"]
      free_slot_Some [OF 2(1)] k assms(1)
    show ?thesis by simp
  qed (use assms(1) in simp)
qed

lemma data_delete_wf:
  assumes "data_wf ts" and "data_delete k ts = Inr (b, ts')"
  shows "data_wf ts' \<and> length ts' = length ts"
proof -
  have "\<forall>i. data_find k ts = Some i \<longrightarrow> \<not> tp_static (ts ! i)"
    using assms(2) by (auto simp: data_delete_def split: if_splits)
  from data_delete_heap [OF assms(1) this] assms(2) show ?thesis by auto
qed

text \<open>What was created is found on the heap.\<close>

lemma data_find_created:
  "k \<notin> set (slot_keys ts) \<Longrightarrow> free_slot ts = Some i \<Longrightarrow>
    data_find k (ts[i := \<lparr>tp_key = Some k, tp_value = v, tp_static = False\<rparr>]) = Some i"
  by (induction ts arbitrary: i) (auto split: option.splits if_splits)

lemma data_delete_created:
  assumes "data_wf ts" and "k \<notin> set (slot_keys ts)" and "data_set fresh k memory n ts = Inr (b, ts')"
    and "free_slot ts \<noteq> None" and "n \<le> length memory"
  shows "\<exists>ts''. data_delete k ts' = Inr (True, ts'') \<and> data_wf ts'' \<and> length ts'' = length ts
    \<and> data_get k ts'' = None \<and> (k' \<noteq> k \<longrightarrow> data_get k' ts'' = data_get k' ts)"
proof -
  from assms(4) obtain i where i: "free_slot ts = Some i" by auto
  let ?t = "\<lparr>tp_key = Some k, tp_value = take n memory, tp_static = False\<rparr>"
  let ?t' = "?t\<lparr>tp_key := None, tp_value := []\<rparr>"
  have none: "data_find k ts = None" using assms(2) by (simp add: data_find_None)
  with i assms(3,5) have ts': "ts' = ts[i := ?t]" by (simp add: data_set_def)
  have found: "data_find k ts' = Some i" using data_find_created [OF assms(2) i] ts' by simp
  have lt: "i < length ts" "tp_key (ts ! i) = None" using free_slot_Some [OF i] by auto
  have wf': "data_wf ts'" "data_get k' ts' = (if k' = k then Some (take n memory) else data_get k' ts)" for k'
    using fill_slot [OF lt assms(2), of ?t k'] assms(1) ts' by simp_all
  have "tp_key (ts' ! i) = Some k" using lt ts' by simp
  from clear_slot [OF _ this wf'(1), of ?t' k] clear_slot [OF _ this wf'(1), of ?t' k'] lt ts' wf'(2) [of k']
  show ?thesis by (auto simp: data_delete_def found [unfolded ts'])
qed

lemma data_step_spec:
  assumes "data_wf ts" and "data_enabled u ts"
  shows "data_wf (data_step u ts) \<and> data_get k' (data_step u ts) = apply_update u (\<lambda>k. data_get k ts) k'"
proof (cases u)
  case (Create k v)
  with assms data_set_create [of ts k "length v" v "\<lambda>i. NUL" k'] show ?thesis
    by (auto simp: data_enabled_def data_step_def)
next
  case (Delete k)
  with assms data_delete_heap [of ts k k'] show ?thesis
    by (auto simp: data_enabled_def data_step_def split: option.splits)
qed

interpretation table: resource_table data_wf "\<lambda>ts k. data_get k ts" data_enabled data_step
  by unfold_locales (auto simp: data_step_spec)

lemma c_str_before: "NUL \<in> set (take n s) \<longleftrightarrow> NUL \<in> set s \<and> length (c_str s) < n"
proof (induction s arbitrary: n)
  case (Cons c s)
  show ?case
  proof (cases n)
    case (Suc m)
    with Cons.IH [of m] show ?thesis by (cases "c = NUL") auto
  qed simp
qed simp

subsection \<open>Properties\<close>

text \<open>C30: Under any sequence of PUTs of new resources and DELETEs of heap resources, as long as a slot
  is free for each PUT, the table stays free of duplicate keys and answers every \<open>get\<close> like the
  finite map that the same updates make: what was stored last is read back, byte for byte.\<close>

theorem resources_are_a_map:
  assumes "data_wf ts"
    and "\<And>us1 u us2. us = us1 @ u # us2 \<Longrightarrow> data_enabled u (fold data_step us1 ts)"
  shows "data_wf (fold data_step us ts)
    \<and> (\<forall>k. data_get k (fold data_step us ts) = fold apply_update us (\<lambda>k. data_get k ts) k)"
proof -
  have "table.all_enabled us ts" by (rule table.all_enabled_prefixes) (rule assms(2))
  from table.steps_lookup [OF assms(1) this] show ?thesis by (simp add: fun_eq_iff)
qed

lemma resources_are_a_map_witness:
  "data_get ''/a'' (fold data_step [Create ''/a'' ''hi''] [free_tuple]) = Some ''hi''"
proof -
  have "data_enabled u (fold data_step us1 [free_tuple])"
    if "[Create ''/a'' ''hi''] = us1 @ u # us2" for us1 u us2
  proof -
    from that have "us1 = []" and "u = Create ''/a'' ''hi''" by (cases us1; simp)+
    then show ?thesis by (simp add: data_enabled_def free_tuple_def)
  qed
  moreover have "data_wf [free_tuple]" by (simp add: data_wf_def free_tuple_def)
  ultimately show ?thesis
    using resources_are_a_map [of "[free_tuple]" "[Create ''/a'' ''hi'']"] by simp
qed

text \<open>C39: Overwriting a resource has three outcomes.  A resource the program starts with cannot be
  freed; on the heap the block is one byte too small for every value that has no NUL byte within its
  length; and a value with an earlier NUL byte is stored up to that byte, with unspecified bytes
  behind it, and no other key is affected.\<close>

theorem overwrite_outcomes:
  assumes "data_wf ts" and "data_find key ts = Some i"
  shows "data_set fresh key memory n ts =
      (if tp_static (ts ! i) then Inl Bad_free
       else if NUL \<notin> set (take n memory) then Inl Out_of_bounds
       else Inr (True, ts[i := (ts ! i)\<lparr>tp_value :=
         c_str memory @ [NUL] @ map fresh [length (c_str memory) + 1 ..< n]\<rparr>]))
    \<and> (\<forall>b ts' k'. data_set fresh key memory n ts = Inr (b, ts') \<longrightarrow>
         b \<and> data_wf ts' \<and> (k' \<noteq> key \<longrightarrow> data_get k' ts' = data_get k' ts)
         \<and> map_option c_str (data_get key ts') = Some (c_str memory))"
proof -
  let ?v = "c_str memory @ [NUL] @ map fresh [length (c_str memory) + 1 ..< n]"
  have nul: "NUL \<in> set (take n memory) \<longleftrightarrow> \<not> (NUL \<notin> set memory \<or> n < length (c_str memory) + 1)"
    using c_str_before [of n memory] by auto
  then have main: "data_set fresh key memory n ts =
      (if tp_static (ts ! i) then Inl Bad_free
       else if NUL \<notin> set (take n memory) then Inl Out_of_bounds
       else Inr (True, ts[i := (ts ! i)\<lparr>tp_value := ?v\<rparr>]))"
    by (simp add: data_set_def assms(2))
  have "data_wf (ts[i := (ts ! i)\<lparr>tp_value := ?v\<rparr>])"
    "data_get k' (ts[i := (ts ! i)\<lparr>tp_value := ?v\<rparr>]) = (if k' = key then Some ?v else data_get k' ts)" for k'
    using write_slot [of i ts key "(ts ! i)\<lparr>tp_value := ?v\<rparr>" k'] data_find_Some [OF assms(2)] assms(1)
    by (auto simp: data_wf_def)
  moreover have "c_str ?v = c_str memory" by (simp add: c_str_terminated)
  ultimately show ?thesis unfolding main by auto
qed

lemma overwrite_outcomes_witness:
  "data_set (\<lambda>i. NUL) ''/a'' (''new'' @ [NUL]) 3 [\<lparr>tp_key = Some ''/a'', tp_value = ''old'', tp_static = False\<rparr>]
    = Inl Out_of_bounds"
  using overwrite_outcomes [of "[\<lparr>tp_key = Some ''/a'', tp_value = ''old'', tp_static = False\<rparr>]" "''/a''" 0
      "\<lambda>i. NUL" "''new'' @ [NUL]" 3] by (simp add: data_wf_def)

end
