(* ===== verification/Chord_Node.thy ===== *)
theory Chord_Node
  imports Chord_Wire Chord_Http Chord_Data
begin

section \<open>A node of the ring (chord-node/webserver.c)\<close>

text \<open>
  The global variables of the program are the record \<open>node\<close>.  What the program does to its sockets
  is the list of \<open>effect\<close>s of a step: bytes sent on the TCP connection, a datagram sent to an address
  (four bytes) and a port, the connection closed.  Sending and creating a socket are taken to
  succeed.  A memory-safety fault ends the model (\<open>Inl\<close>).
\<close>

definition MAX_RESOURCES :: nat where
  "MAX_RESOURCES = 100"

record chord_peer =
  peer_id :: u16
  peer_ip :: string
  peer_port :: u16

record node =
  self_id :: u16
  successor :: chord_peer
  predecessor :: chord_peer
  self_ip :: string
  self_port :: u16
  have_reply :: bool
  reply_peer :: chord_peer
  reply_prev_id :: u16
  resources :: "tuple list"

datatype effect =
    Tcp_send "char list"
  | Udp_send "char list" u16 "char list"
  | Tcp_close

definition no_peer :: chord_peer where
  "no_peer = \<lparr>peer_id = 0, peer_ip = [], peer_port = 0\<rparr>"

definition initial_resources :: "tuple list" where
  "initial_resources =
     [\<lparr>tp_key = Some ''/static/foo'', tp_value = ''Foo'', tp_static = True\<rparr>,
      \<lparr>tp_key = Some ''/static/bar'', tp_value = ''Bar'', tp_static = True\<rparr>,
      \<lparr>tp_key = Some ''/static/baz'', tp_value = ''Baz'', tp_static = True\<rparr>]
     @ replicate (MAX_RESOURCES - 3) free_tuple"

subsection \<open>Replies\<close>

abbreviation EOL :: string where
  "EOL \<equiv> [CR, LF]"

definition ok_head :: "nat \<Rightarrow> string" where
  "ok_head n = ''HTTP/1.1 200 OK'' @ EOL @ ''Content-Length: '' @ decimal n @ EOL @ EOL"

definition not_found_get :: string where
  "not_found_get = ''HTTP/1.1 404 Not Found'' @ EOL @ ''Content-Length: 0'' @ EOL @ EOL"

definition not_found_delete :: string where
  "not_found_delete = ''HTTP/1.1 404 Not Found'' @ EOL @ EOL"

definition no_content :: string where
  "no_content = ''HTTP/1.1 204 No Content'' @ EOL @ EOL"

definition created :: string where
  "created = ''HTTP/1.1 201 Created'' @ EOL @ ''Content-Length: 0'' @ EOL @ EOL"

definition not_supported :: string where
  "not_supported = ''HTTP/1.1 501 Method Not Supported'' @ EOL @ EOL"

definition service_unavailable :: string where
  "service_unavailable = ''HTTP/1.1 503 Service Unavailable'' @ EOL @ ''Retry-After: 1'' @ EOL
     @ ''Content-Length: 0'' @ EOL @ EOL"

definition bad_request :: string where
  "bad_request = ''HTTP/1.1 400 Bad Request'' @ EOL @ EOL"

text \<open>The redirect to a peer, cut to what fits the buffer.\<close>

definition redirect_text :: "chord_peer \<Rightarrow> string \<Rightarrow> string" where
  "redirect_text p uri = ''HTTP/1.1 303 See Other'' @ EOL
     @ ''Location: http://'' @ peer_ip p @ '':'' @ decimal (unat (peer_port p)) @ uri @ EOL
     @ ''Content-Length: 0'' @ EOL @ EOL"

definition send_redirect :: "chord_peer \<Rightarrow> string \<Rightarrow> effect" where
  "send_redirect p uri = Tcp_send (snprintf_kept HTTP_MAX_SIZE (redirect_text p uri))"

text \<open>
  \<open>send_reply\<close>: \<open>mem\<close> is the memory that the request was parsed in.  The reply to GET is assembled in
  a buffer of \<open>HTTP_MAX_SIZE\<close> bytes without a test.
\<close>

definition send_reply ::
  "(nat \<Rightarrow> char) \<Rightarrow> string \<Rightarrow> string \<Rightarrow> nat \<Rightarrow> int \<Rightarrow> char list \<Rightarrow> tuple list
    \<Rightarrow> fault + (tuple list \<times> char list)"
where
  "send_reply fresh method uri payload payload_length mem tuples =
     (if strcmp method ''GET'' = 0 then
        (case data_get uri tuples of
           Some resource \<Rightarrow>
             (let reply = ok_head (length resource) @ resource
              in if HTTP_MAX_SIZE < length reply then Inl Out_of_bounds else Inr (tuples, reply))
         | None \<Rightarrow> Inr (tuples, not_found_get))
      else if strcmp method ''PUT'' = 0 then
        (case data_set fresh uri (drop payload mem) (nat payload_length) tuples of
           Inl f \<Rightarrow> Inl f
         | Inr (overwritten, tuples') \<Rightarrow> Inr (tuples', if overwritten then no_content else created))
      else if strcmp method ''DELETE'' = 0 then
        (case data_delete uri tuples of
           Inl f \<Rightarrow> Inl f
         | Inr (existed, tuples') \<Rightarrow> Inr (tuples', if existed then no_content else not_found_delete))
      else Inr (tuples, not_supported))"

subsection \<open>Serving a request\<close>

definition single_node :: "node \<Rightarrow> bool" where
  "single_node nd \<longleftrightarrow>
     (peer_id (predecessor nd) = self_id nd \<and> peer_id (successor nd) = self_id nd)
     \<or> (peer_id (predecessor nd) = 0 \<and> peer_id (successor nd) = 0)"

definition responsible :: "node \<Rightarrow> u16 \<Rightarrow> bool" where
  "responsible nd hash = (single_node nd \<or> is_responsible hash (self_id nd) (peer_id (predecessor nd)))"

definition lookup_message :: "node \<Rightarrow> u16 \<Rightarrow> char list" where
  "lookup_message nd hash =
     build_message LOOKUP hash (self_id nd) (address_bytes (self_ip nd)) (self_port nd)"

definition send_datagram :: "string \<Rightarrow> u16 \<Rightarrow> char list \<Rightarrow> effect list" where
  "send_datagram ip port msg = (case inet_pton ip of None \<Rightarrow> [] | Some a \<Rightarrow> [Udp_send a port msg])"

text \<open>What a node that is not responsible does with a request for \<open>uri\<close>.\<close>

definition refer :: "node \<Rightarrow> string \<Rightarrow> u16 \<Rightarrow> node \<times> effect list" where
  "refer nd uri hash =
     (if peer_id (successor nd) = peer_id (predecessor nd) then
        (nd, [send_redirect (successor nd) uri])
      else if have_reply nd then
        (nd\<lparr>have_reply := False\<rparr>, [send_redirect (reply_peer nd) uri])
      else if is_responsible hash (peer_id (successor nd)) (self_id nd) then
        (nd\<lparr>have_reply := True, reply_prev_id := self_id nd, reply_peer := successor nd\<rparr>,
         [Tcp_send service_unavailable])
      else
        (nd, Tcp_send service_unavailable
          # send_datagram (peer_ip (successor nd)) (peer_port (successor nd)) (lookup_message nd hash)))"

definition process_packet ::
  "(nat \<Rightarrow> char) \<Rightarrow> node \<Rightarrow> char list \<Rightarrow> nat \<Rightarrow> fault + (int \<times> node \<times> effect list \<times> char list)" where
  "process_packet fresh nd mem n =
     (case parse_request mem n fresh_request of Inl f \<Rightarrow> Inl f
      | Inr (r, req, mem') \<Rightarrow>
         (if 0 < r then
            (let method = non_null (rq_method req); uri = non_null (rq_uri req);
                 hash = (if rq_uri req = None then 0 else pseudo_hash uri);
                 keep = (case get_header (rq_headers req) ''Connection'' of
                           None \<Rightarrow> True | Some v \<Rightarrow> strcmp v ''close'' = 0);
                 r' = (if keep then r else -1)
             in if responsible nd hash then
                  (case send_reply fresh method uri (rq_payload req) (rq_payload_length req) mem' (resources nd) of
                     Inl f \<Rightarrow> Inl f
                   | Inr (tuples, reply) \<Rightarrow> Inr (r', nd\<lparr>resources := tuples\<rparr>, [Tcp_send reply], mem'))
                else (let (nd', es) = refer nd uri hash in Inr (r', nd', es, mem')))
          else if r = -1 then Inr (-1, nd, [Tcp_send bad_request, Tcp_close], mem')
          else Inr (r, nd, [], mem')))"

subsection \<open>Datagrams\<close>

definition handle_lookup :: "node \<Rightarrow> char list \<Rightarrow> effect list" where
  "handle_lookup nd msg =
     (let query_hash = get16 msg 1; origin_ip = inet_ntop (take 4 (drop 5 msg)); origin_port = get16 msg 9
      in if is_responsible query_hash (self_id nd) (peer_id (predecessor nd)) then
           send_datagram origin_ip origin_port
             (build_message REPLY (peer_id (predecessor nd)) (self_id nd) (address_bytes (self_ip nd)) (self_port nd))
         else if is_responsible query_hash (peer_id (successor nd)) (self_id nd) then
           send_datagram origin_ip origin_port
             (build_message REPLY (self_id nd) (peer_id (successor nd))
               (address_bytes (peer_ip (successor nd))) (peer_port (successor nd)))
         else send_datagram (peer_ip (successor nd)) (peer_port (successor nd)) (take MSG_SIZE msg))"

definition handle_reply :: "node \<Rightarrow> char list \<Rightarrow> node" where
  "handle_reply nd msg =
     nd\<lparr>have_reply := True, reply_prev_id := get16 msg 1,
        reply_peer := \<lparr>peer_id = get16 msg 3,
          peer_ip = take (INET_ADDRSTRLEN - 1) (inet_ntop (take 4 (drop 5 msg))), peer_port = get16 msg 9\<rparr>\<rparr>"

definition handle_datagram :: "node \<Rightarrow> char list \<Rightarrow> node \<times> effect list" where
  "handle_datagram nd bytes =
     (if length bytes < MSG_SIZE then (nd, [])
      else if bytes ! 0 = LOOKUP then (nd, handle_lookup nd bytes)
      else if bytes ! 0 = REPLY then (handle_reply nd bytes, [])
      else (nd, []))"

text \<open>
  The receiving loop over the queue of pending datagrams; what it leaves in the queue.  An empty
  datagram ends it, a longer one is cut to the buffer.
\<close>

fun handle_udp_socket :: "node \<Rightarrow> char list list \<Rightarrow> node \<times> effect list \<times> char list list" where
  "handle_udp_socket nd [] = (nd, [], [])"
| "handle_udp_socket nd (d # queue) =
     (if d = [] then (nd, [], queue)
      else (let (nd1, es1) = handle_datagram nd (take (HTTP_MAX_SIZE - 1) d);
                (nd2, es2, rest) = handle_udp_socket nd1 queue
            in (nd2, es1 @ es2, rest)))"

subsection \<open>What datagrams do to a node\<close>

text \<open>The datagrams that the receiving loop takes, and those that it does not ignore.\<close>

definition datagrams_received :: "char list list \<Rightarrow> char list list" where
  "datagrams_received queue = map (take (HTTP_MAX_SIZE - 1)) (takeWhile (\<lambda>d. d \<noteq> []) queue)"

definition is_reply :: "char list \<Rightarrow> bool" where
  "is_reply d \<longleftrightarrow> MSG_SIZE \<le> length d \<and> d ! 0 = REPLY"

definition is_lookup :: "char list \<Rightarrow> bool" where
  "is_lookup d \<longleftrightarrow> MSG_SIZE \<le> length d \<and> d ! 0 = LOOKUP"

text \<open>Cache contents do not matter for lookups.\<close>

lemma handle_lookup_cong: "handle_lookup (handle_reply nd d) msg = handle_lookup nd msg"
  by (simp add: handle_lookup_def handle_reply_def Let_def)

lemma handle_reply_twice: "handle_reply (handle_reply nd d) d' = handle_reply nd d'"
  by (simp add: handle_reply_def)

lemma handle_datagram_alt:
  "handle_datagram nd d = (if is_reply d then handle_reply nd d else nd,
    if is_lookup d then handle_lookup nd d else [])"
  by (simp add: handle_datagram_def is_reply_def is_lookup_def)

lemma handle_udp_socket_received:
  "handle_udp_socket nd queue =
    (if filter is_reply (datagrams_received queue) = [] then nd else handle_reply nd (last (filter is_reply (datagrams_received queue))),
     concat (map (handle_lookup nd) (filter is_lookup (datagrams_received queue))),
     tl (dropWhile (\<lambda>d. d \<noteq> []) queue))"
proof (induction queue arbitrary: nd)
  case (Cons d queue)
  show ?case
  proof (cases "d = []")
    case False
    have "handle_lookup (handle_reply nd e) = handle_lookup nd" for e
      using handle_lookup_cong by blast
    moreover obtain e where e: "take (HTTP_MAX_SIZE - 1) d = e" by blast
    have "datagrams_received (d # queue) = e # datagrams_received queue"
      using False by (simp only: datagrams_received_def takeWhile.simps list.map e if_True not_False_eq_True)
    ultimately show ?thesis
      using False Cons.IH by (cases "is_reply e"; cases "is_lookup e")
        (simp_all only: handle_udp_socket.simps e, simp_all add: handle_datagram_alt handle_reply_twice)
  qed (simp add: datagrams_received_def)
qed (simp add: datagrams_received_def)

text \<open>However many datagrams are pending, the receiving loop leaves the node's identity, neighbours
  and resources alone; the cached reply afterwards is the one of the last REPLY message, if there was
  one; and what it sends is the answers to the LOOKUP messages, in their order.  Short datagrams and
  those with other flags have no effect, an empty one ends the loop.\<close>

theorem datagram_queue_outcome:
  "handle_udp_socket nd queue =
    (case rev (filter is_reply (datagrams_received queue)) of
       [] \<Rightarrow> nd
     | d # _ \<Rightarrow> nd\<lparr>have_reply := True, reply_prev_id := get16 d 1,
         reply_peer := \<lparr>peer_id = get16 d 3, peer_ip = inet_ntop (take 4 (drop 5 d)), peer_port = get16 d 9\<rparr>\<rparr>,
     concat (map (handle_lookup nd) (filter is_lookup (datagrams_received queue))),
     tl (dropWhile (\<lambda>d. d \<noteq> []) queue))"
proof -
  have ip: "take (INET_ADDRSTRLEN - 1) (inet_ntop (take 4 (drop 5 d))) = inet_ntop (take 4 (drop 5 d))"
    if "is_reply d" for d
  proof -
    have "length (take 4 (drop 5 d)) = 4" using that by (auto simp: is_reply_def MSG_SIZE_def min_def)
    then show ?thesis using length_inet_ntop [of "take 4 (drop 5 d)"] by (simp add: INET_ADDRSTRLEN_def)
  qed
  show ?thesis
  proof (cases "filter is_reply (datagrams_received queue)" rule: rev_cases)
    case Nil
    then show ?thesis by (simp add: handle_udp_socket_received)
  next
    case (snoc ds d)
    then have "is_reply d" by (metis (no_types, lifting) filter_eq_Cons_iff filter_id_conv filter_filter in_set_conv_decomp mem_Collect_eq set_filter)
    with snoc ip [of d] show ?thesis
      by (simp add: handle_udp_socket_received handle_reply_def)
  qed
qed

text \<open>A REPLY message, as any node builds it for an address of four bytes, is stored as it was meant:
  predecessor identifier, peer identifier, the address in its textual form, which reads back as the
  same four bytes, and the port.\<close>

theorem reply_message_is_stored:
  assumes "length a = 4"
  shows "handle_datagram nd (build_message REPLY prev ident a port) =
      (nd\<lparr>have_reply := True, reply_prev_id := prev,
         reply_peer := \<lparr>peer_id = ident, peer_ip = inet_ntop a, peer_port = port\<rparr>\<rparr>, [])
    \<and> inet_pton (inet_ntop a) = Some a \<and> length (inet_ntop a) < INET_ADDRSTRLEN"
  using build_message_fields [OF assms, of REPLY prev ident port] length_inet_ntop [OF assms]
  by (simp add: handle_datagram_def handle_reply_def length_build_message assms inet_roundtrip INET_ADDRSTRLEN_def)

lemma reply_message_is_stored_witness:
  "peer_ip (reply_peer (fst (handle_datagram
      \<lparr>self_id = 1, successor = no_peer, predecessor = no_peer, self_ip = ''10.0.0.1'', self_port = 80,
        have_reply = False, reply_peer = no_peer, reply_prev_id = 0, resources = []\<rparr>
      (build_message REPLY 7 300 [CHR 0x7F, NUL, NUL, CHR 0x01] 4711)))) = ''127.0.0.1''"
proof -
  have "inet_ntop [CHR 0x7F, NUL, NUL, CHR 0x01] = ''127.0.0.1''" by code_simp
  then show ?thesis
    using reply_message_is_stored [of "[CHR 0x7F, NUL, NUL, CHR 0x01]" _ 7 300 4711] by simp
qed

subsection \<open>Serving a well-formed request\<close>

text \<open>
  What a node does with a request that has been read, given the bytes \<open>after\<close> its head; and whether
  the connection is kept.
\<close>

definition answer :: "(nat \<Rightarrow> char) \<Rightarrow> node \<Rightarrow> string \<Rightarrow> string \<Rightarrow> nat \<Rightarrow> char list \<Rightarrow> fault + (node \<times> effect list)" where
  "answer fresh nd m u len after =
     (if responsible nd (pseudo_hash u) then
        (case send_reply fresh m u 0 (int len) after (resources nd) of
           Inl f \<Rightarrow> Inl f | Inr (ts, reply) \<Rightarrow> Inr (nd\<lparr>resources := ts\<rparr>, [Tcp_send reply]))
      else Inr (refer nd u (pseudo_hash u)))"

definition keeps_open :: "(string \<times> string) list \<Rightarrow> bool" where
  "keeps_open hs \<longleftrightarrow> get_header hs ''Connection'' \<in> {None, Some ''close''}"

lemma send_reply_payload: "send_reply fresh m u p len mem ts = send_reply fresh m u 0 len (drop p mem) ts"
  by (simp add: send_reply_def)

lemma parse_request_whole:
  assumes "good_head m u ver hs" and "body_length hs = Some len" and "length (head_text m u ver hs) + len \<le> n"
  shows "\<exists>req mem'. parse_request (head_text m u ver hs @ body) n fresh_request =
      Inr (int (length (head_text m u ver hs) + len), req, mem')
    \<and> rq_method req = Some m \<and> rq_uri req = Some u \<and> rq_headers req = hs \<and> rq_payload_length req = int len
    \<and> rq_payload req = length (head_text m u ver hs) \<and> drop (rq_payload req) mem' = body
    \<and> length mem' = length (head_text m u ver hs) + length body"
proof -
  let ?h = "length (head_text m u ver hs)" and ?mem = "head_text m u ver hs @ body"
  have n: "?h \<le> n" and fits: "\<not> n < ?h + len" using assms(3) by simp_all
  let ?spans = "[\<lparr>ns_start = 0, ns_n = length m\<rparr>, \<lparr>ns_start = length m + 1, ns_n = length u\<rparr>]
           @ concat (map (\<lambda>(k, v). [k, v]) (header_spans (length (request_line m u ver) + 2) hs))"
  note p = parse_request_head [OF refl assms(1) n assms(2), of body, unfolded Let_def]
  have ends: "\<forall>s \<in> set ?spans. ns_end s < ?h" using p by blast
  have run: "parse_request ?mem n fresh_request = Inr (int (?h + len),
      fresh_request\<lparr>rq_payload := ?h, rq_payload_length := int len, rq_method := Some m, rq_uri := Some u,
        rq_headers := hs\<rparr>, terminate_all ?spans ?mem)"
    using p fits by simp
  have "drop ?h (terminate_all ?spans ?mem) = body"
    using drop_terminate_all [of ?spans ?h ?mem] ends by simp
  then show ?thesis unfolding run by (auto simp: length_terminate_all)
qed

lemma process_packet_answers:
  assumes "good_head m u ver hs" and "body_length hs = Some len" and "length (head_text m u ver hs) + len \<le> n"
  shows "\<exists>mem'. drop (length (head_text m u ver hs)) mem' = body
    \<and> length mem' = length (head_text m u ver hs) + length body
    \<and> (\<forall>nd. process_packet fresh nd (head_text m u ver hs @ body) n =
        (case answer fresh nd m u len body of Inl f \<Rightarrow> Inl f
         | Inr (nd', es) \<Rightarrow>
            Inr (if keeps_open hs then int (length (head_text m u ver hs) + len) else -1, nd', es, mem')))"
proof -
  let ?h = "length (head_text m u ver hs)"
  obtain req mem' where run: "parse_request (head_text m u ver hs @ body) n fresh_request = Inr (int (?h + len), req, mem')"
    and req: "rq_method req = Some m" "rq_uri req = Some u" "rq_headers req = hs" "rq_payload_length req = int len"
      "rq_payload req = ?h" and mem: "drop (rq_payload req) mem' = body" "length mem' = ?h + length body"
    using parse_request_whole [OF assms] by blast
  have "0 < ?h" by (simp add: head_text_def line_separator_def)
  then have pos: "0 < int (?h + len)" by linarith
  have reply: "send_reply fresh m u ?h (int len) mem' ts = send_reply fresh m u 0 (int len) body ts" for ts
    using mem(1) req(5) by (subst send_reply_payload) simp
  have keep: "(case get_header hs ''Connection'' of None \<Rightarrow> True | Some v \<Rightarrow> strcmp v ''close'' = 0) = keeps_open hs"
    by (auto simp: keeps_open_def split: option.splits)
  have "process_packet fresh nd (head_text m u ver hs @ body) n =
      (case answer fresh nd m u len body of Inl f \<Rightarrow> Inl f
         | Inr (nd', es) \<Rightarrow> Inr (if keeps_open hs then int (?h + len) else -1, nd', es, mem'))" for nd
    using pos by (simp add: process_packet_def run req reply keep answer_def Let_def del: of_nat_add
      split: sum.split prod.split)
  with mem req(5) show ?thesis by auto
qed

lemma process_packet_ok:
  assumes "good_head m u ver hs" and "body_length hs = Some len" and "length (head_text m u ver hs) + len \<le> n"
    and "answer fresh nd m u len body = Inr (nd', es)"
  shows "\<exists>mem'. process_packet fresh nd (head_text m u ver hs @ body) n =
    Inr (if keeps_open hs then int (length (head_text m u ver hs) + len) else -1, nd', es, mem')"
proof -
  obtain mem' where "process_packet fresh nd (head_text m u ver hs @ body) n =
      (case answer fresh nd m u len body of Inl f \<Rightarrow> Inl f | Inr (nd', es) \<Rightarrow>
        Inr (if keeps_open hs then int (length (head_text m u ver hs) + len) else -1, nd', es, mem'))"
    using process_packet_answers [OF assms(1-3), of body fresh] by blast
  then have "process_packet fresh nd (head_text m u ver hs @ body) n =
      Inr (if keeps_open hs then int (length (head_text m u ver hs) + len) else -1, nd', es, mem')"
    by (simp add: assms(4))
  then show ?thesis ..
qed

lemma process_packet_fault:
  assumes "good_head m u ver hs" and "body_length hs = Some len" and "length (head_text m u ver hs) + len \<le> n"
    and "answer fresh nd m u len body = Inl f"
  shows "process_packet fresh nd (head_text m u ver hs @ body) n = Inl f"
proof -
  obtain mem' where "process_packet fresh nd (head_text m u ver hs @ body) n =
      (case answer fresh nd m u len body of Inl f \<Rightarrow> Inl f | Inr (nd', es) \<Rightarrow>
        Inr (if keeps_open hs then int (length (head_text m u ver hs) + len) else -1, nd', es, mem'))"
    using process_packet_answers [OF assms(1-3), of body fresh] by blast
  then show ?thesis by (simp add: assms(4))
qed

lemma process_packet_exact:
  assumes "good_head m u ver hs" and "body_length hs = Some (length body)" and "keeps_open hs"
    and "msg = head_text m u ver hs @ body"
  obtains mem' where "\<And>nd nd' es. answer fresh nd m u (length body) body = Inr (nd', es) \<Longrightarrow>
    process_packet fresh nd msg (length msg) = Inr (int (length msg), nd', es, mem')"
proof -
  have "length (head_text m u ver hs) + length body \<le> length msg" by (simp add: assms(4))
  from process_packet_answers [OF assms(1,2) this, of body fresh] obtain mem' where
    run: "\<forall>nd. process_packet fresh nd msg (length msg) = (case answer fresh nd m u (length body) body of
      Inl f \<Rightarrow> Inl f | Inr (nd', es) \<Rightarrow>
        Inr (if keeps_open hs then int (length (head_text m u ver hs) + length body) else -1, nd', es, mem'))"
    unfolding assms(4) by blast
  have "length (head_text m u ver hs) + length body = length msg" by (simp add: assms(4))
  from run [unfolded this] show thesis by (intro that [of mem']) (simp add: assms(3))
qed

text \<open>The answers of a responsible node to the three methods.\<close>

lemma answer_get:
  "responsible nd (pseudo_hash u) \<Longrightarrow> answer fresh nd ''GET'' u len after =
    (case data_get u (resources nd) of
       None \<Rightarrow> Inr (nd, [Tcp_send not_found_get])
     | Some v \<Rightarrow> if HTTP_MAX_SIZE < length (ok_head (length v) @ v) then Inl Out_of_bounds
         else Inr (nd, [Tcp_send (ok_head (length v) @ v)]))"
  by (simp add: answer_def send_reply_def Let_def split: option.split)

lemma answer_put_new:
  assumes "responsible nd (pseudo_hash u)" and "data_wf (resources nd)" and "u \<notin> set (slot_keys (resources nd))"
    and "free_slot (resources nd) \<noteq> None" and "len \<le> length after"
  obtains ts where "answer fresh nd ''PUT'' u len after = Inr (nd\<lparr>resources := ts\<rparr>, [Tcp_send created])"
    and "data_set fresh u after len (resources nd) = Inr (False, ts)"
    and "\<forall>k. data_get k ts = (if k = u then Some (take len after) else data_get k (resources nd))"
proof -
  obtain ts where ts: "data_set fresh u after len (resources nd) = Inr (False, ts)"
    using data_set_create [OF assms(2-5), of fresh u] by blast
  moreover have "data_get k ts = (if k = u then Some (take len after) else data_get k (resources nd))" for k
    using data_set_create [OF assms(2-5), of fresh k] ts by auto
  moreover have "answer fresh nd ''PUT'' u len after = Inr (nd\<lparr>resources := ts\<rparr>, [Tcp_send created])"
    using assms(1) ts by (simp add: answer_def send_reply_def)
  ultimately show thesis using that by blast
qed

lemma responsible_resources [simp]: "responsible (nd\<lparr>resources := ts\<rparr>) h = responsible nd h"
  by (simp add: responsible_def single_node_def)

text \<open>C10: Life of a resource at the node that is responsible for it.  A PUT of a new resource, while a slot
  is free, is answered with 201 Created; a GET then delivers exactly the bytes that were put; a DELETE
  is answered with 204 and a further GET with 404; all other resources stay as they were.\<close>

theorem put_get_delete_get:
  assumes "responsible nd (pseudo_hash u)" and "data_wf (resources nd)" and "u \<notin> set (slot_keys (resources nd))"
    and "free_slot (resources nd) \<noteq> None"
    and "good_head ''PUT'' u ver hs" and "body_length hs = Some (length body)" and "keeps_open hs"
    and "good_head ''GET'' u ver' gs" and "good_head ''DELETE'' u ver' gs" and "body_length gs = Some 0" and "keeps_open gs"
    and "length (ok_head (length body) @ body) \<le> HTTP_MAX_SIZE"
    and "put = head_text ''PUT'' u ver hs @ body" and "gt = head_text ''GET'' u ver' gs"
    and "dl = head_text ''DELETE'' u ver' gs"
  shows "\<exists>nd1 nd2 mems. length mems = 4
    \<and> process_packet fresh nd put (length put) = Inr (int (length put), nd1, [Tcp_send created], mems ! 0)
    \<and> process_packet fresh nd1 gt (length gt)
        = Inr (int (length gt), nd1, [Tcp_send (ok_head (length body) @ body)], mems ! 1)
    \<and> process_packet fresh nd1 dl (length dl) = Inr (int (length dl), nd2, [Tcp_send no_content], mems ! 2)
    \<and> process_packet fresh nd2 gt (length gt) = Inr (int (length gt), nd2, [Tcp_send not_found_get], mems ! 3)
    \<and> (\<forall>k. k \<noteq> u \<longrightarrow> data_get k (resources nd2) = data_get k (resources nd))"
proof -
  obtain ts where
    put: "answer fresh nd ''PUT'' u (length body) body = Inr (nd\<lparr>resources := ts\<rparr>, [Tcp_send created])"
    and set: "data_set fresh u body (length body) (resources nd) = Inr (False, ts)"
    and get: "\<forall>k. data_get k ts = (if k = u then Some (take (length body) body) else data_get k (resources nd))"
    by (rule answer_put_new [OF assms(1-4) order_refl])
  let ?nd1 = "nd\<lparr>resources := ts\<rparr>"
  from data_delete_created [OF assms(2,3) set assms(4)] obtain us where
    del: "data_delete u ts = Inr (True, us)" and gone: "data_get u us = None" by auto
  have others: "k \<noteq> u \<Longrightarrow> data_get k us = data_get k (resources nd)" for k
    using data_delete_created [OF assms(2,3) set assms(4), of k] del by auto
  let ?nd2 = "nd\<lparr>resources := us\<rparr>"
  have get1: "answer fresh ?nd1 ''GET'' u 0 [] = Inr (?nd1, [Tcp_send (ok_head (length body) @ body)])"
    using assms(1,12) get by (simp add: answer_get)
  have del1: "answer fresh ?nd1 ''DELETE'' u 0 [] = Inr (?nd2, [Tcp_send no_content])"
    using assms(1) del by (simp add: answer_def send_reply_def)
  have get2: "answer fresh ?nd2 ''GET'' u 0 [] = Inr (?nd2, [Tcp_send not_found_get])"
    using assms(1) gone by (simp add: answer_get)
  obtain m0 where m0: "process_packet fresh nd put (length put) = Inr (int (length put), ?nd1, [Tcp_send created], m0)"
    by (rule process_packet_exact [OF assms(5-7,13)]) (use put in blast)
  obtain mg where mg: "answer fresh n ''GET'' u 0 [] = Inr (n', es) \<Longrightarrow>
      process_packet fresh n gt (length gt) = Inr (int (length gt), n', es, mg)" for n n' es
    using process_packet_exact [of "''GET''" u ver' gs "[]" gt fresh] assms(8,10,11,14) by auto
  obtain md where md: "answer fresh n ''DELETE'' u 0 [] = Inr (n', es) \<Longrightarrow>
      process_packet fresh n dl (length dl) = Inr (int (length dl), n', es, md)" for n n' es
    using process_packet_exact [of "''DELETE''" u ver' gs "[]" dl fresh] assms(9-11,15) by auto
  show ?thesis
    using m0 mg [OF get1] mg [OF get2] md [OF del1] others
    by (intro exI [of _ ?nd1] exI [of _ ?nd2] exI [of _ "[m0, mg, md, mg]"]) (simp add: numeral_eq_Suc)
qed

text \<open>A node on its own with the resources the program starts with.\<close>

definition lone_node :: node where
  "lone_node = \<lparr>self_id = 0, successor = no_peer, predecessor = no_peer, self_ip = ''127.0.0.1'', self_port = 4711,
     have_reply = False, reply_peer = no_peer, reply_prev_id = 0, resources = initial_resources\<rparr>"

lemma initial_resources_facts:
  "data_wf initial_resources" "slot_keys initial_resources = [''/static/foo'', ''/static/bar'', ''/static/baz'']"
  "free_slot initial_resources \<noteq> None" "length initial_resources = MAX_RESOURCES"
proof -
  have keys: "slot_keys (replicate n free_tuple) = []" for n by (induction n) (simp_all add: free_tuple_def)
  then show "slot_keys initial_resources = [''/static/foo'', ''/static/bar'', ''/static/baz'']"
    by (simp add: initial_resources_def slot_keys_def List.map_filter_def free_tuple_def)
  then show "data_wf initial_resources" by (simp add: data_wf_def)
  show "free_slot initial_resources \<noteq> None" "length initial_resources = MAX_RESOURCES"
    by (simp_all add: initial_resources_def free_slot_None MAX_RESOURCES_def free_tuple_def)
qed

lemma lone_node_responsible: "responsible lone_node h"
  by (simp add: responsible_def single_node_def lone_node_def no_peer_def)

lemma put_get_delete_get_witness:
  "\<exists>nd1 mem. process_packet (\<lambda>i. NUL) lone_node (head_text ''PUT'' ''/a'' ''X'' [(''Content-Length'', '' 2'')] @ ''hi'')
      (length (head_text ''PUT'' ''/a'' ''X'' [(''Content-Length'', '' 2'')] @ ''hi''))
    = Inr (int (length (head_text ''PUT'' ''/a'' ''X'' [(''Content-Length'', '' 2'')] @ ''hi'')), nd1, [Tcp_send created], mem)"
proof -
  let ?hs = "[(''Content-Length'', '' 2'')]"
  have g: "good_head ''PUT'' ''/a'' ''X'' ?hs" "good_head ''GET'' ''/a'' ''X'' []" "good_head ''DELETE'' ''/a'' ''X'' []"
    by code_simp+
  have "is_space SP" "\<not> is_space (CHR ''2'')" "is_digit (CHR ''2'')" by code_simp+
  then have b: "body_length ?hs = Some (length ''hi'')" "body_length [] = Some 0"
    by (simp_all add: body_length_def number_of_def)
  have k: "keeps_open ?hs" "keeps_open []" by (simp_all add: keeps_open_def)
  have r: "data_wf (resources lone_node)" "''/a'' \<notin> set (slot_keys (resources lone_node))"
    "free_slot (resources lone_node) \<noteq> None"
    using initial_resources_facts by (simp_all add: lone_node_def)
  have d: "decimal (Suc (Suc 0)) = ''2''" by code_simp
  have l: "length (ok_head (length ''hi'') @ ''hi'') \<le> HTTP_MAX_SIZE"
    by (simp add: ok_head_def HTTP_MAX_SIZE_def d)
  from put_get_delete_get [OF lone_node_responsible r g(1) b(1) k(1) g(2,3) b(2) k(2) l refl refl refl, of "\<lambda>i. NUL"]
  show ?thesis by blast
qed

text \<open>What the node does and replies does not depend on the Connection header, but whether the
  connection stays usable does: only without the header, or with the value \<open>close\<close> directly behind
  the colon, are the bytes of the request reported as processed; every other value, keep-alive as
  well as the usual \<open>close\<close> behind a space, ends the connection.\<close>

theorem connection_header_decides:
  assumes "good_head m u ver hs" and "body_length hs = Some len"
    and "length (head_text m u ver hs) + len \<le> n" and "answer fresh nd m u len body = Inr (nd', es)"
  shows "\<exists>mem'. process_packet fresh nd (head_text m u ver hs @ body) n =
    Inr (if get_header hs ''Connection'' = None \<or> get_header hs ''Connection'' = Some ''close''
         then int (length (head_text m u ver hs) + len) else -1, nd', es, mem')"
proof -
  have "keeps_open hs \<longleftrightarrow> get_header hs ''Connection'' = None \<or> get_header hs ''Connection'' = Some ''close''"
    by (simp add: keeps_open_def)
  then show ?thesis using process_packet_ok [OF assms] by simp
qed

lemma connection_header_decides_witness:
  "\<exists>mem'. process_packet (\<lambda>i. NUL) lone_node
      (head_text ''BREW'' ''/a'' ''X'' [(''Connection'', '' keep-alive'')]) 100
    = Inr (-1, lone_node, [Tcp_send not_supported], mem')"
proof -
  let ?hs = "[(''Connection'', '' keep-alive'')]"
  have g: "good_head ''BREW'' ''/a'' ''X'' ?hs" by code_simp
  have b: "body_length ?hs = Some 0" by (simp add: body_length_def)
  have l: "length (head_text ''BREW'' ''/a'' ''X'' ?hs) + 0 \<le> 100"
    by (simp add: head_text_def request_line_def header_line_def line_separator_def)
  have a: "answer (\<lambda>i. NUL) lone_node ''BREW'' ''/a'' 0 [] = Inr (lone_node, [Tcp_send not_supported])"
    by (simp add: answer_def lone_node_responsible send_reply_def)
  from connection_header_decides [OF g b l a] show ?thesis by simp
qed

text \<open>C37: The reply to a GET is assembled in a buffer that a value can be too large for although the
  request that stored it fitted the receive buffer of the same size: a PUT of 8152 bytes to \<open>/\<close> with a
  Content-Length header is exactly 8192 bytes long and succeeds, and the next GET writes behind the
  reply buffer.\<close>

theorem largest_put_breaks_get:
  assumes "responsible nd (pseudo_hash ''/'')" and "data_wf (resources nd)" and "data_get ''/'' (resources nd) = None"
    and "free_slot (resources nd) \<noteq> None" and "length body = 8152"
    and "put = head_text ''PUT'' ''/'' ''HTTP/1.1'' [(''Content-Length'', '' 8152'')] @ body"
    and "gt = head_text ''GET'' ''/'' ''HTTP/1.1'' []"
  shows "length put = HTTP_MAX_SIZE \<and> (\<exists>nd' mem'.
    process_packet fresh nd put (length put) = Inr (int (length put), nd', [Tcp_send created], mem')
    \<and> process_packet fresh nd' gt (length gt) = Inl Out_of_bounds)"
proof -
  let ?hs = "[(''Content-Length'', '' 8152'')]"
  have g: "good_head ''PUT'' ''/'' ''HTTP/1.1'' ?hs" "good_head ''GET'' ''/'' ''HTTP/1.1'' []" by code_simp+
  have "is_space SP" "\<not> is_space (CHR ''8'')" "is_digit (CHR ''8'')" "is_digit (CHR ''1'')" "is_digit (CHR ''5'')"
    "is_digit (CHR ''2'')" by code_simp+
  moreover have "dec_value 0 ''8152'' = 8152" by code_simp
  ultimately have b: "body_length ?hs = Some (length body)" "body_length [] = Some (length [])"
    using assms(5) by (simp_all add: body_length_def number_of_def)
  have k: "keeps_open ?hs" "keeps_open []" by (simp_all add: keeps_open_def)
  have none: "''/'' \<notin> set (slot_keys (resources nd))" using assms(3) by (simp add: data_get_None)
  obtain ts where put: "answer fresh nd ''PUT'' ''/'' (length body) body = Inr (nd\<lparr>resources := ts\<rparr>, [Tcp_send created])"
    and get: "\<forall>k. data_get k ts = (if k = ''/'' then Some (take (length body) body) else data_get k (resources nd))"
    by (rule answer_put_new [OF assms(1,2) none assms(4) order_refl])
  have "digit_char 8 = CHR ''8''" "digit_char 1 = CHR ''1''" "digit_char 5 = CHR ''5''" "digit_char 2 = CHR ''2''"
    by code_simp+
  then have "decimal 8152 = ''8152''"
    by (simp add: decimal.simps [of 8152] decimal.simps [of 815] decimal.simps [of 81] decimal.simps [of 8])
  then have "length (ok_head 8152) = 41" unfolding ok_head_def by simp
  then have "HTTP_MAX_SIZE < length (ok_head (length body) @ body)"
    unfolding length_append assms(5) by (simp add: HTTP_MAX_SIZE_def)
  then have over: "answer fresh (nd\<lparr>resources := ts\<rparr>) ''GET'' ''/'' 0 [] = Inl Out_of_bounds"
    using assms(1) get by (simp add: answer_get)
  obtain m0 where m0: "process_packet fresh nd put (length put) =
      Inr (int (length put), nd\<lparr>resources := ts\<rparr>, [Tcp_send created], m0)"
    by (rule process_packet_exact [OF g(1) b(1) k(1) assms(6)]) (use put in blast)
  have "process_packet fresh (nd\<lparr>resources := ts\<rparr>) gt (length gt) = Inl Out_of_bounds"
    using process_packet_fault [OF g(2) b(2), of "length gt" fresh _ "[]"] over assms(7) by simp
  moreover have "length (head_text ''PUT'' ''/'' ''HTTP/1.1'' ?hs) = 40"
    by (simp add: head_text_def request_line_def header_line_def line_separator_def)
  then have "length put = HTTP_MAX_SIZE"
    unfolding assms(6) length_append assms(5) by (simp add: HTTP_MAX_SIZE_def)
  ultimately show ?thesis using m0 by blast
qed

lemma largest_put_breaks_get_witness:
  "\<exists>put nd' mem'. process_packet (\<lambda>i. NUL) lone_node put HTTP_MAX_SIZE = Inr (int HTTP_MAX_SIZE, nd', [Tcp_send created], mem')
    \<and> process_packet (\<lambda>i. NUL) nd' (head_text ''GET'' ''/'' ''HTTP/1.1'' []) (length (head_text ''GET'' ''/'' ''HTTP/1.1'' []))
      = Inl Out_of_bounds"
proof -
  have r: "data_wf (resources lone_node)" "data_get ''/'' (resources lone_node) = None"
    "free_slot (resources lone_node) \<noteq> None"
    using initial_resources_facts by (simp_all add: lone_node_def data_get_None)
  have l: "length (replicate 8152 NUL) = 8152" by (rule length_replicate)
  from largest_put_breaks_get [OF lone_node_responsible r l refl refl, of "\<lambda>i. NUL"] show ?thesis
    by metis
qed

end
