(* ===== verification/Chord_Heap.thy ===== *)
theory Chord_Heap
  imports C_Heap Chord_Node
begin

section \<open>The resource table in memory (chord-node/data.c)\<close>

text \<open>
  The array of tuples once more, now with its pointers into a heap: a block for each copied key and
  each value, and the string literals of the first resources, which must not be freed.  The results of
  \<open>malloc\<close> are not tested by this file, so that a failing one is a write through a null pointer.
  \<open>fresh\<close> is what \<open>malloc\<close> leaves in a new block.
\<close>

datatype data_block =
    Key_block string
  | Value_block "char list"
  | Literal_block "char list"

record mem_tuple =
  mt_key :: addr
  mt_value :: addr
  mt_len :: nat

definition key_at :: "data_block heap \<Rightarrow> addr \<Rightarrow> string option" where
  "key_at h p = (case hp_blocks h p of Some (Key_block s) \<Rightarrow> Some s | Some (Literal_block s) \<Rightarrow> Some s | _ \<Rightarrow> None)"

text \<open>\<open>n\<close> bytes from the start of a value.\<close>

definition value_at :: "data_block heap \<Rightarrow> addr \<Rightarrow> nat \<Rightarrow> char list option" where
  "value_at h p n =
     (case (case hp_blocks h p of Some (Value_block v) \<Rightarrow> Some v | Some (Literal_block v) \<Rightarrow> Some v | _ \<Rightarrow> None) of
        None \<Rightarrow> None
      | Some v \<Rightarrow> if length v < n then None else Some (take n v))"

definition free_data :: "addr \<Rightarrow> data_block heap \<Rightarrow> data_block heap option" where
  "free_data p h = (case hp_blocks h p of Some (Literal_block s) \<Rightarrow> None | _ \<Rightarrow> heap_free p h)"

text \<open>\<open>strcpy\<close> and \<open>memcpy\<close> into a value; \<open>memory\<close> is what lies behind the source pointer.\<close>

definition value_strcpy :: "addr \<Rightarrow> char list \<Rightarrow> data_block heap \<Rightarrow> data_block heap option" where
  "value_strcpy p memory h =
     (case hp_blocks h p of
        Some (Value_block v) \<Rightarrow>
          (if NUL \<notin> set memory \<or> length v < length (c_str memory) + 1 then None
           else heap_write p (Value_block (c_str memory @ [NUL] @ drop (length (c_str memory) + 1) v)) h)
      | _ \<Rightarrow> None)"

definition value_memcpy :: "addr \<Rightarrow> char list \<Rightarrow> nat \<Rightarrow> data_block heap \<Rightarrow> data_block heap option" where
  "value_memcpy p memory n h =
     (case hp_blocks h p of
        Some (Value_block v) \<Rightarrow>
          (if length memory < n \<or> length v < n then None
           else heap_write p (Value_block (take n memory @ drop n v)) h)
      | _ \<Rightarrow> None)"

subsection \<open>The operations\<close>

fun mem_data_find :: "data_block heap \<Rightarrow> string \<Rightarrow> mem_tuple list \<Rightarrow> nat option option" where
  "mem_data_find h key [] = Some None"
| "mem_data_find h key (t # tuples) =
     (if mt_key t = 0 then map_option (map_option Suc) (mem_data_find h key tuples)
      else do {
        k \<leftarrow> key_at h (mt_key t);
        if strcmp key k = 0 then Some (Some 0) else map_option (map_option Suc) (mem_data_find h key tuples)
      })"

text \<open>\<open>get\<close>, with the bytes that its caller copies from the result.\<close>

definition mem_data_get :: "string \<Rightarrow> mem_tuple list \<Rightarrow> data_block heap \<Rightarrow> char list option option" where
  "mem_data_get key tuples h =
     do {
       r \<leftarrow> mem_data_find h key tuples;
       case r of None \<Rightarrow> Some None
       | Some i \<Rightarrow> map_option Some (value_at h (mt_value (tuples ! i)) (mt_len (tuples ! i)))
     }"

fun mem_free_slot :: "mem_tuple list \<Rightarrow> nat option" where
  "mem_free_slot [] = None"
| "mem_free_slot (t # tuples) = (if mt_key t = 0 then Some 0 else map_option Suc (mem_free_slot tuples))"

definition malloc_value :: "(nat \<Rightarrow> char) \<Rightarrow> nat \<Rightarrow> data_block heap \<Rightarrow> addr \<times> data_block heap" where
  "malloc_value fresh n h = heap_malloc (Value_block (map fresh [0..<n])) h"

definition mem_data_set ::
  "(nat \<Rightarrow> char) \<Rightarrow> string \<Rightarrow> char list \<Rightarrow> nat \<Rightarrow> mem_tuple list \<Rightarrow> data_block heap
    \<Rightarrow> (bool \<times> mem_tuple list \<times> data_block heap) option"
where
  "mem_data_set fresh key memory n tuples h =
     do {
       r \<leftarrow> mem_data_find h key tuples;
       case r of
         Some i \<Rightarrow> do {
           h1 \<leftarrow> free_data (mt_value (tuples ! i)) h;
           let (p, h2) = malloc_value fresh n h1;
           h3 \<leftarrow> value_strcpy p memory h2;
           Some (True, tuples[i := (tuples ! i)\<lparr>mt_value := p, mt_len := n\<rparr>], h3)
         }
       | None \<Rightarrow>
           (case mem_free_slot tuples of
              None \<Rightarrow> Some (False, tuples, h)
            | Some i \<Rightarrow>
                (let (k, h1) = heap_malloc (Key_block key) h
                 in if k = 0 then None
                    else (let (p, h2) = malloc_value fresh n h1
                      in do {
                        h3 \<leftarrow> value_memcpy p memory n h2;
                        Some (False, tuples[i := \<lparr>mt_key = k, mt_value = p, mt_len = n\<rparr>], h3)
                      })))
     }"

definition mem_data_delete ::
  "string \<Rightarrow> mem_tuple list \<Rightarrow> data_block heap \<Rightarrow> (bool \<times> mem_tuple list \<times> data_block heap) option"
where
  "mem_data_delete key tuples h =
     do {
       r \<leftarrow> mem_data_find h key tuples;
       case r of
         None \<Rightarrow> Some (False, tuples, h)
       | Some i \<Rightarrow> do {
           h1 \<leftarrow> free_data (mt_key (tuples ! i)) h;
           h2 \<leftarrow> free_data (mt_value (tuples ! i)) h1;
           Some (True, tuples[i := \<lparr>mt_key = 0, mt_value = 0, mt_len = 0\<rparr>], h2)
         }
     }"

text \<open>The model without memory, with the outcomes of the calls of \<open>malloc\<close>.\<close>

definition data_set_alloc ::
  "(nat \<Rightarrow> char) \<Rightarrow> string \<Rightarrow> char list \<Rightarrow> nat \<Rightarrow> tuple list \<Rightarrow> alloc \<Rightarrow> fault + (bool \<times> tuple list \<times> alloc)" where
  "data_set_alloc fresh key memory n tuples a =
     (let (ok1, a1) = malloc a; (ok2, a2) = malloc a1;
          (ok, a') = (if data_find key tuples \<noteq> None then (ok1, a1)
                      else if free_slot tuples = None then (True, a)
                      else (ok1 \<and> ok2, a2))
      in if ok then (case data_set fresh key memory n tuples of Inl f \<Rightarrow> Inl f | Inr (b, tuples') \<Rightarrow> Inr (b, tuples', a'))
         else Inl Out_of_bounds)"

subsection \<open>A table in memory\<close>

definition slot_in :: "(addr \<rightharpoonup> data_block) \<Rightarrow> mem_tuple \<Rightarrow> tuple \<Rightarrow> bool" where
  "slot_in m s t \<longleftrightarrow>
     (case tp_key t of None \<Rightarrow> mt_key s = 0
      | Some k \<Rightarrow> mt_key s \<noteq> 0 \<and> mt_value s \<noteq> 0 \<and> mt_key s \<noteq> mt_value s \<and> mt_len s = length (tp_value t)
          \<and> m (mt_key s) = Some (if tp_static t then Literal_block k else Key_block k)
          \<and> m (mt_value s) = Some (if tp_static t then Literal_block (tp_value t) else Value_block (tp_value t)))"

definition slot_addrs :: "mem_tuple \<Rightarrow> addr set" where
  "slot_addrs s = (if mt_key s = 0 then {} else {mt_key s, mt_value s})"

text \<open>The slots share no block, and every block belongs to a slot.\<close>

definition table_in :: "data_block heap \<Rightarrow> mem_tuple list \<Rightarrow> tuple list \<Rightarrow> bool" where
  "table_in h ms ts \<longleftrightarrow> heap_ok h \<and> length ms = length ts
     \<and> (\<forall>j < length ms. slot_in (hp_blocks h) (ms ! j) (ts ! j))
     \<and> (\<forall>j < length ms. \<forall>k < length ms. j \<noteq> k \<longrightarrow> slot_addrs (ms ! j) \<inter> slot_addrs (ms ! k) = {})
     \<and> dom (hp_blocks h) = (\<Union>s \<in> set ms. slot_addrs s)"

lemma slot_in_cong:
  assumes "\<And>x. x \<in> slot_addrs s \<Longrightarrow> m' x = m x" and "slot_in m s t"
  shows "slot_in m' s t"
proof (cases "tp_key t")
  case (Some k)
  with assms(2) have "mt_key s \<noteq> 0" by (simp add: slot_in_def)
  then have "m' (mt_key s) = m (mt_key s)" "m' (mt_value s) = m (mt_value s)"
    using assms(1) [of "mt_key s"] assms(1) [of "mt_value s"] by (simp_all add: slot_addrs_def)
  with Some assms(2) show ?thesis by (simp add: slot_in_def)
qed (use assms(2) in \<open>simp add: slot_in_def\<close>)

lemma slot_in_dom: "slot_in m s t \<Longrightarrow> slot_addrs s \<subseteq> dom m"
  by (cases "tp_key t") (auto simp: slot_in_def slot_addrs_def)

text \<open>One slot changes: its old blocks are gone, and its new ones are its own.\<close>

lemma change_slot:
  assumes t: "table_in h ms ts" and i: "i < length ms" and ok: "heap_ok h'" and s: "slot_in (hp_blocks h') s t'"
    and rest: "\<And>x. x \<notin> slot_addrs (ms ! i) \<Longrightarrow> x \<notin> slot_addrs s \<Longrightarrow> hp_blocks h' x = hp_blocks h x"
    and new: "\<And>x. x \<in> slot_addrs s \<Longrightarrow> x \<notin> slot_addrs (ms ! i) \<Longrightarrow> hp_blocks h x = None"
    and old: "\<And>x. x \<in> slot_addrs (ms ! i) \<Longrightarrow> x \<notin> slot_addrs s \<Longrightarrow> hp_blocks h' x = None"
  shows "table_in h' (ms[i := s]) (ts[i := t'])"
proof -
  from t have l: "length ms = length ts" and slots: "\<And>j. j < length ms \<Longrightarrow> slot_in (hp_blocks h) (ms ! j) (ts ! j)"
    and own: "\<And>j k. j < length ms \<Longrightarrow> k < length ms \<Longrightarrow> j \<noteq> k \<Longrightarrow> slot_addrs (ms ! j) \<inter> slot_addrs (ms ! k) = {}"
    and all: "dom (hp_blocks h) = (\<Union>s \<in> set ms. slot_addrs s)" by (simp_all add: table_in_def)
  have apart: "slot_addrs (ms ! j) \<inter> slot_addrs s = {}" if j: "j < length ms" "j \<noteq> i" for j
  proof -
    have "x \<notin> slot_addrs s" if x: "x \<in> slot_addrs (ms ! j)" for x
    proof
      assume "x \<in> slot_addrs s"
      moreover have "x \<notin> slot_addrs (ms ! i)" using own [OF j(1) i j(2)] x by blast
      moreover have "hp_blocks h x \<noteq> None" using slot_in_dom [OF slots [OF j(1)]] x by blast
      ultimately show False using new [of x] by simp
    qed
    then show ?thesis by blast
  qed
  have keep: "slot_in (hp_blocks h') (ms ! j) (ts ! j)" if j: "j < length ms" "j \<noteq> i" for j
  proof (rule slot_in_cong [OF _ slots [OF j(1)]], rule rest)
    fix x assume "x \<in> slot_addrs (ms ! j)"
    then show "x \<notin> slot_addrs (ms ! i)" "x \<notin> slot_addrs s" using own [OF j(1) i j(2)] apart [OF j] by blast+
  qed
  have "x \<in> dom (hp_blocks h') \<longleftrightarrow> x \<in> (\<Union>s \<in> set (ms[i := s]). slot_addrs s)" for x
  proof -
    have u: "(x \<in> (\<Union>s \<in> set (ms[i := s]). slot_addrs s)) \<longleftrightarrow>
        x \<in> slot_addrs s \<or> (\<exists>j < length ms. j \<noteq> i \<and> x \<in> slot_addrs (ms ! j))"
      using i by (auto simp: set_conv_nth nth_list_update)
    have v: "x \<in> dom (hp_blocks h) \<longleftrightarrow> (\<exists>j < length ms. x \<in> slot_addrs (ms ! j))"
      unfolding all by (auto simp: set_conv_nth)
    consider "x \<in> slot_addrs s" | "x \<notin> slot_addrs s" "x \<in> slot_addrs (ms ! i)" | "x \<notin> slot_addrs s" "x \<notin> slot_addrs (ms ! i)"
      by blast
    then show ?thesis
    proof cases
      case 1
      then show ?thesis using slot_in_dom [OF s] u by blast
    next
      case 2
      then have "\<not> (\<exists>j < length ms. j \<noteq> i \<and> x \<in> slot_addrs (ms ! j))" using own i by blast
      with 2 old [OF 2(2,1)] u show ?thesis by (auto simp: domIff)
    next
      case 3
      then have "x \<in> dom (hp_blocks h') \<longleftrightarrow> x \<in> dom (hp_blocks h)" using rest by (auto simp: domIff)
      with 3 u v show ?thesis by metis
    qed
  qed
  then have "dom (hp_blocks h') = (\<Union>s \<in> set (ms[i := s]). slot_addrs s)" by blast
  moreover have "slot_in (hp_blocks h') (ms[i := s] ! j) (ts[i := t'] ! j)" if "j < length ms" for j
    using that keep s l by (cases "j = i") (simp_all add: nth_list_update)
  moreover have "slot_addrs (ms[i := s] ! j) \<inter> slot_addrs (ms[i := s] ! k) = {}" if "j < length ms" "k < length ms" "j \<noteq> k" for j k
    using that own [of j k] apart [of j] apart [of k] by (cases "j = i"; cases "k = i") (simp_all add: Int_commute)
  ultimately show ?thesis using ok l by (simp add: table_in_def)
qed

subsection \<open>Each operation in memory\<close>

lemma table_in_slots: "table_in h ms ts \<Longrightarrow> list_all2 (slot_in (hp_blocks h)) ms ts"
  by (simp add: table_in_def list_all2_conv_all_nth)

lemma find_mem: "list_all2 (slot_in (hp_blocks h)) ms ts \<Longrightarrow> mem_data_find h key ms = Some (data_find key ts)"
proof (induction rule: list_all2_induct)
  case (Cons s ms t ts)
  then show ?case by (cases "tp_key t") (auto simp: slot_in_def key_at_def)
qed simp

lemma free_slot_mem: "list_all2 (slot_in m) ms ts \<Longrightarrow> mem_free_slot ms = free_slot ts"
proof (induction rule: list_all2_induct)
  case (Cons s ms t ts)
  then show ?case by (cases "tp_key t") (auto simp: slot_in_def)
qed simp

lemma data_get_mem:
  assumes "table_in h ms ts"
  shows "mem_data_get key ms h = Some (data_get key ts)"
proof (cases "data_find key ts")
  case None
  then show ?thesis using find_mem [OF table_in_slots [OF assms]] by (simp add: mem_data_get_def data_get_def)
next
  case (Some i)
  have i: "i < length ts" "tp_key (ts ! i) = Some key" using data_find_Some [OF Some] by simp_all
  then have "slot_in (hp_blocks h) (ms ! i) (ts ! i)" using assms by (simp add: table_in_def)
  with i(2) have "value_at h (mt_value (ms ! i)) (mt_len (ms ! i)) = Some (tp_value (ts ! i))"
    by (cases "tp_static (ts ! i)") (simp_all add: slot_in_def value_at_def)
  with Some show ?thesis using find_mem [OF table_in_slots [OF assms]] by (simp add: mem_data_get_def data_get_def)
qed

definition follows :: "('r \<times> mem_tuple list \<times> data_block heap) option \<Rightarrow> fault + ('r \<times> tuple list \<times> alloc) \<Rightarrow> bool" where
  "follows run res \<longleftrightarrow> (case res of Inl f \<Rightarrow> run = None
     | Inr (r, ts', a') \<Rightarrow> \<exists>ms' h'. run = Some (r, ms', h') \<and> table_in h' ms' ts' \<and> hp_alloc h' = a')"

lemma follows_simps [simp]:
  "follows run (Inl f) \<longleftrightarrow> run = None"
  "follows (Some (r', ms', h')) (Inr (r, ts', a')) \<longleftrightarrow> r' = r \<and> table_in h' ms' ts' \<and> hp_alloc h' = a'"
  by (auto simp: follows_def)

text \<open>A found slot: its two blocks, and what freeing them does.\<close>

lemma found_slot:
  assumes "table_in h ms ts" and "data_find key ts = Some i"
  obtains k v where "i < length ms" "ms ! i = \<lparr>mt_key = k, mt_value = v, mt_len = length (tp_value (ts ! i))\<rparr>"
    "tp_key (ts ! i) = Some key" "k \<noteq> 0" "v \<noteq> 0" "k \<noteq> v"
    "hp_blocks h k = Some (if tp_static (ts ! i) then Literal_block key else Key_block key)"
    "hp_blocks h v = Some (if tp_static (ts ! i) then Literal_block (tp_value (ts ! i)) else Value_block (tp_value (ts ! i)))"
proof -
  have i: "i < length ms" "tp_key (ts ! i) = Some key" using data_find_Some [OF assms(2)] assms(1) by (simp_all add: table_in_def)
  with assms(1) have s: "slot_in (hp_blocks h) (ms ! i) (ts ! i)" by (simp add: table_in_def)
  obtain k v n where "ms ! i = \<lparr>mt_key = k, mt_value = v, mt_len = n\<rparr>" by (cases "ms ! i")
  with s i show thesis by (intro that [of k v]) (simp_all add: slot_in_def)
qed

lemma data_delete_mem:
  assumes t: "table_in h ms ts"
  shows "follows (mem_data_delete key ms h)
    (case data_delete key ts of Inl f \<Rightarrow> Inl f | Inr (b, ts') \<Rightarrow> Inr (b, ts', hp_alloc h))"
proof (cases "data_find key ts")
  case None
  then show ?thesis using find_mem [OF table_in_slots [OF t], of key] t by (simp add: mem_data_delete_def data_delete_def)
next
  case (Some i)
  from t Some obtain k v where s: "i < length ms" "ms ! i = \<lparr>mt_key = k, mt_value = v, mt_len = length (tp_value (ts ! i))\<rparr>"
    "k \<noteq> 0" "v \<noteq> 0" "k \<noteq> v" "hp_blocks h k = Some (if tp_static (ts ! i) then Literal_block key else Key_block key)"
    "hp_blocks h v = Some (if tp_static (ts ! i) then Literal_block (tp_value (ts ! i)) else Value_block (tp_value (ts ! i)))"
    by (rule found_slot)
  show ?thesis
  proof (cases "tp_static (ts ! i)")
    case True
    then show ?thesis using s Some find_mem [OF table_in_slots [OF t], of key]
      by (simp add: mem_data_delete_def data_delete_def free_data_def)
  next
    case False
    let ?h1 = "h\<lparr>hp_blocks := (hp_blocks h)(k := None)\<rparr>"
    let ?h2 = "?h1\<lparr>hp_blocks := (hp_blocks ?h1)(v := None)\<rparr>"
    have ok: "heap_ok h" using t by (simp add: table_in_def)
    have "heap_ok ?h1" by (rule heap_ok_update [OF ok]) auto
    then have ok2: "heap_ok ?h2" by (rule heap_ok_update) auto
    have "free_data k h = Some ?h1" "free_data v ?h1 = Some ?h2"
      using s(3-7) False by (simp_all add: free_data_def heap_free_def)
    then have run: "mem_data_delete key ms h = Some (True, ms[i := \<lparr>mt_key = 0, mt_value = 0, mt_len = 0\<rparr>], ?h2)"
      using s(1,2) Some find_mem [OF table_in_slots [OF t], of key] by (simp add: mem_data_delete_def)
    have "table_in ?h2 (ms[i := \<lparr>mt_key = 0, mt_value = 0, mt_len = 0\<rparr>]) (ts[i := (ts ! i)\<lparr>tp_key := None, tp_value := []\<rparr>])"
      by (rule change_slot [OF t s(1) ok2]) (use s(2,3) in \<open>auto simp: slot_in_def slot_addrs_def\<close>)
    with run Some False show ?thesis by (simp add: data_delete_def)
  qed
qed

text \<open>A fresh block for the value, as large as it is said to be.\<close>

lemma malloc_value_cases:
  assumes "malloc_value fresh n h = (p, h')" and "heap_ok h"
  obtains (fail) a where "malloc (hp_alloc h) = (False, a)" "p = 0" "h' = h\<lparr>hp_alloc := a\<rparr>" "hp_blocks h' 0 = None"
  | (new) a where "malloc (hp_alloc h) = (True, a)" "p \<noteq> 0" "hp_blocks h p = None" "hp_top h \<le> p" "heap_ok h'" "hp_alloc h' = a"
      "hp_blocks h' = (hp_blocks h)(p \<mapsto> Value_block (map fresh [0..<n]))"
  using assms unfolding malloc_value_def
proof (cases rule: heap_malloc_cases)
  case (fail a)
  then show thesis using assms(2) by (intro that(1)) simp_all
next
  case (new a)
  then show thesis by (intro that(2)) simp_all
qed

lemma overwrite_mem:
  assumes t: "table_in h ms ts" and f: "data_find key ts = Some i"
  shows "follows (mem_data_set fresh key memory n ms h) (data_set_alloc fresh key memory n ts (hp_alloc h))"
proof -
  from t f obtain k v where s: "i < length ms" "ms ! i = \<lparr>mt_key = k, mt_value = v, mt_len = length (tp_value (ts ! i))\<rparr>"
    "tp_key (ts ! i) = Some key" "k \<noteq> 0" "v \<noteq> 0" "k \<noteq> v"
    "hp_blocks h k = Some (if tp_static (ts ! i) then Literal_block key else Key_block key)"
    "hp_blocks h v = Some (if tp_static (ts ! i) then Literal_block (tp_value (ts ! i)) else Value_block (tp_value (ts ! i)))"
    by (rule found_slot)
  note found = find_mem [OF table_in_slots [OF t], of key] f
  show ?thesis
  proof (cases "tp_static (ts ! i)")
    case True
    then show ?thesis using s found
      by (simp add: mem_data_set_def data_set_alloc_def data_set_def free_data_def Let_def split: prod.splits)
  next
    case False
    let ?h1 = "h\<lparr>hp_blocks := (hp_blocks h)(v := None)\<rparr>"
    have "heap_ok h" using t by (simp add: table_in_def)
    then have ok1: "heap_ok ?h1" by (rule heap_ok_update) auto
    have free: "free_data v h = Some ?h1" using s(5,8) False by (simp add: free_data_def heap_free_def)
    obtain p h2 where m: "malloc_value fresh n ?h1 = (p, h2)" by fastforce
    from m ok1 show ?thesis
    proof (cases rule: malloc_value_cases)
      case (fail a)
      then have "value_strcpy p memory h2 = None" by (simp add: value_strcpy_def)
      with fail(1) m free s(2) found show ?thesis
        by (simp add: mem_data_set_def data_set_alloc_def split: prod.splits)
    next
      case (new a)
      let ?c = "length (c_str memory) + 1"
      let ?v = "c_str memory @ [NUL] @ drop ?c (map fresh [0..<n])"
      have block: "hp_blocks h2 p = Some (Value_block (map fresh [0..<n]))" using new(7) by simp
      show ?thesis
      proof (cases "NUL \<notin> set memory \<or> n < ?c")
        case True
        with block have "value_strcpy p memory h2 = None" by (auto simp: value_strcpy_def)
        with True False m free s(2) found new(1) show ?thesis
          by (auto simp: mem_data_set_def data_set_alloc_def data_set_def Let_def split: prod.splits)
      next
        case fits: False
        let ?h3 = "h2\<lparr>hp_blocks := (hp_blocks h2)(p \<mapsto> Value_block ?v)\<rparr>"
        let ?s = "\<lparr>mt_key = k, mt_value = p, mt_len = n\<rparr>"
        have "value_strcpy p memory h2 = Some ?h3" using block fits by (simp add: value_strcpy_def heap_write_def)
        then have run: "mem_data_set fresh key memory n ms h = Some (True, ms[i := ?s], ?h3)"
          using m free s(2) found by (simp add: mem_data_set_def)
        have v: "?v = c_str memory @ [NUL] @ map fresh [?c ..< n]" by (simp add: drop_map)
        have res: "data_set_alloc fresh key memory n ts (hp_alloc h)
            = Inr (True, ts[i := (ts ! i)\<lparr>tp_value := ?v\<rparr>], a)"
          using f False fits new(1) unfolding v by (simp add: data_set_alloc_def data_set_def split: prod.splits)
        have ok3: "heap_ok ?h3" by (rule heap_ok_update [OF new(5)]) (use block in auto)
        have p: "p \<noteq> k" "p \<noteq> v" "hp_blocks h p = None"
        proof -
          have "v < hp_top h" using heap_okD [OF \<open>heap_ok h\<close> s(8)] by simp
          with new(4) show "p \<noteq> v" by auto
          with new(3) show "hp_blocks h p = None" by simp
          with s(7) show "p \<noteq> k" by auto
        qed
        have "length ?v = n" using fits by simp
        then have "slot_in (hp_blocks ?h3) ?s ((ts ! i)\<lparr>tp_value := ?v\<rparr>)"
          using s(3,4,6,7) p(1) new(2,7) False by (simp add: slot_in_def)
        moreover have "hp_blocks ?h3 x = hp_blocks h x" if "x \<notin> {k, v}" "x \<notin> {k, p}" for x using that new(7) by simp
        moreover have "slot_addrs (ms ! i) = {k, v}" "slot_addrs ?s = {k, p}" using s(2,4) by (simp_all add: slot_addrs_def)
        moreover have "hp_blocks ?h3 v = None" using p(2) new(7) by simp
        ultimately have "table_in ?h3 (ms[i := ?s]) (ts[i := (ts ! i)\<lparr>tp_value := ?v\<rparr>])"
          using p(3) by (intro change_slot [OF t s(1) ok3]) auto
        with run res new(6) show ?thesis by simp
      qed
    qed
  qed
qed

lemma data_create_mem:
  assumes t: "table_in h ms ts" and f: "data_find key ts = None"
  shows "follows (mem_data_set fresh key memory n ms h) (data_set_alloc fresh key memory n ts (hp_alloc h))"
proof (cases "free_slot ts")
  case None
  then show ?thesis using f t find_mem [OF table_in_slots [OF t], of key] free_slot_mem [OF table_in_slots [OF t]]
    by (simp add: mem_data_set_def data_set_alloc_def data_set_def split: prod.splits)
next
  case (Some i)
  note found = find_mem [OF table_in_slots [OF t], of key] f free_slot_mem [OF table_in_slots [OF t]] Some
  have ok: "heap_ok h" using t by (simp add: table_in_def)
  have i: "i < length ms" "tp_key (ts ! i) = None" using free_slot_Some [OF Some] t by (simp_all add: table_in_def)
  with t have "slot_in (hp_blocks h) (ms ! i) (ts ! i)" by (simp add: table_in_def)
  with i(2) have none: "slot_addrs (ms ! i) = {}" by (simp add: slot_in_def slot_addrs_def)
  obtain k h1 where m1: "heap_malloc (Key_block key) h = (k, h1)" by fastforce
  from m1 ok show ?thesis
  proof (cases rule: heap_malloc_cases)
    case (fail a)
    with m1 found show ?thesis by (simp add: mem_data_set_def data_set_alloc_def split: prod.splits)
  next
    case k: (new a)
    obtain p h2 where m2: "malloc_value fresh n h1 = (p, h2)" by fastforce
    from m2 k(6) show ?thesis
    proof (cases rule: malloc_value_cases)
      case (fail a2)
      then have "value_memcpy p memory n h2 = None" by (simp add: value_memcpy_def)
      with fail(1) k m1 m2 found show ?thesis by (simp add: mem_data_set_def data_set_alloc_def split: prod.splits)
    next
      case p: (new a2)
      have block: "hp_blocks h2 p = Some (Value_block (map fresh [0..<n]))" using p(7) by simp
      show ?thesis
      proof (cases "length memory < n")
        case True
        with block have "value_memcpy p memory n h2 = None" by (simp add: value_memcpy_def)
        with True k p(1) m1 m2 found show ?thesis
          by (simp add: mem_data_set_def data_set_alloc_def data_set_def split: prod.splits)
      next
        case fits: False
        let ?h3 = "h2\<lparr>hp_blocks := (hp_blocks h2)(p \<mapsto> Value_block (take n memory))\<rparr>"
        let ?s = "\<lparr>mt_key = k, mt_value = p, mt_len = n\<rparr>"
        let ?t = "\<lparr>tp_key = Some key, tp_value = take n memory, tp_static = False\<rparr>"
        have "value_memcpy p memory n h2 = Some ?h3" using block fits by (simp add: value_memcpy_def heap_write_def)
        then have run: "mem_data_set fresh key memory n ms h = Some (False, ms[i := ?s], ?h3)"
          using m1 m2 k(2,3) found by (simp add: mem_data_set_def)
        have res: "data_set_alloc fresh key memory n ts (hp_alloc h) = Inr (False, ts[i := ?t], a2)"
          using found fits k(1,5) p(1) by (simp add: data_set_alloc_def data_set_def split: prod.splits)
        have ok3: "heap_ok ?h3" by (rule heap_ok_update [OF p(5)]) (use block in auto)
        have k': "k \<noteq> 0" "hp_blocks h k = None" "hp_blocks h1 = (hp_blocks h)(k \<mapsto> Key_block key)" using k(2-5) by simp_all
        with p(3) have ne: "p \<noteq> k" "hp_blocks h p = None" by (auto split: if_splits)
        have "slot_in (hp_blocks ?h3) ?s ?t" using k' ne p(2,7) fits by (simp add: slot_in_def)
        moreover have "hp_blocks ?h3 x = hp_blocks h x" if "x \<notin> {k, p}" for x using that p(7) k'(3) by simp
        moreover have "slot_addrs ?s = {k, p}" using k'(1) by (simp add: slot_addrs_def)
        ultimately have "table_in ?h3 (ms[i := ?s]) (ts[i := ?t])"
          using k'(2) ne(2) none by (intro change_slot [OF t i(1) ok3]) auto
        with run res p(6) show ?thesis by simp
      qed
    qed
  qed
qed

lemma data_set_mem:
  "table_in h ms ts \<Longrightarrow>
    follows (mem_data_set fresh key memory n ms h) (data_set_alloc fresh key memory n ts (hp_alloc h))"
  by (cases "data_find key ts") (simp_all add: data_create_mem overwrite_mem)

subsection \<open>Sequences of calls, from the first resources on\<close>

datatype table_call = Get_value string | Set_value string "char list" nat | Delete_value string

datatype table_result = Value "char list option" | Flag bool

fun data_call :: "(nat \<Rightarrow> char) \<Rightarrow> table_call \<Rightarrow> tuple list \<Rightarrow> alloc \<Rightarrow> fault + (table_result \<times> tuple list \<times> alloc)" where
  "data_call fresh (Get_value key) ts a = Inr (Value (data_get key ts), ts, a)"
| "data_call fresh (Set_value key memory n) ts a =
     (case data_set_alloc fresh key memory n ts a of Inl f \<Rightarrow> Inl f | Inr (b, ts', a') \<Rightarrow> Inr (Flag b, ts', a'))"
| "data_call fresh (Delete_value key) ts a =
     (case data_delete key ts of Inl f \<Rightarrow> Inl f | Inr (b, ts') \<Rightarrow> Inr (Flag b, ts', a))"

fun data_calls :: "(nat \<Rightarrow> char) \<Rightarrow> table_call list \<Rightarrow> tuple list \<Rightarrow> alloc \<Rightarrow> fault + (table_result list \<times> tuple list \<times> alloc)" where
  "data_calls fresh [] ts a = Inr ([], ts, a)"
| "data_calls fresh (c # cs) ts a =
     (case data_call fresh c ts a of Inl f \<Rightarrow> Inl f
      | Inr (r, ts1, a1) \<Rightarrow>
          (case data_calls fresh cs ts1 a1 of Inl f \<Rightarrow> Inl f | Inr (rs, ts2, a2) \<Rightarrow> Inr (r # rs, ts2, a2)))"

fun mem_data_call ::
  "(nat \<Rightarrow> char) \<Rightarrow> table_call \<Rightarrow> mem_tuple list \<Rightarrow> data_block heap \<Rightarrow> (table_result \<times> mem_tuple list \<times> data_block heap) option"
where
  "mem_data_call fresh (Get_value key) ms h = do { v \<leftarrow> mem_data_get key ms h; Some (Value v, ms, h) }"
| "mem_data_call fresh (Set_value key memory n) ms h =
     do { (b, ms', h') \<leftarrow> mem_data_set fresh key memory n ms h; Some (Flag b, ms', h') }"
| "mem_data_call fresh (Delete_value key) ms h =
     do { (b, ms', h') \<leftarrow> mem_data_delete key ms h; Some (Flag b, ms', h') }"

fun mem_data_calls ::
  "(nat \<Rightarrow> char) \<Rightarrow> table_call list \<Rightarrow> mem_tuple list \<Rightarrow> data_block heap \<Rightarrow> (table_result list \<times> mem_tuple list \<times> data_block heap) option"
where
  "mem_data_calls fresh [] ms h = Some ([], ms, h)"
| "mem_data_calls fresh (c # cs) ms h =
     do {
       (r, ms1, h1) \<leftarrow> mem_data_call fresh c ms h;
       (rs, ms2, h2) \<leftarrow> mem_data_calls fresh cs ms1 h1;
       Some (r # rs, ms2, h2)
     }"

text \<open>The array that the program starts with, and its string literals.\<close>

definition initial_table :: "mem_tuple list" where
  "initial_table =
     [\<lparr>mt_key = 1, mt_value = 2, mt_len = 3\<rparr>, \<lparr>mt_key = 3, mt_value = 4, mt_len = 3\<rparr>, \<lparr>mt_key = 5, mt_value = 6, mt_len = 3\<rparr>]
     @ replicate (MAX_RESOURCES - 3) \<lparr>mt_key = 0, mt_value = 0, mt_len = 0\<rparr>"

definition initial_heap :: "alloc \<Rightarrow> data_block heap" where
  "initial_heap a =
     \<lparr>hp_blocks = [1 \<mapsto> Literal_block ''/static/foo'', 2 \<mapsto> Literal_block ''Foo'', 3 \<mapsto> Literal_block ''/static/bar'',
        4 \<mapsto> Literal_block ''Bar'', 5 \<mapsto> Literal_block ''/static/baz'', 6 \<mapsto> Literal_block ''Baz''],
      hp_top = 7, hp_alloc = a\<rparr>"

lemma append_slots:
  assumes "table_in h ms ts" and "slot_addrs s = {}" and "tp_key t = None"
  shows "table_in h (ms @ [s]) (ts @ [t])"
proof -
  have "mt_key s = 0" using assms(2) by (simp add: slot_addrs_def split: if_splits)
  with assms(3) have "slot_in (hp_blocks h) s t" by (simp add: slot_in_def)
  with assms show ?thesis by (auto simp: table_in_def nth_append less_Suc_eq)
qed

lemma free_slots: "table_in h ms ts \<Longrightarrow> table_in h (ms @ replicate n \<lparr>mt_key = 0, mt_value = 0, mt_len = 0\<rparr>) (ts @ replicate n free_tuple)"
proof (induction n)
  case (Suc n)
  from append_slots [OF Suc.IH [OF Suc.prems], of "\<lparr>mt_key = 0, mt_value = 0, mt_len = 0\<rparr>" free_tuple]
  show ?case by (simp add: slot_addrs_def free_tuple_def replicate_append_same)
qed simp

lemma all_less_3: "(\<forall>j < (3 :: nat). P j) \<longleftrightarrow> P 0 \<and> P 1 \<and> P 2"
  by (auto simp: less_Suc_eq numeral_3_eq_3 numeral_2_eq_2)

lemma initial_in: "table_in (initial_heap a) initial_table initial_resources"
  unfolding initial_table_def initial_resources_def
proof (rule free_slots)
  let ?ms = "[\<lparr>mt_key = 1, mt_value = 2, mt_len = 3\<rparr>, \<lparr>mt_key = 3, mt_value = 4, mt_len = 3\<rparr>, \<lparr>mt_key = 5, mt_value = 6, mt_len = 3\<rparr>]"
  let ?ts = "[\<lparr>tp_key = Some ''/static/foo'', tp_value = ''Foo'', tp_static = True\<rparr>,
    \<lparr>tp_key = Some ''/static/bar'', tp_value = ''Bar'', tp_static = True\<rparr>,
    \<lparr>tp_key = Some ''/static/baz'', tp_value = ''Baz'', tp_static = True\<rparr>]"
  have l: "length ?ms = 3" by simp
  have "heap_ok (initial_heap a)" by (auto simp: heap_ok_def initial_heap_def)
  moreover have "\<forall>j < 3. slot_in (hp_blocks (initial_heap a)) (?ms ! j) (?ts ! j)"
    unfolding all_less_3 by (simp add: slot_in_def initial_heap_def)
  moreover have "\<forall>j < 3. \<forall>k < 3. j \<noteq> k \<longrightarrow> slot_addrs (?ms ! j) \<inter> slot_addrs (?ms ! k) = {}"
    unfolding all_less_3 by (simp add: slot_addrs_def)
  moreover have "dom (hp_blocks (initial_heap a)) = (\<Union>s \<in> set ?ms. slot_addrs s)"
    by (auto simp: slot_addrs_def initial_heap_def)
  ultimately show "table_in (initial_heap a) ?ms ?ts" unfolding table_in_def l by simp
qed

lemma data_call_mem:
  assumes t: "table_in h ms ts"
  shows "follows (mem_data_call fresh c ms h) (data_call fresh c ts (hp_alloc h))"
proof (cases c)
  case (Get_value key)
  then show ?thesis using data_get_mem [OF t, of key] t by simp
next
  case (Set_value key memory n)
  then show ?thesis using data_set_mem [OF t, of fresh key memory n]
    by (auto simp: follows_def split: sum.splits)
next
  case (Delete_value key)
  then show ?thesis using data_delete_mem [OF t, of key] by (auto simp: follows_def split: sum.splits)
qed

lemma data_calls_mem:
  "table_in h ms ts \<Longrightarrow> follows (mem_data_calls fresh cs ms h) (data_calls fresh cs ts (hp_alloc h))"
proof (induction cs arbitrary: h ms ts)
  case (Cons c cs)
  note one = data_call_mem [OF Cons.prems, of fresh c]
  show ?case
  proof (cases "data_call fresh c ts (hp_alloc h)")
    case (Inl f)
    with one show ?thesis by simp
  next
    case (Inr x)
    obtain r ts1 a1 where x: "x = (r, ts1, a1)" by (cases x)
    with one Inr obtain ms1 h1 where
      "mem_data_call fresh c ms h = Some (r, ms1, h1)" "table_in h1 ms1 ts1" "hp_alloc h1 = a1" by (auto simp: follows_def)
    with Cons.IH [of h1 ms1 ts1] Inr x show ?thesis by (auto simp: follows_def split: sum.splits)
  qed
qed simp

text \<open>How many blocks a table has.\<close>

lemma table_blocks:
  assumes "table_in h ms ts"
  shows "card (dom (hp_blocks h)) = 2 * length (slot_keys ts)"
proof -
  have l: "length ms = length ts" and s: "\<And>j. j < length ts \<Longrightarrow> slot_in (hp_blocks h) (ms ! j) (ts ! j)"
    and d: "\<forall>j \<in> {..<length ts}. \<forall>k \<in> {..<length ts}. j \<noteq> k \<longrightarrow> slot_addrs (ms ! j) \<inter> slot_addrs (ms ! k) = {}"
    and all: "dom (hp_blocks h) = (\<Union>j \<in> {..<length ts}. slot_addrs (ms ! j))"
    using assms by (auto simp: table_in_def set_conv_nth)
  have fin: "\<forall>j \<in> {..<length ts}. finite (slot_addrs (ms ! j))" by (simp add: slot_addrs_def)
  have one: "card (slot_addrs (ms ! j)) = (if tp_key (ts ! j) = None then 0 else 2)" if "j \<in> {..<length ts}" for j
    using s [of j] that by (cases "tp_key (ts ! j)") (auto simp: slot_in_def slot_addrs_def)
  have "card (dom (hp_blocks h)) = (\<Sum>j < length ts. if tp_key (ts ! j) = None then 0 else 2)"
    unfolding all using card_UN_disjoint [OF _ fin d] one by simp
  also have "\<dots> = sum_list (map (\<lambda>t. if tp_key t = None then 0 else 2) ts)"
    by (simp add: sum_list_sum_nth lessThan_atLeast0)
  also have "\<dots> = 2 * length (slot_keys ts)" by (induction ts) auto
  finally show ?thesis .
qed

text \<open>C24: The resource table of the node in memory: any sequence of get, set and delete, from the resources the program
  starts with, for any keys and values and whichever allocations fail, does in memory what it does on
  the table of the model.  Undefined behaviour are exactly the frees of string literals, the copies
  that do not fit (see \<open>overwrite_outcomes\<close>), and the null pointer of an allocation that failed, which
  the code does not test; else the results agree, every block is used as what it was allocated
  as, and the live blocks are exactly a key and a value for each resource: nothing leaks.\<close>

theorem resource_calls_in_memory:
  "case data_calls fresh cs initial_resources a of
     Inl f \<Rightarrow> mem_data_calls fresh cs initial_table (initial_heap a) = None
   | Inr (rs, ts', a') \<Rightarrow> \<exists>ms' h'. mem_data_calls fresh cs initial_table (initial_heap a) = Some (rs, ms', h')
       \<and> hp_alloc h' = a' \<and> card (dom (hp_blocks h')) = 2 * length (slot_keys ts')"
proof -
  have "hp_alloc (initial_heap a) = a" by (simp add: initial_heap_def)
  with data_calls_mem [OF initial_in, of fresh cs a] table_blocks show ?thesis
    by (fastforce simp: follows_def split: sum.splits)
qed

lemma resource_calls_in_memory_witness:
  "mem_data_calls (\<lambda>i. NUL) [Set_value ''/a'' ''hi'' 2] initial_table (initial_heap [True, False]) = None
   \<and> (\<exists>ms h. mem_data_calls (\<lambda>i. NUL) [Set_value ''/a'' ''hi'' 2, Get_value ''/a'', Delete_value ''/a'', Get_value ''/a'']
       initial_table (initial_heap []) = Some ([Flag False, Value (Some ''hi''), Flag True, Value None], ms, h)
       \<and> card (dom (hp_blocks h)) = 6)"
proof -
  let ?cs = "[Set_value ''/a'' ''hi'' 2, Get_value ''/a'', Delete_value ''/a'', Get_value ''/a'']"
  have keys: "slot_keys (replicate n free_tuple) = []" for n by (induction n) (simp_all add: free_tuple_def)
  have "MAX_RESOURCES - 3 = Suc 96" by (simp add: MAX_RESOURCES_def)
  then have "initial_resources = [\<lparr>tp_key = Some ''/static/foo'', tp_value = ''Foo'', tp_static = True\<rparr>,
      \<lparr>tp_key = Some ''/static/bar'', tp_value = ''Bar'', tp_static = True\<rparr>,
      \<lparr>tp_key = Some ''/static/baz'', tp_value = ''Baz'', tp_static = True\<rparr>] @ free_tuple # replicate 96 free_tuple"
    unfolding initial_resources_def by (simp only: replicate_Suc)
  then obtain R where R: "initial_resources = [\<lparr>tp_key = Some ''/static/foo'', tp_value = ''Foo'', tp_static = True\<rparr>,
      \<lparr>tp_key = Some ''/static/bar'', tp_value = ''Bar'', tp_static = True\<rparr>,
      \<lparr>tp_key = Some ''/static/baz'', tp_value = ''Baz'', tp_static = True\<rparr>, free_tuple] @ R" "slot_keys R = []"
    using keys [of 96] by simp
  then have f: "data_find ''/a'' R = None" by (simp add: data_find_None)
  then have g: "data_get ''/a'' R = None" by (simp add: data_get_def)
  have "data_calls (\<lambda>i. NUL) [Set_value ''/a'' ''hi'' 2] initial_resources [True, False] = Inl Out_of_bounds"
    unfolding R(1) by (simp add: data_set_alloc_def free_tuple_def f)
  moreover obtain ts where "data_calls (\<lambda>i. NUL) ?cs initial_resources []
      = Inr ([Flag False, Value (Some ''hi''), Flag True, Value None], ts, [])" "length (slot_keys ts) = 3"
    unfolding R(1) by (simp add: data_set_alloc_def data_set_def data_delete_def free_tuple_def f g R(2))
  ultimately show ?thesis
    using resource_calls_in_memory [of "\<lambda>i. NUL" "[Set_value ''/a'' ''hi'' 2]" "[True, False]"]
      resource_calls_in_memory [of "\<lambda>i. NUL" ?cs "[]"] by auto
qed

end
