(* ===== verification/Chord_Server.thy ===== *)
theory Chord_Server
  imports Chord_Node
begin

section \<open>Connections and the event loop of a node (chord-node/webserver.c)\<close>

text \<open>
  One TCP connection is served at a time, out of a buffer of \<open>HTTP_MAX_SIZE\<close> bytes whose first
  \<open>cs_end\<close> bytes are unprocessed data.  What \<open>recv\<close> brings is the argument of a step: \<open>None\<close> for an
  error, else the bytes that have arrived, of which it takes as many as there is room for.
\<close>

record connection_state =
  cs_buffer :: "char list"
  cs_end :: nat

definition connection_setup :: connection_state where
  "connection_setup = \<lparr>cs_buffer = replicate HTTP_MAX_SIZE NUL, cs_end = 0\<rparr>"

text \<open>\<open>memmove\<close> of the kept bytes to the front, then \<open>memset\<close> of as many as were discarded.\<close>

definition buffer_discard :: "char list \<Rightarrow> nat \<Rightarrow> nat \<Rightarrow> char list \<times> nat" where
  "buffer_discard buffer discard keep =
     (let moved = take keep (drop discard buffer) @ drop keep buffer
      in (take keep moved @ replicate discard NUL @ drop (keep + discard) moved, keep))"

lemma process_packet_consumes:
  "process_packet fresh nd mem n = Inr (r, nd', es, mem') \<Longrightarrow> 0 < r \<Longrightarrow> 0 < nat r \<and> nat r \<le> n"
  using parse_request_cases [of mem n fresh_request]
  by (fastforce simp: process_packet_def Let_def split: sum.splits prod.splits if_splits)

text \<open>The loop over the requests in the window from \<open>ws\<close> to \<open>we\<close>; its last result and the rest.\<close>

function serve_window ::
  "(nat \<Rightarrow> char) \<Rightarrow> node \<Rightarrow> char list \<Rightarrow> nat \<Rightarrow> nat
    \<Rightarrow> fault + (int \<times> node \<times> effect list \<times> char list \<times> nat)"
where
  "serve_window fresh nd buffer ws we =
     (case process_packet fresh nd (drop ws buffer) (we - ws) of Inl f \<Rightarrow> Inl f
      | Inr (r, nd', es, mem') \<Rightarrow>
         (if 0 < r then
            (case serve_window fresh nd' (take ws buffer @ mem') (ws + nat r) we of Inl f \<Rightarrow> Inl f
             | Inr (r', nd'', es', rest) \<Rightarrow> Inr (r', nd'', es @ es', rest))
          else Inr (r, nd', es, take ws buffer @ mem', ws)))"
  by pat_completeness auto
termination
proof (relation "measure (\<lambda>(fresh, nd, buffer, ws, we). we - ws)", simp, goal_cases)
  case (1 fresh nd buffer ws we b r y nd' z es mem')
  then have "0 < nat r \<and> nat r \<le> we - ws" using process_packet_consumes by metis
  then have "we - (ws + nat r) < we - ws" by linarith
  then show ?case by simp
qed

declare serve_window.simps [simp del]

definition handle_connection ::
  "(nat \<Rightarrow> char) \<Rightarrow> node \<Rightarrow> connection_state \<Rightarrow> char list option
    \<Rightarrow> fault + (bool \<times> node \<times> effect list \<times> connection_state)"
where
  "handle_connection fresh nd st received =
     (case received of None \<Rightarrow> Inl Exit_failure
      | Some bytes \<Rightarrow>
         (let data = take (HTTP_MAX_SIZE - cs_end st) bytes;
              bytes_read = length data;
              buffer = take (cs_end st) (cs_buffer st) @ data @ drop (cs_end st + bytes_read) (cs_buffer st);
              window_end = cs_end st + bytes_read
          in if bytes_read = 0 then Inr (False, nd, [], st)
             else (case serve_window fresh nd buffer 0 window_end of Inl f \<Rightarrow> Inl f
               | Inr (r, nd', es, buffer', window_start) \<Rightarrow>
                  (if r = -1 then Inr (False, nd', es, st\<lparr>cs_buffer := buffer'\<rparr>)
                   else (let (buffer'', e) = buffer_discard buffer' window_start (window_end - window_start)
                         in Inr (True, nd', es, \<lparr>cs_buffer = buffer'', cs_end = e\<rparr>))))))"

subsection \<open>The event loop\<close>

text \<open>
  The state of \<open>main\<close>: the node and the active connection, if there is one.  A step is one event that
  \<open>poll\<close> reports.  While there is a connection nothing is asked for on the listening socket, but an error
  condition is reported nevertheless, and then another connection is accepted; the one before is
  forgotten without being closed.
\<close>

record server =
  sv_node :: node
  sv_conn :: "connection_state option"

datatype event =
    Accept
  | Accept_again
  | Receive "char list option"
  | Datagrams "char list list"

inductive server_step :: "(nat \<Rightarrow> char) \<Rightarrow> server \<Rightarrow> event \<Rightarrow> effect list \<Rightarrow> server \<Rightarrow> bool" for fresh where
  accept: "sv_conn s = None \<Longrightarrow> server_step fresh s Accept [] (s\<lparr>sv_conn := Some connection_setup\<rparr>)"
| accept_again: "sv_conn s = Some c \<Longrightarrow> server_step fresh s Accept_again [] (s\<lparr>sv_conn := Some connection_setup\<rparr>)"
| serve: "sv_conn s = Some c \<Longrightarrow> handle_connection fresh (sv_node s) c received = Inr (True, nd, es, c')
    \<Longrightarrow> server_step fresh s (Receive received) es \<lparr>sv_node = nd, sv_conn = Some c'\<rparr>"
| hang_up: "sv_conn s = Some c \<Longrightarrow> handle_connection fresh (sv_node s) c received = Inr (False, nd, es, c')
    \<Longrightarrow> server_step fresh s (Receive received) (es @ [Tcp_close]) \<lparr>sv_node = nd, sv_conn = None\<rparr>"
| datagrams: "handle_udp_socket (sv_node s) queue = (nd, es, rest)
    \<Longrightarrow> server_step fresh s (Datagrams queue) es (s\<lparr>sv_node := nd\<rparr>)"

inductive server_reachable :: "(nat \<Rightarrow> char) \<Rightarrow> server \<Rightarrow> server \<Rightarrow> bool" for fresh where
  start: "server_reachable fresh s s"
| step: "server_reachable fresh s s' \<Longrightarrow> server_step fresh s' e es s'' \<Longrightarrow> server_reachable fresh s s''"

inductive_cases server_stepE: "server_step fresh s e es s'"

subsection \<open>Starting a node\<close>

text \<open>
  \<open>main\<close> up to the sockets: the command line (with the program's name) and the environment.  A peer
  is taken from the environment when all three of its variables are set.
\<close>

definition read_peer :: "(string \<Rightarrow> string option) \<Rightarrow> string \<Rightarrow> fault + chord_peer" where
  "read_peer env prefix =
     (case (env (prefix @ ''_ID''), env (prefix @ ''_IP''), env (prefix @ ''_PORT'')) of
        (Some ident, Some ip, Some port) \<Rightarrow>
          (case safe_strtoul ident of Inl f \<Rightarrow> Inl f
           | Inr i \<Rightarrow>
              (case safe_strtoul port of Inl f \<Rightarrow> Inl f
               | Inr p \<Rightarrow> Inr \<lparr>peer_id = i, peer_ip = take (INET_ADDRSTRLEN - 1) ip, peer_port = p\<rparr>))
      | _ \<Rightarrow> Inr no_peer)"

definition start_node :: "string list \<Rightarrow> (string \<Rightarrow> string option) \<Rightarrow> fault + node" where
  "start_node argv env =
     (if length argv < 3 then Inl Exit_failure
      else (case (if 3 < length argv \<and> 0 < length (argv ! 3) then safe_strtoul (argv ! 3) else Inr 0) of
          Inl f \<Rightarrow> Inl f
        | Inr ident \<Rightarrow>
      (case safe_strtoul (argv ! 2) of Inl f \<Rightarrow> Inl f
        | Inr port \<Rightarrow>
      (case read_peer env ''PRED'' of Inl f \<Rightarrow> Inl f
        | Inr pred \<Rightarrow>
      (case read_peer env ''SUCC'' of Inl f \<Rightarrow> Inl f
        | Inr succ \<Rightarrow>
            Inr \<lparr>self_id = ident, successor = succ, predecessor = pred,
              self_ip = take (INET_ADDRSTRLEN - 1) (argv ! 1), self_port = port,
              have_reply = False, reply_peer = no_peer, reply_prev_id = 0,
              resources = initial_resources\<rparr>)))))"

subsection \<open>Invariant of a server\<close>

text \<open>A step never changes who the node is and who its neighbours are.\<close>

definition same_place :: "node \<Rightarrow> node \<Rightarrow> bool" where
  "same_place nd nd' \<longleftrightarrow> self_id nd' = self_id nd \<and> successor nd' = successor nd
     \<and> predecessor nd' = predecessor nd \<and> self_ip nd' = self_ip nd \<and> self_port nd' = self_port nd"

definition node_wf :: "node \<Rightarrow> bool" where
  "node_wf nd \<longleftrightarrow> data_wf (resources nd) \<and> length (resources nd) = MAX_RESOURCES"

definition connection_wf :: "connection_state \<Rightarrow> bool" where
  "connection_wf st \<longleftrightarrow> length (cs_buffer st) = HTTP_MAX_SIZE \<and> cs_end st \<le> HTTP_MAX_SIZE
     \<and> drop (cs_end st) (cs_buffer st) = replicate (HTTP_MAX_SIZE - cs_end st) NUL"

definition server_wf :: "server \<Rightarrow> bool" where
  "server_wf s \<longleftrightarrow> node_wf (sv_node s) \<and> (\<forall>c. sv_conn s = Some c \<longrightarrow> connection_wf c)"

lemma same_place_refl [simp]: "same_place nd nd"
  by (simp add: same_place_def)

lemma same_place_trans: "same_place a b \<Longrightarrow> same_place b c \<Longrightarrow> same_place a c"
  by (simp add: same_place_def)

lemma send_reply_wf:
  "send_reply fresh m u p len mem ts = Inr (ts', reply) \<Longrightarrow> data_wf ts \<Longrightarrow> data_wf ts' \<and> length ts' = length ts"
  by (auto simp: send_reply_def Let_def dest: data_set_wf data_delete_wf
      split: if_splits option.splits sum.splits prod.splits)

lemma refer_frame: "refer nd u h = (nd', es) \<Longrightarrow> same_place nd nd' \<and> resources nd' = resources nd"
  by (auto simp: refer_def same_place_def split: if_splits)

lemma process_packet_frame:
  assumes "process_packet fresh nd mem n = Inr (r, nd', es, mem')" and "node_wf nd"
  shows "node_wf nd' \<and> same_place nd nd' \<and> length mem' = length mem \<and> drop n mem' = drop n mem"
proof -
  from assms(1) obtain r0 req where parse: "parse_request mem n fresh_request = Inr (r0, req, mem')"
    by (auto simp: process_packet_def Let_def split: sum.splits prod.splits if_splits)
  have "length mem' = length mem \<and> drop n mem' = drop n mem"
  proof (cases "0 < r0")
    case True
    then have "nat r0 \<le> n" and l: "length mem' = length mem" "drop (nat r0) mem' = drop (nat r0) mem"
      using parse_request_cases [OF parse] by auto
    have "drop n mem' = drop (n - nat r0) (drop (nat r0) mem')" using \<open>nat r0 \<le> n\<close> by simp
    also have "\<dots> = drop n mem" unfolding l(2) using \<open>nat r0 \<le> n\<close> by simp
    finally show ?thesis using l by simp
  next
    case False
    with parse_request_cases [OF parse] show ?thesis by auto
  qed
  moreover have "node_wf nd' \<and> same_place nd nd'"
    using assms by (auto simp: process_packet_def Let_def parse node_wf_def same_place_def
        dest: send_reply_wf refer_frame split: sum.splits prod.splits if_splits)
  ultimately show ?thesis by simp
qed

lemma serve_window_frame:
  "serve_window fresh nd buffer ws we = Inr (r, nd', es, buffer', ws') \<Longrightarrow> node_wf nd \<Longrightarrow>
    ws \<le> we \<Longrightarrow> we \<le> length buffer \<Longrightarrow>
    node_wf nd' \<and> same_place nd nd' \<and> length buffer' = length buffer \<and> drop we buffer' = drop we buffer
    \<and> ws \<le> ws' \<and> ws' \<le> we"
proof (induction fresh nd buffer ws we arbitrary: r nd' es buffer' ws' rule: serve_window.induct)
  case (1 fresh nd buffer ws we)
  from "1.prems"(1) obtain r1 nd1 es1 mem1 where
    run: "process_packet fresh nd (drop ws buffer) (we - ws) = Inr (r1, nd1, es1, mem1)"
    by (subst (asm) serve_window.simps) (auto split: sum.splits)
  have frame: "node_wf nd1" "same_place nd nd1" "length mem1 = length buffer - ws"
    and tail: "drop (we - ws) mem1 = drop we buffer"
    using process_packet_frame [OF run "1.prems"(2)] "1.prems"(3,4) by auto
  let ?b = "take ws buffer @ mem1"
  have b: "length ?b = length buffer" "drop we ?b = drop we buffer"
    using frame(3) tail "1.prems"(3,4) by auto
  show ?case
  proof (cases "0 < r1")
    case True
    then have n: "nat r1 \<le> we - ws" using process_packet_consumes [OF run] by simp
    from "1.prems"(1) True run obtain es2 where
      rest: "serve_window fresh nd1 ?b (ws + nat r1) we = Inr (r, nd', es2, buffer', ws')"
      by (subst (asm) serve_window.simps) (auto split: sum.splits)
    have "node_wf nd' \<and> same_place nd1 nd' \<and> length buffer' = length ?b \<and> drop we buffer' = drop we ?b
        \<and> ws + nat r1 \<le> ws' \<and> ws' \<le> we"
      by (rule "1.IH" [OF run refl refl refl True rest frame(1)]) (use n b(1) "1.prems"(3,4) in linarith)+
    then show ?thesis using b frame(2) same_place_trans by auto
  next
    case False
    with "1.prems"(1,3) run b frame show ?thesis
      by (subst (asm) serve_window.simps) auto
  qed
qed

lemma buffer_discard_spec:
  assumes "discard + keep \<le> length buffer"
  shows "buffer_discard buffer discard keep =
    (take keep (drop discard buffer) @ replicate discard NUL @ drop (discard + keep) buffer, keep)"
  using assms by (simp add: buffer_discard_def Let_def add.commute)

lemma handle_connection_alt:
  assumes "data = take (HTTP_MAX_SIZE - cs_end st) bytes" and "we = cs_end st + length data"
    and "buffer = take (cs_end st) (cs_buffer st) @ data @ drop we (cs_buffer st)"
  shows "handle_connection fresh nd st (Some bytes) =
    (if data = [] then Inr (False, nd, [], st)
     else (case serve_window fresh nd buffer 0 we of Inl f \<Rightarrow> Inl f
       | Inr (r, nd', es, buffer', ws) \<Rightarrow>
          (if r = -1 then Inr (False, nd', es, st\<lparr>cs_buffer := buffer'\<rparr>)
           else (let (buffer'', e) = buffer_discard buffer' ws (we - ws)
                 in Inr (True, nd', es, \<lparr>cs_buffer = buffer'', cs_end = e\<rparr>)))))"
  by (simp only: handle_connection_def Let_def option.case length_0_conv assms)

text \<open>The buffer after \<open>recv\<close> has stored what it took.\<close>

lemma receive_wf:
  assumes "connection_wf st" and "data = take (HTTP_MAX_SIZE - cs_end st) bytes" and "we = cs_end st + length data"
    and "buffer = take (cs_end st) (cs_buffer st) @ data @ drop we (cs_buffer st)"
  shows "we \<le> HTTP_MAX_SIZE \<and> length buffer = HTTP_MAX_SIZE
    \<and> buffer = take (cs_end st) (cs_buffer st) @ data @ replicate (HTTP_MAX_SIZE - we) NUL
    \<and> drop we buffer = replicate (HTTP_MAX_SIZE - we) NUL"
proof -
  have st: "length (cs_buffer st) = HTTP_MAX_SIZE" "cs_end st \<le> HTTP_MAX_SIZE"
    "drop (cs_end st) (cs_buffer st) = replicate (HTTP_MAX_SIZE - cs_end st) NUL"
    using assms(1) by (simp_all add: connection_wf_def)
  have "length data \<le> HTTP_MAX_SIZE - cs_end st" by (simp add: assms(2))
  then have we: "we \<le> HTTP_MAX_SIZE" using st(2) assms(3) by linarith
  have "drop we (cs_buffer st) = drop (length data) (drop (cs_end st) (cs_buffer st))"
    by (simp add: assms(3) add.commute)
  then have tail: "drop we (cs_buffer st) = replicate (HTTP_MAX_SIZE - we) NUL"
    unfolding st(3) by (simp add: assms(3))
  have "length (take (cs_end st) (cs_buffer st) @ data) = we" using st(1,2) by (simp add: assms(3))
  then show ?thesis using we unfolding assms(4) tail by simp
qed

lemma buffer_discard_wf:
  assumes "length b = HTTP_MAX_SIZE" and "drop we b = replicate (HTTP_MAX_SIZE - we) NUL"
    and "ws \<le> we" and "we \<le> HTTP_MAX_SIZE"
  shows "buffer_discard b ws (we - ws) =
    (take (we - ws) (drop ws b) @ replicate (HTTP_MAX_SIZE - (we - ws)) NUL, we - ws)"
proof -
  have "ws + (HTTP_MAX_SIZE - we) = HTTP_MAX_SIZE - (we - ws)" using assms(3,4) by linarith
  then have "replicate ws NUL @ drop we b = replicate (HTTP_MAX_SIZE - (we - ws)) NUL"
    unfolding assms(2) replicate_add [symmetric] by simp
  with buffer_discard_spec [of ws "we - ws" b] assms(1,3,4) show ?thesis by simp
qed

lemma handle_connection_frame:
  assumes run: "handle_connection fresh nd st received = Inr (continue, nd', es, st')"
    and nd: "node_wf nd" and st: "connection_wf st"
  shows "node_wf nd' \<and> same_place nd nd' \<and> (continue \<longrightarrow> connection_wf st')"
proof -
  from run obtain bytes where bytes: "received = Some bytes"
    by (cases received) (simp_all add: handle_connection_def)
  obtain data we buffer where d: "data = take (HTTP_MAX_SIZE - cs_end st) bytes" "we = cs_end st + length data"
    "buffer = take (cs_end st) (cs_buffer st) @ data @ drop we (cs_buffer st)" by blast
  note alt = handle_connection_alt [OF d, of fresh nd] and wf = receive_wf [OF st d]
  show ?thesis
  proof (cases "data = []")
    case True
    with run nd show ?thesis by (simp add: bytes alt)
  next
    case False
    with run obtain r n1 es1 b' ws where serve: "serve_window fresh nd buffer 0 we = Inr (r, n1, es1, b', ws)"
      by (cases "serve_window fresh nd buffer 0 we") (auto simp: bytes alt)
    have frame: "node_wf n1" "same_place nd n1" "length b' = HTTP_MAX_SIZE"
      "drop we b' = replicate (HTTP_MAX_SIZE - we) NUL" "ws \<le> we"
      using serve_window_frame [OF serve nd le0] wf by auto
    note discard = buffer_discard_wf [OF frame(3-5)]
    from wf have "we \<le> HTTP_MAX_SIZE" by simp
    then have "connection_wf \<lparr>cs_buffer = take (we - ws) (drop ws b') @ replicate (HTTP_MAX_SIZE - (we - ws)) NUL,
        cs_end = we - ws\<rparr>"
      using frame(3,5) by (simp add: connection_wf_def)
    with run False frame(1,2) discard \<open>we \<le> HTTP_MAX_SIZE\<close> show ?thesis
      by (auto simp: bytes alt serve split: if_splits)
  qed
qed

lemma handle_udp_socket_frame:
  "handle_udp_socket nd queue = (nd', es, rest) \<Longrightarrow> same_place nd nd' \<and> resources nd' = resources nd"
  by (auto simp: handle_udp_socket_received handle_reply_def same_place_def split: if_splits)

lemma connection_setup_wf: "connection_wf connection_setup"
  by (simp add: connection_wf_def connection_setup_def)

lemma server_step_wf:
  "server_step fresh s e es s' \<Longrightarrow> server_wf s \<Longrightarrow> server_wf s' \<and> same_place (sv_node s) (sv_node s')"
proof (induction rule: server_step.induct)
  case (accept s)
  then show ?case by (simp add: server_wf_def connection_setup_wf)
next
  case (accept_again s c)
  then show ?case by (simp add: server_wf_def connection_setup_wf)
next
  case (serve s c received nd es c')
  then show ?case
    using handle_connection_frame [OF serve(2)] by (simp add: server_wf_def)
next
  case (hang_up s c received nd es c')
  then show ?case
    using handle_connection_frame [OF hang_up(2)] by (simp add: server_wf_def)
next
  case (datagrams s queue nd es rest)
  then show ?case
    using handle_udp_socket_frame [OF datagrams(1)] by (simp add: server_wf_def node_wf_def)
qed

text \<open>C27: In every state that a node reaches from its start, whatever clients and peers send, its resource
  table has its 100 slots and no duplicate key, its identity and its two neighbours are those it was
  started with, and while a connection is open its buffer has 8192 bytes, the end pointer lies within
  it, and everything behind the unprocessed bytes is zero.\<close>

theorem server_invariant:
  assumes "server_reachable fresh \<lparr>sv_node = nd, sv_conn = None\<rparr> s"
    and "data_wf (resources nd)" and "length (resources nd) = MAX_RESOURCES"
  shows "data_wf (resources (sv_node s)) \<and> length (resources (sv_node s)) = MAX_RESOURCES
    \<and> self_id (sv_node s) = self_id nd \<and> successor (sv_node s) = successor nd
    \<and> predecessor (sv_node s) = predecessor nd \<and> self_ip (sv_node s) = self_ip nd
    \<and> self_port (sv_node s) = self_port nd
    \<and> (case sv_conn s of None \<Rightarrow> True | Some c \<Rightarrow> length (cs_buffer c) = HTTP_MAX_SIZE
         \<and> cs_end c \<le> HTTP_MAX_SIZE \<and> drop (cs_end c) (cs_buffer c) = replicate (HTTP_MAX_SIZE - cs_end c) NUL)"
proof -
  from assms(1) have "server_wf s \<and> same_place nd (sv_node s)"
  proof (induction "\<lparr>sv_node = nd, sv_conn = None\<rparr>" s rule: server_reachable.induct)
    case start
    with assms(2,3) show ?case by (simp add: server_wf_def node_wf_def)
  next
    case (step s' e es s'')
    then show ?case using server_step_wf same_place_trans by blast
  qed
  then show ?thesis
    by (auto simp: server_wf_def node_wf_def connection_wf_def same_place_def split: option.split)
qed

lemma server_invariant_witness:
  "server_reachable (\<lambda>i. NUL) \<lparr>sv_node = lone_node, sv_conn = None\<rparr> \<lparr>sv_node = lone_node, sv_conn = Some connection_setup\<rparr>
    \<and> length (resources lone_node) = MAX_RESOURCES \<and> length (cs_buffer connection_setup) = HTTP_MAX_SIZE"
proof -
  let ?s = "\<lparr>sv_node = lone_node, sv_conn = None\<rparr>"
  have "server_step (\<lambda>i. NUL) ?s Accept [] (?s\<lparr>sv_conn := Some connection_setup\<rparr>)"
    by (rule server_step.accept) simp
  then have r: "server_reachable (\<lambda>i. NUL) ?s \<lparr>sv_node = lone_node, sv_conn = Some connection_setup\<rparr>"
    using server_reachable.step [OF server_reachable.start] by fastforce
  have "data_wf (resources lone_node)" "length (resources lone_node) = MAX_RESOURCES"
    using initial_resources_facts by (simp_all add: lone_node_def)
  with server_invariant [OF r] r show ?thesis by simp
qed

subsection \<open>A stream of requests\<close>

text \<open>
  The specification of a connection: the requests in the order in which they were sent, answered one
  after the other.  \<open>after\<close> is what the buffer holds behind them.
\<close>

record http_message =
  hm_method :: string
  hm_uri :: string
  hm_version :: string
  hm_headers :: "(string \<times> string) list"
  hm_body :: "char list"

definition head_bytes :: "http_message \<Rightarrow> char list" where
  "head_bytes r = head_text (hm_method r) (hm_uri r) (hm_version r) (hm_headers r)"

definition request_bytes :: "http_message \<Rightarrow> char list" where
  "request_bytes r = head_bytes r @ hm_body r"

definition well_formed :: "http_message \<Rightarrow> bool" where
  "well_formed r \<longleftrightarrow> good_head (hm_method r) (hm_uri r) (hm_version r) (hm_headers r)
     \<and> body_length (hm_headers r) = Some (length (hm_body r))"

text \<open>A well-formed request behind which the node goes on reading: it has no Connection header, or \<open>close\<close> in it.\<close>

definition good_request :: "http_message \<Rightarrow> bool" where
  "good_request r \<longleftrightarrow> well_formed r \<and> keeps_open (hm_headers r)"

fun answers :: "(nat \<Rightarrow> char) \<Rightarrow> node \<Rightarrow> http_message list \<Rightarrow> char list \<Rightarrow> fault + (node \<times> effect list)" where
  "answers fresh nd [] after = Inr (nd, [])"
| "answers fresh nd (r # rs) after =
     (case answer fresh nd (hm_method r) (hm_uri r) (length (hm_body r)) (hm_body r @ concat (map request_bytes rs) @ after) of
        Inl f \<Rightarrow> Inl f
      | Inr (nd1, es1) \<Rightarrow>
         (case answers fresh nd1 rs after of Inl f \<Rightarrow> Inl f | Inr (nd2, es2) \<Rightarrow> Inr (nd2, es1 @ es2)))"

text \<open>
  A part of a request, and the parts that end between the two bytes of a line separator of its head.
\<close>

definition part_of :: "http_message \<Rightarrow> char list \<Rightarrow> bool" where
  "part_of r p \<longleftrightarrow> length p < length (request_bytes r) \<and> p = take (length p) (request_bytes r)"

definition splits_separator :: "http_message \<Rightarrow> char list \<Rightarrow> bool" where
  "splits_separator r p \<longleftrightarrow> p \<noteq> [] \<and> last p = CR \<and> length p < length (head_bytes r)"

text \<open>Bytes from which no request can be read yet.\<close>

definition waiting :: "char list \<Rightarrow> bool" where
  "waiting p \<longleftrightarrow> (\<forall>z. \<exists>q. parse_request (p @ z) (length p) fresh_request = Inr (0, q, p @ z))"

lemma serve_window_waiting:
  "waiting p \<Longrightarrow> length pre = ws \<Longrightarrow> we = ws + length p \<Longrightarrow>
    serve_window fresh nd (pre @ p @ z) ws we = Inr (0, nd, [], pre @ p @ z, ws)"
  by (subst serve_window.simps) (auto simp: waiting_def process_packet_def Let_def dest!: spec [of _ z])

lemma serve_window_requests:
  "\<forall>r \<in> set rs. good_request r \<Longrightarrow> length pre = ws \<Longrightarrow>
    ws + length (concat (map request_bytes rs)) \<le> we \<Longrightarrow>
    \<exists>pre'. length pre' = ws + length (concat (map request_bytes rs))
      \<and> serve_window fresh nd (pre @ concat (map request_bytes rs) @ t) ws we =
        (case answers fresh nd rs t of Inl f \<Rightarrow> Inl f
         | Inr (nd1, es1) \<Rightarrow>
            (case serve_window fresh nd1 (pre' @ t) (length pre') we of Inl f \<Rightarrow> Inl f
             | Inr (r, nd2, es2, rest) \<Rightarrow> Inr (r, nd2, es1 @ es2, rest)))"
proof (induction rs arbitrary: nd pre ws)
  case Nil
  then show ?case by (intro exI [of _ pre]) (auto split: sum.split)
next
  case (Cons r rs)
  let ?rest = "concat (map request_bytes rs) @ t"
  let ?body = "hm_body r @ ?rest" and ?len = "length (hm_body r)"
  let ?h = "length (head_bytes r)"
  let ?a = "answer fresh nd (hm_method r) (hm_uri r) ?len ?body"
  have good: "good_head (hm_method r) (hm_uri r) (hm_version r) (hm_headers r)"
    "body_length (hm_headers r) = Some ?len" "keeps_open (hm_headers r)"
    using Cons.prems(1) by (simp_all add: good_request_def well_formed_def)
  have n: "?h + ?len \<le> we - ws" using Cons.prems(3) by (simp add: request_bytes_def)
  obtain mem' where mem: "drop ?h mem' = ?body" "length mem' = ?h + length ?body"
    and run: "process_packet fresh nd (head_bytes r @ ?body) (we - ws) =
      (case ?a of Inl f \<Rightarrow> Inl f | Inr (nd', es) \<Rightarrow> Inr (int (?h + ?len), nd', es, mem'))"
    using process_packet_answers [OF good(1,2) n [unfolded head_bytes_def], of ?body fresh] good(3)
    unfolding head_bytes_def by auto
  have buffer: "pre @ concat (map request_bytes (r # rs)) @ t = pre @ head_bytes r @ ?body"
    by (simp add: request_bytes_def)
  let ?pre = "pre @ take (?h + ?len) mem'"
  have "drop (?h + ?len) mem' = drop ?len (drop ?h mem')" by (simp add: add.commute)
  also have "\<dots> = ?rest" unfolding mem(1) by simp
  finally have "mem' = take (?h + ?len) mem' @ ?rest" by (metis append_take_drop_id)
  then have mem': "pre @ mem' = ?pre @ ?rest" by simp
  have pre: "length ?pre = ws + (?h + ?len)" using mem(2) Cons.prems(2) by simp
  have "0 < ?h" by (simp add: head_bytes_def head_text_def line_separator_def)
  then have pos: "0 < int (?h + ?len)" by linarith
  have len: "length (concat (map request_bytes (r # rs))) = ?h + ?len + length (concat (map request_bytes rs))"
    by (simp add: request_bytes_def)
  note unfold = serve_window.simps [of fresh nd "pre @ head_bytes r @ ?body" ws we] and ws = Cons.prems(2)
  show ?case
  proof (cases ?a)
    case (Inl f)
    with run ws have "serve_window fresh nd (pre @ head_bytes r @ ?body) ws we = Inl f"
      by (simp add: unfold)
    with Inl show ?thesis
      unfolding buffer by (intro exI [of _ "replicate (ws + length (concat (map request_bytes (r # rs)))) NUL"]) simp
  next
    case (Inr ans)
    obtain n1 es1 where ans: "ans = (n1, es1)" by (cases ans)
    have "ws + (?h + ?len) + length (concat (map request_bytes rs)) \<le> we" using Cons.prems(3) len by simp
    with Cons.IH [of ?pre "ws + (?h + ?len)" n1] Cons.prems(1) pre obtain pre' where
      pre': "length pre' = ws + (?h + ?len) + length (concat (map request_bytes rs))"
      and rest: "serve_window fresh n1 (?pre @ ?rest) (ws + (?h + ?len)) we =
        (case answers fresh n1 rs t of Inl f \<Rightarrow> Inl f
         | Inr (nd1, es1) \<Rightarrow>
            (case serve_window fresh nd1 (pre' @ t) (length pre') we of Inl f \<Rightarrow> Inl f
             | Inr (r, nd2, es2, rest) \<Rightarrow> Inr (r, nd2, es1 @ es2, rest)))" by auto
    have "serve_window fresh nd (pre @ head_bytes r @ ?body) ws we =
        (case serve_window fresh n1 (?pre @ ?rest) (ws + (?h + ?len)) we of Inl f \<Rightarrow> Inl f
         | Inr (r', n2, es2, b) \<Rightarrow> Inr (r', n2, es1 @ es2, b))"
      using run ws Inr pos mem' by (simp add: unfold ans del: of_nat_add append_assoc split: sum.split)
    with Inr ans pre' len rest show ?thesis
      unfolding buffer by (intro exI [of _ pre']) (simp split: sum.split prod.split)
  qed
qed

text \<open>A complete head with a part of the payload is such.\<close>

lemma waiting_payload:
  assumes "good_head m u ver hs" and "body_length hs = Some len" and "length b < len"
  shows "waiting (head_text m u ver hs @ b)"
proof -
  let ?h = "length (head_text m u ver hs)"
  have "parse_request (head_text m u ver hs @ b @ z) (length (head_text m u ver hs @ b)) fresh_request =
      Inr (0, fresh_request\<lparr>rq_payload := ?h, rq_payload_length := int len\<rparr>, head_text m u ver hs @ b @ z)" for z
    using parse_request_head [OF refl assms(1) _ assms(2), of "length (head_text m u ver hs @ b)" "b @ z"] assms(3)
    by (simp add: Let_def)
  then show ?thesis by (simp add: waiting_def)
qed

text \<open>A part of a well-formed request is waited for, or the search for its next line separator does not return.\<close>

lemma waiting_part:
  assumes "well_formed r" and "part_of r p" and "\<not> splits_separator r p"
  shows "waiting p"
proof (cases "length p < length (head_bytes r)")
  case True
  then have "p = take (length p) (head_bytes r)" using assms(2) by (simp add: part_of_def request_bytes_def)
  with incomplete_head(1) [of "hm_method r" "hm_uri r" "hm_version r" "hm_headers r" "length p" p] True assms(1,3)
  show ?thesis by (auto simp: well_formed_def splits_separator_def waiting_def head_bytes_def)
next
  case False
  let ?b = "take (length p - length (head_bytes r)) (hm_body r)"
  have "p = head_bytes r @ ?b" using assms(2) False by (simp add: part_of_def request_bytes_def)
  moreover have "length ?b < length (hm_body r)"
    using assms(2) False by (simp add: part_of_def request_bytes_def) linarith
  ultimately show ?thesis
    using waiting_payload [of _ _ _ _ "length (hm_body r)" ?b] assms(1)
    by (metis head_bytes_def well_formed_def)
qed

lemma serve_window_split:
  assumes "well_formed r" and "part_of r p" and "splits_separator r p"
    and "length pre = ws" and "we = ws + length p" and "z = [] \<or> hd z \<noteq> LF"
  shows "serve_window fresh nd (pre @ p @ z) ws we = Inl (if z = [] then Out_of_bounds else Hang)"
proof -
  have p: "p \<noteq> []" "last p = CR" "length p < length (head_bytes r)" using assms(3) by (simp_all add: splits_separator_def)
  then have "p = take (length p) (head_bytes r)" using assms(2) by (simp add: part_of_def request_bytes_def)
  with incomplete_head(2) [of "hm_method r" "hm_uri r" "hm_version r" "hm_headers r" "length p" p z] p assms(1,6)
  have "parse_request (p @ z) (length p) fresh_request = Inl (if z = [] then Out_of_bounds else Hang)"
    by (simp add: well_formed_def head_bytes_def)
  then show ?thesis using assms(4,5) by (subst serve_window.simps) (simp add: process_packet_def)
qed

lemma serve_window_closing:
  assumes "well_formed r" and "\<not> keeps_open (hm_headers r)"
    and "length pre = ws" and "ws + length (request_bytes r) \<le> we"
  shows "\<exists>b. serve_window fresh nd (pre @ request_bytes r @ t) ws we =
    (case answers fresh nd [r] t of Inl f \<Rightarrow> Inl f | Inr (nd', es) \<Rightarrow> Inr (-1, nd', es, b, ws))"
proof -
  let ?len = "length (hm_body r)"
  have "length (head_bytes r) + ?len \<le> we - ws" using assms(4) by (simp add: request_bytes_def)
  with process_packet_answers [of "hm_method r" "hm_uri r" "hm_version r" "hm_headers r" ?len "we - ws" "hm_body r @ t" fresh]
    assms(1,2) obtain mem' where
    "process_packet fresh nd (head_bytes r @ hm_body r @ t) (we - ws) =
      (case answer fresh nd (hm_method r) (hm_uri r) ?len (hm_body r @ t) of Inl f \<Rightarrow> Inl f
       | Inr (nd', es) \<Rightarrow> Inr (-1, nd', es, mem'))"
    unfolding well_formed_def head_bytes_def by auto
  then show ?thesis
    using assms(3) by (intro exI [of _ "pre @ mem'"])
      (subst serve_window.simps, simp add: request_bytes_def split: sum.split prod.split)
qed

lemma answers_append:
  "answers fresh nd (rs @ [r]) t =
    (case answers fresh nd rs (request_bytes r @ t) of Inl f \<Rightarrow> Inl f
     | Inr (nd1, es1) \<Rightarrow>
        (case answers fresh nd1 [r] t of Inl f \<Rightarrow> Inl f | Inr (nd2, es2) \<Rightarrow> Inr (nd2, es1 @ es2)))"
proof (induction rs arbitrary: nd)
  case Nil
  then show ?case by (auto split: sum.split)
next
  case (Cons q rs)
  then show ?case by (simp del: answers.simps(1) split: sum.split prod.split)
qed

text \<open>What arrives completes a number of requests; what the loop over the window does with the rest decides.\<close>

lemma handle_connection_stream:
  assumes "connection_wf st" and "received \<noteq> []" and "\<forall>r \<in> set rs. good_request r"
    and "take (cs_end st) (cs_buffer st) @ received = concat (map request_bytes rs) @ p"
    and "cs_end st + length received \<le> HTTP_MAX_SIZE"
    and "z = replicate (HTTP_MAX_SIZE - (cs_end st + length received)) NUL"
  shows "\<exists>pre'. length pre' = length (concat (map request_bytes rs)) \<and> length (pre' @ p @ z) = HTTP_MAX_SIZE
    \<and> cs_end st + length received = length pre' + length p
    \<and> handle_connection fresh nd st (Some received) =
      (case answers fresh nd rs (p @ z) of Inl f \<Rightarrow> Inl f
       | Inr (nd1, es1) \<Rightarrow>
          (case serve_window fresh nd1 (pre' @ p @ z) (length pre') (length pre' + length p) of Inl f \<Rightarrow> Inl f
           | Inr (r, nd2, es2, b, ws) \<Rightarrow>
              (if r = -1 then Inr (False, nd2, es1 @ es2, st\<lparr>cs_buffer := b\<rparr>)
               else (let (b', e) = buffer_discard b ws (length pre' + length p - ws)
                     in Inr (True, nd2, es1 @ es2, \<lparr>cs_buffer = b', cs_end = e\<rparr>)))))"
proof -
  let ?reqs = "concat (map request_bytes rs)"
  obtain data we buffer where d: "data = take (HTTP_MAX_SIZE - cs_end st) received" "we = cs_end st + length data"
    "buffer = take (cs_end st) (cs_buffer st) @ data @ drop we (cs_buffer st)" by blast
  have data: "data = received" using assms(5) by (simp add: d(1))
  note wf = receive_wf [OF assms(1) d]
  have end_le: "cs_end st \<le> length (cs_buffer st)" using assms(1) by (simp add: connection_wf_def)
  have "length (take (cs_end st) (cs_buffer st) @ received) = we" using end_le by (simp add: d(2) data)
  then have we: "we = length ?reqs + length p" unfolding assms(4) by simp
  have z: "z = replicate (HTTP_MAX_SIZE - we) NUL" by (simp add: assms(6) d(2) data)
  have "buffer = (take (cs_end st) (cs_buffer st) @ received) @ z" using wf by (simp add: data z)
  then have buffer: "buffer = [] @ ?reqs @ p @ z" by (simp add: assms(4))
  have fits: "0 + length ?reqs \<le> we" by (simp add: we)
  obtain pre' where pre': "length pre' = length ?reqs"
    and serve: "serve_window fresh nd buffer 0 we = (case answers fresh nd rs (p @ z) of Inl f \<Rightarrow> Inl f
         | Inr (nd1, es1) \<Rightarrow>
            (case serve_window fresh nd1 (pre' @ p @ z) (length pre') we of Inl f \<Rightarrow> Inl f
             | Inr (r, nd2, es2, rest) \<Rightarrow> Inr (r, nd2, es1 @ es2, rest)))"
    using serve_window_requests [OF assms(3) list.size(3) fits, of fresh nd "p @ z"] unfolding buffer by auto
  have "data \<noteq> []" by (simp add: data assms(2))
  then have run: "handle_connection fresh nd st (Some received) =
      (case answers fresh nd rs (p @ z) of Inl f \<Rightarrow> Inl f
       | Inr (nd1, es1) \<Rightarrow>
          (case serve_window fresh nd1 (pre' @ p @ z) (length pre') we of Inl f \<Rightarrow> Inl f
           | Inr (r, nd2, es2, b, ws) \<Rightarrow>
              (if r = -1 then Inr (False, nd2, es1 @ es2, st\<lparr>cs_buffer := b\<rparr>)
               else (let (b', e) = buffer_discard b ws (we - ws)
                     in Inr (True, nd2, es1 @ es2, \<lparr>cs_buffer = b', cs_end = e\<rparr>)))))"
    unfolding handle_connection_alt [OF d] serve by (simp split: sum.split prod.split)
  have len: "length (pre' @ p @ z) = HTTP_MAX_SIZE" using wf we pre' by (simp add: z)
  have we': "we = length pre' + length p" using we pre' by simp
  have "cs_end st + length received = length pre' + length p" using d(2) data we' by simp
  with pre' len run [unfolded we'] show ?thesis by blast
qed

lemma handle_connection_requests:
  assumes "connection_wf st" and "received \<noteq> []" and "\<forall>r \<in> set rs. good_request r" and "waiting p"
    and "take (cs_end st) (cs_buffer st) @ received = concat (map request_bytes rs) @ p"
    and "cs_end st + length received \<le> HTTP_MAX_SIZE"
  shows "handle_connection fresh nd st (Some received) =
    (case answers fresh nd rs (p @ replicate (HTTP_MAX_SIZE - (cs_end st + length received)) NUL) of
       Inl f \<Rightarrow> Inl f
     | Inr (nd', es) \<Rightarrow> Inr (True, nd', es,
         \<lparr>cs_buffer = p @ replicate (HTTP_MAX_SIZE - length p) NUL, cs_end = length p\<rparr>))"
proof -
  let ?z = "replicate (HTTP_MAX_SIZE - (cs_end st + length received)) NUL"
  from handle_connection_stream [OF assms(1,2,3,5,6) refl, of fresh nd] obtain pre' where
    len: "length (pre' @ p @ ?z) = HTTP_MAX_SIZE" "cs_end st + length received = length pre' + length p"
    and run: "handle_connection fresh nd st (Some received) =
      (case answers fresh nd rs (p @ ?z) of Inl f \<Rightarrow> Inl f
       | Inr (nd1, es1) \<Rightarrow>
          (case serve_window fresh nd1 (pre' @ p @ ?z) (length pre') (length pre' + length p) of Inl f \<Rightarrow> Inl f
           | Inr (r, nd2, es2, b, ws) \<Rightarrow>
              (if r = -1 then Inr (False, nd2, es1 @ es2, st\<lparr>cs_buffer := b\<rparr>)
               else (let (b', e) = buffer_discard b ws (length pre' + length p - ws)
                     in Inr (True, nd2, es1 @ es2, \<lparr>cs_buffer = b', cs_end = e\<rparr>)))))" by blast
  have "buffer_discard (pre' @ p @ ?z) (length pre') (length p) =
      (p @ replicate (HTTP_MAX_SIZE - length p) NUL, length p)"
    using buffer_discard_wf [of "pre' @ p @ ?z" "length pre' + length p" "length pre'"] len by simp
  then show ?thesis
    unfolding run by (simp add: serve_window_waiting [OF assms(4) refl refl] split: sum.split prod.split)
qed

text \<open>C8: Requests arrive as a stream, in pieces of any size.  When a connection holds an unfinished request
  and the bytes that arrive complete it and bring more requests, all that fits the buffer, then the finished requests
  are answered in the order of the stream, with the node's state carried from one to the next, as long as they have no
  Connection header or one that is exactly \<open>close\<close> (\<open>good_request\<close>).  What is left behind them is one of three.  A part of a
  well-formed request, wherever it is cut but between the two bytes of a line separator: it is moved to the
  front of the buffer, and the connection stays open.  A part that ends between these two bytes: the node
  answers nothing any more, its search for the line feed never ends, or, with a full buffer, reads behind the
  buffer.  A well-formed request with any other Connection header: it is answered too, and then the connection
  ends, whatever has arrived behind it.\<close>

theorem requests_are_answered_in_order:
  assumes "connection_wf st" and "received \<noteq> []" and "\<forall>r \<in> set rs. good_request r" and "well_formed r"
    and "take (cs_end st) (cs_buffer st) @ received = concat (map request_bytes rs) @ p"
    and "cs_end st + length received \<le> HTTP_MAX_SIZE"
    and "z = replicate (HTTP_MAX_SIZE - (cs_end st + length received)) NUL"
  shows "(part_of r p \<and> \<not> splits_separator r p \<longrightarrow>
      handle_connection fresh nd st (Some received) =
        (case answers fresh nd rs (p @ z) of Inl f \<Rightarrow> Inl f
         | Inr (nd', es) \<Rightarrow> Inr (True, nd', es,
             \<lparr>cs_buffer = p @ replicate (HTTP_MAX_SIZE - length p) NUL, cs_end = length p\<rparr>)))
    \<and> (part_of r p \<and> splits_separator r p \<longrightarrow>
      handle_connection fresh nd st (Some received) =
        (case answers fresh nd rs (p @ z) of Inl f \<Rightarrow> Inl f
         | Inr (nd', es) \<Rightarrow> Inl (if z = [] then Out_of_bounds else Hang)))
    \<and> (p = request_bytes r @ behind \<and> \<not> keeps_open (hm_headers r) \<longrightarrow>
      (\<exists>b. handle_connection fresh nd st (Some received) =
        (case answers fresh nd (rs @ [r]) (behind @ z) of Inl f \<Rightarrow> Inl f
         | Inr (nd', es) \<Rightarrow> Inr (False, nd', es, st\<lparr>cs_buffer := b\<rparr>))))"
proof -
  note stream = assms(1-3,5,6)
  from handle_connection_stream [OF stream assms(7), of fresh nd] obtain pre' where
    run: "handle_connection fresh nd st (Some received) =
      (case answers fresh nd rs (p @ z) of Inl f \<Rightarrow> Inl f
       | Inr (nd1, es1) \<Rightarrow>
          (case serve_window fresh nd1 (pre' @ p @ z) (length pre') (length pre' + length p) of Inl f \<Rightarrow> Inl f
           | Inr (r, nd2, es2, b, ws) \<Rightarrow>
              (if r = -1 then Inr (False, nd2, es1 @ es2, st\<lparr>cs_buffer := b\<rparr>)
               else (let (b', e) = buffer_discard b ws (length pre' + length p - ws)
                     in Inr (True, nd2, es1 @ es2, \<lparr>cs_buffer = b', cs_end = e\<rparr>)))))" by blast
  have z: "z = [] \<or> hd z \<noteq> LF" using assms(7) by (cases "HTTP_MAX_SIZE - (cs_end st + length received)") auto
  show ?thesis
  proof (intro conjI impI; (elim conjE)?)
    assume part: "part_of r p" and "\<not> splits_separator r p"
    then have "waiting p" by (rule waiting_part [OF assms(4)])
    from handle_connection_requests [OF assms(1-3) this assms(5,6), of fresh nd]
    show "handle_connection fresh nd st (Some received) =
        (case answers fresh nd rs (p @ z) of Inl f \<Rightarrow> Inl f
         | Inr (nd', es) \<Rightarrow> Inr (True, nd', es,
             \<lparr>cs_buffer = p @ replicate (HTTP_MAX_SIZE - length p) NUL, cs_end = length p\<rparr>))"
      by (simp add: assms(7))
  next
    assume part: "part_of r p" and split: "splits_separator r p"
    show "handle_connection fresh nd st (Some received) =
        (case answers fresh nd rs (p @ z) of Inl f \<Rightarrow> Inl f
         | Inr (nd', es) \<Rightarrow> Inl (if z = [] then Out_of_bounds else Hang))"
      unfolding run serve_window_split [OF assms(4) part split refl refl z] by (simp only: sum.case)
  next
    assume p: "p = request_bytes r @ behind" and close: "\<not> keeps_open (hm_headers r)"
    have "\<forall>nd. \<exists>b. serve_window fresh nd (pre' @ request_bytes r @ behind @ z) (length pre') (length pre' + length p) =
        (case answers fresh nd [r] (behind @ z) of Inl f \<Rightarrow> Inl f | Inr (nd', es) \<Rightarrow> Inr (-1, nd', es, b, length pre'))"
      using serve_window_closing [OF assms(4) close refl, of pre' "length pre' + length p"] by (simp add: p)
    then obtain b where b: "\<And>nd. serve_window fresh nd (pre' @ request_bytes r @ behind @ z) (length pre') (length pre' + length p) =
        (case answers fresh nd [r] (behind @ z) of Inl f \<Rightarrow> Inl f | Inr (nd', es) \<Rightarrow> Inr (-1, nd', es, b nd, length pre'))"
      by metis
    show "\<exists>b. handle_connection fresh nd st (Some received) =
        (case answers fresh nd (rs @ [r]) (behind @ z) of Inl f \<Rightarrow> Inl f
         | Inr (nd', es) \<Rightarrow> Inr (False, nd', es, st\<lparr>cs_buffer := b\<rparr>))"
    proof (cases "answers fresh nd rs (p @ z)")
      case (Inr a)
      then show ?thesis
        unfolding run using b by (intro exI [of _ "b (fst a)"])
          (simp add: p answers_append del: answers.simps split: sum.split prod.split)
    qed (simp add: run p answers_append)
  qed
qed

lemma requests_are_answered_in_order_witness:
  "handle_connection (\<lambda>i. NUL) lone_node connection_setup
      (Some (concat (map request_bytes (replicate 2 \<lparr>hm_method = ''BREW'', hm_uri = ''/a'', hm_version = ''X'',
        hm_headers = [], hm_body = []\<rparr>)) @ ''GET /b'')) =
    Inr (True, lone_node, replicate 2 (Tcp_send not_supported),
      \<lparr>cs_buffer = ''GET /b'' @ replicate (HTTP_MAX_SIZE - 6) NUL, cs_end = 6\<rparr>)"
proof -
  let ?r = "\<lparr>hm_method = ''BREW'', hm_uri = ''/a'', hm_version = ''X'', hm_headers = [], hm_body = []\<rparr>"
  let ?rs = "[?r, ?r]" and ?p = "''GET /b''"
  have "good_head ''BREW'' ''/a'' ''X'' []" by code_simp
  then have g: "\<forall>r \<in> set ?rs. good_request r"
    by (simp add: good_request_def well_formed_def body_length_def keeps_open_def)
  let ?q = "?r\<lparr>hm_method := ''GET'', hm_uri := ''/b''\<rparr>"
  have w: "well_formed ?q" by code_simp
  have part: "part_of ?q ?p" "\<not> splits_separator ?q ?p" by code_simp+
  have a: "answer (\<lambda>i. NUL) lone_node ''BREW'' ''/a'' 0 after = Inr (lone_node, [Tcp_send not_supported])" for after
    by (simp add: answer_def lone_node_responsible send_reply_def)
  have l: "length (concat (map request_bytes ?rs) @ ?p) = 32"
    by (simp add: request_bytes_def head_bytes_def head_text_def request_line_def line_separator_def)
  have "handle_connection (\<lambda>i. NUL) lone_node connection_setup (Some (concat (map request_bytes ?rs) @ ?p)) =
      (case answers (\<lambda>i. NUL) lone_node ?rs (?p @ replicate (HTTP_MAX_SIZE - (cs_end connection_setup
          + length (concat (map request_bytes ?rs) @ ?p))) NUL) of Inl f \<Rightarrow> Inl f
       | Inr (nd', es) \<Rightarrow> Inr (True, nd', es, \<lparr>cs_buffer = ?p @ replicate (HTTP_MAX_SIZE - length ?p) NUL, cs_end = length ?p\<rparr>))"
  proof -
    have "take (cs_end connection_setup) (cs_buffer connection_setup) @ concat (map request_bytes ?rs) @ ?p
        = concat (map request_bytes ?rs) @ ?p" by (simp add: connection_setup_def)
    moreover have "cs_end connection_setup + length (concat (map request_bytes ?rs) @ ?p) \<le> HTTP_MAX_SIZE"
      unfolding l by (simp add: connection_setup_def HTTP_MAX_SIZE_def)
    moreover have "concat (map request_bytes ?rs) @ ?p \<noteq> []" by simp
    ultimately show ?thesis
      using requests_are_answered_in_order [OF connection_setup_wf _ g w _ _ refl] part by blast
  qed
  then show ?thesis by (simp add: a numeral_eq_Suc)
qed

text \<open>A request that does not fit the buffer is never answered, not even with an error: when its first
  8192 bytes have filled the buffer, the next bytes that arrive end the connection without any reply
  and without any effect on the node.\<close>

theorem oversized_request_is_dropped:
  assumes "good_head m u ver hs" and "body_length hs = Some len" and "length b < len"
    and "length (head_text m u ver hs @ b) = HTTP_MAX_SIZE"
  shows "\<exists>st. handle_connection fresh nd connection_setup (Some (head_text m u ver hs @ b)) = Inr (True, nd, [], st)
    \<and> handle_connection fresh nd st (Some next_bytes) = Inr (False, nd, [], st)"
proof -
  let ?p = "head_text m u ver hs @ b"
  let ?st = "\<lparr>cs_buffer = ?p, cs_end = HTTP_MAX_SIZE\<rparr>"
  have w: "waiting ?p" by (rule waiting_payload [OF assms(1-3)])
  have "take (cs_end connection_setup) (cs_buffer connection_setup) @ ?p = concat (map request_bytes []) @ ?p"
    by (simp add: connection_setup_def)
  moreover have "cs_end connection_setup + length ?p \<le> HTTP_MAX_SIZE"
    unfolding assms(4) by (simp add: connection_setup_def)
  moreover have "?p \<noteq> []" by (simp add: head_text_def line_separator_def)
  ultimately have "handle_connection fresh nd connection_setup (Some ?p) = Inr (True, nd, [], ?st)"
    using handle_connection_requests [OF connection_setup_wf _ _ w, of ?p "[]" fresh nd] assms(4) by simp
  moreover have "handle_connection fresh nd ?st (Some next_bytes) = Inr (False, nd, [], ?st)"
    by (simp add: handle_connection_def)
  ultimately show ?thesis by blast
qed

lemma oversized_request_is_dropped_witness:
  "\<exists>b st. handle_connection (\<lambda>i. NUL) lone_node connection_setup
      (Some (head_text ''PUT'' ''/a'' ''X'' [(''Content-Length'', '' 9000'')] @ b)) = Inr (True, lone_node, [], st)
    \<and> handle_connection (\<lambda>i. NUL) lone_node st (Some ''x'') = Inr (False, lone_node, [], st)"
proof -
  let ?hs = "[(''Content-Length'', '' 9000'')]"
  have g: "good_head ''PUT'' ''/a'' ''X'' ?hs" by code_simp
  have "is_space SP" "\<not> is_space (CHR ''9'')" "is_digit (CHR ''9'')" "is_digit (CHR ''0'')" by code_simp+
  moreover have "dec_value 0 ''9000'' = 9000" by simp
  ultimately have b: "body_length ?hs = Some 9000" by (simp add: body_length_def number_of_def)
  have h: "length (head_text ''PUT'' ''/a'' ''X'' ?hs) = 34"
    by (simp add: head_text_def request_line_def header_line_def line_separator_def)
  have l: "length (replicate 8158 NUL) < 9000"
    "length (head_text ''PUT'' ''/a'' ''X'' ?hs @ replicate 8158 NUL) = HTTP_MAX_SIZE"
    unfolding length_append length_replicate h by (simp_all add: HTTP_MAX_SIZE_def)
  from oversized_request_is_dropped [OF g b l, of "\<lambda>i. NUL" lone_node "''x''"] show ?thesis by blast
qed

lemma safe_strtoul_decimal:
  "safe_strtoul (decimal n) = (if 2 ^ 64 \<le> n then Inl Exit_failure else Inr (of_nat n))"
proof -
  obtain c r where c: "decimal n = c # r" by (cases "decimal n") auto
  then have "is_digit c" using decimal_digits [of n] by simp
  note digit = digit_not_space [OF this] decimal_digits [of n]
  have v: "dec_value (byte c - 48) r = n" using dec_value_decimal [of n] by (simp add: c)
  have "\<not> is_digit NUL" by (simp add: is_digit_def)
  then have "takeWhile is_digit (decimal n @ [NUL]) = decimal n" "dropWhile is_digit (decimal n @ [NUL]) = [NUL]"
    using digit(2) by (simp_all add: takeWhile_append_all dropWhile_append_all)
  then have "strtoul (decimal n @ [NUL]) = (if 2 ^ 64 \<le> n then Some (- 1, True) else Some (of_nat n, False))"
    using digit(1) v by (simp add: strtoul_def Let_def c)
  moreover have "(ucast (of_nat n :: u64) :: u16) = of_nat n"
    unfolding word_unat_eq_iff unsigned_ucast_eq unsigned_of_nat by simp
  ultimately show ?thesis by (simp add: safe_strtoul_def)
qed

text \<open>A node that is started with decimal arguments and without neighbours in the environment exits when
  a number has more than 64 bits; otherwise its identifier and its port are the arguments modulo
  65536, without any message when that changes them, its table holds the three static resources, and
  it takes itself to be responsible for every hash.\<close>

theorem start_without_neighbours:
  "start_node [prog, ip, decimal port, decimal ident] (\<lambda>name. None) =
    (if 2 ^ 64 \<le> ident \<or> 2 ^ 64 \<le> port then Inl Exit_failure
     else Inr (lone_node\<lparr>self_id := of_nat (ident mod 65536), self_port := of_nat (port mod 65536),
       self_ip := take (INET_ADDRSTRLEN - 1) ip\<rparr>))
   \<and> (\<forall>h. responsible (lone_node\<lparr>self_id := of_nat (ident mod 65536), self_port := of_nat (port mod 65536),
       self_ip := take (INET_ADDRSTRLEN - 1) ip\<rparr>) h)"
proof -
  have trunc: "(of_nat (n mod 65536) :: u16) = of_nat n" for n
    by (simp add: word_unat_eq_iff unat_of_nat take_bit_eq_mod)
  have "responsible (lone_node\<lparr>self_id := i, self_port := p, self_ip := a\<rparr>) h" for i p a h
    by (simp add: responsible_def single_node_def lone_node_def no_peer_def)
  moreover have "start_node [prog, ip, decimal port, decimal ident] (\<lambda>name. None) =
    (if 2 ^ 64 \<le> ident \<or> 2 ^ 64 \<le> port then Inl Exit_failure
     else Inr (lone_node\<lparr>self_id := of_nat ident, self_port := of_nat port, self_ip := take (INET_ADDRSTRLEN - 1) ip\<rparr>))"
    by (simp add: start_node_def safe_strtoul_decimal read_peer_def lone_node_def)
  ultimately show ?thesis by (simp add: trunc)
qed

end
