(* ===== verification/Chord_Ring.thy ===== *)
theory Chord_Ring
  imports Chord_Server
begin

section \<open>The ring: who owns a key, and how a lookup finds the owner\<close>

text \<open>
  Nodes in the order of their identifiers, each the successor of the one before it.  The owner of a
  hash is the first node whose identifier is not below it, the first node of all if there is none.
\<close>

definition owner :: "u16 list \<Rightarrow> u16 \<Rightarrow> nat" where
  "owner ids h = (let k = length (takeWhile (\<lambda>x. x < h) ids) in if k < length ids then k else 0)"

definition pred_index :: "nat \<Rightarrow> nat \<Rightarrow> nat" where
  "pred_index n j = (if j = 0 then n - 1 else j - 1)"

definition succ_index :: "nat \<Rightarrow> nat \<Rightarrow> nat" where
  "succ_index n j = (if j + 1 = n then 0 else j + 1)"

lemma ids_le: "sorted_wrt (<) (ids :: u16 list) \<Longrightarrow> i \<le> k \<Longrightarrow> k < length ids \<Longrightarrow> ids ! i \<le> ids ! k"
  using sorted_wrt_nth_less [of "(<)" ids i k] by (cases "i = k") auto

lemma strict_sorted_imp_distinct_ids: "sorted_wrt (<) (ids :: u16 list) \<Longrightarrow> distinct ids"
  by (induction ids) auto

lemma takeWhile_index:
  assumes "sorted_wrt (<) (ids :: u16 list)" and "j < length ids"
  shows "length (takeWhile (\<lambda>x. x < h) ids) = j \<longleftrightarrow> (j = 0 \<or> ids ! (j - 1) < h) \<and> h \<le> ids ! j"
proof -
  let ?k = "length (takeWhile (\<lambda>x. x < h) ids)"
  have below: "ids ! i < h" if "i < ?k" for i
    using that by (metis nth_mem set_takeWhileD takeWhile_nth)
  have at: "?k < length ids \<Longrightarrow> \<not> ids ! ?k < h" using nth_length_takeWhile by blast
  show ?thesis
  proof
    assume k: "?k = j"
    with below [of "j - 1"] at assms(2) show "(j = 0 \<or> ids ! (j - 1) < h) \<and> h \<le> ids ! j"
      by (cases j) (auto simp: not_less)
  next
    assume r: "(j = 0 \<or> ids ! (j - 1) < h) \<and> h \<le> ids ! j"
    have "\<not> j < ?k" using below [of j] r by auto
    moreover have "\<not> ?k < j"
    proof
      assume lt: "?k < j"
      then have "?k < length ids" using assms(2) by simp
      have "ids ! ?k \<le> ids ! (j - 1)"
        by (rule ids_le [OF assms(1)]) (use lt assms(2) in linarith)+
      then show False using at [OF \<open>?k < length ids\<close>] r lt by auto
    qed
    ultimately show "?k = j" by simp
  qed
qed

text \<open>Exactly one node of the ring is responsible for each hash.\<close>

lemma responsible_iff_owner:
  assumes sorted: "sorted_wrt (<) ids" and j: "j < length ids"
  shows "is_responsible h (ids ! j) (ids ! pred_index (length ids) j) \<longleftrightarrow> j = owner ids h"
proof (cases j)
  case (Suc i)
  then have "ids ! i < ids ! j" using assms by (intro sorted_wrt_nth_less) auto
  then show ?thesis
    using takeWhile_index [OF sorted j, of h] Suc j
    by (auto simp: is_responsible_def pred_index_def owner_def Let_def)
next
  case 0
  let ?n = "length ids" and ?k = "length (takeWhile (\<lambda>x. x < h) ids)"
  have k: "?k \<le> ?n" by (rule length_takeWhile_le)
  have zero: "?k = 0 \<longleftrightarrow> h \<le> ids ! 0" using takeWhile_index [OF sorted, of 0 h] j 0 by simp
  have all: "?k = ?n \<longleftrightarrow> ids ! (?n - 1) < h"
  proof
    assume "?k = ?n"
    then show "ids ! (?n - 1) < h"
      using j by (metis diff_less length_greater_0_conv less_nat_zero_code list.size(3) nth_mem
          set_takeWhileD takeWhile_eq_all_conv length_takeWhile_le takeWhile_eq_take take_all_iff less_one)
  next
    assume "ids ! (?n - 1) < h"
    then have "\<not> h \<le> ids ! (?n - 1)" by simp
    show "?k = ?n"
    proof (rule ccontr)
      assume "?k \<noteq> ?n"
      with k have lt: "?k < ?n" by simp
      then have "\<not> ids ! ?k < h" using nth_length_takeWhile by blast
      moreover have "ids ! ?k \<le> ids ! (?n - 1)"
        by (rule ids_le [OF sorted]) (use lt in linarith)+
      ultimately show False using \<open>ids ! (?n - 1) < h\<close> by auto
    qed
  qed
  show ?thesis
  proof (cases "?n = 1")
    case True
    then show ?thesis using 0 k by (auto simp: owner_def Let_def pred_index_def is_responsible_single)
  next
    case False
    then have "0 < ?n - 1" using j 0 by linarith
    then have "ids ! 0 < ids ! (?n - 1)" using j by (intro sorted_wrt_nth_less [OF sorted]) auto
    then have "is_responsible h (ids ! 0) (ids ! (?n - 1)) \<longleftrightarrow> ?k = ?n \<or> ?k = 0"
      unfolding zero all by (auto simp: is_responsible_def)
    then show ?thesis using 0 k by (auto simp: owner_def Let_def pred_index_def)
  qed
qed

lemma owner_less: "ids \<noteq> [] \<Longrightarrow> owner ids h < length ids"
  by (simp add: owner_def Let_def)

subsection \<open>A ring of nodes\<close>

text \<open>
  What the operator sets up: the nodes in the order of their identifiers, each with the identifier,
  address and port of its two neighbours.  Addresses are in the form that \<open>inet_ntop\<close> prints, and no
  two nodes share one.
\<close>

definition peer_of :: "node \<Rightarrow> chord_peer" where
  "peer_of nd = \<lparr>peer_id = self_id nd, peer_ip = self_ip nd, peer_port = self_port nd\<rparr>"

definition address :: "node \<Rightarrow> char list \<times> u16" where
  "address nd = (address_bytes (self_ip nd), self_port nd)"

definition ring :: "node list \<Rightarrow> bool" where
  "ring nds \<longleftrightarrow> nds \<noteq> [] \<and> sorted_wrt (<) (map self_id nds) \<and> distinct (map address nds)
     \<and> (\<forall>i < length nds. successor (nds ! i) = peer_of (nds ! succ_index (length nds) i)
          \<and> predecessor (nds ! i) = peer_of (nds ! pred_index (length nds) i)
          \<and> inet_ntop (address_bytes (self_ip (nds ! i))) = self_ip (nds ! i))"

fun find_address :: "node list \<Rightarrow> char list \<times> u16 \<Rightarrow> nat option" where
  "find_address [] a = None"
| "find_address (nd # nds) a = (if address nd = a then Some 0 else map_option Suc (find_address nds a))"

text \<open>
  A lookup on its way: the node \<open>i\<close> receives \<open>msg\<close>; a lookup that it sends is received by the node
  with that address, a reply is where the journey ends, with its destination.
\<close>

fun chase :: "nat \<Rightarrow> node list \<Rightarrow> nat \<Rightarrow> char list \<Rightarrow> ((char list \<times> u16) \<times> char list) option" where
  "chase 0 nds i msg = None"
| "chase (Suc fuel) nds i msg =
     (case snd (handle_datagram (nds ! i) msg) of
        [Udp_send a port m] \<Rightarrow>
          (if m ! 0 = LOOKUP then
             (case find_address nds (a, port) of None \<Rightarrow> None | Some j \<Rightarrow> chase fuel nds j m)
           else Some ((a, port), m))
      | _ \<Rightarrow> None)"

definition ring_owner :: "node list \<Rightarrow> u16 \<Rightarrow> nat" where
  "ring_owner nds h = owner (map self_id nds) h"

text \<open>The reply that names the owner: its predecessor's identifier and its own identity.\<close>

definition owner_reply :: "node list \<Rightarrow> u16 \<Rightarrow> char list" where
  "owner_reply nds h =
     (let nd = nds ! ring_owner nds h
      in build_message REPLY (peer_id (predecessor nd)) (self_id nd) (address_bytes (self_ip nd)) (self_port nd))"

lemma ring_neighbours:
  assumes "ring nds" and "i < length nds"
  shows "successor (nds ! i) = peer_of (nds ! succ_index (length nds) i)"
    and "predecessor (nds ! i) = peer_of (nds ! pred_index (length nds) i)"
    and "inet_ntop (address_bytes (self_ip (nds ! i))) = self_ip (nds ! i)"
    and "sorted_wrt (<) (map self_id nds)"
  using assms by (simp_all add: ring_def)

lemma ring_pton: "ring nds \<Longrightarrow> i < length nds \<Longrightarrow> inet_pton (self_ip (nds ! i)) = Some (address_bytes (self_ip (nds ! i)))"
  using inet_roundtrip [of "address_bytes (self_ip (nds ! i))"] ring_neighbours(3) [of nds i] by simp

lemma find_address_nth: "distinct (map address nds) \<Longrightarrow> i < length nds \<Longrightarrow> find_address nds (address (nds ! i)) = Some i"
proof (induction nds arbitrary: i)
  case (Cons nd nds)
  show ?case
  proof (cases i)
    case (Suc j)
    with Cons.prems have "nds ! j \<in> set nds" by simp
    with Cons.prems have "address nd \<noteq> address (nds ! j)" by (auto dest: imageI [of _ _ address])
    with Cons Suc show ?thesis by simp
  qed simp
qed simp

lemma succ_pred_index: "i < n \<Longrightarrow> succ_index n i < n \<and> pred_index n i < n
    \<and> pred_index n (succ_index n i) = i \<and> succ_index n (pred_index n i) = i"
  by (auto simp: succ_index_def pred_index_def)

lemma ring_responsible:
  assumes "ring nds" and "i < length nds"
  shows "is_responsible h (self_id (nds ! i)) (peer_id (predecessor (nds ! i))) \<longleftrightarrow> i = ring_owner nds h"
    and "is_responsible h (peer_id (successor (nds ! i))) (self_id (nds ! i))
      \<longleftrightarrow> succ_index (length nds) i = ring_owner nds h"
proof -
  have own: "is_responsible h (self_id (nds ! j)) (self_id (nds ! pred_index (length nds) j)) \<longleftrightarrow> j = ring_owner nds h"
    if "j < length nds" for j
    using responsible_iff_owner [OF ring_neighbours(4) [OF assms], of j h] that
      succ_pred_index [OF that] by (simp add: ring_owner_def)
  show "is_responsible h (self_id (nds ! i)) (peer_id (predecessor (nds ! i))) \<longleftrightarrow> i = ring_owner nds h"
    using own [OF assms(2)] by (simp add: ring_neighbours(2) [OF assms] peer_of_def)
  show "is_responsible h (peer_id (successor (nds ! i))) (self_id (nds ! i))
      \<longleftrightarrow> succ_index (length nds) i = ring_owner nds h"
    using own [of "succ_index (length nds) i"] succ_pred_index [OF assms(2)]
    by (simp add: ring_neighbours(1) [OF assms] peer_of_def)
qed

subsection \<open>The journey of a lookup\<close>

text \<open>What one node does with a lookup.\<close>

lemma lookup_step:
  assumes r: "ring nds" and i: "i < length nds" and oip: "length oaddr = 4"
    and msg: "msg = build_message LOOKUP h oid oaddr oport"
  shows "snd (handle_datagram (nds ! i) msg) =
    (if i = ring_owner nds h \<or> succ_index (length nds) i = ring_owner nds h
     then [Udp_send oaddr oport (owner_reply nds h)]
     else [Udp_send (fst (address (nds ! succ_index (length nds) i)))
             (snd (address (nds ! succ_index (length nds) i))) msg])"
proof -
  let ?n = "length nds" and ?nd = "nds ! i"
  let ?s = "succ_index ?n i"
  have s: "?s < ?n" "pred_index ?n ?s = i" using succ_pred_index [OF i] by auto
  note f = build_message_fields [OF oip, of LOOKUP h oid oport, folded msg]
  have len: "length msg = MSG_SIZE" using oip by (simp add: msg length_build_message)
  have ret: "send_datagram (inet_ntop oaddr) p m = [Udp_send oaddr p m]" for p m
    by (simp add: send_datagram_def inet_roundtrip [OF oip])
  have succ: "successor ?nd = peer_of (nds ! ?s)" using ring_neighbours(1) [OF r i] .
  have fwd: "send_datagram (self_ip (nds ! ?s)) p m = [Udp_send (address_bytes (self_ip (nds ! ?s))) p m]" for p m
    by (simp add: send_datagram_def ring_pton [OF r s(1)])
  have pred: "peer_id (predecessor (nds ! ?s)) = self_id ?nd"
    using ring_neighbours(2) [OF r s(1)] s(2) by (simp add: peer_of_def)
  have "handle_datagram ?nd msg = (?nd, handle_lookup ?nd msg)"
    using f len by (simp add: handle_datagram_def)
  moreover have "handle_lookup ?nd msg =
      (if i = ring_owner nds h \<or> ?s = ring_owner nds h then [Udp_send oaddr oport (owner_reply nds h)]
       else [Udp_send (fst (address (nds ! ?s))) (snd (address (nds ! ?s))) msg])"
    using ring_responsible [OF r i, of h] f len pred
    by (auto simp: handle_lookup_def Let_def ret fwd succ owner_reply_def peer_of_def address_def)
  ultimately show ?thesis by simp
qed

text \<open>How many forwards there are from the node \<open>i\<close> to the node \<open>j\<close>.\<close>

definition ring_distance :: "nat \<Rightarrow> nat \<Rightarrow> nat \<Rightarrow> nat" where
  "ring_distance n i j = (if i \<le> j then j - i else n + j - i)"

lemma distance_succ:
  "i < n \<Longrightarrow> j < n \<Longrightarrow> i \<noteq> j \<Longrightarrow> Suc (ring_distance n (succ_index n i) j) = ring_distance n i j"
  by (auto simp: ring_distance_def succ_index_def)

lemma chase_finds_owner:
  assumes r: "ring nds" and oip: "length oaddr = 4"
    and msg: "msg = build_message LOOKUP h oid oaddr oport"
  shows "i < length nds \<Longrightarrow> ring_distance (length nds) i (ring_owner nds h) < fuel \<Longrightarrow>
    chase fuel nds i msg = Some ((oaddr, oport), owner_reply nds h)"
proof (induction fuel arbitrary: i)
  case (Suc fuel)
  let ?n = "length nds" and ?o = "ring_owner nds h"
  let ?s = "succ_index ?n i"
  have o: "?o < ?n" using owner_less [of "map self_id nds" h] r by (simp add: ring_owner_def ring_def)
  have s: "?s < ?n" using succ_pred_index [OF Suc.prems(1)] by simp
  have reply: "owner_reply nds h ! 0 = REPLY"
    by (simp add: owner_reply_def Let_def build_message_def)
  have lookup: "msg ! 0 = LOOKUP" by (simp add: msg build_message_def)
  note step = lookup_step [OF r Suc.prems(1) oip msg]
  show ?case
  proof (cases "i = ?o \<or> ?s = ?o")
    case True
    with step reply show ?thesis by simp
  next
    case False
    then have "ring_distance ?n ?s ?o < fuel"
      using distance_succ [OF Suc.prems(1) o] Suc.prems(2) by simp
    moreover have "find_address nds (address (nds ! ?s)) = Some ?s"
      using r s by (intro find_address_nth) (simp_all add: ring_def)
    ultimately show ?thesis
      using step False lookup Suc.IH [OF s] by simp
  qed
qed simp

subsection \<open>A request for a key of another node\<close>

lemma process_packet_refers:
  assumes "good_head m u ver hs" and "body_length hs = Some len" and "keeps_open hs"
    and "length (head_text m u ver hs) + len \<le> n" and "\<not> responsible nd (pseudo_hash u)"
    and "refer nd u (pseudo_hash u) = (nd', es)"
  shows "\<exists>mem'. process_packet fresh nd (head_text m u ver hs @ body) n =
    Inr (int (length (head_text m u ver hs) + len), nd', es, mem')"
proof -
  have "answer fresh nd m u len body = Inr (nd', es)" using assms(5,6) by (simp add: answer_def)
  from process_packet_ok [OF assms(1,2,4) this] assms(3) show ?thesis by simp
qed

lemma handle_owner_reply:
  assumes "ring nds"
  shows "handle_datagram nd (owner_reply nds h) =
    (nd\<lparr>have_reply := True, reply_prev_id := peer_id (predecessor (nds ! ring_owner nds h)),
        reply_peer := peer_of (nds ! ring_owner nds h)\<rparr>, [])"
proof -
  let ?o = "nds ! ring_owner nds h"
  let ?a = "address_bytes (self_ip ?o)"
  have o: "ring_owner nds h < length nds"
    using owner_less [of "map self_id nds" h] assms by (simp add: ring_owner_def ring_def)
  have reply: "owner_reply nds h = build_message REPLY (peer_id (predecessor ?o)) (self_id ?o) ?a (self_port ?o)"
    by (simp add: owner_reply_def Let_def)
  have "take (INET_ADDRSTRLEN - 1) (inet_ntop ?a) = self_ip ?o"
    using length_inet_ntop [of ?a] ring_neighbours(3) [OF assms o] by (simp add: INET_ADDRSTRLEN_def)
  with build_message_fields [of ?a REPLY "peer_id (predecessor ?o)" "self_id ?o" "self_port ?o"]
  show ?thesis
    by (simp add: reply handle_datagram_def handle_reply_def length_build_message peer_of_def)
qed

lemma ring_ids_differ:
  "ring nds \<Longrightarrow> i < length nds \<Longrightarrow> j < length nds \<Longrightarrow> i \<noteq> j \<Longrightarrow> self_id (nds ! i) \<noteq> self_id (nds ! j)"
proof -
  assume r: "ring nds" and ij: "i < length nds" "j < length nds" "i \<noteq> j"
  have "sorted_wrt (<) (map self_id nds)" using r by (simp add: ring_def)
  then have "distinct (map self_id nds)" by (rule strict_sorted_imp_distinct_ids)
  with ij show ?thesis by (simp add: distinct_conv_nth)
qed

text \<open>The two requests of a client, and the lookup between them.\<close>

lemma refer_twice:
  assumes r: "ring nds" and three: "3 \<le> length nds" and i: "i < length nds"
    and other: "i \<noteq> ring_owner nds h" and other': "i \<noteq> ring_owner nds h'"
    and fresh_cache: "\<not> have_reply (nds ! i)"
  shows "\<not> responsible (nds ! i) h \<and> (\<exists>nd1 es1 nd2.
    refer (nds ! i) u h = (nd1, Tcp_send service_unavailable # es1)
    \<and> (es1 = [] \<and> nd2 = nd1
       \<or> (\<exists>a port msg j reply. es1 = [Udp_send a port msg] \<and> find_address nds (a, port) = Some j
           \<and> chase (length nds) nds j msg = Some (address (nds ! i), reply)
           \<and> handle_datagram nd1 reply = (nd2, [])))
    \<and> \<not> responsible nd2 h'
    \<and> refer nd2 u' h' = (nd2\<lparr>have_reply := False\<rparr>, [send_redirect (peer_of (nds ! ring_owner nds h)) u']))"
proof -
  let ?nd = "nds ! i" and ?n = "length nds" and ?o = "ring_owner nds h"
  let ?s = "succ_index ?n i" and ?p = "pred_index ?n i"
  have idx: "?s < ?n" "?p < ?n" "?s \<noteq> i" "?p \<noteq> i" "?s \<noteq> ?p"
    using i three by (auto simp: succ_index_def pred_index_def)
  have succ: "successor ?nd = peer_of (nds ! ?s)" and pred: "predecessor ?nd = peer_of (nds ! ?p)"
    using ring_neighbours [OF r i] by simp_all
  have ids: "self_id (nds ! ?s) \<noteq> self_id (nds ! ?p)" "self_id (nds ! ?p) \<noteq> self_id ?nd"
    using ring_ids_differ [OF r] idx i by blast+
  have single: "\<not> single_node nd" if "successor nd = successor ?nd" "predecessor nd = predecessor ?nd"
    "self_id nd = self_id ?nd" for nd
    using that ids by (auto simp: single_node_def succ pred peer_of_def)
  have not_resp: "\<not> responsible nd h \<and> \<not> responsible nd h'"
    if "successor nd = successor ?nd" "predecessor nd = predecessor ?nd"
    "self_id nd = self_id ?nd" for nd
    using single [OF that] ring_responsible(1) [OF r i] other other' that by (simp add: responsible_def)
  have cached: "refer nd u' h' = (nd\<lparr>have_reply := False\<rparr>, [send_redirect (reply_peer nd) u'])"
    if "successor nd = successor ?nd" "predecessor nd = predecessor ?nd" "have_reply nd" for nd
    using that ids by (simp add: refer_def succ pred peer_of_def)
  have resp: "is_responsible h (peer_id (successor ?nd)) (self_id ?nd) \<longleftrightarrow> ?s = ?o"
    using ring_responsible(2) [OF r i] .
  show ?thesis
  proof (cases "?s = ?o")
    case True
    let ?nd1 = "?nd\<lparr>have_reply := True, reply_prev_id := self_id ?nd, reply_peer := successor ?nd\<rparr>"
    have "refer ?nd u h = (?nd1, [Tcp_send service_unavailable])"
      using ids fresh_cache resp True by (simp add: refer_def succ pred peer_of_def)
    moreover have "refer ?nd1 u' h' = (?nd1\<lparr>have_reply := False\<rparr>, [send_redirect (peer_of (nds ! ?o)) u'])"
      using cached [of ?nd1] succ True by simp
    ultimately show ?thesis using not_resp [of ?nd] not_resp [of ?nd1] by auto
  next
    case False
    let ?msg = "lookup_message ?nd h" and ?ip = "address_bytes (self_ip (nds ! ?s))"
    let ?nd2 = "?nd\<lparr>have_reply := True, reply_prev_id := peer_id (predecessor (nds ! ?o)),
        reply_peer := peer_of (nds ! ?o)\<rparr>"
    have "send_datagram (self_ip (nds ! ?s)) p m = [Udp_send ?ip p m]" for p m
      by (simp add: send_datagram_def ring_pton [OF r idx(1)])
    then have "refer ?nd u h = (?nd, [Tcp_send service_unavailable, Udp_send ?ip (self_port (nds ! ?s)) ?msg])"
      using ids fresh_cache resp False by (simp add: refer_def succ pred peer_of_def)
    moreover have "find_address nds (?ip, self_port (nds ! ?s)) = Some ?s"
      using find_address_nth [of nds ?s] r idx(1) by (simp add: ring_def address_def)
    moreover have "?o < ?n" using owner_less [of "map self_id nds" h] r by (simp add: ring_owner_def ring_def)
    then have "ring_distance ?n ?s ?o < ?n" using idx(1) by (auto simp: ring_distance_def)
    then have "chase ?n nds ?s ?msg = Some (address ?nd, owner_reply nds h)"
      using chase_finds_owner [OF r _ _ idx(1), of "address_bytes (self_ip ?nd)" ?msg h "self_id ?nd" "self_port ?nd"]
      by (simp add: lookup_message_def address_def)
    moreover have "handle_datagram ?nd (owner_reply nds h) = (?nd2, [])"
      using handle_owner_reply [OF r] by simp
    moreover have "refer ?nd2 u' h' = (?nd2\<lparr>have_reply := False\<rparr>, [send_redirect (peer_of (nds ! ?o)) u'])"
      using cached [of ?nd2] by simp
    ultimately show ?thesis using not_resp [of ?nd] not_resp [of ?nd2] by auto
  qed
qed

lemma ring_owner_less: "ring nds \<Longrightarrow> ring_owner nds h < length nds"
  using owner_less [of "map self_id nds" h] by (simp add: ring_owner_def ring_def)

lemma ring_first_id_least:
  assumes "ring nds" and "0 < i" and "i < length nds"
  shows "self_id (nds ! 0) < self_id (nds ! i)"
proof -
  have "sorted_wrt (<) (map self_id nds)" using assms(1) by (simp add: ring_def)
  moreover have "0 < length nds" using assms(3) by linarith
  ultimately show ?thesis using sorted_wrt_nth_less [of "(<)" "map self_id nds" 0 i] assms(2,3) by simp
qed

lemma ring_responsible_at:
  assumes r: "ring nds" and i: "i < length nds"
  shows "responsible (nds ! i) h \<longleftrightarrow>
    i = ring_owner nds h \<or> length nds = 2 \<and> i = 1 \<and> self_id (nds ! 0) = 0"
proof -
  let ?n = "length nds"
  let ?s = "succ_index ?n i" and ?p = "pred_index ?n i"
  have nb: "successor (nds ! i) = peer_of (nds ! ?s)" "predecessor (nds ! i) = peer_of (nds ! ?p)"
    using ring_neighbours [OF r i] by simp_all
  have idx: "?s < ?n" "?p < ?n" using succ_pred_index [OF i] by simp_all
  have ids: "self_id (nds ! j) = self_id (nds ! k) \<longleftrightarrow> j = k" if "j < ?n" "k < ?n" for j k
    using ring_ids_differ [OF r that] by auto
  have single: "single_node (nds ! i) \<longleftrightarrow> ?n = 1 \<or> ?s = ?p \<and> self_id (nds ! ?p) = 0"
  proof -
    have "?p = i \<and> ?s = i \<longleftrightarrow> ?n = 1" using i by (auto simp: succ_index_def pred_index_def)
    moreover have "self_id (nds ! ?p) = 0 \<and> self_id (nds ! ?s) = 0 \<longleftrightarrow> ?s = ?p \<and> self_id (nds ! ?p) = 0"
      using ids [OF idx(2,1)] by metis
    moreover have "single_node (nds ! i) \<longleftrightarrow> ?p = i \<and> ?s = i \<or> self_id (nds ! ?p) = 0 \<and> self_id (nds ! ?s) = 0"
      by (simp only: single_node_def nb peer_of_def chord_peer.simps ids [OF idx(2) i] ids [OF idx(1) i])
    ultimately show ?thesis by blast
  qed
  have zero: "self_id (nds ! ?p) = 0 \<Longrightarrow> ?p = 0"
    using ring_first_id_least [OF r _ idx(2)] by (cases "?p = 0") auto
  have two: "?n \<noteq> 1 \<Longrightarrow> ?s = ?p \<and> self_id (nds ! ?p) = 0 \<longleftrightarrow> ?n = 2 \<and> i = 1 \<and> self_id (nds ! 0) = 0"
    using zero i by (auto simp: succ_index_def pred_index_def split: if_splits)
  have one: "?n = 1 \<Longrightarrow> i = ring_owner nds h" using ring_owner_less [OF r, of h] i by simp
  have "responsible (nds ! i) h \<longleftrightarrow> single_node (nds ! i) \<or> i = ring_owner nds h"
    by (simp add: responsible_def ring_responsible(1) [OF r i])
  also have "\<dots> \<longleftrightarrow> i = ring_owner nds h \<or> ?n = 2 \<and> i = 1 \<and> self_id (nds ! 0) = 0"
    unfolding single using two one by (cases "?n = 1") auto
  finally show ?thesis .
qed

subsection \<open>Properties\<close>

text \<open>Three nodes on one host, and two of which one has the identifier 0.\<close>

definition host_node :: "u16 \<Rightarrow> u16 \<Rightarrow> u16 \<times> u16 \<Rightarrow> u16 \<times> u16 \<Rightarrow> node" where
  "host_node ident port succ pred = \<lparr>self_id = ident,
     successor = \<lparr>peer_id = fst succ, peer_ip = ''127.0.0.1'', peer_port = snd succ\<rparr>,
     predecessor = \<lparr>peer_id = fst pred, peer_ip = ''127.0.0.1'', peer_port = snd pred\<rparr>,
     self_ip = ''127.0.0.1'', self_port = port, have_reply = False, reply_peer = no_peer, reply_prev_id = 0,
     resources = initial_resources\<rparr>"

definition three_nodes :: "node list" where
  "three_nodes = [host_node 100 4711 (200, 4712) (300, 4713), host_node 200 4712 (300, 4713) (100, 4711),
     host_node 300 4713 (100, 4711) (200, 4712)]"

definition two_nodes :: "node list" where
  "two_nodes = [host_node 0 4711 (200, 4712) (200, 4712), host_node 200 4712 (0, 4711) (0, 4711)]"

lemma local_address: "inet_ntop (address_bytes ''127.0.0.1'') = ''127.0.0.1''"
  by code_simp

lemma ring_three_nodes: "ring three_nodes"
  unfolding ring_def
  by (auto simp: three_nodes_def host_node_def peer_of_def address_def local_address succ_index_def pred_index_def
      All_less_Suc)

lemma ring_two_nodes: "ring two_nodes"
  unfolding ring_def
  by (auto simp: two_nodes_def host_node_def peer_of_def address_def local_address succ_index_def pred_index_def
      All_less_Suc)

text \<open>C7: In a ring whose nodes know their two neighbours, exactly one node takes itself to be responsible
  for a hash: the first one, going up the identifiers, that is not below it, or the first of all.
  There is one exception: in a ring of two nodes of which one has the identifier 0, the default, the
  other one takes itself to be alone and answers for every hash.\<close>

theorem one_node_is_responsible:
  assumes "ring nds" and "i < length nds"
  shows "responsible (nds ! i) h \<longleftrightarrow>
    i = (let k = length (takeWhile (\<lambda>nd. self_id nd < h) nds) in if k < length nds then k else 0)
    \<or> length nds = 2 \<and> i = 1 \<and> self_id (nds ! 0) = 0"
proof -
  have "takeWhile (\<lambda>x. x < h) (map self_id nds) = map self_id (takeWhile (\<lambda>nd. self_id nd < h) nds)"
    by (simp add: takeWhile_map comp_def)
  with ring_responsible_at [OF assms, of h] show ?thesis by (simp add: ring_owner_def owner_def Let_def)
qed

lemma one_node_is_responsible_witness:
  "responsible (three_nodes ! 1) 150 \<and> \<not> responsible (three_nodes ! 0) 150 \<and> \<not> responsible (three_nodes ! 2) 150
    \<and> responsible (two_nodes ! 1) 201 \<and> responsible (two_nodes ! 0) 201"
  using one_node_is_responsible [OF ring_three_nodes, of 0 150] one_node_is_responsible [OF ring_three_nodes, of 1 150]
    one_node_is_responsible [OF ring_three_nodes, of 2 150] one_node_is_responsible [OF ring_two_nodes, of 0 201]
    one_node_is_responsible [OF ring_two_nodes, of 1 201]
  by (simp add: three_nodes_def two_nodes_def host_node_def)

text \<open>C4: Lookups end.  A lookup message that any node of the ring receives, from any originator, is passed
  on from node to node at most once around the ring; after that many messages a reply is sent to the
  originator's address, and it names the node that is responsible for the hash, with its
  predecessor's identifier.\<close>

theorem lookup_finds_owner:
  assumes "ring nds" and "i < length nds" and "length oaddr = 4"
  shows "chase (length nds) nds i (build_message LOOKUP h oid oaddr oport) =
    Some ((oaddr, oport),
      (let nd = nds ! ring_owner nds h
       in build_message REPLY (peer_id (predecessor nd)) (self_id nd) (address_bytes (self_ip nd)) (self_port nd)))
    \<and> is_responsible h (self_id (nds ! ring_owner nds h)) (peer_id (predecessor (nds ! ring_owner nds h)))"
proof -
  have o: "ring_owner nds h < length nds" by (rule ring_owner_less [OF assms(1)])
  then have "ring_distance (length nds) i (ring_owner nds h) < length nds"
    using assms(2) by (auto simp: ring_distance_def)
  from chase_finds_owner [OF assms(1,3) refl assms(2) this, of oid oport] ring_responsible(1) [OF assms(1) o, of h]
  show ?thesis by (simp add: owner_reply_def)
qed

lemma lookup_finds_owner_witness:
  "chase 3 three_nodes 1 (build_message LOOKUP 60 9 [CHR 0x01, CHR 0x02, CHR 0x03, CHR 0x04] 80) =
    Some (([CHR 0x01, CHR 0x02, CHR 0x03, CHR 0x04], 80),
      build_message REPLY 300 100 (address_bytes ''127.0.0.1'') 4711)"
proof -
  let ?a = "[CHR 0x01, CHR 0x02, CHR 0x03, CHR 0x04]"
  have "1 < length three_nodes" "length ?a = 4" "length three_nodes = 3" by (simp_all add: three_nodes_def)
  moreover have "ring_owner three_nodes 60 = 0"
    by (simp add: ring_owner_def owner_def three_nodes_def host_node_def Let_def)
  moreover have "three_nodes ! 0 = host_node 100 4711 (200, 4712) (300, 4713)" by (simp add: three_nodes_def)
  ultimately show ?thesis
    using lookup_finds_owner [OF ring_three_nodes, of 1 ?a 60 9 80] by (simp add: host_node_def)
qed

text \<open>The events between two requests to one node: the lookup it has sent travels, the reply arrives.\<close>

definition lookup_settles :: "node list \<Rightarrow> nat \<Rightarrow> node \<Rightarrow> effect list \<Rightarrow> node \<Rightarrow> bool" where
  "lookup_settles nds i nd es nd' \<longleftrightarrow>
     es = [] \<and> nd' = nd
     \<or> (\<exists>a port msg j reply. es = [Udp_send a port msg] \<and> find_address nds (a, port) = Some j
          \<and> chase (length nds) nds j msg = Some (address (nds ! i), reply) \<and> handle_datagram nd reply = (nd', []))"

lemma two_requests:
  assumes r: "ring nds" and three: "3 \<le> length nds" and i: "i < length nds" and empty: "\<not> have_reply (nds ! i)"
    and req1: "good_head m u ver hs" "body_length hs = Some len" "keeps_open hs" "length (head_text m u ver hs) + len \<le> n"
    and req2: "good_head m' u' ver' hs'" "body_length hs' = Some len'" "keeps_open hs'" "length (head_text m' u' ver' hs') + len' \<le> n'"
    and other: "i \<noteq> ring_owner nds (pseudo_hash u)" "i \<noteq> ring_owner nds (pseudo_hash u')"
  shows "\<exists>nd1 es nd2 mem1 mem2.
    process_packet fresh (nds ! i) (head_text m u ver hs @ body) n =
      Inr (int (length (head_text m u ver hs) + len), nd1, Tcp_send service_unavailable # es, mem1)
    \<and> lookup_settles nds i nd1 es nd2
    \<and> process_packet fresh nd2 (head_text m' u' ver' hs' @ body') n' =
      Inr (int (length (head_text m' u' ver' hs') + len'), nd2\<lparr>have_reply := False\<rparr>,
        [send_redirect (peer_of (nds ! ring_owner nds (pseudo_hash u))) u'], mem2)"
proof -
  from refer_twice [OF r three i other empty, of u u'] obtain nd1 es nd2 where
    first: "\<not> responsible (nds ! i) (pseudo_hash u)"
      "refer (nds ! i) u (pseudo_hash u) = (nd1, Tcp_send service_unavailable # es)"
    and settles: "lookup_settles nds i nd1 es nd2"
    and second: "\<not> responsible nd2 (pseudo_hash u')"
      "refer nd2 u' (pseudo_hash u') =
        (nd2\<lparr>have_reply := False\<rparr>, [send_redirect (peer_of (nds ! ring_owner nds (pseudo_hash u))) u'])"
    unfolding lookup_settles_def by blast
  from process_packet_refers [OF req1 first, of fresh body] process_packet_refers [OF req2 second, of fresh body'] settles
  show ?thesis by blast
qed

text \<open>C3: In a ring of three or more nodes a client that asks a node for a key of another node, twice, is sent
  to the right place.  The first request is answered with 503; what the node sends to its peers, if it
  sends anything, is a lookup whose reply comes back to it; and the second request, after that, is
  answered with a redirect to the node that is responsible for the key.\<close>

theorem second_request_redirects_to_owner:
  assumes "ring nds" and "3 \<le> length nds" and "i < length nds" and "\<not> have_reply (nds ! i)"
    and "good_head m u ver hs" and "body_length hs = Some len" and "keeps_open hs"
    and "length (head_text m u ver hs) + len \<le> n" and "i \<noteq> ring_owner nds (pseudo_hash u)"
  shows "\<exists>nd1 es nd2 mem1 mem2.
    process_packet fresh (nds ! i) (head_text m u ver hs @ body) n =
      Inr (int (length (head_text m u ver hs) + len), nd1, Tcp_send service_unavailable # es, mem1)
    \<and> lookup_settles nds i nd1 es nd2
    \<and> process_packet fresh nd2 (head_text m u ver hs @ body) n =
      Inr (int (length (head_text m u ver hs) + len), nd2\<lparr>have_reply := False\<rparr>,
        [send_redirect (peer_of (nds ! ring_owner nds (pseudo_hash u))) u], mem2)
    \<and> responsible (nds ! ring_owner nds (pseudo_hash u)) (pseudo_hash u)"
  using two_requests [OF assms(1-8) assms(5-8) assms(9,9), of fresh body body]
    ring_responsible_at [OF assms(1) ring_owner_less [OF assms(1), of "pseudo_hash u"]] by blast

text \<open>What the witnesses need: hashes of two keys, and a request without headers.\<close>

lemma hash_a: "pseudo_hash ''/a'' = 53406"
  by code_simp

lemma hash_far: "pseudo_hash [CHR 0xFE, CHR 0xD4] = 299"
  by code_simp

lemma three_nodes_facts:
  "length three_nodes = 3" "\<not> have_reply (three_nodes ! 1)" "ring_owner three_nodes 53406 = 0" "ring_owner three_nodes 299 = 2"
  "peer_of (three_nodes ! 0) = \<lparr>peer_id = 100, peer_ip = ''127.0.0.1'', peer_port = 4711\<rparr>"
  by (simp_all add: three_nodes_def host_node_def ring_owner_def owner_def Let_def peer_of_def)

lemma plain_get:
  "good_head ''GET'' ''/a'' ''X'' []" "body_length [] = Some 0" "keeps_open []"
  "length (head_text ''GET'' ''/a'' ''X'' []) + 0 \<le> 12"
  by (code_simp, simp_all add: body_length_def keeps_open_def head_text_def request_line_def line_separator_def)

lemma second_request_redirects_to_owner_witness:
  "\<exists>nd2 mem. process_packet (\<lambda>i. NUL) nd2 (head_text ''GET'' ''/a'' ''X'' []) 12 =
    Inr (12, nd2\<lparr>have_reply := False\<rparr>,
      [send_redirect \<lparr>peer_id = 100, peer_ip = ''127.0.0.1'', peer_port = 4711\<rparr> ''/a''], mem)"
proof -
  have i: "3 \<le> length three_nodes" "1 < length three_nodes" "1 \<noteq> ring_owner three_nodes (pseudo_hash ''/a'')"
    by (simp_all add: three_nodes_facts hash_a)
  have l: "length (head_text ''GET'' ''/a'' ''X'' []) = 12"
    by (simp add: head_text_def request_line_def line_separator_def)
  from second_request_redirects_to_owner [OF ring_three_nodes i(1,2) three_nodes_facts(2) plain_get i(3),
      of "\<lambda>i. NUL" "[]"] three_nodes_facts(3,5)
  show ?thesis by (auto simp: hash_a l)
qed

text \<open>C34: The cached reply is used for whatever request comes next.  When the second request is for another
  key that the node does not own, the client is redirected to the node responsible for the first key,
  whether or not that node is responsible for the key that was asked for.\<close>

theorem cached_reply_serves_any_key:
  assumes "ring nds" and "3 \<le> length nds" and "i < length nds" and "\<not> have_reply (nds ! i)"
    and "good_head m u ver hs" and "body_length hs = Some len" and "keeps_open hs"
    and "length (head_text m u ver hs) + len \<le> n" and "i \<noteq> ring_owner nds (pseudo_hash u)"
    and "good_head m' u' ver' hs'" and "body_length hs' = Some len'" and "keeps_open hs'"
    and "length (head_text m' u' ver' hs') + len' \<le> n'" and "i \<noteq> ring_owner nds (pseudo_hash u')"
  shows "\<exists>nd1 es nd2 mem1 mem2.
    process_packet fresh (nds ! i) (head_text m u ver hs @ body) n =
      Inr (int (length (head_text m u ver hs) + len), nd1, Tcp_send service_unavailable # es, mem1)
    \<and> lookup_settles nds i nd1 es nd2
    \<and> process_packet fresh nd2 (head_text m' u' ver' hs' @ body') n' =
      Inr (int (length (head_text m' u' ver' hs') + len'), nd2\<lparr>have_reply := False\<rparr>,
        [send_redirect (peer_of (nds ! ring_owner nds (pseudo_hash u))) u'], mem2)"
  by (rule two_requests [OF assms(1-8) assms(10-13) assms(9,14)])

lemma cached_reply_serves_any_key_witness:
  "ring_owner three_nodes (pseudo_hash [CHR 0xFE, CHR 0xD4]) = 2 \<and>
   (\<exists>nd2 mem. process_packet (\<lambda>i. NUL) nd2 (head_text ''GET'' [CHR 0xFE, CHR 0xD4] ''X'' []) 12 =
    Inr (12, nd2\<lparr>have_reply := False\<rparr>,
      [send_redirect \<lparr>peer_id = 100, peer_ip = ''127.0.0.1'', peer_port = 4711\<rparr> [CHR 0xFE, CHR 0xD4]], mem))"
proof -
  let ?u = "[CHR 0xFE, CHR 0xD4]"
  have i: "3 \<le> length three_nodes" "1 < length three_nodes" "1 \<noteq> ring_owner three_nodes (pseudo_hash ''/a'')"
    "1 \<noteq> ring_owner three_nodes (pseudo_hash ?u)"
    by (simp_all add: three_nodes_facts hash_a hash_far)
  have g: "good_head ''GET'' ?u ''X'' []" by code_simp
  have l: "length (head_text ''GET'' ?u ''X'' []) = 12"
    by (simp add: head_text_def request_line_def line_separator_def)
  then have "length (head_text ''GET'' ?u ''X'' []) + 0 \<le> 12" by simp
  from cached_reply_serves_any_key [OF ring_three_nodes i(1,2) three_nodes_facts(2) plain_get i(3) g plain_get(2,3) this i(4),
      of "\<lambda>i. NUL" "[]" "[]"] three_nodes_facts(3,5)
  show ?thesis by (auto simp: hash_a hash_far l three_nodes_facts(4))
qed

text \<open>In a ring of two nodes no lookup is needed: a node that does not take itself to be responsible
  redirects the client at once, and to the node that is responsible; its state does not change.\<close>

theorem two_node_ring_redirects:
  assumes "ring nds" and "length nds = 2" and "i < length nds" and "\<not> responsible (nds ! i) (pseudo_hash u)"
    and "good_head m u ver hs" and "body_length hs = Some len" and "keeps_open hs"
    and "length (head_text m u ver hs) + len \<le> n"
  shows "\<exists>mem'. process_packet fresh (nds ! i) (head_text m u ver hs @ body) n =
    Inr (int (length (head_text m u ver hs) + len), nds ! i,
      [send_redirect (peer_of (nds ! ring_owner nds (pseudo_hash u))) u], mem')
    \<and> responsible (nds ! ring_owner nds (pseudo_hash u)) (pseudo_hash u)"
proof -
  let ?o = "ring_owner nds (pseudo_hash u)" and ?s = "succ_index (length nds) i"
  have o: "?o < length nds" by (rule ring_owner_less [OF assms(1)])
  have "i \<noteq> ?o" using ring_responsible_at [OF assms(1,3)] assms(4) by blast
  then have s: "?s = ?o" "pred_index (length nds) i = ?s"
    using assms(2,3) o by (auto simp: succ_index_def pred_index_def)
  have "refer (nds ! i) u (pseudo_hash u) = (nds ! i, [send_redirect (peer_of (nds ! ?o)) u])"
    using ring_neighbours(1,2) [OF assms(1,3)] s by (simp add: refer_def)
  from process_packet_refers [OF assms(5-8,4) this, of fresh body] ring_responsible_at [OF assms(1) o, of "pseudo_hash u"]
  show ?thesis by blast
qed

lemma two_node_ring_redirects_witness:
  "\<exists>mem'. process_packet (\<lambda>i. NUL) (two_nodes ! 0) (head_text ''GET'' [CHR 0xFF, CHR 0x4F] ''X'' []) 12 =
    Inr (12, two_nodes ! 0,
      [send_redirect \<lparr>peer_id = 200, peer_ip = ''127.0.0.1'', peer_port = 4712\<rparr> [CHR 0xFF, CHR 0x4F]], mem')"
proof -
  let ?u = "[CHR 0xFF, CHR 0x4F]"
  have h: "pseudo_hash ?u = 176" by code_simp
  have o: "ring_owner two_nodes 176 = 1" "peer_of (two_nodes ! 1) = \<lparr>peer_id = 200, peer_ip = ''127.0.0.1'', peer_port = 4712\<rparr>"
    by (simp_all add: two_nodes_def host_node_def ring_owner_def owner_def Let_def peer_of_def)
  have two: "length two_nodes = 2" by (simp add: two_nodes_def)
  then have "\<not> responsible (two_nodes ! 0) (pseudo_hash ?u)"
    using ring_responsible_at [OF ring_two_nodes, of 0 176] by (simp add: h o)
  moreover have "good_head ''GET'' ?u ''X'' []" by code_simp
  moreover have l: "length (head_text ''GET'' ?u ''X'' []) = 12"
    by (simp add: head_text_def request_line_def line_separator_def)
  ultimately show ?thesis
    using two_node_ring_redirects [OF ring_two_nodes two, of 0 ?u "''GET''" "''X''" "[]" 0 12 "\<lambda>i. NUL" "[]"] plain_get(2,3)
    by (simp add: h o(1) o(2) [unfolded One_nat_def] two)
qed

end
