(* ===== verification/Chord_Cluster.thy ===== *)
theory Chord_Cluster
  imports Chord_Ring
begin

section \<open>A running ring\<close>

text \<open>
  All nodes of a ring with the datagrams between them.  A datagram that has been sent can be delivered
  any number of times, in any order, or never.  A step is the delivery of one, or a node serving what
  stands in a client's buffer, whatever that is.
\<close>

record cluster =
  cl_nodes :: "node list"
  cl_net :: "((char list \<times> u16) \<times> char list) list"

fun datagrams_of :: "effect list \<Rightarrow> ((char list \<times> u16) \<times> char list) list" where
  "datagrams_of [] = []"
| "datagrams_of (Udp_send a port m # es) = ((a, port), m) # datagrams_of es"
| "datagrams_of (e # es) = datagrams_of es"

inductive cluster_step :: "(nat \<Rightarrow> char) \<Rightarrow> cluster \<Rightarrow> cluster \<Rightarrow> bool" for fresh where
  deliver: "i < length (cl_nodes c) \<Longrightarrow> (address (cl_nodes c ! i), m) \<in> set (cl_net c) \<Longrightarrow>
    handle_datagram (cl_nodes c ! i) m = (nd, es) \<Longrightarrow>
    cluster_step fresh c \<lparr>cl_nodes = (cl_nodes c)[i := nd], cl_net = cl_net c @ datagrams_of es\<rparr>"
| serve: "i < length (cl_nodes c) \<Longrightarrow> process_packet fresh (cl_nodes c ! i) mem n = Inr (r, nd, es, mem') \<Longrightarrow>
    cluster_step fresh c \<lparr>cl_nodes = (cl_nodes c)[i := nd], cl_net = cl_net c @ datagrams_of es\<rparr>"

inductive cluster_reachable :: "(nat \<Rightarrow> char) \<Rightarrow> node list \<Rightarrow> cluster \<Rightarrow> bool" for fresh nds where
  start: "cluster_reachable fresh nds \<lparr>cl_nodes = nds, cl_net = []\<rparr>"
| step: "cluster_reachable fresh nds c \<Longrightarrow> cluster_step fresh c c' \<Longrightarrow> cluster_reachable fresh nds c'"

subsection \<open>The invariant\<close>

text \<open>
  What is on its way: lookups of a node for a hash that it does not own, and replies for such a lookup,
  to the node that asked.  What is cached: another member of the ring.  What is stored: the resources
  of the start and those that the node is responsible for.
\<close>

definition lookup_ok :: "node list \<Rightarrow> char list \<Rightarrow> bool" where
  "lookup_ok nds m \<longleftrightarrow> (\<exists>j h. j < length nds \<and> ring_owner nds h \<noteq> j \<and> m = lookup_message (nds ! j) h)"

definition reply_ok :: "node list \<Rightarrow> (char list \<times> u16) \<times> char list \<Rightarrow> bool" where
  "reply_ok nds d \<longleftrightarrow> (\<exists>j h. j < length nds \<and> ring_owner nds h \<noteq> j \<and> d = (address (nds ! j), owner_reply nds h))"

definition other_member :: "node list \<Rightarrow> nat \<Rightarrow> chord_peer \<Rightarrow> bool" where
  "other_member nds i p \<longleftrightarrow> (\<exists>j. j < length nds \<and> j \<noteq> i \<and> p = peer_of (nds ! j))"

definition keys_ok :: "node \<Rightarrow> node \<Rightarrow> bool" where
  "keys_ok nd0 nd \<longleftrightarrow>
     (\<forall>k \<in> set (slot_keys (resources nd)). k \<in> set (slot_keys (resources nd0)) \<or> responsible nd0 (pseudo_hash k))"

definition node_ok :: "node list \<Rightarrow> nat \<Rightarrow> node \<Rightarrow> bool" where
  "node_ok nds i nd \<longleftrightarrow> same_place (nds ! i) nd \<and> keys_ok (nds ! i) nd
     \<and> (have_reply nd \<longrightarrow> other_member nds i (reply_peer nd))"

definition cluster_ok :: "node list \<Rightarrow> cluster \<Rightarrow> bool" where
  "cluster_ok nds c \<longleftrightarrow> length (cl_nodes c) = length nds \<and> (\<forall>i < length nds. node_ok nds i (cl_nodes c ! i))
     \<and> (\<forall>d \<in> set (cl_net c). lookup_ok nds (snd d) \<or> reply_ok nds d)"

lemma same_place_address: "same_place nd nd' \<Longrightarrow> address nd' = address nd"
  by (simp add: same_place_def address_def)

lemma same_place_lookup: "same_place nd nd' \<Longrightarrow> handle_lookup nd' m = handle_lookup nd m"
  by (simp add: same_place_def handle_lookup_def Let_def)

lemma same_place_responsible: "same_place nd nd' \<Longrightarrow> responsible nd' h = responsible nd h"
  by (simp add: same_place_def responsible_def single_node_def)

lemma lookup_message_alt:
  "lookup_message nd h = build_message LOOKUP h (self_id nd) (fst (address nd)) (snd (address nd))"
  by (simp add: lookup_message_def address_def)

lemma datagrams_of_append [simp]: "datagrams_of (es @ fs) = datagrams_of es @ datagrams_of fs"
  by (induction es rule: datagrams_of.induct) auto

text \<open>A lookup that is delivered is answered to the node that asked, or passed on.\<close>

lemma deliver_lookup:
  assumes r: "ring nds" and i: "i < length nds" and m: "lookup_ok nds m" and nd: "same_place (nds ! i) nd"
    and run: "handle_datagram nd m = (nd', es)"
  shows "nd' = nd \<and> (\<forall>d \<in> set (datagrams_of es). lookup_ok nds (snd d) \<or> reply_ok nds d)"
proof -
  from m obtain j h where j: "j < length nds" "ring_owner nds h \<noteq> j" and mj: "m = lookup_message (nds ! j) h"
    by (auto simp: lookup_ok_def)
  let ?a = "address (nds ! j)"
  have len: "length (fst ?a) = 4" by (simp add: address_def)
  have flag: "m ! 0 = LOOKUP" "length m = MSG_SIZE"
    using len length_build_message [OF len] by (simp_all add: mj lookup_message_alt build_message_def)
  have "handle_datagram nd m = (nd, handle_lookup (nds ! i) m)" "handle_datagram (nds ! i) m = (nds ! i, handle_lookup (nds ! i) m)"
    using flag same_place_lookup [OF nd] by (simp_all add: handle_datagram_def)
  with run have es: "nd' = nd" "es = snd (handle_datagram (nds ! i) m)" by simp_all
  have "es = [Udp_send (fst ?a) (snd ?a) (owner_reply nds h)] \<or> (\<exists>a p. es = [Udp_send a p m])"
    using lookup_step [OF r i len mj [unfolded lookup_message_alt]] es(2) by auto
  moreover have "reply_ok nds (?a, owner_reply nds h)" using j by (auto simp: reply_ok_def)
  ultimately show ?thesis using es(1) m by auto
qed

text \<open>A reply that is delivered reaches the node that asked; what it caches is another node.\<close>

lemma deliver_reply:
  assumes r: "ring nds" and i: "i < length nds" and m: "reply_ok nds (address nd, m)" and nd: "node_ok nds i nd"
    and run: "handle_datagram nd m = (nd', es)"
  shows "es = [] \<and> node_ok nds i nd'"
proof -
  from m obtain j h where j: "j < length nds" "ring_owner nds h \<noteq> j" "address nd = address (nds ! j)"
    and mh: "m = owner_reply nds h" by (auto simp: reply_ok_def)
  have "distinct (map address nds)" using r by (simp add: ring_def)
  moreover have "address (nds ! i) = address (nds ! j)" using same_place_address [of "nds ! i" nd] nd j(3) by (simp add: node_ok_def)
  ultimately have "j = i" using i j(1) by (metis distinct_conv_nth length_map nth_map)
  then have "other_member nds i (peer_of (nds ! ring_owner nds h))"
    using j(2) ring_owner_less [OF r, of h] by (auto simp: other_member_def)
  then show ?thesis
    using run handle_owner_reply [OF r, of nd h] nd by (auto simp: mh node_ok_def keys_ok_def same_place_def)
qed

text \<open>
  What a node does that is asked for a key of another node: it redirects the client to another node, or
  answers 503 and does nothing else but caching its successor or sending it a lookup.
\<close>

definition referred :: "node list \<Rightarrow> nat \<Rightarrow> string \<Rightarrow> node \<Rightarrow> effect list \<Rightarrow> bool" where
  "referred nds i u nd es \<longleftrightarrow>
     (let s = nds ! succ_index (length nds) i
      in (\<exists>j. j < length nds \<and> j \<noteq> i \<and> es = [send_redirect (peer_of (nds ! j)) u])
         \<or> es = [Tcp_send service_unavailable] \<and> have_reply nd \<and> reply_peer nd = peer_of s
         \<or> es = [Tcp_send service_unavailable,
              Udp_send (fst (address s)) (snd (address s)) (lookup_message (nds ! i) (pseudo_hash u))])"

lemma refer_ok:
  assumes r: "ring nds" and i: "i < length nds" and nd: "node_ok nds i nd" and h: "\<not> responsible nd (pseudo_hash u)"
    and run: "refer nd u (pseudo_hash u) = (nd', es)"
  shows "node_ok nds i nd' \<and> (\<forall>d \<in> set (datagrams_of es). lookup_ok nds (snd d))"
    and "resources nd' = resources nd" and "referred nds i u nd' es"
proof -
  let ?h = "pseudo_hash u"
  have place: "same_place (nds ! i) nd" using nd by (simp add: node_ok_def)
  have resp: "\<not> responsible (nds ! i) ?h" using h same_place_responsible [OF place] by simp
  then have owner: "ring_owner nds ?h \<noteq> i" using ring_responsible_at [OF r i] by blast
  let ?s = "succ_index (length nds) i"
  have less: "?s < length nds" using succ_pred_index [OF i] by simp
  have succ: "successor nd = peer_of (nds ! ?s)"
    using ring_neighbours(1) [OF r i] place by (simp add: same_place_def)
  have "?s \<noteq> i"
    using owner ring_owner_less [OF r, of ?h] i by (auto simp: succ_index_def split: if_splits)
  with less succ have member: "other_member nds i (successor nd)" by (auto simp: other_member_def)
  have msg: "lookup_message nd ?h = lookup_message (nds ! i) ?h"
    using place by (simp add: lookup_message_def same_place_def)
  then have lookup: "lookup_ok nds (lookup_message nd ?h)" using owner i by (auto simp: lookup_ok_def)
  have dgram: "send_datagram (peer_ip (successor nd)) (peer_port (successor nd)) (lookup_message nd ?h)
      = [Udp_send (fst (address (nds ! ?s))) (snd (address (nds ! ?s))) (lookup_message (nds ! i) ?h)]"
    using ring_pton [OF r less] by (simp add: send_datagram_def succ msg peer_of_def address_def)
  show "node_ok nds i nd' \<and> (\<forall>d \<in> set (datagrams_of es). lookup_ok nds (snd d))"
    using run nd member lookup
    by (auto simp: refer_def node_ok_def keys_ok_def same_place_def send_datagram_def send_redirect_def split: if_splits option.splits)
  show "resources nd' = resources nd" using run by (auto simp: refer_def split: if_splits)
  show "referred nds i u nd' es"
    using run nd member dgram succ
    by (auto simp: refer_def referred_def node_ok_def other_member_def Let_def split: if_splits)
qed

text \<open>A request adds no key but its own, and that only where the node answers for it.\<close>

lemma keys_after_update:
  "tp_key t = None \<or> tp_key t = Some k \<Longrightarrow> set (slot_keys (ts[i := t])) \<subseteq> insert k (set (slot_keys ts))"
proof (induction ts arbitrary: i)
  case (Cons s ts)
  then show ?case by (cases i) (fastforce split: option.splits)+
qed simp

lemma send_reply_keys:
  assumes "send_reply fresh m u p len mem ts = Inr (ts', reply)"
  shows "set (slot_keys ts') \<subseteq> insert u (set (slot_keys ts))"
proof -
  from assms consider "ts' = ts"
    | i t where "ts' = ts[i := t]" "tp_key t = None \<or> tp_key t = Some u"
    by (auto simp: send_reply_def data_set_def data_delete_def dest!: data_find_Some
        split: if_splits option.splits sum.splits prod.splits)
  then show ?thesis using keys_after_update [of _ u ts] by cases auto
qed

lemma parse_request_uri: "parse_request mem n rq = Inr (k, req, mem') \<Longrightarrow> 0 < k \<Longrightarrow> rq_uri req \<noteq> None"
  using parse_request_cases [of mem n rq k req mem'] by auto

lemma serve_ok:
  assumes r: "ring nds" and i: "i < length nds" and nd: "node_ok nds i nd"
    and run: "process_packet fresh nd mem n = Inr (r', nd', es, mem')"
  shows "node_ok nds i nd' \<and> (\<forall>d \<in> set (datagrams_of es). lookup_ok nds (snd d))"
proof -
  from run obtain k req mem1 where parse: "parse_request mem n fresh_request = Inr (k, req, mem1)"
    by (auto simp: process_packet_def split: sum.splits)
  let ?u = "non_null (rq_uri req)" and ?h = "if rq_uri req = None then 0 else pseudo_hash (non_null (rq_uri req))"
  from run parse consider
      "nd' = nd" "datagrams_of es = []"
    | ts reply m p l where "0 < k" "responsible nd ?h"
        "send_reply fresh m ?u p l mem1 (resources nd) = Inr (ts, reply)" "nd' = nd\<lparr>resources := ts\<rparr>" "datagrams_of es = []"
    | "0 < k" "\<not> responsible nd ?h" "refer nd ?u ?h = (nd', es)"
  proof (cases "0 < k")
    case False
    with run parse show ?thesis by (intro that(1)) (auto simp: process_packet_def split: if_splits)
  next
    case pos: True
    show ?thesis
    proof (cases "responsible nd ?h")
      case False
      obtain nd1 es1 where "refer nd ?u ?h = (nd1, es1)" by fastforce
      with run parse pos False show ?thesis by (intro that(3)) (simp_all add: process_packet_def Let_def)
    next
      case True
      let ?s = "send_reply fresh (non_null (rq_method req)) ?u (rq_payload req) (rq_payload_length req) mem1 (resources nd)"
      from run parse pos True obtain ts reply where "?s = Inr (ts, reply)"
        by (cases ?s) (auto simp: process_packet_def Let_def)
      with run parse pos True show ?thesis by (intro that(2)) (auto simp: process_packet_def Let_def)
    qed
  qed
  then show ?thesis
  proof cases
    case 2
    have "rq_uri req \<noteq> None" using parse_request_uri [OF parse 2(1)] .
    then have "responsible (nds ! i) (pseudo_hash ?u)"
      using 2(2) nd same_place_responsible by (auto simp: node_ok_def)
    then have "node_ok nds i nd'"
      using send_reply_keys [OF 2(3)] nd 2(4) by (auto simp: node_ok_def keys_ok_def same_place_def)
    with 2(5) show ?thesis by simp
  next
    case 3
    have "rq_uri req \<noteq> None" using parse_request_uri [OF parse 3(1)] .
    with 3(2,3) show ?thesis using refer_ok(1) [OF r i nd, of ?u nd' es] by simp
  qed (use nd in simp)
qed

lemma cluster_step_ok:
  assumes "cluster_step fresh c c'" and r: "ring nds" and ok: "cluster_ok nds c"
  shows "cluster_ok nds c'"
proof -
  have net: "cluster_ok nds \<lparr>cl_nodes = (cl_nodes c)[i := nd], cl_net = cl_net c @ ds\<rparr>"
    if "node_ok nds i nd" "\<forall>d \<in> set ds. lookup_ok nds (snd d) \<or> reply_ok nds d" for i nd ds
    using that ok by (cases "i < length nds") (auto simp: cluster_ok_def nth_list_update)
  from assms(1) show ?thesis
  proof cases
    case (deliver i m nd es)
    with ok have i: "i < length nds" "node_ok nds i (cl_nodes c ! i)"
      "lookup_ok nds m \<or> reply_ok nds (address (cl_nodes c ! i), m)"
      by (auto simp: cluster_ok_def)
    then have "node_ok nds i nd \<and> (\<forall>d \<in> set (datagrams_of es). lookup_ok nds (snd d) \<or> reply_ok nds d)"
      using deliver_lookup [OF r i(1) _ _ deliver(4)] deliver_reply [OF r i(1) _ i(2) deliver(4)]
      by (auto simp: node_ok_def)
    with deliver(1) net show ?thesis by blast
  next
    case (serve i mem n q nd es mem')
    with ok have i: "i < length nds" "node_ok nds i (cl_nodes c ! i)" by (auto simp: cluster_ok_def)
    from serve_ok [OF r i serve(3)] serve(1) net show ?thesis by blast
  qed
qed

definition quiet :: "node list \<Rightarrow> bool" where
  "quiet nds \<longleftrightarrow> (\<forall>nd \<in> set nds. \<not> have_reply nd)"

lemma cluster_reachable_ok: "cluster_reachable fresh nds c \<Longrightarrow> ring nds \<Longrightarrow> quiet nds \<Longrightarrow> cluster_ok nds c"
proof (induction rule: cluster_reachable.induct)
  case start
  then show ?case by (auto simp: cluster_ok_def node_ok_def keys_ok_def quiet_def same_place_def)
next
  case (step c c')
  then show ?case using cluster_step_ok by blast
qed

subsection \<open>Properties\<close>

text \<open>A ring of three nodes of which the first has been sent a PUT, for the witnesses.\<close>

lemma put_reachable:
  obtains c where "cluster_reachable (\<lambda>i. NUL) three_nodes c"
    and "data_get ''/a'' (resources (cl_nodes c ! 0)) = Some ''hi''"
proof -
  let ?nd = "three_nodes ! 0" and ?hs = "[(''Content-Length'', '' 2'')]"
  have len: "0 < length three_nodes" by (simp add: three_nodes_facts)
  have resp: "responsible ?nd (pseudo_hash ''/a'')"
    using ring_responsible_at [OF ring_three_nodes len] by (simp add: hash_a three_nodes_facts(3))
  have tab: "data_wf (resources ?nd)" "''/a'' \<notin> set (slot_keys (resources ?nd))" "free_slot (resources ?nd) \<noteq> None"
    using initial_resources_facts by (simp_all add: three_nodes_def host_node_def)
  obtain ts where put: "answer (\<lambda>i. NUL) ?nd ''PUT'' ''/a'' 2 ''hi'' = Inr (?nd\<lparr>resources := ts\<rparr>, [Tcp_send created])"
    and get: "\<forall>k. data_get k ts = (if k = ''/a'' then Some (take 2 ''hi'') else data_get k (resources ?nd))"
    by (rule answer_put_new [OF resp tab, of 2 "''hi''" "\<lambda>i. NUL"]) simp_all
  have g: "good_head ''PUT'' ''/a'' ''X'' ?hs" by code_simp
  have "is_space SP" "\<not> is_space (CHR ''2'')" "is_digit (CHR ''2'')" by code_simp+
  then have b: "body_length ?hs = Some 2" by (simp add: body_length_def number_of_def)
  from process_packet_ok [OF g b order_refl put] obtain r mem where
    "process_packet (\<lambda>i. NUL) ?nd (head_text ''PUT'' ''/a'' ''X'' ?hs @ ''hi'') (length (head_text ''PUT'' ''/a'' ''X'' ?hs) + 2)
      = Inr (r, ?nd\<lparr>resources := ts\<rparr>, [Tcp_send created], mem)" by blast
  from cluster_reachable.step [OF cluster_reachable.start cluster_step.serve [of 0 "\<lparr>cl_nodes = three_nodes, cl_net = []\<rparr>",
      simplified, OF len [unfolded length_greater_0_conv] this]]
  show thesis by (rule that) (use len get in \<open>simp add: nth_list_update\<close>)
qed

lemma quiet_three_nodes: "quiet three_nodes"
  by (simp add: quiet_def three_nodes_def host_node_def)

text \<open>C5: However requests, lookups and replies interleave between the nodes of a ring, also when datagrams are lost,
  repeated or overtake each other, a well-formed request for a key that a node does not answer for
  gets exactly one answer from it: a redirect to another node of the ring, never to itself and never
  outside the ring, and then nothing else is sent; or 503, and then the node either has its successor
  cached for the next request or has sent it one datagram, the lookup of the key.  Its table
  of resources stays as it is.  What the packet handler returns is the length of the request, or an end
  of the connection where a Connection header demands it.\<close>

theorem redirects_name_other_members:
  assumes "ring nds" and "quiet nds" and "cluster_reachable fresh nds c" and "i < length nds"
    and "\<not> responsible (nds ! i) (pseudo_hash u)"
    and "good_head m u ver hs" and "body_length hs = Some len"
    and "length (head_text m u ver hs) + len \<le> n"
  shows "\<exists>nd es mem. process_packet fresh (cl_nodes c ! i) (head_text m u ver hs @ body) n =
      Inr (if keeps_open hs then int (length (head_text m u ver hs) + len) else -1, nd, es, mem)
    \<and> resources nd = resources (cl_nodes c ! i)
    \<and> ((\<exists>j. j < length nds \<and> j \<noteq> i \<and> es = [send_redirect (peer_of (nds ! j)) u])
      \<or> es = [Tcp_send service_unavailable] \<and> have_reply nd
          \<and> reply_peer nd = peer_of (nds ! succ_index (length nds) i)
      \<or> es = [Tcp_send service_unavailable,
           Udp_send (fst (address (nds ! succ_index (length nds) i))) (snd (address (nds ! succ_index (length nds) i)))
             (lookup_message (nds ! i) (pseudo_hash u))])"
proof -
  have nd: "node_ok nds i (cl_nodes c ! i)"
    using cluster_reachable_ok [OF assms(3,1,2)] assms(4) by (simp add: cluster_ok_def)
  then have resp: "\<not> responsible (cl_nodes c ! i) (pseudo_hash u)"
    using assms(5) same_place_responsible by (auto simp: node_ok_def)
  obtain nd' es where run: "refer (cl_nodes c ! i) u (pseudo_hash u) = (nd', es)" by fastforce
  with resp have "answer fresh (cl_nodes c ! i) m u len body = Inr (nd', es)" by (simp add: answer_def)
  from process_packet_ok [OF assms(6-8) this] obtain mem where
    "process_packet fresh (cl_nodes c ! i) (head_text m u ver hs @ body) n =
      Inr (if keeps_open hs then int (length (head_text m u ver hs) + len) else -1, nd', es, mem)" by blast
  with refer_ok(2,3) [OF assms(1,4) nd resp run] show ?thesis
    by (intro exI [of _ nd'] exI [of _ es] exI [of _ mem]) (simp add: referred_def Let_def)
qed

lemma redirects_name_other_members_witness:
  "\<exists>c nd es mem. cluster_reachable (\<lambda>i. NUL) three_nodes c \<and> data_get ''/a'' (resources (cl_nodes c ! 0)) = Some ''hi''
    \<and> process_packet (\<lambda>i. NUL) (cl_nodes c ! 1) (head_text ''GET'' ''/a'' ''X'' []) 12 = Inr (12, nd, es, mem)
    \<and> ((\<exists>j. j < 3 \<and> j \<noteq> 1 \<and> es = [send_redirect (peer_of (three_nodes ! j)) ''/a'']) \<or> hd es = Tcp_send service_unavailable)"
proof -
  obtain c where c: "cluster_reachable (\<lambda>i. NUL) three_nodes c" "data_get ''/a'' (resources (cl_nodes c ! 0)) = Some ''hi''"
    by (rule put_reachable)
  have len: "1 < length three_nodes" by (simp add: three_nodes_facts)
  have resp: "\<not> responsible (three_nodes ! 1) (pseudo_hash ''/a'')"
    unfolding hash_a by code_simp
  have "length (head_text ''GET'' ''/a'' ''X'' []) = 12"
    by (simp add: head_text_def request_line_def line_separator_def)
  with redirects_name_other_members [OF ring_three_nodes quiet_three_nodes c(1) len resp plain_get(1,2), of 12 "[]"]
  obtain nd es mem where
    "process_packet (\<lambda>i. NUL) (cl_nodes c ! 1) (head_text ''GET'' ''/a'' ''X'' []) 12 = Inr (12, nd, es, mem)"
    "(\<exists>j. j < 3 \<and> j \<noteq> 1 \<and> es = [send_redirect (peer_of (three_nodes ! j)) ''/a'']) \<or> hd es = Tcp_send service_unavailable"
    using plain_get(3) by (auto simp: three_nodes_facts(1))
  with c show ?thesis by blast
qed

text \<open>C6: However requests and datagrams interleave, a resource that a client has stored is held only by a node
  that answers for its key: what a node's table holds was there at the start, or the node is
  responsible for it.\<close>

theorem resources_stay_with_owner:
  assumes "ring nds" and "quiet nds" and "cluster_reachable fresh nds c" and "i < length nds"
    and "data_get k (resources (cl_nodes c ! i)) \<noteq> None" and "data_get k (resources (nds ! i)) = None"
  shows "responsible (nds ! i) (pseudo_hash k)"
  using cluster_reachable_ok [OF assms(3,1,2)] assms(4-6)
  by (auto simp: cluster_ok_def node_ok_def keys_ok_def data_get_None)

lemma resources_stay_with_owner_witness:
  "\<exists>c. cluster_reachable (\<lambda>i. NUL) three_nodes c \<and> data_get ''/a'' (resources (cl_nodes c ! 0)) = Some ''hi''
    \<and> responsible (three_nodes ! 0) (pseudo_hash ''/a'')"
proof -
  obtain c where c: "cluster_reachable (\<lambda>i. NUL) three_nodes c" "data_get ''/a'' (resources (cl_nodes c ! 0)) = Some ''hi''"
    by (rule put_reachable)
  have len: "0 < length three_nodes" by (simp add: three_nodes_facts)
  have "data_get ''/a'' (resources (three_nodes ! 0)) = None"
    using initial_resources_facts by (simp add: three_nodes_def host_node_def data_get_None)
  from resources_stay_with_owner [OF ring_three_nodes quiet_three_nodes c(1) len _ this] c
  show ?thesis by auto
qed

end
