(* ===== verification/Posix_Sockets.thy ===== *)
theory Posix_Sockets
  imports C_Prelude
begin

section \<open>The socket calls of a process\<close>

text \<open>
  The calls of one process in their order.  The kernel answers a call by what has been called before
  and the call itself; -1 is failure (for
  \<open>getaddrinfo\<close> and \<open>listen\<close> everything but 0).
\<close>

datatype syscall =
    Getaddrinfo string "string option"
  | Socket_stream
  | Socket_dgram
  | Set_nonblocking int
  | Set_reuseaddr int
  | Bind_to int
  | Listen_on int nat
  | Close_fd int

type_synonym kernel = "syscall list \<Rightarrow> syscall \<Rightarrow> int"

end
