(* ===== verification/Chord_Main.thy ===== *)
theory Chord_Main
  imports Chord_Server Posix_Sockets
begin

section \<open>Sockets and the poll loop of a node (chord-node/webserver.c)\<close>

text \<open>
  The set-up of the two sockets, and \<open>main\<close>'s loop with its array of three \<open>pollfd\<close>s: the listening
  socket, the datagram socket and the connection.  The operating system is a parameter.
\<close>

subsection \<open>Setting up the sockets\<close>

text \<open>\<open>derive_sockaddr\<close>: only whether the name can be resolved matters here; the address stays implicit.\<close>

definition derive_sockaddr :: "kernel \<Rightarrow> string \<Rightarrow> string \<Rightarrow> syscall list \<Rightarrow> (fault + unit) \<times> syscall list" where
  "derive_sockaddr k host port tr =
     (if k tr (Getaddrinfo host (Some port)) \<noteq> 0 then (Inl Exit_failure, tr @ [Getaddrinfo host (Some port)])
      else (Inr (), tr @ [Getaddrinfo host (Some port)]))"

definition setup_server_socket :: "kernel \<Rightarrow> syscall list \<Rightarrow> (fault + int) \<times> syscall list" where
  "setup_server_socket k tr =
     (let sock = k tr Socket_stream; tr = tr @ [Socket_stream] in
      if sock = -1 then (Inl Exit_failure, tr)
      else if k tr (Set_nonblocking sock) = -1 then (Inl Exit_failure, tr @ [Set_nonblocking sock])
      else (let tr = tr @ [Set_nonblocking sock] in
        if k tr (Set_reuseaddr sock) = -1 then (Inl Exit_failure, tr @ [Set_reuseaddr sock])
        else (let tr = tr @ [Set_reuseaddr sock] in
          if k tr (Bind_to sock) = -1 then (Inl Exit_failure, tr @ [Bind_to sock, Close_fd sock])
          else (let tr = tr @ [Bind_to sock] in
            if k tr (Listen_on sock 1) \<noteq> 0 then (Inl Exit_failure, tr @ [Listen_on sock 1])
            else (Inr sock, tr @ [Listen_on sock 1])))))"

definition setup_udp_socket :: "kernel \<Rightarrow> syscall list \<Rightarrow> (fault + int) \<times> syscall list" where
  "setup_udp_socket k tr =
     (let sock = k tr Socket_dgram; tr = tr @ [Socket_dgram] in
      if sock = -1 then (Inl Exit_failure, tr)
      else if k tr (Set_nonblocking sock) = -1 then (Inl Exit_failure, tr @ [Set_nonblocking sock])
      else (let tr = tr @ [Set_nonblocking sock] in
        if k tr (Set_reuseaddr sock) = -1 then (Inl Exit_failure, tr @ [Set_reuseaddr sock])
        else (let tr = tr @ [Set_reuseaddr sock] in
          if k tr (Bind_to sock) = -1 then (Inl Exit_failure, tr @ [Bind_to sock, Close_fd sock])
          else (Inr sock, tr @ [Bind_to sock]))))"

subsection \<open>The state of main\<close>

record pollfd =
  pf_fd :: int
  pf_events :: bool

record main_state =
  mn_server :: int
  mn_udp :: int
  mn_sockets :: "pollfd list"
  mn_sock :: int
  mn_state :: connection_state
  mn_node :: node

text \<open>The state is zero at first; \<open>connection_setup\<close> writes it before its first use.\<close>

definition main_init :: "int \<Rightarrow> int \<Rightarrow> node \<Rightarrow> main_state" where
  "main_init server udp nd =
     \<lparr>mn_server = server, mn_udp = udp,
      mn_sockets = [\<lparr>pf_fd = server, pf_events = True\<rparr>, \<lparr>pf_fd = udp, pf_events = True\<rparr>, \<lparr>pf_fd = -1, pf_events = False\<rparr>],
      mn_sock = 0, mn_state = connection_setup, mn_node = nd\<rparr>"

text \<open>\<open>main\<close> up to the loop: arguments and environment, the address, the sockets.\<close>

definition main_start ::
  "kernel \<Rightarrow> string list \<Rightarrow> (string \<Rightarrow> string option) \<Rightarrow> (fault + main_state) \<times> syscall list" where
  "main_start k argv env =
     (case start_node argv env of Inl f \<Rightarrow> (Inl f, [])
      | Inr nd \<Rightarrow>
     (case derive_sockaddr k (argv ! 1) (argv ! 2) [] of (Inl f, tr) \<Rightarrow> (Inl f, tr)
      | (Inr _, tr) \<Rightarrow>
     (case setup_server_socket k tr of (Inl f, tr) \<Rightarrow> (Inl f, tr)
      | (Inr server, tr) \<Rightarrow>
     (case setup_udp_socket k tr of (Inl f, tr) \<Rightarrow> (Inl f, tr)
      | (Inr udp, tr) \<Rightarrow> (Inr (main_init server udp nd), tr)))))"

subsection \<open>The loop\<close>

text \<open>
  One round: for which sockets \<open>poll\<close> has stored any event (or its failure), for which it has stored an error
  condition (\<open>POLLERR\<close>, \<open>POLLHUP\<close> or \<open>POLLNVAL\<close>), what \<open>accept\<close> returns if it is called, the pending
  datagrams, and what \<open>recv\<close> brings.
\<close>

datatype accept_result = Accepted int | Would_block | Accept_error

record round_input =
  in_ready :: int
  in_revents :: "bool list"
  in_errors :: "bool list"
  in_accept :: accept_result
  in_datagrams :: "char list list"
  in_received :: "char list option"

datatype stop = Stopped fault | Assertion_failed

definition serve_slot ::
  "(nat \<Rightarrow> char) \<Rightarrow> round_input \<Rightarrow> nat \<Rightarrow> main_state \<Rightarrow> stop + (effect list \<times> main_state)" where
  "serve_slot fresh inp i m =
     (let s = pf_fd (mn_sockets m ! i) in
      if \<not> in_revents inp ! i \<or> s = -1 then Inr ([], m)
      else if s = mn_server m then
        (case in_accept inp of
           Accept_error \<Rightarrow> Inl (Stopped Exit_failure)
         | Would_block \<Rightarrow> Inr ([], m)
         | Accepted connection \<Rightarrow>
             Inr ([], m\<lparr>mn_sock := connection, mn_state := connection_setup,
               mn_sockets := (mn_sockets m)[0 := (mn_sockets m ! 0)\<lparr>pf_events := False\<rparr>,
                 2 := \<lparr>pf_fd = connection, pf_events = True\<rparr>]\<rparr>))
      else if s = mn_udp m then
        (let (nd, es, rest) = handle_udp_socket (mn_node m) (in_datagrams inp) in Inr (es, m\<lparr>mn_node := nd\<rparr>))
      else if s \<noteq> mn_sock m then Inl Assertion_failed
      else (case handle_connection fresh (mn_node m) (mn_state m) (in_received inp) of
          Inl f \<Rightarrow> Inl (Stopped f)
        | Inr (cont, nd, es, st) \<Rightarrow>
            (if cont then Inr (es, m\<lparr>mn_node := nd, mn_state := st\<rparr>)
             else Inr (es @ [Tcp_close], m\<lparr>mn_node := nd, mn_state := st,
               mn_sockets := (mn_sockets m)[0 := (mn_sockets m ! 0)\<lparr>pf_events := True\<rparr>,
                 2 := \<lparr>pf_fd = -1, pf_events = False\<rparr>]\<rparr>))))"

fun serve_slots ::
  "(nat \<Rightarrow> char) \<Rightarrow> round_input \<Rightarrow> nat list \<Rightarrow> main_state \<Rightarrow> stop + (effect list \<times> main_state)" where
  "serve_slots fresh inp [] m = Inr ([], m)"
| "serve_slots fresh inp (i # slots) m =
     (case serve_slot fresh inp i m of Inl e \<Rightarrow> Inl e
      | Inr (es, m1) \<Rightarrow> (case serve_slots fresh inp slots m1 of Inl e \<Rightarrow> Inl e
          | Inr (es', m2) \<Rightarrow> Inr (es @ es', m2)))"

definition poll_round :: "(nat \<Rightarrow> char) \<Rightarrow> round_input \<Rightarrow> main_state \<Rightarrow> stop + (effect list \<times> main_state)" where
  "poll_round fresh inp m =
     (if in_ready inp = -1 then Inl (Stopped Exit_failure) else serve_slots fresh inp [0, 1, 2] m)"

text \<open>
  What POSIX promises of a round: nothing is reported for a negative descriptor; where nothing was asked for
  only an error condition is reported; and \<open>accept\<close> returns an unused descriptor.
\<close>

definition poll_ok :: "round_input \<Rightarrow> main_state \<Rightarrow> bool" where
  "poll_ok inp m \<longleftrightarrow> length (in_revents inp) = 3
     \<and> (\<forall>i < 3. in_revents inp ! i \<longrightarrow> pf_fd (mn_sockets m ! i) \<noteq> -1 \<and> (pf_events (mn_sockets m ! i) \<or> in_errors inp ! i))
     \<and> (\<forall>c. in_accept inp = Accepted c \<longrightarrow> c \<noteq> -1 \<and> c \<noteq> mn_server m \<and> c \<noteq> mn_udp m)"

inductive main_run :: "(nat \<Rightarrow> char) \<Rightarrow> main_state \<Rightarrow> round_input list \<Rightarrow> effect list \<Rightarrow> main_state \<Rightarrow> bool" for fresh m0 where
  start: "main_run fresh m0 [] [] m0"
| round: "main_run fresh m0 inps es m \<Longrightarrow> poll_ok inp m \<Longrightarrow> poll_round fresh inp m = Inr (es', m') \<Longrightarrow>
    main_run fresh m0 (inps @ [inp]) (es @ es') m'"

subsection \<open>The loop refines the event steps\<close>

text \<open>The abstract server that a state of \<open>main\<close> stands for, and the abstract runs with their events and effects.\<close>

definition server_view :: "main_state \<Rightarrow> server" where
  "server_view m = \<lparr>sv_node = mn_node m, sv_conn = (if pf_fd (mn_sockets m ! 2) = -1 then None else Some (mn_state m))\<rparr>"

inductive server_run :: "(nat \<Rightarrow> char) \<Rightarrow> server \<Rightarrow> event list \<Rightarrow> effect list \<Rightarrow> server \<Rightarrow> bool" for fresh s where
  start: "server_run fresh s [] [] s"
| step: "server_run fresh s evs es s' \<Longrightarrow> server_step fresh s' e es' s'' \<Longrightarrow> server_run fresh s (evs @ [e]) (es @ es') s''"

text \<open>
  The events of a round: another connection is only accepted while there is one if \<open>poll\<close> has reported an
  error condition of the listening socket.
\<close>

fun event_of :: "round_input \<Rightarrow> event \<Rightarrow> bool" where
  "event_of inp Accept \<longleftrightarrow> in_revents inp ! 0 \<and> (\<exists>c. in_accept inp = Accepted c)"
| "event_of inp Accept_again \<longleftrightarrow> in_revents inp ! 0 \<and> in_errors inp ! 0 \<and> (\<exists>c. in_accept inp = Accepted c)"
| "event_of inp (Datagrams queue) \<longleftrightarrow> in_revents inp ! 1 \<and> queue = in_datagrams inp"
| "event_of inp (Receive received) \<longleftrightarrow> in_revents inp ! 2 \<and> received = in_received inp"

text \<open>Accepting is switched off exactly while there is a connection.\<close>

definition main_ok :: "main_state \<Rightarrow> bool" where
  "main_ok m \<longleftrightarrow> mn_server m \<noteq> -1 \<and> mn_udp m \<noteq> -1 \<and> mn_server m \<noteq> mn_udp m
     \<and> (\<exists>c. mn_sockets m = [\<lparr>pf_fd = mn_server m, pf_events = (c = -1)\<rparr>, \<lparr>pf_fd = mn_udp m, pf_events = True\<rparr>,
            \<lparr>pf_fd = c, pf_events = (c \<noteq> -1)\<rparr>]
          \<and> (c \<noteq> -1 \<longrightarrow> c = mn_sock m \<and> c \<noteq> mn_server m \<and> c \<noteq> mn_udp m))"

lemma server_run_one: "server_step fresh s e es s' \<Longrightarrow> server_run fresh s [e] es s'"
  using server_run.step [OF server_run.start] by fastforce

lemma server_run_trans:
  "server_run fresh s' evs' es' s'' \<Longrightarrow> server_run fresh s evs es s' \<Longrightarrow> server_run fresh s (evs @ evs') (es @ es') s''"
proof (induction rule: server_run.induct)
  case start
  then show ?case by simp
next
  case (step evs' es' t e fs t')
  then show ?case using server_run.step [of fresh s "evs @ evs'" "es @ es'" t e fs t'] by simp
qed

text \<open>What one slot does: nothing, or one step of the abstract server.\<close>

definition refines :: "(nat \<Rightarrow> char) \<Rightarrow> round_input \<Rightarrow> main_state \<Rightarrow> stop + (effect list \<times> main_state) \<Rightarrow> bool" where
  "refines fresh inp m res \<longleftrightarrow> res \<noteq> Inl Assertion_failed
     \<and> (\<forall>es m'. res = Inr (es, m') \<longrightarrow> main_ok m'
          \<and> (\<exists>evs. server_run fresh (server_view m) evs es (server_view m') \<and> (\<forall>e \<in> set evs. event_of inp e))
          \<and> mn_server m' = mn_server m \<and> mn_udp m' = mn_udp m)"

lemma refines_none: "main_ok m \<Longrightarrow> refines fresh inp m (Inr ([], m))"
  unfolding refines_def using server_run.start by fastforce

lemma refines_one:
  assumes "server_step fresh (server_view m) e es (server_view m')" and "event_of inp e" and "main_ok m'"
    and "mn_server m' = mn_server m" and "mn_udp m' = mn_udp m"
  shows "refines fresh inp m (Inr (es, m'))"
  unfolding refines_def using assms server_run_one [OF assms(1)] by fastforce

lemma main_ok_slots:
  assumes "main_ok m"
  obtains c where "mn_sockets m = [\<lparr>pf_fd = mn_server m, pf_events = (c = -1)\<rparr>, \<lparr>pf_fd = mn_udp m, pf_events = True\<rparr>,
            \<lparr>pf_fd = c, pf_events = (c \<noteq> -1)\<rparr>]"
    and "c \<noteq> -1 \<longrightarrow> c = mn_sock m \<and> c \<noteq> mn_server m \<and> c \<noteq> mn_udp m"
    and "mn_server m \<noteq> -1" "mn_udp m \<noteq> -1" "mn_server m \<noteq> mn_udp m"
  using assms unfolding main_ok_def by blast

lemma listen_slot:
  assumes ok: "main_ok m" and poll: "poll_ok inp m"
  shows "refines fresh inp m (serve_slot fresh inp 0 m)"
proof -
  from ok obtain c where sl: "mn_sockets m = [\<lparr>pf_fd = mn_server m, pf_events = (c = -1)\<rparr>, \<lparr>pf_fd = mn_udp m, pf_events = True\<rparr>,
            \<lparr>pf_fd = c, pf_events = (c \<noteq> -1)\<rparr>]"
    and fd: "mn_server m \<noteq> -1" "mn_udp m \<noteq> -1" "mn_server m \<noteq> mn_udp m" using main_ok_slots [OF ok] by metis
  have "in_revents inp ! 0 \<longrightarrow> pf_events (mn_sockets m ! 0) \<or> in_errors inp ! 0"
    using poll by (simp add: poll_ok_def)
  then have error: "in_errors inp ! 0" if "in_revents inp ! 0" "c \<noteq> -1" using that by (simp add: sl)
  show "refines fresh inp m (serve_slot fresh inp 0 m)"
  proof (cases "in_revents inp ! 0")
    case False
    then show ?thesis using refines_none [OF ok] by (simp add: serve_slot_def)
  next
    case True
    show ?thesis
    proof (cases "in_accept inp")
      case (Accepted n)
      with poll have n: "n \<noteq> -1" "n \<noteq> mn_server m" "n \<noteq> mn_udp m" by (simp_all add: poll_ok_def)
      let ?m = "m\<lparr>mn_sock := n, mn_state := connection_setup,
               mn_sockets := [\<lparr>pf_fd = mn_server m, pf_events = False\<rparr>, \<lparr>pf_fd = mn_udp m, pf_events = True\<rparr>, \<lparr>pf_fd = n, pf_events = True\<rparr>]\<rparr>"
      have "serve_slot fresh inp 0 m = Inr ([], ?m)"
        using True Accepted fd by (simp add: serve_slot_def sl numeral_2_eq_2)
      moreover have "main_ok ?m" using fd n by (simp add: main_ok_def)
      moreover have "server_step fresh (server_view m) (if c = -1 then Accept else Accept_again) [] (server_view ?m)"
        using server_step.accept [of "server_view m" fresh] server_step.accept_again [of "server_view m" "mn_state m" fresh] n(1)
        by (simp add: server_view_def sl numeral_2_eq_2)
      moreover have "event_of inp (if c = -1 then Accept else Accept_again)" using True error Accepted by simp
      ultimately show ?thesis using refines_one [of fresh m _ "[]" ?m inp] by simp
    next
      case Would_block
      then show ?thesis using True fd refines_none [OF ok] by (simp add: serve_slot_def sl)
    next
      case Accept_error
      then show ?thesis using True fd by (simp add: serve_slot_def sl refines_def)
    qed
  qed
qed

lemma datagram_slot:
  assumes ok: "main_ok m"
  shows "refines fresh inp m (serve_slot fresh inp 1 m)"
proof -
  from ok obtain c where sl: "mn_sockets m = [\<lparr>pf_fd = mn_server m, pf_events = (c = -1)\<rparr>, \<lparr>pf_fd = mn_udp m, pf_events = True\<rparr>,
            \<lparr>pf_fd = c, pf_events = (c \<noteq> -1)\<rparr>]"
    and fd: "mn_server m \<noteq> -1" "mn_udp m \<noteq> -1" "mn_server m \<noteq> mn_udp m" using main_ok_slots [OF ok] by metis
  obtain nd es' rest where u: "handle_udp_socket (mn_node m) (in_datagrams inp) = (nd, es', rest)" by (metis prod_cases3)
  let ?m = "m\<lparr>mn_node := nd\<rparr>"
  have run: "serve_slot fresh inp 1 m = (if in_revents inp ! 1 then Inr (es', ?m) else Inr ([], m))"
    using fd u by (simp add: serve_slot_def sl Let_def)
  have view: "server_view ?m = (server_view m)\<lparr>sv_node := nd\<rparr>" "sv_node (server_view m) = mn_node m"
    by (simp_all add: server_view_def)
  have "main_ok ?m" using ok by (simp add: main_ok_def)
  moreover have "server_step fresh (server_view m) (Datagrams (in_datagrams inp)) es' (server_view ?m)"
    using server_step.datagrams [of "server_view m" "in_datagrams inp" nd es' rest fresh] u view by simp
  ultimately show "refines fresh inp m (serve_slot fresh inp 1 m)"
    unfolding run using refines_none [OF ok] refines_one [of fresh m _ es' ?m inp] by auto
qed

lemma connection_slot:
  assumes ok: "main_ok m"
  shows "refines fresh inp m (serve_slot fresh inp 2 m)"
proof -
  from ok obtain c where sl: "mn_sockets m = [\<lparr>pf_fd = mn_server m, pf_events = (c = -1)\<rparr>, \<lparr>pf_fd = mn_udp m, pf_events = True\<rparr>,
            \<lparr>pf_fd = c, pf_events = (c \<noteq> -1)\<rparr>]"
    and c: "c \<noteq> -1 \<longrightarrow> c = mn_sock m \<and> c \<noteq> mn_server m \<and> c \<noteq> mn_udp m"
    and fd: "mn_server m \<noteq> -1" "mn_udp m \<noteq> -1" "mn_server m \<noteq> mn_udp m" using main_ok_slots [OF ok] by metis
  have s2: "mn_sockets m ! 2 = \<lparr>pf_fd = c, pf_events = (c \<noteq> -1)\<rparr>" by (simp add: sl numeral_2_eq_2)
  show ?thesis
  proof (cases "in_revents inp ! 2 \<and> c \<noteq> -1")
    case False
    then show ?thesis using refines_none [OF ok] by (auto simp: serve_slot_def s2)
  next
    case True
    then have c': "c \<noteq> -1" "c = mn_sock m" "c \<noteq> mn_server m" "c \<noteq> mn_udp m" using c by auto
    have view: "sv_node (server_view m) = mn_node m" "sv_conn (server_view m) = Some (mn_state m)"
      using c'(1) by (simp_all add: server_view_def s2)
    show ?thesis
    proof (cases "handle_connection fresh (mn_node m) (mn_state m) (in_received inp)")
      case (Inl f)
      then show ?thesis using True c' by (simp add: serve_slot_def s2 refines_def)
    next
      case (Inr res)
      obtain cont nd es st where res: "res = (cont, nd, es, st)" by (cases res)
      note hc = Inr [unfolded res]
      show ?thesis
      proof (cases cont)
        case True
        let ?m = "m\<lparr>mn_node := nd, mn_state := st\<rparr>"
        have "serve_slot fresh inp 2 m = Inr (es, ?m)" using \<open>in_revents inp ! 2 \<and> c \<noteq> -1\<close> c' hc True by (simp add: serve_slot_def s2)
        moreover have "main_ok ?m" using ok by (simp add: main_ok_def)
        moreover have "server_step fresh (server_view m) (Receive (in_received inp)) es (server_view ?m)"
          using server_step.serve [OF view(2), of fresh "in_received inp" nd es st] hc True c'(1) view(1)
          by (simp add: server_view_def s2)
        ultimately show ?thesis using refines_one [of fresh m _ es ?m inp] \<open>in_revents inp ! 2 \<and> c \<noteq> -1\<close> by simp
      next
        case False
        let ?m = "m\<lparr>mn_node := nd, mn_state := st,
          mn_sockets := [\<lparr>pf_fd = mn_server m, pf_events = True\<rparr>, \<lparr>pf_fd = mn_udp m, pf_events = True\<rparr>, \<lparr>pf_fd = -1, pf_events = False\<rparr>]\<rparr>"
        have "serve_slot fresh inp 2 m = Inr (es @ [Tcp_close], ?m)"
          using \<open>in_revents inp ! 2 \<and> c \<noteq> -1\<close> c' hc False by (simp add: serve_slot_def s2) (simp add: sl numeral_2_eq_2)
        moreover have "main_ok ?m" using fd by (simp add: main_ok_def)
        moreover have "server_step fresh (server_view m) (Receive (in_received inp)) (es @ [Tcp_close]) (server_view ?m)"
          using server_step.hang_up [OF view(2), of fresh "in_received inp" nd es st] hc False view(1)
          by (simp add: server_view_def numeral_2_eq_2)
        ultimately show ?thesis using refines_one [of fresh m _ "es @ [Tcp_close]" ?m inp] \<open>in_revents inp ! 2 \<and> c \<noteq> -1\<close> by simp
      qed
    qed
  qed
qed

lemma refines_slots:
  assumes "refines fresh inp m (serve_slot fresh inp i m)"
    and "\<And>es m1. serve_slot fresh inp i m = Inr (es, m1) \<Longrightarrow> main_ok m1 \<Longrightarrow> refines fresh inp m1 (serve_slots fresh inp slots m1)"
  shows "refines fresh inp m (serve_slots fresh inp (i # slots) m)"
proof (cases "serve_slot fresh inp i m")
  case (Inl e)
  with assms(1) show ?thesis by (simp add: refines_def)
next
  case (Inr res)
  then obtain es m1 where one: "serve_slot fresh inp i m = Inr (es, m1)" by (cases res) auto
  from assms(1) one obtain evs where r1: "main_ok m1" "server_run fresh (server_view m) evs es (server_view m1)"
    "\<forall>e \<in> set evs. event_of inp e" "mn_server m1 = mn_server m" "mn_udp m1 = mn_udp m" by (auto simp: refines_def)
  note rest = assms(2) [OF one r1(1)]
  show ?thesis
  proof (cases "serve_slots fresh inp slots m1")
    case (Inl e)
    with one rest show ?thesis by (simp add: refines_def)
  next
    case (Inr res2)
    then obtain es2 m2 where two: "serve_slots fresh inp slots m1 = Inr (es2, m2)" by (cases res2) auto
    with rest obtain evs2 where r2: "main_ok m2" "server_run fresh (server_view m1) evs2 es2 (server_view m2)"
      "\<forall>e \<in> set evs2. event_of inp e" "mn_server m2 = mn_server m1" "mn_udp m2 = mn_udp m1" by (auto simp: refines_def)
    have "\<forall>e \<in> set (evs @ evs2). event_of inp e" using r1(3) r2(3) by auto
    with server_run_trans [OF r2(2) r1(2)] have
      "\<exists>evs. server_run fresh (server_view m) evs (es @ es2) (server_view m2) \<and> (\<forall>e \<in> set evs. event_of inp e)" by blast
    with r1(4,5) r2 one two show ?thesis by (simp add: refines_def)
  qed
qed

lemma poll_round_refines:
  assumes "main_ok m" and "poll_ok inp m"
  shows "refines fresh inp m (poll_round fresh inp m)"
proof (cases "in_ready inp = -1")
  case True
  then show ?thesis by (simp add: poll_round_def refines_def)
next
  case False
  have "refines fresh inp m' (serve_slots fresh inp [2] m')" if "main_ok m'" for m'
    by (rule refines_slots [OF connection_slot [OF that]]) (simp add: refines_none)
  then have "refines fresh inp m' (serve_slots fresh inp [1, 2] m')" if "main_ok m'" for m'
    using refines_slots [OF datagram_slot [OF that]] by blast
  then have "refines fresh inp m (serve_slots fresh inp [0, 1, 2] m)"
    using refines_slots [OF listen_slot [OF assms]] by blast
  with False show ?thesis by (simp add: poll_round_def)
qed

lemma main_init_ok: "server \<noteq> -1 \<Longrightarrow> udp \<noteq> -1 \<Longrightarrow> server \<noteq> udp \<Longrightarrow> main_ok (main_init server udp nd)"
  by (simp add: main_ok_def main_init_def)

lemma main_run_refines:
  "main_run fresh m0 inps es m \<Longrightarrow> main_ok m0 \<Longrightarrow>
    main_ok m \<and> mn_server m = mn_server m0 \<and> mn_udp m = mn_udp m0
    \<and> (\<exists>evs. server_run fresh (server_view m0) evs es (server_view m) \<and> (\<forall>e \<in> set evs. \<exists>inp \<in> set inps. event_of inp e))"
proof (induction rule: main_run.induct)
  case start
  then show ?case using server_run.start [of fresh "server_view m0"] by (auto intro!: exI [of _ "[]"])
next
  case (round inps es m inp es' m')
  from round obtain evs where run: "main_ok m" "server_run fresh (server_view m0) evs es (server_view m)"
    "\<forall>e \<in> set evs. \<exists>inp \<in> set inps. event_of inp e" "mn_server m = mn_server m0" "mn_udp m = mn_udp m0" by auto
  from round.hyps poll_round_refines [OF run(1), of inp fresh] obtain evs' where
    new: "main_ok m'" "server_run fresh (server_view m) evs' es' (server_view m')" "\<forall>e \<in> set evs'. event_of inp e"
      "mn_server m' = mn_server m" "mn_udp m' = mn_udp m" by (auto simp: refines_def)
  have "\<forall>e \<in> set (evs @ evs'). \<exists>inp \<in> set (inps @ [inp]). event_of inp e" using run(3) new(3) by auto
  with server_run_trans [OF new(2) run(2)] have "\<exists>evs. server_run fresh (server_view m0) evs (es @ es') (server_view m')
      \<and> (\<forall>e \<in> set evs. \<exists>inp \<in> set (inps @ [inp]). event_of inp e)" by blast
  with run new show ?case by simp
qed

subsection \<open>Starting up\<close>

lemma setup_server_socket_ok:
  assumes "setup_server_socket k tr = (Inr sock, tr')"
  shows "tr' = tr @ [Socket_stream, Set_nonblocking sock, Set_reuseaddr sock, Bind_to sock, Listen_on sock 1]
    \<and> sock \<noteq> -1 \<and> k tr Socket_stream = sock
    \<and> k (tr @ [Socket_stream, Set_nonblocking sock, Set_reuseaddr sock]) (Bind_to sock) \<noteq> -1
    \<and> k (tr @ [Socket_stream, Set_nonblocking sock, Set_reuseaddr sock, Bind_to sock]) (Listen_on sock 1) = 0"
  using assms by (auto simp: setup_server_socket_def Let_def split: if_splits)

lemma setup_udp_socket_ok:
  assumes "setup_udp_socket k tr = (Inr sock, tr')"
  shows "tr' = tr @ [Socket_dgram, Set_nonblocking sock, Set_reuseaddr sock, Bind_to sock]
    \<and> sock \<noteq> -1 \<and> k tr Socket_dgram = sock
    \<and> k (tr @ [Socket_dgram, Set_nonblocking sock, Set_reuseaddr sock]) (Bind_to sock) \<noteq> -1"
  using assms by (auto simp: setup_udp_socket_def Let_def split: if_splits)

text \<open>\<open>socket\<close> never returns the descriptor of a socket that is open.\<close>

definition unused_descriptors :: "kernel \<Rightarrow> bool" where
  "unused_descriptors k \<longleftrightarrow>
     (\<forall>tr sock. Listen_on sock 1 \<in> set tr \<longrightarrow> Close_fd sock \<notin> set tr \<longrightarrow> k tr Socket_dgram \<noteq> sock)"

lemma main_start_ok:
  assumes "main_start k argv env = (Inr m, tr)" and "unused_descriptors k"
  obtains nd server udp where "start_node argv env = Inr nd" and "m = main_init server udp nd" and "main_ok m"
    and "tr = [Getaddrinfo (argv ! 1) (Some (argv ! 2)),
      Socket_stream, Set_nonblocking server, Set_reuseaddr server, Bind_to server, Listen_on server 1,
      Socket_dgram, Set_nonblocking udp, Set_reuseaddr udp, Bind_to udp]"
proof -
  let ?g = "Getaddrinfo (argv ! 1) (Some (argv ! 2))"
  from assms(1) obtain nd server udp tr1 where nd: "start_node argv env = Inr nd"
    and s: "setup_server_socket k [?g] = (Inr server, tr1)" and u: "setup_udp_socket k tr1 = (Inr udp, tr)"
    and m: "m = main_init server udp nd"
    by (auto simp: main_start_def derive_sockaddr_def split: sum.splits prod.splits if_splits)
  note s' = setup_server_socket_ok [OF s] and u' = setup_udp_socket_ok [OF u]
  have "Listen_on server 1 \<in> set tr1" "Close_fd server \<notin> set tr1" using s' by auto
  with assms(2) u' have "server \<noteq> udp" unfolding unused_descriptors_def by metis
  with s' u' m have "main_ok m" by (simp add: main_init_ok)
  with that nd m s' u' show thesis by simp
qed

subsection \<open>Properties\<close>

text \<open>
  What an error condition of the listening socket does while a connection is open: a second connection takes
  the place of the first, which nothing refers to any more and nothing has closed.
\<close>

lemma error_loses_connection:
  assumes "main_ok m" and "sv_conn (server_view m) \<noteq> None" and "in_ready inp \<noteq> -1"
    and "in_revents inp = [True, False, False]" and "in_accept inp = Accepted c" and "c \<noteq> -1"
  shows "\<exists>m'. poll_round fresh inp m = Inr ([], m') \<and> mn_sock m' = c \<and> pf_fd (mn_sockets m' ! 2) = c
    \<and> server_view m' = (server_view m)\<lparr>sv_conn := Some connection_setup\<rparr>"
proof -
  from main_ok_slots [OF assms(1)] obtain fd where
    sl: "mn_sockets m = [\<lparr>pf_fd = mn_server m, pf_events = (fd = -1)\<rparr>, \<lparr>pf_fd = mn_udp m, pf_events = True\<rparr>,
            \<lparr>pf_fd = fd, pf_events = (fd \<noteq> -1)\<rparr>]" and "mn_server m \<noteq> -1" by metis
  with assms show ?thesis
    by (auto simp: poll_round_def serve_slot_def server_view_def numeral_2_eq_2)
qed

text \<open>C14: The program as a whole refines the event steps that all other theorems on the node are about.  When
  start-up succeeds, exactly the calls that make a bound, non-blocking, listening TCP socket and a
  bound UDP socket have been made, in this order; then, in every sequence of rounds of \<open>poll\<close>, what
  the node sends is what a run of the event steps sends, from the node that arguments and environment
  describe, each step caused by what some round has reported; new connections are asked for exactly while there is
  none; and the assertion in the loop never fails.  Error conditions, which \<open>poll\<close> reports also where nothing is
  asked for, are part of the rounds: another connection is accepted while there is one (\<open>Accept_again\<close>) only when a
  round has reported an error condition of the listening socket, since the loop tests for any event.\<close>

theorem main_refines_event_steps:
  assumes "main_start k argv env = (Inr m0, tr)" and "unused_descriptors k" and "main_run fresh m0 inps es m"
  shows "\<exists>nd server udp evs. start_node argv env = Inr nd
    \<and> tr = [Getaddrinfo (argv ! 1) (Some (argv ! 2)),
        Socket_stream, Set_nonblocking server, Set_reuseaddr server, Bind_to server, Listen_on server 1,
        Socket_dgram, Set_nonblocking udp, Set_reuseaddr udp, Bind_to udp]
    \<and> server_run fresh \<lparr>sv_node = nd, sv_conn = None\<rparr> evs es (server_view m)
    \<and> (\<forall>e \<in> set evs. \<exists>inp \<in> set inps. event_of inp e)
    \<and> (Accept_again \<in> set evs \<longrightarrow> (\<exists>inp \<in> set inps. in_errors inp ! 0))
    \<and> (pf_events (mn_sockets m ! 0) \<longleftrightarrow> sv_conn (server_view m) = None)
    \<and> (\<forall>inp. poll_ok inp m \<longrightarrow> poll_round fresh inp m \<noteq> Inl Assertion_failed)"
proof -
  from main_start_ok [OF assms(1,2)] obtain nd server udp where
    start: "start_node argv env = Inr nd" "m0 = main_init server udp nd" "main_ok m0"
      "tr = [Getaddrinfo (argv ! 1) (Some (argv ! 2)),
        Socket_stream, Set_nonblocking server, Set_reuseaddr server, Bind_to server, Listen_on server 1,
        Socket_dgram, Set_nonblocking udp, Set_reuseaddr udp, Bind_to udp]" by metis
  from main_run_refines [OF assms(3) start(3)] obtain evs where ok: "main_ok m"
    and run: "server_run fresh (server_view m0) evs es (server_view m)"
    and caused: "\<forall>e \<in> set evs. \<exists>inp \<in> set inps. event_of inp e" by auto
  have view: "server_view m0 = \<lparr>sv_node = nd, sv_conn = None\<rparr>" by (simp add: start(2) main_init_def server_view_def numeral_2_eq_2)
  have asked: "pf_events (mn_sockets m ! 0) \<longleftrightarrow> sv_conn (server_view m) = None"
    by (rule main_ok_slots [OF ok]) (simp add: server_view_def numeral_2_eq_2)
  have again: "Accept_again \<in> set evs \<longrightarrow> (\<exists>inp \<in> set inps. in_errors inp ! 0)" using caused by fastforce
  have "\<forall>inp. poll_ok inp m \<longrightarrow> poll_round fresh inp m \<noteq> Inl Assertion_failed"
    using poll_round_refines [OF ok] by (auto simp: refines_def)
  with start(1,4) run [unfolded view] caused again asked show ?thesis by (intro exI conjI)
qed

text \<open>A kernel on which everything succeeds and \<open>socket\<close> returns a descriptor above those in use.\<close>

definition friendly_kernel :: kernel where
  "friendly_kernel tr c =
     (case c of Socket_stream \<Rightarrow> 3
      | Socket_dgram \<Rightarrow> foldr (\<lambda>d n. case d of Listen_on sock b \<Rightarrow> max (sock + 1) n | _ \<Rightarrow> n) tr 4
      | _ \<Rightarrow> 0)"

lemma friendly_unused: "unused_descriptors friendly_kernel"
proof -
  have "Listen_on sock b \<in> set tr \<Longrightarrow> sock < friendly_kernel tr Socket_dgram" for sock b tr
    by (induction tr) (auto simp: friendly_kernel_def split: syscall.split)
  then show ?thesis unfolding unused_descriptors_def by (metis less_irrefl)
qed

lemma main_refines_event_steps_witness:
  "\<exists>m es nd inps evs. main_start friendly_kernel [''ws'', ''127.0.0.1'', ''4711''] (\<lambda>name. None) =
      (Inr (main_init 3 4 nd), [Getaddrinfo ''127.0.0.1'' (Some ''4711''),
        Socket_stream, Set_nonblocking 3, Set_reuseaddr 3, Bind_to 3, Listen_on 3 1,
        Socket_dgram, Set_nonblocking 4, Set_reuseaddr 4, Bind_to 4])
    \<and> main_run (\<lambda>i. NUL) (main_init 3 4 nd) inps es m \<and> mn_sock m = 5
    \<and> server_run (\<lambda>i. NUL) \<lparr>sv_node = nd, sv_conn = None\<rparr> evs es (server_view m)
    \<and> sv_conn (server_view m) = Some connection_setup \<and> \<not> pf_events (mn_sockets m ! 0)"
proof -
  have "digit_char 4 = CHR ''4''" "digit_char 7 = CHR ''7''" "digit_char 1 = CHR ''1''" by code_simp+
  then have d: "decimal 4711 = ''4711''"
    by (simp add: decimal.simps [of 4711] decimal.simps [of 471] decimal.simps [of 47] decimal.simps [of 4])
  have "\<not> (2::nat) ^ 64 \<le> 4711" by simp
  with safe_strtoul_decimal [of 4711] have port: "safe_strtoul ''4711'' = Inr (of_nat 4711)" unfolding d by (simp only: if_False)
  have peer: "read_peer (\<lambda>name. None) prefix = Inr no_peer" for prefix by (simp add: read_peer_def)
  obtain nd where nd: "start_node [''ws'', ''127.0.0.1'', ''4711''] (\<lambda>name. None) = Inr nd"
    by (simp add: start_node_def port peer del: of_nat_numeral)
  let ?g = "[Getaddrinfo ''127.0.0.1'' (Some ''4711'')]"
  let ?s = "?g @ [Socket_stream, Set_nonblocking 3, Set_reuseaddr 3, Bind_to 3, Listen_on 3 1]"
  have k: "friendly_kernel tr Socket_stream = 3" "friendly_kernel tr (Set_nonblocking i) = 0" "friendly_kernel tr (Set_reuseaddr i) = 0"
    "friendly_kernel tr (Bind_to i) = 0" "friendly_kernel tr (Listen_on i b) = 0" "friendly_kernel tr (Getaddrinfo n p) = 0" for tr i b n p
    by (simp_all add: friendly_kernel_def)
  have "setup_server_socket friendly_kernel ?g = (Inr 3, ?s)"
    by (simp add: setup_server_socket_def k)
  moreover have "friendly_kernel ?s Socket_dgram = 4" by (simp add: friendly_kernel_def)
  then have "setup_udp_socket friendly_kernel ?s = (Inr 4, ?s @ [Socket_dgram, Set_nonblocking 4, Set_reuseaddr 4, Bind_to 4])"
    unfolding setup_udp_socket_def Let_def by (simp add: k)
  ultimately have run: "main_start friendly_kernel [''ws'', ''127.0.0.1'', ''4711''] (\<lambda>name. None) =
      (Inr (main_init 3 4 nd), [Getaddrinfo ''127.0.0.1'' (Some ''4711''),
        Socket_stream, Set_nonblocking 3, Set_reuseaddr 3, Bind_to 3, Listen_on 3 1,
        Socket_dgram, Set_nonblocking 4, Set_reuseaddr 4, Bind_to 4])"
    by (simp add: main_start_def nd derive_sockaddr_def k)
  let ?inp = "\<lparr>in_ready = 1, in_revents = [True, False, False], in_errors = [False, False, False], in_accept = Accepted 5, in_datagrams = [], in_received = None\<rparr>"
  let ?m = "\<lparr>mn_server = 3, mn_udp = 4,
    mn_sockets = [\<lparr>pf_fd = 3, pf_events = False\<rparr>, \<lparr>pf_fd = 4, pf_events = True\<rparr>, \<lparr>pf_fd = 5, pf_events = True\<rparr>],
    mn_sock = 5, mn_state = connection_setup, mn_node = nd\<rparr>"
  have "poll_round (\<lambda>i. NUL) ?inp (main_init 3 4 nd) = Inr ([], ?m)"
    by (simp add: poll_round_def serve_slot_def main_init_def numeral_2_eq_2)
  moreover have "poll_ok ?inp (main_init 3 4 nd)"
    by (simp add: poll_ok_def main_init_def numeral_3_eq_3 less_Suc_eq)
  ultimately have r: "main_run (\<lambda>i. NUL) (main_init 3 4 nd) [?inp] [] ?m"
    using main_run.round [OF main_run.start] by fastforce
  from main_refines_event_steps [OF run friendly_unused r] nd obtain evs where
    "server_run (\<lambda>i. NUL) \<lparr>sv_node = nd, sv_conn = None\<rparr> evs [] (server_view ?m)" by auto
  with run r show ?thesis
    by (intro exI [of _ ?m] exI [of _ "[]"] exI [of _ nd] exI [of _ "[?inp]"] exI [of _ evs])
      (simp add: server_view_def numeral_2_eq_2)
qed

subsection \<open>A request line that cannot be read\<close>

lemma parse_request_line_fails:
  assumes "drop pos mem = l @ rest" and "count_list l SP < 2"
  shows "parse_request_line mem pos (length l) = None"
proof (cases "SP \<in> set l")
  case False
  with memchr_absent [OF assms(1)] show ?thesis by (simp add: parse_request_line_def Let_def)
next
  case True
  then obtain a b where l: "l = a @ SP # b" and a: "SP \<notin> set a" by (meson split_list_first)
  then have b: "SP \<notin> set b" using assms(2) by (simp add: count_list_0_iff)
  have first: "drop pos mem = a @ SP # b @ rest" using assms(1) l by simp
  then have "drop (pos + length a + 1) mem = b @ rest"
    by (metis (no_types) add.commute append_eq_conv_conj drop_drop drop_Suc_Cons drop0 One_nat_def plus_1_eq_Suc)
  from memchr_absent [OF this b] memchr_at [OF first a, of "pos + length l"] l show ?thesis
    by (simp add: parse_request_line_def Let_def)
qed

lemma process_packet_malformed:
  assumes "mem = l @ CR # LF # rest" and "CR \<notin> set l" and "count_list l SP < 2" and "length l < n"
  shows "process_packet fresh nd mem n = Inr (-1, nd, [Tcp_send bad_request, Tcp_close], mem)"
proof -
  have d: "drop 0 mem = l @ CR # LF # rest" using assms(1) by simp
  have "find_line mem 0 n = Inr (Some (length l))" using find_line_at [OF d assms(2)] assms(4) by simp
  with parse_request_line_fails [OF d assms(3)] show ?thesis
    by (simp add: process_packet_def parse_request_def)
qed

lemma handle_connection_malformed:
  assumes "connection_wf st" and "received \<noteq> []"
    and "take (cs_end st) (cs_buffer st) @ received = l @ CR # LF # rest" and "CR \<notin> set l" and "count_list l SP < 2"
    and "cs_end st + length received \<le> HTTP_MAX_SIZE"
  shows "\<exists>st'. handle_connection fresh nd st (Some received) = Inr (False, nd, [Tcp_send bad_request, Tcp_close], st')"
proof -
  obtain data we buffer where d: "data = take (HTTP_MAX_SIZE - cs_end st) received" "we = cs_end st + length data"
    "buffer = take (cs_end st) (cs_buffer st) @ data @ drop we (cs_buffer st)" by blast
  have data: "data = received" using assms(6) by (simp add: d(1))
  note wf = receive_wf [OF assms(1) d]
  have "cs_end st \<le> length (cs_buffer st)" using assms(1) by (simp add: connection_wf_def)
  then have "we = length (take (cs_end st) (cs_buffer st) @ received)" by (simp add: d(2) data)
  then have we: "length l < we" by (simp only: assms(3)) simp
  have "buffer = (take (cs_end st) (cs_buffer st) @ received) @ replicate (HTTP_MAX_SIZE - we) NUL" using wf by (simp add: data)
  then have "buffer = l @ CR # LF # (rest @ replicate (HTTP_MAX_SIZE - we) NUL)" by (simp add: assms(3))
  from process_packet_malformed [OF this assms(4,5) we, of fresh nd]
  have "serve_window fresh nd buffer 0 we = Inr (-1, nd, [Tcp_send bad_request, Tcp_close], buffer, 0)"
    by (simp add: serve_window.simps [of fresh nd buffer])
  with assms(2) show ?thesis by (simp add: handle_connection_alt [OF d] data)
qed

text \<open>C38: When the bytes of a connection begin with a complete line with fewer than two spaces, in whatever
  pieces it has arrived, the round of \<open>poll\<close> that brings its end answers 400 and leaves the node as
  it was; it closes the descriptor twice, in \<open>process_packet\<close> and again in \<open>main\<close>, frees the slot of
  the connection, and new connections are accepted again.\<close>

theorem malformed_request_closes_twice:
  assumes "main_ok m" and "server_wf (server_view m)" and "sv_conn (server_view m) = Some c"
    and "in_ready inp \<noteq> -1" and "in_revents inp = [False, False, True]" and "in_received inp = Some received"
    and "received \<noteq> []" and "cs_end c + length received \<le> HTTP_MAX_SIZE"
    and "take (cs_end c) (cs_buffer c) @ received = l @ CR # LF # rest" and "CR \<notin> set l" and "count_list l SP < 2"
  shows "\<exists>m'. poll_round fresh inp m = Inr ([Tcp_send bad_request, Tcp_close, Tcp_close], m')
    \<and> server_view m' = \<lparr>sv_node = mn_node m, sv_conn = None\<rparr> \<and> main_ok m' \<and> pf_events (mn_sockets m' ! 0)"
proof -
  from main_ok_slots [OF assms(1)] obtain fd where
    sl: "mn_sockets m = [\<lparr>pf_fd = mn_server m, pf_events = (fd = -1)\<rparr>, \<lparr>pf_fd = mn_udp m, pf_events = True\<rparr>,
            \<lparr>pf_fd = fd, pf_events = (fd \<noteq> -1)\<rparr>]"
    and fds: "fd \<noteq> -1 \<longrightarrow> fd = mn_sock m \<and> fd \<noteq> mn_server m \<and> fd \<noteq> mn_udp m"
      "mn_server m \<noteq> -1" "mn_udp m \<noteq> -1" "mn_server m \<noteq> mn_udp m" by metis
  from assms(3) have conn: "fd \<noteq> -1" "mn_state m = c"
    by (simp_all add: server_view_def sl numeral_2_eq_2 split: if_splits)
  have "connection_wf c" using assms(2,3) by (simp add: server_wf_def)
  from handle_connection_malformed [OF this assms(7,9-11,8)] obtain st where
    hc: "handle_connection fresh (mn_node m) c (Some received) = Inr (False, mn_node m, [Tcp_send bad_request, Tcp_close], st)"
    by blast
  let ?m = "m\<lparr>mn_state := st, mn_sockets := [\<lparr>pf_fd = mn_server m, pf_events = True\<rparr>,
      \<lparr>pf_fd = mn_udp m, pf_events = True\<rparr>, \<lparr>pf_fd = -1, pf_events = False\<rparr>]\<rparr>"
  have "serve_slot fresh inp 2 m = Inr ([Tcp_send bad_request, Tcp_close, Tcp_close], ?m)"
    using conn fds hc assms(5,6) by (simp add: serve_slot_def sl numeral_2_eq_2)
  then have "poll_round fresh inp m = Inr ([Tcp_send bad_request, Tcp_close, Tcp_close], ?m)"
    using assms(4,5) by (simp add: poll_round_def serve_slot_def)
  moreover have "main_ok ?m" using fds by (simp add: main_ok_def)
  moreover have "server_view ?m = \<lparr>sv_node = mn_node m, sv_conn = None\<rparr>" by (simp add: server_view_def numeral_2_eq_2)
  ultimately show ?thesis by fastforce
qed

lemma malformed_request_closes_twice_witness:
  "\<exists>m m'. mn_node m = lone_node \<and> sv_conn (server_view m) = Some connection_setup
    \<and> poll_round (\<lambda>i. NUL) \<lparr>in_ready = 1, in_revents = [False, False, True], in_errors = [False, False, False], in_accept = Would_block, in_datagrams = [],
         in_received = Some (''GET /a'' @ [CR, LF])\<rparr> m = Inr ([Tcp_send bad_request, Tcp_close, Tcp_close], m')
    \<and> server_view m' = \<lparr>sv_node = lone_node, sv_conn = None\<rparr>"
proof -
  let ?m = "\<lparr>mn_server = 3, mn_udp = 4,
    mn_sockets = [\<lparr>pf_fd = 3, pf_events = False\<rparr>, \<lparr>pf_fd = 4, pf_events = True\<rparr>, \<lparr>pf_fd = 5, pf_events = True\<rparr>],
    mn_sock = 5, mn_state = connection_setup, mn_node = lone_node\<rparr>"
  let ?inp = "\<lparr>in_ready = 1, in_revents = [False, False, True], in_errors = [False, False, False], in_accept = Would_block, in_datagrams = [],
         in_received = Some (''GET /a'' @ [CR, LF])\<rparr>"
  have ok: "main_ok ?m" by (simp add: main_ok_def)
  have view: "server_view ?m = \<lparr>sv_node = lone_node, sv_conn = Some connection_setup\<rparr>"
    by (simp add: server_view_def numeral_2_eq_2)
  have start: "cs_end connection_setup = 0" by (simp add: connection_setup_def)
  have "node_wf lone_node" using initial_resources_facts by (simp add: node_wf_def lone_node_def)
  then have wf: "server_wf (server_view ?m)" by (simp add: view server_wf_def connection_setup_wf)
  obtain m' where "poll_round (\<lambda>i. NUL) ?inp ?m = Inr ([Tcp_send bad_request, Tcp_close, Tcp_close], m')"
    "server_view m' = \<lparr>sv_node = mn_node ?m, sv_conn = None\<rparr>"
    by (rule exE [OF malformed_request_closes_twice [OF ok wf, where c = connection_setup
          and received = "''GET /a'' @ [CR, LF]" and l = "''GET /a''" and rest = "[]"]])
      (auto simp: view start HTTP_MAX_SIZE_def)
  then show ?thesis using view by (intro exI [of _ ?m] exI [of _ m']) simp
qed

end
