(* ===== verification/Hash_Tester.thy ===== *)
theory Hash_Tester
  imports Chord_Util
begin

section \<open>The tester of the hash (chord-node/dev\_tests/hashtester.c)\<close>

text \<open>
  A program that computes the hash of four inputs by hand, prints every step, and compares the result
  with \<open>pseudo_hash\<close>.  Standard output is the returned string.
\<close>

unbundle bit_operations_syntax

text \<open>\<open>%0nX\<close> and \<open>%u\<close> of \<open>printf\<close>.\<close>

definition hex_digit :: "nat \<Rightarrow> char" where
  "hex_digit d = (if d < 10 then char_of (48 + d) else char_of (55 + d))"

fun hex :: "nat \<Rightarrow> string" where
  "hex n = (if n < 16 then [hex_digit n] else hex (n div 16) @ [hex_digit (n mod 16)])"

declare hex.simps [simp del]

definition hex_padded :: "nat \<Rightarrow> nat \<Rightarrow> string" where
  "hex_padded width n = replicate (width - length (hex n)) (CHR ''0'') @ hex n"

fun print_hex :: "char list \<Rightarrow> string" where
  "print_hex [] = []"
| "print_hex [c] = hex_padded 2 (byte c)"
| "print_hex (c # d # rest) = hex_padded 2 (byte c) @ '' '' @ print_hex (d # rest)"

text \<open>The inputs with their names.\<close>

definition tester_inputs :: "(char list \<times> string) list" where
  "tester_inputs = [('''', ''empty''), (''A'', ''single byte''), (''abc'', ''3 bytes''), (''123456789'', ''9 bytes (odd)'')]"

definition padded :: "char list \<Rightarrow> char list" where
  "padded buf = (let pad_len = (if length buf mod 2 \<noteq> 0 then length buf + 1 else length buf)
    in buf @ replicate (pad_len - length buf) NUL)"

definition word_at :: "char list \<Rightarrow> nat \<Rightarrow> u16" where
  "word_at pad i = push_bit 8 (of_nat (byte (pad ! i))) OR of_nat (byte (pad ! (i + 1)))"

text \<open>The loop over the words, \<open>k\<close> of them from index \<open>i\<close> on: its output and the sum.\<close>

fun word_lines :: "char list \<Rightarrow> nat \<Rightarrow> nat \<Rightarrow> u32 \<Rightarrow> string \<times> u32" where
  "word_lines pad 0 i acc = ([], acc)"
| "word_lines pad (Suc k) i acc =
     (let word = word_at pad i; acc1 = acc + ucast word;
          (out, acc2) = word_lines pad k (i + 2) acc1
      in (''word['' @ decimal (i div 2) @ '']: 0x'' @ hex_padded 4 (unat word) @ '' ('' @ decimal (unat word) @ '')'' @ [LF]
          @ '' running sum: 0x'' @ hex_padded 8 (unat acc1) @ '' ('' @ decimal (unat acc1) @ '')'' @ [LF] @ out, acc2))"

text \<open>The computation by hand: its output and the hash.\<close>

definition manual_steps :: "char list \<Rightarrow> string \<times> u16" where
  "manual_steps buf =
     (let pad = padded buf;
          (lines, acc) = word_lines pad (length pad div 2) 0 0;
          folded = (acc AND 0xFFFF) + drop_bit 16 acc
      in (''padded bytes: '' @ print_hex pad @ [LF] @ lines
            @ ''after fold: 0x'' @ hex_padded 4 (unat (folded AND 0xFFFF)) @ '' ('' @ decimal (unat folded) @ '')'' @ [LF],
          ucast (NOT folded)))"

definition hash_line :: "string \<Rightarrow> u16 \<Rightarrow> string" where
  "hash_line label h = label @ '': 0x'' @ hex_padded 4 (unat h) @ '' ('' @ decimal (unat h) @ '')'' @ [LF]"

definition tester_report :: "char list \<Rightarrow> string" where
  "tester_report buf =
     (let (steps, final_hash) = manual_steps buf; h = pseudo_hash buf
      in steps @ hash_line ''computed (manual) final'' final_hash @ hash_line ''pseudo_hash() returned'' h
         @ (if h \<noteq> final_hash then ''MISMATCH!'' @ [LF] else []) @ [LF])"

definition tester_head :: "char list \<Rightarrow> string \<Rightarrow> string" where
  "tester_head buf name =
     ''--- Test: '' @ name @ '' (len='' @ decimal (length buf) @ '') ---'' @ [LF] @ ''input bytes: '' @ print_hex buf @ [LF]"

text \<open>\<open>main\<close>: the exit status and the output.\<close>

fun tester_main :: "alloc \<Rightarrow> (char list \<times> string) list \<Rightarrow> int \<times> string" where
  "tester_main a [] = (0, [])"
| "tester_main a ((buf, name) # tests) =
     (let (ok, a1) = malloc a in
      if \<not> ok then (1, tester_head buf name)
      else (let (status, out) = tester_main a1 tests
        in (status, tester_head buf name @ tester_report buf @ out)))"

subsection \<open>The two computations\<close>

lemma ucast_word:
  assumes "a < 256" and "b < 256"
  shows "ucast (push_bit 8 (of_nat a) OR of_nat b :: u16) = (push_bit 8 (of_nat a) OR of_nat b :: u32)"
proof -
  have a: "(push_bit 8 a) mod 65536 = push_bit 8 a" "(push_bit 8 a) mod 4294967296 = push_bit 8 a"
    using assms(1) by (simp_all add: push_bit_eq_mult)
  have "of_nat (push_bit 8 a) = (push_bit 8 (of_nat a) :: u16)" "of_nat (push_bit 8 a) = (push_bit 8 (of_nat a) :: u32)"
    by (simp_all add: push_bit_eq_mult)
  then have w: "push_bit 8 (of_nat a) OR of_nat b = (of_nat (push_bit 8 a OR b) :: u16)"
    "push_bit 8 (of_nat a) OR of_nat b = (of_nat (push_bit 8 a OR b) :: u32)"
    by (simp_all add: of_nat_or_eq)
  have "push_bit 8 a < 2 ^ 16" "b < 2 ^ 16" using assms by (simp_all add: push_bit_eq_mult)
  then have "take_bit 16 (push_bit 8 a OR b) = push_bit 8 a OR b"
    by (simp only: take_bit_or take_bit_nat_eq_self)
  then have "push_bit 8 a OR b < 2 ^ 16" by (metis take_bit_nat_less_exp)
  then show ?thesis unfolding w
    by (simp add: word_unat_eq_iff unsigned_ucast_eq unat_of_nat take_bit_eq_mod)
qed

lemma word_lines_sum:
  "length pre = i \<Longrightarrow> length s = 2 * k \<Longrightarrow> snd (word_lines (pre @ s) k i acc) = sum_words acc s"
proof (induction k arbitrary: pre s i acc)
  case (Suc k)
  then obtain c d r where s: "s = c # d # r" by (cases s; cases "tl s") auto
  have "snd (word_lines ((pre @ [c, d]) @ r) k (i + 2) (acc + ucast (word_at (pre @ s) i))) =
      sum_words (acc + ucast (word_at (pre @ s) i)) r"
    by (rule Suc.IH) (use Suc.prems s in simp_all)
  moreover have "ucast (word_at (pre @ s) i) = (push_bit 8 (of_nat (byte c)) OR of_nat (byte d) :: u32)"
    using Suc.prems(1) by (simp add: word_at_def s nth_append ucast_word)
  ultimately show ?case by (simp add: s Let_def case_prod_beta)
qed simp

lemma sum_words_padded: "sum_words acc (padded s) = sum_words acc s"
proof (induction acc s rule: sum_words.induct)
  case (3 acc a b s)
  then show ?case by (simp add: padded_def Let_def split: if_splits)
qed (simp_all add: padded_def)

lemma manual_hash: "snd (manual_steps buf) = pseudo_hash buf"
proof -
  have "length (padded buf) = 2 * (length (padded buf) div 2)" by (simp add: padded_def Let_def) presburger
  from word_lines_sum [of "[]" 0 "padded buf" "length (padded buf) div 2" 0, OF list.size(3) this]
  have "snd (word_lines (padded buf) (length (padded buf) div 2) 0 0) = sum_words 0 buf"
    by (simp add: sum_words_padded)
  then show ?thesis by (simp add: manual_steps_def pseudo_hash_def Let_def case_prod_beta)
qed

text \<open>The developer's tester agrees with the function it tests on every input, not only on its own four:
  the hash that it computes by hand, with an array and words of 16 bits, is the result of
  \<open>pseudo_hash\<close>, so that it never prints a mismatch, and it exits with 0 when memory suffices.\<close>

theorem tester_never_finds_mismatch:
  assumes "plenty a"
  shows "tester_main a tests = (0, concat (map (\<lambda>(buf, name). tester_head buf name @ fst (manual_steps buf)
      @ hash_line ''computed (manual) final'' (pseudo_hash buf) @ hash_line ''pseudo_hash() returned'' (pseudo_hash buf) @ [LF]) tests))"
  using assms
proof (induction tests arbitrary: a)
  case (Cons t tests)
  obtain buf name where t: "t = (buf, name)" by (cases t)
  have "tester_report buf = fst (manual_steps buf) @ hash_line ''computed (manual) final'' (pseudo_hash buf)
      @ hash_line ''pseudo_hash() returned'' (pseudo_hash buf) @ [LF]"
    by (simp add: tester_report_def case_prod_beta manual_hash Let_def)
  with Cons show ?case by (simp add: t)
qed simp

lemma tester_never_finds_mismatch_witness:
  "fst (tester_main [] tester_inputs) = 0 \<and> plenty []"
  using tester_never_finds_mismatch [OF plenty_Nil, of tester_inputs] by simp

end
