(* ===== verification/Tcp_Resources.thy ===== *)
theory Tcp_Resources
  imports Chord_Util Resource_Table
begin

section \<open>State and resources of the HTTP server (tcp-http-server/message\_handler.c)\<close>

text \<open>
  The global variables: the URI of the last request, the array \<open>body\<close> (its bytes before the NUL that the
  code puts behind what it copies), and the linked list of dynamic resources, newest first.  The two
  strings of a resource are NULL when their copy could not be allocated.  Using a null pointer as a
  string, and an \<open>int\<close> that overflows, are faults.
\<close>

datatype tcp_fault = Null_pointer | Int_overflow

record dynamic_resource =
  dr_filename :: "string option"
  dr_content :: "string option"

record tcp_state =
  request_uri :: string
  body :: "char list"
  resource_list :: "dynamic_resource list"

definition BODY_SIZE :: nat where
  "BODY_SIZE = 8192"

definition my_strdup :: "alloc \<Rightarrow> string \<Rightarrow> string option \<times> alloc" where
  "my_strdup a s = (let (ok, a') = malloc a in (if ok then Some s else None, a'))"

text \<open>The walk along the list that GET, PUT and DELETE have in common.\<close>

fun find_resource :: "dynamic_resource list \<Rightarrow> string \<Rightarrow> tcp_fault + nat option" where
  "find_resource [] filename = Inr None"
| "find_resource (node # rest) filename =
     (case dr_filename node of None \<Rightarrow> Inl Null_pointer
      | Some f \<Rightarrow>
         (if strcmp f filename = 0 then Inr (Some 0)
          else (case find_resource rest filename of Inl e \<Rightarrow> Inl e | Inr i \<Rightarrow> Inr (map_option Suc i))))"

abbreviation dynamic_prefix :: string where
  "dynamic_prefix \<equiv> ''/dynamic/''"

definition check_static_resource :: "string \<Rightarrow> nat" where
  "check_static_resource uri =
     (if strcmp uri ''/static/foo'' = 0 then 200
      else if strcmp uri ''/static/bar'' = 0 then 200
      else if strcmp uri ''/static/baz'' = 0 then 200
      else 404)"

definition get_dynamic_ressource :: "tcp_state \<Rightarrow> string \<Rightarrow> tcp_fault + (nat \<times> tcp_state)" where
  "get_dynamic_ressource h uri =
     (if take 9 uri \<noteq> dynamic_prefix then Inr (404, h)
      else (let filename = drop 9 uri in
        if filename = [] then Inr (404, h)
        else (case find_resource (resource_list h) filename of Inl e \<Rightarrow> Inl e
          | Inr None \<Rightarrow> Inr (404, h)
          | Inr (Some i) \<Rightarrow>
             (case dr_content (resource_list h ! i) of None \<Rightarrow> Inl Null_pointer
              | Some content \<Rightarrow> Inr (200, h\<lparr>body := take (BODY_SIZE - 1) content\<rparr>)))))"

definition check_dynamic_resource :: "alloc \<Rightarrow> tcp_state \<Rightarrow> string \<Rightarrow> nat \<Rightarrow> tcp_fault + (nat \<times> tcp_state \<times> alloc)" where
  "check_dynamic_resource a h uri code =
     (if take 9 uri \<noteq> dynamic_prefix then Inr (403, h, a)
      else (let filename = drop 9 uri; list = resource_list h in
        if code = 1001 then
          (if filename = [] then Inr (404, h, a)
           else (case find_resource list filename of Inl e \<Rightarrow> Inl e
             | Inr (Some i) \<Rightarrow>
                (let (content, a1) = my_strdup a (c_str (body h))
                 in Inr (204, h\<lparr>resource_list := list[i := (list ! i)\<lparr>dr_content := content\<rparr>]\<rparr>, a1))
             | Inr None \<Rightarrow>
                (let (ok, a1) = malloc a in
                 if \<not> ok then Inr (500, h, a1)
                 else (let (name, a2) = my_strdup a1 filename; (content, a3) = my_strdup a2 (c_str (body h))
                       in Inr (201, h\<lparr>resource_list := \<lparr>dr_filename = name, dr_content = content\<rparr> # list\<rparr>, a3)))))
        else if code = 1002 then
          (if filename = [] then Inr (404, h, a)
           else (case find_resource list filename of Inl e \<Rightarrow> Inl e
             | Inr (Some i) \<Rightarrow> Inr (204, h\<lparr>resource_list := take i list @ drop (i + 1) list\<rparr>, a)
             | Inr None \<Rightarrow> Inr (404, h, a)))
        else Inr (404, h, a)))"

subsection \<open>The list as a map\<close>

text \<open>While allocation succeeds, all strings are there; no file name occurs twice.\<close>

definition names :: "dynamic_resource list \<Rightarrow> string list" where
  "names rs = map (\<lambda>r. the (dr_filename r)) rs"

definition resources_wf :: "dynamic_resource list \<Rightarrow> bool" where
  "resources_wf rs \<longleftrightarrow> (\<forall>r \<in> set rs. dr_filename r \<noteq> None \<and> dr_content r \<noteq> None) \<and> distinct (names rs)"

definition resource_map :: "dynamic_resource list \<Rightarrow> string \<rightharpoonup> char list" where
  "resource_map rs = map_of (map (\<lambda>r. (the (dr_filename r), the (dr_content r))) rs)"

lemma resources_wf_Cons:
  "resources_wf (r # rs) \<longleftrightarrow> dr_filename r \<noteq> None \<and> dr_content r \<noteq> None
    \<and> the (dr_filename r) \<notin> set (names rs) \<and> resources_wf rs"
  by (auto simp: resources_wf_def names_def)

lemma resource_map_Cons:
  "resource_map (r # rs) k = (if k = the (dr_filename r) then Some (the (dr_content r)) else resource_map rs k)"
  by (simp add: resource_map_def)

lemma resource_map_Nil [simp]: "resource_map [] = Map.empty"
  by (simp add: resource_map_def)

lemma resource_map_None: "resource_map rs k = None \<longleftrightarrow> k \<notin> set (names rs)"
  by (induction rs) (auto simp: resource_map_Cons names_def)

lemma find_resource_cases:
  assumes "resources_wf rs"
  obtains (found) i v where "find_resource rs k = Inr (Some i)" "i < length rs" "dr_filename (rs ! i) = Some k"
      "dr_content (rs ! i) = Some v" "resource_map rs k = Some v"
    | (absent) "find_resource rs k = Inr None" "resource_map rs k = None"
  using assms
proof (induction rs arbitrary: thesis)
  case Nil
  then show ?case by simp
next
  case (Cons r rs)
  from Cons.prems(3) obtain f c where r: "dr_filename r = Some f" "dr_content r = Some c" and "resources_wf rs"
    by (auto simp: resources_wf_Cons)
  show ?case
  proof (cases "f = k")
    case True
    with r Cons.prems(1) [of 0 c] show ?thesis by (simp add: resource_map_Cons)
  next
    case False
    show ?thesis
    proof (rule Cons.IH [OF _ _ \<open>resources_wf rs\<close>])
      fix i v
      assume "find_resource rs k = Inr (Some i)" "i < length rs" "dr_filename (rs ! i) = Some k"
        "dr_content (rs ! i) = Some v" "resource_map rs k = Some v"
      with r False Cons.prems(1) [of "Suc i" v] show thesis by (simp add: resource_map_Cons)
    next
      assume "find_resource rs k = Inr None" "resource_map rs k = None"
      with r False Cons.prems(2) show thesis by (simp add: resource_map_Cons)
    qed
  qed
qed

lemma update_content:
  "resources_wf rs \<Longrightarrow> i < length rs \<Longrightarrow> dr_filename (rs ! i) = Some k \<Longrightarrow>
    resources_wf (rs[i := (rs ! i)\<lparr>dr_content := Some v\<rparr>])
    \<and> names (rs[i := (rs ! i)\<lparr>dr_content := Some v\<rparr>]) = names rs
    \<and> resource_map (rs[i := (rs ! i)\<lparr>dr_content := Some v\<rparr>]) = (resource_map rs)(k \<mapsto> v)"
proof (induction rs arbitrary: i)
  case (Cons r rs)
  show ?case
  proof (cases i)
    case 0
    with Cons.prems show ?thesis by (auto simp: resources_wf_Cons resource_map_Cons fun_eq_iff names_def)
  next
    case (Suc j)
    with Cons.prems have j: "j < length rs" "dr_filename (rs ! j) = Some k" and wf: "resources_wf rs"
      by (simp_all add: resources_wf_Cons)
    have "k \<in> set (names rs)" using j by (auto simp: names_def intro!: image_eqI [of _ _ "rs ! j"])
    with Cons.prems(1) have "the (dr_filename r) \<noteq> k" by (auto simp: resources_wf_Cons)
    with Cons.IH [OF wf j] Cons.prems(1) Suc show ?thesis
      by (auto simp: resources_wf_Cons resource_map_Cons fun_eq_iff names_def)
  qed
qed simp

lemma remove_resource:
  "resources_wf rs \<Longrightarrow> i < length rs \<Longrightarrow> dr_filename (rs ! i) = Some k \<Longrightarrow>
    resources_wf (take i rs @ drop (i + 1) rs)
    \<and> set (names (take i rs @ drop (i + 1) rs)) \<subseteq> set (names rs)
    \<and> resource_map (take i rs @ drop (i + 1) rs) = (resource_map rs)(k := None)"
proof (induction rs arbitrary: i)
  case (Cons r rs)
  show ?case
  proof (cases i)
    case 0
    with Cons.prems have "k \<notin> set (names rs)" by (simp add: resources_wf_Cons)
    then have "resource_map rs k = None" by (simp add: resource_map_None)
    with 0 Cons.prems show ?thesis by (auto simp: resources_wf_Cons resource_map_Cons fun_eq_iff names_def)
  next
    case (Suc j)
    with Cons.prems have j: "j < length rs" "dr_filename (rs ! j) = Some k" and wf: "resources_wf rs"
      by (simp_all add: resources_wf_Cons)
    have "k \<in> set (names rs)" using j by (auto simp: names_def intro!: image_eqI [of _ _ "rs ! j"])
    with Cons.prems(1) have "the (dr_filename r) \<noteq> k" by (auto simp: resources_wf_Cons)
    with Cons.IH [OF wf j] Cons.prems(1) Suc show ?thesis
      by (auto simp: resources_wf_Cons resource_map_Cons fun_eq_iff names_def)
  qed
qed simp

subsection \<open>The contract\<close>

lemma put_resource:
  assumes "resources_wf (resource_list h)" and "k \<noteq> []" and "plenty a"
  shows "\<exists>h' a'. check_dynamic_resource a h (dynamic_prefix @ k) 1001 =
      Inr (if resource_map (resource_list h) k = None then 201 else 204, h', a')
    \<and> plenty a' \<and> request_uri h' = request_uri h \<and> body h' = body h \<and> resources_wf (resource_list h')
    \<and> resource_map (resource_list h') = (resource_map (resource_list h))(k \<mapsto> c_str (body h))"
proof (rule find_resource_cases [OF assms(1), of k])
  fix i v
  assume i: "find_resource (resource_list h) k = Inr (Some i)" "i < length (resource_list h)"
    "dr_filename (resource_list h ! i) = Some k" "resource_map (resource_list h) k = Some v"
  from update_content [OF assms(1) i(2,3)] i assms(2,3) show ?thesis
    by (simp add: check_dynamic_resource_def my_strdup_def Let_def)
next
  assume "find_resource (resource_list h) k = Inr None" and none: "resource_map (resource_list h) k = None"
  then show ?thesis
    using assms by (simp add: check_dynamic_resource_def my_strdup_def Let_def resources_wf_Cons
        resource_map_Cons fun_eq_iff resource_map_None)
qed

lemma delete_resource:
  assumes "resources_wf (resource_list h)" and "k \<noteq> []"
  shows "\<exists>h'. check_dynamic_resource a h (dynamic_prefix @ k) 1002 =
      Inr (if resource_map (resource_list h) k = None then 404 else 204, h', a)
    \<and> request_uri h' = request_uri h \<and> body h' = body h \<and> resources_wf (resource_list h')
    \<and> resource_map (resource_list h') = (resource_map (resource_list h))(k := None)"
proof (rule find_resource_cases [OF assms(1), of k])
  fix i v
  assume i: "find_resource (resource_list h) k = Inr (Some i)" "i < length (resource_list h)"
    "dr_filename (resource_list h ! i) = Some k" "resource_map (resource_list h) k = Some v"
  from remove_resource [OF assms(1) i(2,3)] i assms(2) show ?thesis
    by (simp add: check_dynamic_resource_def Let_def)
next
  assume "find_resource (resource_list h) k = Inr None" and "resource_map (resource_list h) k = None"
  then show ?thesis using assms by (simp add: check_dynamic_resource_def Let_def fun_upd_idem)
qed

lemma get_resource:
  assumes "resources_wf (resource_list h)" and "k \<noteq> []"
  shows "get_dynamic_ressource h (dynamic_prefix @ k) =
    (case resource_map (resource_list h) k of None \<Rightarrow> Inr (404, h)
     | Some v \<Rightarrow> Inr (200, h\<lparr>body := take (BODY_SIZE - 1) v\<rparr>))"
  by (rule find_resource_cases [OF assms(1), of k]) (use assms(2) in \<open>simp_all add: get_dynamic_ressource_def\<close>)

text \<open>An update as the request handler makes it, with the body that the request has brought.\<close>

definition tcp_enabled :: "update \<Rightarrow> tcp_state \<Rightarrow> bool" where
  "tcp_enabled u h =
     (case u of Create k v \<Rightarrow> k \<noteq> [] \<and> NUL \<notin> set v | Delete k \<Rightarrow> k \<noteq> [])"

definition tcp_step :: "update \<Rightarrow> tcp_state \<Rightarrow> tcp_state" where
  "tcp_step u h =
     (case (case u of
         Create k v \<Rightarrow> check_dynamic_resource [] (h\<lparr>body := v\<rparr>) (dynamic_prefix @ k) 1001
       | Delete k \<Rightarrow> check_dynamic_resource [] h (dynamic_prefix @ k) 1002) of
        Inl e \<Rightarrow> h | Inr (code, h', a) \<Rightarrow> h')"

lemma tcp_step_spec:
  assumes "resources_wf (resource_list h)" and "tcp_enabled u h"
  shows "resources_wf (resource_list (tcp_step u h))
    \<and> resource_map (resource_list (tcp_step u h)) = apply_update u (resource_map (resource_list h))"
proof (cases u)
  case (Create k v)
  with assms put_resource [of "h\<lparr>body := v\<rparr>" k "[]"] show ?thesis
    by (auto simp: tcp_step_def tcp_enabled_def c_str_no_NUL)
next
  case (Delete k)
  with assms delete_resource [of h k "[]"] show ?thesis
    by (auto simp: tcp_step_def tcp_enabled_def)
qed

interpretation dyn: resource_table "\<lambda>h. resources_wf (resource_list h)" "\<lambda>h. resource_map (resource_list h)"
  tcp_enabled tcp_step
  by unfold_locales (simp_all add: tcp_step_spec)

text \<open>C31: Dynamic resources are a finite map: after any sequence of PUTs, of new or of existing names, and
  DELETEs, a GET delivers the content that was last put under its name, cut to what the global array
  holds, and 404 for a name that was not put or has been deleted since.\<close>

theorem dynamic_resources_are_a_map:
  assumes "resources_wf (resource_list h)" and "\<forall>u \<in> set us. tcp_enabled u h" and "k \<noteq> []"
  shows "get_dynamic_ressource (fold tcp_step us h) (dynamic_prefix @ k) =
    (case fold apply_update us (resource_map (resource_list h)) k of
       None \<Rightarrow> Inr (404, fold tcp_step us h)
     | Some v \<Rightarrow> Inr (200, (fold tcp_step us h)\<lparr>body := take (BODY_SIZE - 1) v\<rparr>))"
proof -
  have "dyn.all_enabled us h"
    using assms(2) by (intro dyn.all_enabled_prefixes) (auto simp: tcp_enabled_def split: update.splits)
  from dyn.steps_lookup [OF assms(1) this] get_resource [of "fold tcp_step us h" k] assms(3) show ?thesis by simp
qed

lemma dynamic_resources_are_a_map_witness:
  "get_dynamic_ressource (fold tcp_step [Create ''a'' ''one'', Create ''b'' ''x'', Create ''a'' ''two'', Delete ''b'']
      \<lparr>request_uri = [], body = [], resource_list = []\<rparr>) ''/dynamic/a''
    = Inr (200, (fold tcp_step [Create ''a'' ''one'', Create ''b'' ''x'', Create ''a'' ''two'', Delete ''b'']
      \<lparr>request_uri = [], body = [], resource_list = []\<rparr>)\<lparr>body := ''two''\<rparr>)"
proof -
  let ?h = "\<lparr>request_uri = [], body = [], resource_list = []\<rparr>"
  have "resources_wf (resource_list ?h)" by (simp add: resources_wf_def names_def)
  moreover have "\<forall>u \<in> set [Create ''a'' ''one'', Create ''b'' ''x'', Create ''a'' ''two'', Delete ''b'']. tcp_enabled u ?h"
    by (simp add: tcp_enabled_def)
  ultimately show ?thesis
    using dynamic_resources_are_a_map [of ?h "[Create ''a'' ''one'', Create ''b'' ''x'', Create ''a'' ''two'', Delete ''b'']" "''a''"]
    by (simp add: BODY_SIZE_def)
qed

text \<open>
  The outcome of the second allocation of a PUT, the copy of the file name, is not tested: when it
  fails, the request is answered with 201, and every later request for a dynamic resource uses a null
  pointer.
\<close>

theorem unchecked_copy_crashes:
  assumes "find_resource (resource_list h) k = Inr None" and "k \<noteq> []" and "k' \<noteq> []"
  shows "\<exists>h' a'. check_dynamic_resource (True # False # a) h (dynamic_prefix @ k) 1001 = Inr (201, h', a')
    \<and> get_dynamic_ressource h' (dynamic_prefix @ k') = Inl Null_pointer"
  using assms by (auto simp: check_dynamic_resource_def my_strdup_def get_dynamic_ressource_def Let_def split: prod.split)

end
