(* ===== verification/Tcp_Request.thy ===== *)
theory Tcp_Request
  imports Tcp_Resources
begin

section \<open>Checking and dispatching a request (tcp-http-server/message\_handler.c)\<close>

text \<open>
  A buffer with its length is the list of its bytes, a position in it the rest of the list from there
  on: no function of this file reads behind the given length.  Codes are those of the source: 1000,
  1001 and 1002 for GET, PUT and DELETE, else an HTTP status.
\<close>

fun find_crlfcrlf :: "char list \<Rightarrow> nat option" where
  "find_crlfcrlf (a # b # c # d # s) =
     (if a = CR \<and> b = LF \<and> c = CR \<and> d = LF then Some 0
      else map_option Suc (find_crlfcrlf (b # c # d # s)))"
| "find_crlfcrlf s = None"

text \<open>\<open>while (pos + 1 < len && !(CRLF at pos)) pos++\<close>: by how much \<open>pos\<close> advances.\<close>

fun to_crlf :: "char list \<Rightarrow> nat" where
  "to_crlf (a # b # s) = (if a = CR \<and> b = LF then 0 else Suc (to_crlf (b # s)))"
| "to_crlf s = 0"

subsection \<open>The start line\<close>

text \<open>\<open>sscanf\<close> with \<open>%ns\<close>: white space is skipped, then at most \<open>n\<close> other characters are read.\<close>

definition scan_word :: "nat \<Rightarrow> string \<Rightarrow> (string \<times> string) option" where
  "scan_word n s =
     (let s1 = dropWhile is_space s; w = take n (takeWhile (\<lambda>c. \<not> is_space c) s1)
      in if w = [] then None else Some (w, drop (length w) s1))"

definition scan_line :: "string \<Rightarrow> (string \<times> string \<times> string) option" where
  "scan_line line =
     (case scan_word 15 line of None \<Rightarrow> None
      | Some (method, s1) \<Rightarrow>
         (case scan_word 255 s1 of None \<Rightarrow> None
          | Some (uri, s2) \<Rightarrow>
             (case scan_word 15 s2 of None \<Rightarrow> None
              | Some (version, s3) \<Rightarrow> Some (method, uri, version))))"

subsection \<open>The header lines\<close>

definition header_ok :: "char list \<Rightarrow> bool" where
  "header_ok line =
     (let h = c_str line; colon = length (takeWhile (\<lambda>c. c \<noteq> CHR '':'') h)
      in colon < length h \<and> colon \<noteq> 0 \<and> colon + 1 < length h \<and> h ! (colon + 1) = CHR 0x20
         \<and> colon + 2 < length h)"

text \<open>The loop over the header lines from the position \<open>s\<close> on; False is the return of 400.\<close>

function check_headers :: "char list \<Rightarrow> bool" where
  "check_headers s =
     (if length s \<le> 1 then True
      else (let line_len = to_crlf s in
        if length s \<le> line_len + 1 then False
        else if line_len = 0 then True
        else if 511 \<le> line_len then False
        else if \<not> header_ok (take line_len s) then False
        else check_headers (drop (line_len + 2) s)))"
  by pat_completeness auto
termination
  by (relation "measure length") auto

declare check_headers.simps [simp del]

definition method_code :: "string \<Rightarrow> nat" where
  "method_code method =
     (if strcmp method ''GET'' = 0 then 1000 else if strcmp method ''PUT'' = 0 then 1001
      else if strcmp method ''DELETE'' = 0 then 1002 else 501)"

definition check_first_line :: "tcp_state \<Rightarrow> char list \<Rightarrow> nat \<times> tcp_state" where
  "check_first_line h buf =
     (let line_len = to_crlf buf in
      if length buf \<le> line_len + 1 then (400, h)
      else if line_len = 0 \<or> 256 < line_len then (400, h)
      else (case scan_line (c_str (take line_len buf)) of None \<Rightarrow> (400, h)
        | Some (method, uri, version) \<Rightarrow>
           (if strcmp version ''HTTP/1.1'' \<noteq> 0 then (400, h)
            else if \<not> check_headers (drop (line_len + 2) buf) then (400, h)
            else (method_code method,
              if method_code method = 501 then h else h\<lparr>request_uri := uri\<rparr>))))"

text \<open>
  The second pass over the headers: its loop returns in its first round, so the checks in its body are
  never reached.
\<close>

definition check_after_first_line :: "char list \<Rightarrow> nat \<Rightarrow> nat" where
  "check_after_first_line buf code_from_first_line =
     (let pos = to_crlf buf in
      if length buf \<le> pos + 1 then 400
      else (let s = drop (pos + 2) buf in
        if length s \<le> 1 then code_from_first_line
        else if length s \<le> to_crlf s + 1 then 400
        else code_from_first_line))"

definition check_Header :: "tcp_state \<Rightarrow> char list \<Rightarrow> nat \<times> tcp_state" where
  "check_Header h buf =
     (let (code, h') = check_first_line h buf
      in if code = 400 then (400, h') else (check_after_first_line buf code, h'))"

subsection \<open>The body and the dispatch\<close>

definition get_body :: "tcp_state \<Rightarrow> char list \<Rightarrow> tcp_state" where
  "get_body h buf =
     (case find_crlfcrlf buf of None \<Rightarrow> h\<lparr>body := []\<rparr>
      | Some header_end \<Rightarrow> h\<lparr>body := take (BODY_SIZE - 1) (drop (header_end + 4) buf)\<rparr>)"

definition get_code :: "alloc \<Rightarrow> tcp_state \<Rightarrow> char list \<Rightarrow> tcp_fault + (nat \<times> tcp_state \<times> alloc)" where
  "get_code a h buf =
     (let (code, h') = check_Header h buf; uri = request_uri h' in
      if code = 400 then Inr (400, h', a)
      else if code = 1000 then
        (if take 8 uri = ''/static/'' then Inr (check_static_resource uri, h', a)
         else if take 9 uri = dynamic_prefix then
           (case get_dynamic_ressource h' uri of Inl e \<Rightarrow> Inl e | Inr (c, h'') \<Rightarrow> Inr (c, h'', a))
         else Inr (404, h', a))
      else if code = 1001 then check_dynamic_resource a (get_body h' buf) uri code
      else if code = 1002 then check_dynamic_resource a h' uri code
      else Inr (code, h', a))"

subsection \<open>Finding line ends\<close>

lemma to_crlf_le: "to_crlf s \<le> length s"
  by (induction s rule: to_crlf.induct) auto

lemma to_crlf_at: "CR \<notin> set l \<Longrightarrow> to_crlf (l @ CR # LF # rest) = length l"
proof (induction l)
  case (Cons c l)
  then show ?case by (cases l) auto
qed simp

lemma find_crlfcrlf_bound: "find_crlfcrlf s = Some i \<Longrightarrow> i + 4 \<le> length s"
  by (induction s arbitrary: i rule: find_crlfcrlf.induct) (auto split: if_splits)

lemma find_crlfcrlf_append: "find_crlfcrlf s = Some i \<Longrightarrow> find_crlfcrlf (s @ t) = Some i"
  by (induction s arbitrary: i rule: find_crlfcrlf.induct) (auto split: if_splits)

lemma find_crlfcrlf_take: "find_crlfcrlf s = Some i \<Longrightarrow> i + 4 \<le> n \<Longrightarrow> find_crlfcrlf (take n s) = Some i"
proof (induction s arbitrary: i n rule: find_crlfcrlf.induct)
  case (1 a b c d s)
  then have "n = Suc (Suc (Suc (Suc (n - 4))))" by simp
  then obtain m where n: "n = Suc (Suc (Suc (Suc m)))" ..
  show ?case
  proof (cases "a = CR \<and> b = LF \<and> c = CR \<and> d = LF")
    case True
    with 1 n show ?thesis by simp
  next
    case False
    with "1.prems"(1) obtain j where j: "i = Suc j" "find_crlfcrlf (b # c # d # s) = Some j"
      by (auto split: if_splits)
    have "j + 4 \<le> Suc (Suc (Suc m))" using "1.prems"(2) j(1) n by simp
    from "1.IH" [OF False j(2) this] j(1) n False show ?thesis by auto
  qed
qed auto

text \<open>
  The second pass never changes the verdict of the first: where the first one has accepted the
  headers, the lines that the second one looks for are there.
\<close>

lemma second_pass_agrees:
  assumes "check_first_line h buf = (code, h')" and "code \<noteq> 400"
  shows "check_after_first_line buf code = code"
proof -
  let ?k = "to_crlf buf"
  let ?s = "drop (?k + 2) buf"
  from assms have k: "\<not> length buf \<le> ?k + 1" and ok: "check_headers ?s"
    by (auto simp: check_first_line_def Let_def split: if_splits option.splits prod.splits)
  from ok have "length ?s \<le> 1 \<or> \<not> length ?s \<le> to_crlf ?s + 1"
    by (subst (asm) check_headers.simps) (auto simp: Let_def split: if_splits)
  with k show ?thesis by (auto simp: check_after_first_line_def Let_def)
qed

lemma check_Header_alt: "check_Header h buf = check_first_line h buf"
  using second_pass_agrees [of h buf] by (auto simp: check_Header_def split: prod.splits)

lemma method_code_not_400 [simp]: "method_code m \<noteq> 400"
  by (simp add: method_code_def)

subsection \<open>Requests do not fault\<close>

text \<open>With successful allocations no request uses a null pointer, and the resources stay well formed.\<close>

lemma dynamic_uri_split: "take 9 uri = dynamic_prefix \<Longrightarrow> \<exists>k. uri = dynamic_prefix @ k"
  by (metis append_take_drop_id)

lemma check_dynamic_resource_safe:
  assumes "resources_wf (resource_list h)" and "plenty a"
  shows "\<exists>c h' a'. check_dynamic_resource a h uri code = Inr (c, h', a') \<and> resources_wf (resource_list h') \<and> plenty a'"
proof (cases "take 9 uri = dynamic_prefix \<and> drop 9 uri \<noteq> [] \<and> code \<in> {1001, 1002}")
  case False
  then show ?thesis using assms by (auto simp: check_dynamic_resource_def Let_def)
next
  case True
  then obtain k where uri: "uri = dynamic_prefix @ k" using dynamic_uri_split by blast
  have "k \<noteq> []" using True unfolding uri by simp
  note k = uri this
  from True consider "code = 1001" | "code = 1002" by auto
  then show ?thesis
    by cases (use put_resource [OF assms(1) k(2) assms(2)] delete_resource [OF assms(1) k(2), of a] assms(2) k in auto)
qed

lemma get_code_safe:
  assumes "resources_wf (resource_list h)" and "plenty a"
  shows "\<exists>c h' a'. get_code a h buf = Inr (c, h', a') \<and> resources_wf (resource_list h') \<and> plenty a'"
proof -
  obtain code h1 where check: "check_Header h buf = (code, h1)" by (cases "check_Header h buf")
  then have list: "resource_list h1 = resource_list h"
    by (auto simp: check_Header_alt check_first_line_def Let_def split: if_splits option.splits prod.splits)
  have get: "\<exists>c h2. get_dynamic_ressource h1 (request_uri h1) = Inr (c, h2) \<and> resource_list h2 = resource_list h1"
    if "take 9 (request_uri h1) = dynamic_prefix"
  proof (cases "drop 9 (request_uri h1) = []")
    case True
    then show ?thesis by (simp add: get_dynamic_ressource_def)
  next
    case False
    from dynamic_uri_split [OF that] obtain k where uri: "request_uri h1 = dynamic_prefix @ k" ..
    have "k \<noteq> []" using False unfolding uri by simp
    with uri get_resource [of h1 k] assms(1) list show ?thesis by (auto split: option.splits)
  qed
  have "resource_list (get_body h1 buf) = resource_list h1" by (simp add: get_body_def split: option.split)
  with check_dynamic_resource_safe [of _ a "request_uri h1" code] get assms list
  show ?thesis by (fastforce simp: get_code_def check Let_def)
qed

text \<open>The second pass over the headers, whose checks the misplaced return makes unreachable, never changes
  the verdict of the first pass: the code of a request is that of its start line and headers, checked
  once; and a request that is rejected with 400 has no effect on any resource, on \<open>body\<close> or on the URI.\<close>

theorem second_pass_is_redundant:
  "check_Header h buf = check_first_line h buf
   \<and> get_code a h buf =
      (let (code, h') = check_first_line h buf; uri = request_uri h' in
       if code = 400 then Inr (400, h, a)
       else if code = 501 then Inr (501, h, a)
       else if code = 1000 then
         (if take 8 uri = ''/static/'' then Inr (check_static_resource uri, h', a)
          else (case get_dynamic_ressource h' uri of Inl e \<Rightarrow> Inl e | Inr (c, h'') \<Rightarrow> Inr (c, h'', a)))
       else check_dynamic_resource a (if code = 1001 then get_body h' buf else h') uri code)"
proof -
  obtain code h' where c: "check_first_line h buf = (code, h')" by (cases "check_first_line h buf")
  then have codes: "code \<in> {400, 501, 1000, 1001, 1002}" "code = 400 \<Longrightarrow> h' = h" "code = 501 \<Longrightarrow> h' = h"
    by (auto simp: check_first_line_def method_code_def Let_def split: if_splits option.splits prod.splits)
  have "take 9 uri \<noteq> dynamic_prefix \<Longrightarrow> get_dynamic_ressource h' uri = Inr (404, h')" for uri
    by (simp add: get_dynamic_ressource_def)
  then show ?thesis
    using codes by (auto simp: check_Header_alt get_code_def c Let_def)
qed

end
