(* ===== verification/Tcp_Server.thy ===== *)
theory Tcp_Server
  imports Tcp_Request
begin

section \<open>The request loop of the HTTP server (tcp-http-server/message\_handler.c, webserver.c)\<close>

text \<open>
  The receive buffer is the list of its \<open>buf_len\<close> bytes.  The loop takes complete messages, head and
  body, from its front and answers each; it stops at the first one that has not arrived in full.
  Sending is taken to succeed.
\<close>

definition INT_MAX :: int where
  "INT_MAX = 2147483647"

text \<open>\<open>strstr\<close>: the rest of the string from the first occurrence on.\<close>

fun strstr :: "string \<Rightarrow> string \<Rightarrow> string option" where
  "strstr s needle =
     (if take (length needle) s = needle then Some s
      else (case s of [] \<Rightarrow> None | c # t \<Rightarrow> strstr t needle))"

text \<open>\<open>atoi\<close>; a number that no \<open>int\<close> can hold is undefined behaviour.\<close>

definition atoi :: "string \<Rightarrow> tcp_fault + int" where
  "atoi s =
     (let s1 = dropWhile is_space s;
          neg = (s1 \<noteq> [] \<and> hd s1 = CHR ''-'');
          s2 = (if s1 \<noteq> [] \<and> (hd s1 = CHR ''-'' \<or> hd s1 = CHR ''+'') then tl s1 else s1);
          v = int (dec_value 0 (takeWhile is_digit s2));
          n = (if neg then - v else v)
      in if INT_MAX < n \<or> n < - INT_MAX - 1 then Inl Int_overflow else Inr n)"

definition HEADER_BLOCK :: nat where
  "HEADER_BLOCK = 4096"

definition announced_length :: "char list \<Rightarrow> tcp_fault + int" where
  "announced_length head =
     (case strstr (c_str (take (HEADER_BLOCK - 1) head)) ''Content-Length:'' of None \<Rightarrow> Inr 0
      | Some cl \<Rightarrow>
         (case atoi (dropWhile (\<lambda>c. c = CHR 0x20 \<or> c = CHR 0x09) (drop 15 cl)) of Inl e \<Rightarrow> Inl e
          | Inr n \<Rightarrow> Inr (if n < 0 then 0 else n)))"

text \<open>The length of the message at the front of the buffer, if it has arrived in full.\<close>

definition next_message :: "char list \<Rightarrow> tcp_fault + nat option" where
  "next_message buf =
     (if length buf < 4 then Inr None
      else (case find_crlfcrlf buf of None \<Rightarrow> Inr None
        | Some header_end \<Rightarrow>
           (let header_len = header_end + 4 in
            case announced_length (take header_len buf) of Inl e \<Rightarrow> Inl e
            | Inr content_length \<Rightarrow>
               (let total_len = int header_len + content_length in
                if INT_MAX < total_len then Inl Int_overflow
                else if int (length buf) < total_len then Inr None
                else Inr (Some (nat total_len))))))"

subsection \<open>Replies\<close>

abbreviation CRLF :: string where
  "CRLF \<equiv> [CR, LF]"

definition empty_reply_text :: "string \<Rightarrow> string" where
  "empty_reply_text status = ''HTTP/1.1 '' @ status @ CRLF @ ''Content-Length: 0'' @ CRLF @ CRLF"

definition ok_reply :: "string \<Rightarrow> string" where
  "ok_reply resp_body = ''HTTP/1.1 200 OK'' @ CRLF @ ''Content-Length: '' @ decimal (length resp_body)
     @ CRLF @ CRLF @ resp_body"

definition response_body :: "tcp_state \<Rightarrow> string" where
  "response_body h =
     (if take 9 (request_uri h) = dynamic_prefix then c_str (body h)
      else if strcmp (request_uri h) ''/static/foo'' = 0 then ''Foo''
      else if strcmp (request_uri h) ''/static/bar'' = 0 then ''Bar''
      else if strcmp (request_uri h) ''/static/baz'' = 0 then ''Baz''
      else [])"

definition REPLY_SIZE :: nat where
  "REPLY_SIZE = 9000"

text \<open>\<open>None\<close>: the reply does not fit its buffer.\<close>

definition reply_for :: "tcp_state \<Rightarrow> nat \<Rightarrow> string option" where
  "reply_for h code =
     (if code = 400 then Some (empty_reply_text ''400 Bad Request'')
      else if code = 404 then Some (empty_reply_text ''404 Not Found'')
      else if code = 501 then Some (empty_reply_text ''501 Not Implemented'')
      else if code = 403 then Some (empty_reply_text ''403 Forbidden'')
      else if code = 201 then Some (empty_reply_text ''201 Created'')
      else if code = 204 then Some (empty_reply_text ''204 No Content'')
      else if code = 200 then
        (let reply = ok_reply (response_body h)
         in if REPLY_SIZE \<le> length reply then None else Some reply)
      else Some (empty_reply_text ''501 Not Implemented''))"

lemma next_message_bounds: "next_message buf = Inr (Some n) \<Longrightarrow> 4 \<le> n \<and> n \<le> length buf"
proof -
  assume n: "next_message buf = Inr (Some n)"
  then obtain e c where e: "find_crlfcrlf buf = Some e" and c: "announced_length (take (e + 4) buf) = Inr c"
    and t: "n = nat (int (e + 4) + c)" "int (e + 4) + c \<le> int (length buf)"
    by (auto simp: next_message_def Let_def split: if_splits option.splits sum.splits)
  from c have "0 \<le> c" by (auto simp: announced_length_def split: option.splits sum.splits)
  with t show ?thesis by linarith
qed

subsection \<open>The loop\<close>

function get_messages_and_send ::
  "alloc \<Rightarrow> tcp_state \<Rightarrow> char list \<Rightarrow> tcp_fault + (alloc \<times> tcp_state \<times> char list \<times> string list)"
where
  "get_messages_and_send a h buf =
     (case next_message buf of Inl e \<Rightarrow> Inl e
      | Inr None \<Rightarrow> Inr (a, h, buf, [])
      | Inr (Some total_len) \<Rightarrow>
         (case get_code a h (take total_len buf) of Inl e \<Rightarrow> Inl e
          | Inr (code, h1, a1) \<Rightarrow>
             (case reply_for h1 code of None \<Rightarrow> Inr (a1, h1, buf, [])
              | Some reply \<Rightarrow>
                 (case get_messages_and_send a1 h1 (drop total_len buf) of Inl e \<Rightarrow> Inl e
                  | Inr (a2, h2, rest, replies) \<Rightarrow> Inr (a2, h2, rest, reply # replies)))))"
  by pat_completeness auto
termination
  by (relation "measure (\<lambda>(a, h, buf). length buf)") (auto dest: next_message_bounds)

declare get_messages_and_send.simps [simp del]

text \<open>
  One connection of \<open>main\<close>: \<open>pending\<close> is what the client sends, in the pieces in which it arrives; each
  \<open>recv\<close> takes as much of a piece as there is room for.  A result of 0, when no byte has room, ends the
  connection.
\<close>

definition BUFFER_SIZE :: nat where
  "BUFFER_SIZE = 8192"

function serve_client ::
  "alloc \<Rightarrow> tcp_state \<Rightarrow> char list \<Rightarrow> char list list \<Rightarrow> tcp_fault + (alloc \<times> tcp_state \<times> char list \<times> string list)"
where
  "serve_client a h buf [] = Inr (a, h, buf, [])"
| "serve_client a h buf (piece # pending) =
     (let room = BUFFER_SIZE - length buf; data = take room piece in
      if data = [] then Inr (a, h, buf, [])
      else (case get_messages_and_send a h (buf @ data) of Inl e \<Rightarrow> Inl e
        | Inr (a1, h1, buf1, out1) \<Rightarrow>
           (case serve_client a1 h1 buf1 (if drop room piece = [] then pending else drop room piece # pending) of
              Inl e \<Rightarrow> Inl e
            | Inr (a2, h2, buf2, out2) \<Rightarrow> Inr (a2, h2, buf2, out1 @ out2))))"
  by pat_completeness auto
termination
  by (relation "measure (\<lambda>(a, h, buf, pending). sum_list (map length pending) + length pending)") auto

subsection \<open>More bytes do not change what has been decided\<close>

lemma next_message_append:
  "next_message x = Inr (Some n) \<Longrightarrow> next_message (x @ y) = Inr (Some n)"
  "next_message x = Inl e \<Longrightarrow> next_message (x @ y) = Inl e"
proof -
  have app: "next_message (x @ y) = (let t = int (i + 4) + c in
      if INT_MAX < t then Inl Int_overflow else if int (length (x @ y)) < t then Inr None else Inr (Some (nat t)))"
    if "find_crlfcrlf x = Some i" "announced_length (take (i + 4) x) = Inr c" for i c
    using that find_crlfcrlf_bound [OF that(1)] find_crlfcrlf_append [OF that(1), of y]
    by (simp add: next_message_def Let_def)
  have err: "next_message (x @ y) = Inl e"
    if "find_crlfcrlf x = Some i" "announced_length (take (i + 4) x) = Inl e" for i e
    using that find_crlfcrlf_bound [OF that(1)] find_crlfcrlf_append [OF that(1), of y]
    by (simp add: next_message_def)
  show "next_message x = Inr (Some n) \<Longrightarrow> next_message (x @ y) = Inr (Some n)"
    by (auto simp: next_message_def [of x] Let_def app split: if_splits option.splits sum.splits)
  show "next_message x = Inl e \<Longrightarrow> next_message (x @ y) = Inl e"
    by (auto simp: next_message_def [of x] Let_def app err split: if_splits option.splits sum.splits)
qed

text \<open>The array \<open>body\<close> never holds more than its size, so that every reply fits.\<close>

definition body_wf :: "tcp_state \<Rightarrow> bool" where
  "body_wf h \<longleftrightarrow> length (body h) < BODY_SIZE"

lemma check_dynamic_resource_body: "check_dynamic_resource a h uri code = Inr (c, h', a') \<Longrightarrow> body h' = body h"
  by (auto simp: check_dynamic_resource_def Let_def split: if_splits option.splits sum.splits prod.splits)

lemma check_Header_body: "body (snd (check_Header h buf)) = body h"
  by (simp add: check_Header_alt check_first_line_def Let_def split: option.split)

lemma get_dynamic_ressource_body_wf: "get_dynamic_ressource h uri = Inr (c, h') \<Longrightarrow> body_wf h \<Longrightarrow> body_wf h'"
  by (auto simp: get_dynamic_ressource_def body_wf_def BODY_SIZE_def Let_def split: if_splits option.splits sum.splits)

lemma get_body_wf: "body_wf (get_body h buf)"
  by (auto simp: get_body_def body_wf_def BODY_SIZE_def min_less_iff_disj split: option.split)

lemma get_code_body_wf:
  assumes "get_code a h buf = Inr (code, h', a')" and "body_wf h"
  shows "body_wf h'"
proof -
  obtain c h1 where c: "check_Header h buf = (c, h1)" by fastforce
  then have h1: "body_wf h1" using check_Header_body [of h buf] assms(2) by (simp add: body_wf_def)
  from assms(1) c consider "h' = h1" | r where "get_dynamic_ressource h1 (request_uri h1) = Inr (r, h')"
    | h2 where "check_dynamic_resource a h2 (request_uri h1) c = Inr (code, h', a')" "h2 = h1 \<or> h2 = get_body h1 buf"
    by (auto simp: get_code_def Let_def split: if_splits sum.splits)
  then show ?thesis
  proof cases
    case 3
    with h1 get_body_wf [of h1 buf] have "body_wf h2" by auto
    with check_dynamic_resource_body [OF 3(1)] show ?thesis by (simp add: body_wf_def)
  qed (use h1 get_dynamic_ressource_body_wf in auto)
qed

lemma reply_fits:
  assumes "body_wf h"
  shows "reply_for h code \<noteq> None"
proof -
  have "length (response_body h) < BODY_SIZE"
    using assms length_c_str [of "body h"] by (auto simp: response_body_def body_wf_def BODY_SIZE_def)
  then have n: "length (response_body h) < 10000" by (simp add: BODY_SIZE_def)
  have "length (decimal (length (response_body h))) \<le> 4"
    using n by (simp add: decimal.simps [of "length (response_body h)"] decimal.simps [of "length (response_body h) div 10"]
        decimal.simps [of "length (response_body h) div 10 div 10"] decimal.simps [of "length (response_body h) div 10 div 10 div 10"])
  then have "length (ok_reply (response_body h)) < REPLY_SIZE"
    using \<open>length (response_body h) < BODY_SIZE\<close> by (simp add: ok_reply_def REPLY_SIZE_def BODY_SIZE_def)
  then show ?thesis by (simp add: reply_for_def Let_def)
qed

subsection \<open>Pieces of the stream\<close>

text \<open>The loop by its cases, and induction over the messages that it takes.\<close>

lemma loop_fault: "next_message x = Inl e \<Longrightarrow> get_messages_and_send a h x = Inl e"
  by (simp add: get_messages_and_send.simps [of a h x])

lemma loop_wait: "next_message x = Inr None \<Longrightarrow> get_messages_and_send a h x = Inr (a, h, x, [])"
  by (simp add: get_messages_and_send.simps [of a h x])

lemma loop_code_fault:
  "next_message x = Inr (Some n) \<Longrightarrow> get_code a h (take n x) = Inl e \<Longrightarrow> get_messages_and_send a h x = Inl e"
  by (simp add: get_messages_and_send.simps [of a h x])

lemma loop_message:
  "next_message x = Inr (Some n) \<Longrightarrow> get_code a h (take n x) = Inr (code, h1, a1) \<Longrightarrow> reply_for h1 code = Some reply \<Longrightarrow>
    get_messages_and_send a h x = (case get_messages_and_send a1 h1 (drop n x) of Inl e \<Rightarrow> Inl e
      | Inr (a2, h2, rest, replies) \<Rightarrow> Inr (a2, h2, rest, reply # replies))"
  by (simp add: get_messages_and_send.simps [of a h x])

lemmas loop_cases = loop_fault loop_wait loop_code_fault loop_message

lemma loop_induct [consumes 1, case_names fault wait code_fault message]:
  assumes "body_wf h"
    and "\<And>a h x e. next_message x = Inl e \<Longrightarrow> P a h x"
    and "\<And>a h x. body_wf h \<Longrightarrow> next_message x = Inr None \<Longrightarrow> P a h x"
    and "\<And>a h x n e. next_message x = Inr (Some n) \<Longrightarrow> n \<le> length x \<Longrightarrow> get_code a h (take n x) = Inl e \<Longrightarrow> P a h x"
    and "\<And>a h x n code h1 a1 reply. next_message x = Inr (Some n) \<Longrightarrow> n \<le> length x \<Longrightarrow>
      get_code a h (take n x) = Inr (code, h1, a1) \<Longrightarrow> reply_for h1 code = Some reply \<Longrightarrow> body_wf h1 \<Longrightarrow>
      P a1 h1 (drop n x) \<Longrightarrow> P a h x"
  shows "P a h x"
  using assms(1)
proof (induction a h x rule: get_messages_and_send.induct)
  case (1 a h x)
  consider (fault) e where "next_message x = Inl e" | (wait) "next_message x = Inr None"
    | (some) n where "next_message x = Inr (Some n)"
    by (metis sum.exhaust option.exhaust)
  then show ?case
  proof cases
    case some
    then have n: "n \<le> length x" using next_message_bounds by blast
    show ?thesis
    proof (cases "get_code a h (take n x)")
      case (Inr c)
      obtain code h1 a1 where "c = (code, h1, a1)" by (cases c)
      with Inr have c: "get_code a h (take n x) = Inr (code, h1, a1)" by simp
      have wf: "body_wf h1" using get_code_body_wf [OF c "1.prems"] .
      then obtain reply where reply: "reply_for h1 code = Some reply" using reply_fits by blast
      show ?thesis by (rule assms(5) [OF some n c reply wf "1.IH" [OF some refl c refl refl reply wf]])
    qed (rule assms(4) [OF some n])
  qed (rule assms(2), assumption, rule assms(3) [OF "1.prems"], assumption)
qed

lemma get_messages_append:
  assumes "body_wf h"
  shows "get_messages_and_send a h (x @ y) =
    (case get_messages_and_send a h x of Inl e \<Rightarrow> Inl e
     | Inr (a1, h1, rest, out1) \<Rightarrow>
        (case get_messages_and_send a1 h1 (rest @ y) of Inl e \<Rightarrow> Inl e
         | Inr (a2, h2, rest2, out2) \<Rightarrow> Inr (a2, h2, rest2, out1 @ out2)))"
  using assms
proof (induction a h x rule: loop_induct)
  case (fault a h x e)
  then show ?case using next_message_append(2) by (simp add: loop_fault)
next
  case (wait a h x)
  then show ?case by (simp add: loop_wait split: sum.split prod.split)
next
  case (code_fault a h x n e)
  then show ?case using loop_code_fault [of "x @ y" n a h e] next_message_append(1) [of x n y]
    by (simp add: loop_code_fault)
next
  case (message a h x n code h1 a1 reply)
  have "next_message (x @ y) = Inr (Some n)" using next_message_append(1) [OF message(1)] .
  moreover have "get_code a h (take n (x @ y)) = Inr (code, h1, a1)" using message(2,3) by simp
  ultimately show ?case
    using message loop_message [of "x @ y" n a h code h1 a1 reply] by (simp add: loop_message split: sum.split prod.split)
qed

lemma get_messages_rest:
  "body_wf h \<Longrightarrow> get_messages_and_send a h x = Inr (a1, h1, rest, out) \<Longrightarrow>
    body_wf h1 \<and> length rest \<le> length x \<and> next_message rest = Inr None"
proof (induction a h x arbitrary: out rule: loop_induct)
  case (message a h x n code h2 a2 reply)
  then show ?case by (auto simp: loop_message split: sum.splits)
qed (simp_all add: loop_cases)

lemma serve_client_pieces:
  assumes "length (body h) < BODY_SIZE" and "[] \<notin> set pieces" and "length buf + length (concat pieces) \<le> BUFFER_SIZE"
    and "next_message buf = Inr None"
  shows "serve_client a h buf pieces = get_messages_and_send a h (buf @ concat pieces)"
proof -
  from assms(1) have "body_wf h" by (simp add: body_wf_def)
  then show ?thesis using assms(2-4)
  proof (induction pieces arbitrary: a h buf)
    case Nil
    then show ?case by (simp add: loop_wait)
  next
    case (Cons p pieces)
    have fits: "take (BUFFER_SIZE - length buf) p = p" "drop (BUFFER_SIZE - length buf) p = []" "p \<noteq> []"
      using Cons.prems(2,3) by auto
    have room: "\<not> BUFFER_SIZE \<le> length buf" using Cons.prems(2,3) by (cases p) auto
    note append = get_messages_append [OF Cons.prems(1), of a "buf @ p" "concat pieces"]
    show ?case
    proof (cases "get_messages_and_send a h (buf @ p)")
      case (Inl e)
      with append fits room show ?thesis by (simp add: Let_def)
    next
      case (Inr r)
      obtain a1 h1 b1 out where r: "r = (a1, h1, b1, out)" by (cases r)
      have rest: "body_wf h1 \<and> length b1 \<le> length (buf @ p) \<and> next_message b1 = Inr None"
        by (rule get_messages_rest [OF Cons.prems(1)]) (use Inr r in blast)
      have "serve_client a1 h1 b1 pieces = get_messages_and_send a1 h1 (b1 @ concat pieces)"
        by (rule Cons.IH) (use Cons.prems(2,3) rest in auto)
      with Inr r fits room append show ?thesis
        by (simp add: Let_def split: sum.split prod.split)
    qed
  qed
qed

text \<open>C25: It does not matter in which pieces the bytes of a client arrive: as long as all of them fit the
  receive buffer, the replies, the resources and the unfinished rest after any pieces are those of the
  same bytes in one piece.\<close>

theorem pieces_do_not_matter:
  assumes "length (body h) < BODY_SIZE" and "[] \<notin> set pieces" and "length buf + length (concat pieces) \<le> BUFFER_SIZE"
    and "next_message buf = Inr None"
  shows "serve_client a h buf pieces = get_messages_and_send a h (buf @ concat pieces)"
  using assms by (rule serve_client_pieces)

lemma pieces_do_not_matter_witness:
  "serve_client [] \<lparr>request_uri = [], body = [], resource_list = []\<rparr> [] [''GET /a HTTP/1.1'' @ [CR], [LF, CR, LF] @ ''GET'']
    = get_messages_and_send [] \<lparr>request_uri = [], body = [], resource_list = []\<rparr> (''GET /a HTTP/1.1'' @ CRLF @ CRLF @ ''GET'')"
  using pieces_do_not_matter [of "\<lparr>request_uri = [], body = [], resource_list = []\<rparr>"
      "[''GET /a HTTP/1.1'' @ [CR], [LF, CR, LF] @ ''GET'']" "[]" "[]"]
  by (simp add: BODY_SIZE_def BUFFER_SIZE_def next_message_def)

subsection \<open>Invariant\<close>

lemma if_Inl: "(if c then Inl x else Inr n) = Inl e \<Longrightarrow> e = x"
  by (simp split: if_splits)

lemma atoi_fault: "atoi s = Inl e \<Longrightarrow> e = Int_overflow"
  unfolding atoi_def Let_def by (rule if_Inl)

lemma announced_length_fault: "announced_length x = Inl e \<Longrightarrow> e = Int_overflow"
  by (auto simp: announced_length_def dest: atoi_fault split: option.splits sum.splits)

lemma get_messages_safe:
  "body_wf h \<Longrightarrow> resources_wf (resource_list h) \<Longrightarrow> plenty a \<Longrightarrow>
    (case get_messages_and_send a h x of Inl e \<Rightarrow> e = Int_overflow
     | Inr (a1, h1, rest, out) \<Rightarrow> resources_wf (resource_list h1) \<and> plenty a1)"
proof (induction a h x rule: loop_induct)
  case (fault a h x e)
  then have "e = Int_overflow"
    by (auto simp: next_message_def Let_def dest: announced_length_fault split: if_splits option.splits sum.splits)
  with fault show ?case by (simp add: loop_fault)
next
  case (wait a h x)
  then show ?case by (simp add: loop_wait)
next
  case (code_fault a h x n e)
  with get_code_safe [OF code_fault(4,5), of "take n x"] show ?case by simp
next
  case (message a h x n code h1 a1 reply)
  have "resources_wf (resource_list h1)" "plenty a1"
    using get_code_safe [OF message(7,8), of "take n x"] message(3) by auto
  with message show ?case by (auto simp: loop_message split: sum.splits)
qed

lemma serve_client_safe:
  "body_wf h \<Longrightarrow> resources_wf (resource_list h) \<Longrightarrow> plenty a \<Longrightarrow> length buf \<le> BUFFER_SIZE \<Longrightarrow>
    (case serve_client a h buf pieces of Inl e \<Rightarrow> e = Int_overflow
     | Inr (a', h', buf', replies) \<Rightarrow> resources_wf (resource_list h') \<and> body_wf h' \<and> length buf' \<le> BUFFER_SIZE)"
proof (induction a h buf pieces rule: serve_client.induct)
  case (1 a h buf)
  then show ?case by simp
next
  case (2 a h buf piece pending)
  let ?room = "BUFFER_SIZE - length buf"
  let ?data = "take ?room piece" and ?pend = "if drop ?room piece = [] then pending else drop ?room piece # pending"
  show ?case
  proof (cases "?data = []")
    case True
    with "2.prems" show ?thesis by (simp add: Let_def)
  next
    case False
    note safe = get_messages_safe [OF "2.prems"(1-3), of "buf @ ?data"]
    show ?thesis
    proof (cases "get_messages_and_send a h (buf @ ?data)")
      case (Inl e)
      with safe False show ?thesis by (simp add: Let_def)
    next
      case (Inr r)
      obtain a1 h1 b1 out1 where r: "r = (a1, h1, b1, out1)" by (cases r)
      have rest: "body_wf h1 \<and> length b1 \<le> length (buf @ ?data) \<and> next_message b1 = Inr None"
        by (rule get_messages_rest [OF "2.prems"(1)]) (use Inr r in blast)
      moreover have "length (buf @ ?data) \<le> BUFFER_SIZE" using "2.prems"(4) by auto
      ultimately have "length b1 \<le> BUFFER_SIZE" by linarith
      then have ih: "case serve_client a1 h1 b1 ?pend of Inl e \<Rightarrow> e = Int_overflow
          | Inr (a', h', buf', replies) \<Rightarrow> resources_wf (resource_list h') \<and> body_wf h' \<and> length buf' \<le> BUFFER_SIZE"
        using "2.IH" [OF refl refl False Inr r [symmetric] refl refl] rest safe Inr r by simp
      have "serve_client a h buf (piece # pending) = (case serve_client a1 h1 b1 ?pend of Inl e \<Rightarrow> Inl e
          | Inr (a2, h2, b2, out2) \<Rightarrow> Inr (a2, h2, b2, out1 @ out2))"
        using False Inr r by (simp add: Let_def)
      with ih show ?thesis by (cases "serve_client a1 h1 b1 ?pend") (simp_all split: prod.splits)
    qed
  qed
qed

text \<open>C28: As long as memory can be allocated, no sequence of bytes, in whatever pieces, makes the server use
  a null pointer; the only undefined behaviour left is an \<open>int\<close> overflow of an announced length.  The
  list of resources never holds a name twice, the array \<open>body\<close> and the receive buffer are never
  written beyond their sizes.\<close>

theorem tcp_server_invariant:
  assumes "resources_wf (resource_list h)" and "length (body h) < BODY_SIZE" and "plenty a" and "length buf \<le> BUFFER_SIZE"
  shows "case serve_client a h buf pieces of Inl e \<Rightarrow> e = Int_overflow
    | Inr (a', h', buf', replies) \<Rightarrow> distinct (names (resource_list h')) \<and> resources_wf (resource_list h')
        \<and> length (body h') < BODY_SIZE \<and> length buf' \<le> BUFFER_SIZE"
proof -
  have "body_wf h" using assms(2) by (simp add: body_wf_def)
  from serve_client_safe [OF this assms(1,3,4), of pieces] show ?thesis
    by (auto simp: body_wf_def resources_wf_def split: sum.splits)
qed

lemma tcp_server_invariant_witness:
  "case serve_client [] \<lparr>request_uri = [], body = [], resource_list = []\<rparr> [] [''PUT /dynamic/a HTTP/1.1'', CRLF @ CRLF] of
     Inl e \<Rightarrow> e = Int_overflow | Inr (a', h', buf', replies) \<Rightarrow> resources_wf (resource_list h')"
proof -
  let ?h = "\<lparr>request_uri = [], body = [], resource_list = []\<rparr>"
  have "resources_wf (resource_list ?h)" "length (body ?h) < BODY_SIZE" "length [] \<le> BUFFER_SIZE"
    by (simp_all add: resources_wf_def names_def BODY_SIZE_def)
  note inv = tcp_server_invariant [OF this(1,2) plenty_Nil this(3), of "[''PUT /dynamic/a HTTP/1.1'', CRLF @ CRLF]"]
  show ?thesis
  proof (cases "serve_client [] ?h [] [''PUT /dynamic/a HTTP/1.1'', CRLF @ CRLF]")
    case (Inl e)
    with inv show ?thesis by (simp only: sum.case)
  next
    case (Inr r)
    with inv show ?thesis by (cases r) (simp only: sum.case prod.case simp_thms)
  qed
qed

end
