(* ===== verification/Tcp_Service.thy ===== *)
theory Tcp_Service
  imports Tcp_Server
begin

section \<open>Well-formed requests to the HTTP server\<close>

text \<open>The text of a request, as clients write it, and what the server makes of it.\<close>

definition tcp_header :: "string \<times> string \<Rightarrow> string" where
  "tcp_header h = fst h @ CHR '':'' # CHR 0x20 # snd h @ CRLF"

definition start_line :: "string \<Rightarrow> string \<Rightarrow> string" where
  "start_line m u = m @ CHR 0x20 # u @ CHR 0x20 # ''HTTP/1.1''"

definition tcp_head :: "string \<Rightarrow> string \<Rightarrow> (string \<times> string) list \<Rightarrow> string" where
  "tcp_head m u hs = start_line m u @ CRLF @ concat (map tcp_header hs) @ CRLF"

definition plain_word :: "string \<Rightarrow> bool" where
  "plain_word w \<longleftrightarrow> w \<noteq> [] \<and> list_all (\<lambda>c. \<not> is_space c \<and> c \<noteq> NUL) w"

definition good_tcp_header :: "string \<times> string \<Rightarrow> bool" where
  "good_tcp_header h \<longleftrightarrow> fst h \<noteq> [] \<and> snd h \<noteq> [] \<and> list_all (\<lambda>c. c \<notin> {NUL, CR, CHR '':''}) (fst h)
     \<and> list_all (\<lambda>c. c \<notin> {NUL, CR}) (snd h) \<and> length (fst h) + length (snd h) + 2 < 511"

definition good_tcp_head :: "string \<Rightarrow> string \<Rightarrow> (string \<times> string) list \<Rightarrow> bool" where
  "good_tcp_head m u hs \<longleftrightarrow> plain_word m \<and> plain_word u \<and> length m \<le> 15 \<and> length (start_line m u) \<le> 256
     \<and> list_all good_tcp_header hs"

subsection \<open>The checks pass\<close>

lemma spaces [simp]: "is_space CR" "is_space LF" "is_space (CHR 0x20)"
  by (simp_all add: is_space_def)

lemma plain_word_no_CR: "plain_word w \<Longrightarrow> CR \<notin> set w \<and> NUL \<notin> set w"
  unfolding plain_word_def list_all_iff using spaces(1) by blast

lemma scan_word_plain:
  assumes "plain_word w" and "length w \<le> n" and "rest = [] \<or> is_space (hd rest)"
  shows "scan_word n (w @ rest) = Some (w, rest)" "scan_word n (CHR 0x20 # w @ rest) = Some (w, rest)"
proof -
  have all: "list_all (\<lambda>c. \<not> is_space c) w" using assms(1) by (auto simp: plain_word_def list_all_iff)
  have "w \<noteq> []" using assms(1) by (simp add: plain_word_def)
  then have "dropWhile is_space (w @ rest) = w @ rest" using all by (cases w) auto
  moreover have "takeWhile (\<lambda>c. \<not> is_space c) rest = []" using assms(3) by (cases rest) auto
  then have "takeWhile (\<lambda>c. \<not> is_space c) (w @ rest) = w" using all by (simp add: takeWhile_append_all)
  moreover have "0 < n" using assms(2) \<open>w \<noteq> []\<close> by (cases w) auto
  ultimately show "scan_word n (w @ rest) = Some (w, rest)" "scan_word n (CHR 0x20 # w @ rest) = Some (w, rest)"
    using assms(2) \<open>w \<noteq> []\<close> by (simp_all add: scan_word_def)
qed

lemma scan_start_line:
  assumes "plain_word m" and "plain_word u" and "length m \<le> 15" and "length u \<le> 255"
  shows "scan_line (start_line m u) = Some (m, u, ''HTTP/1.1'')"
proof -
  have v: "plain_word ''HTTP/1.1''" by code_simp
  have "scan_word 15 (CHR 0x20 # ''HTTP/1.1'') = Some (''HTTP/1.1'', [])"
    using scan_word_plain(2) [OF v, of 15 "[]"] by simp
  moreover have "scan_word 255 (CHR 0x20 # u @ CHR 0x20 # ''HTTP/1.1'') = Some (u, CHR 0x20 # ''HTTP/1.1'')"
    using scan_word_plain(2) [OF assms(2,4), of "CHR 0x20 # ''HTTP/1.1''"] by simp
  moreover have "scan_word 15 (start_line m u) = Some (m, CHR 0x20 # u @ CHR 0x20 # ''HTTP/1.1'')"
    using scan_word_plain(1) [OF assms(1,3), of "CHR 0x20 # u @ CHR 0x20 # ''HTTP/1.1''"] by (simp add: start_line_def)
  ultimately show ?thesis by (simp add: scan_line_def)
qed

lemma header_ok_good:
  assumes "good_tcp_header (k, v)"
  shows "header_ok (k @ CHR '':'' # CHR 0x20 # v)"
proof -
  let ?l = "k @ CHR '':'' # CHR 0x20 # v"
  have "NUL \<notin> set ?l" "list_all (\<lambda>c. c \<noteq> CHR '':'') k" "k \<noteq> []" "v \<noteq> []"
    using assms by (auto simp: good_tcp_header_def list_all_iff)
  then show ?thesis by (simp add: header_ok_def c_str_no_NUL takeWhile_append_all nth_append)
qed

lemma check_headers_line:
  assumes "CR \<notin> set l" and "l \<noteq> []" and "length l < 511" and "header_ok l"
  shows "check_headers (l @ CR # LF # rest) = check_headers rest"
  unfolding check_headers.simps [of "l @ CR # LF # rest"]
  using to_crlf_at [OF assms(1), of rest] assms(2-4) by (simp add: Let_def)

lemma check_headers_good: "list_all good_tcp_header hs \<Longrightarrow> check_headers (concat (map tcp_header hs) @ CR # LF # rest)"
proof (induction hs)
  case Nil
  show ?case by (subst check_headers.simps) simp
next
  case (Cons h hs)
  obtain k v where h: "h = (k, v)" by (cases h)
  let ?l = "k @ CHR '':'' # CHR 0x20 # v" and ?rest = "concat (map tcp_header hs) @ CR # LF # rest"
  have g: "good_tcp_header (k, v)" using Cons.prems h by simp
  then have cr: "CR \<notin> set ?l" and len: "length ?l < 511" "?l \<noteq> []" by (auto simp: good_tcp_header_def list_all_iff)
  have "concat (map tcp_header (h # hs)) @ CR # LF # rest = ?l @ CR # LF # ?rest" by (simp add: h tcp_header_def)
  moreover have "check_headers ?rest" using Cons by simp
  ultimately show ?case using check_headers_line [OF cr len(2,1) header_ok_good [OF g]] by simp
qed

lemma start_line_no_CR: "plain_word m \<Longrightarrow> plain_word u \<Longrightarrow> CR \<notin> set (start_line m u) \<and> NUL \<notin> set (start_line m u)"
  using plain_word_no_CR [of m] plain_word_no_CR [of u] by (simp add: start_line_def)

lemma tcp_head_split: "tcp_head m u hs @ rest = start_line m u @ CR # LF # concat (map tcp_header hs) @ CR # LF # rest"
  by (simp add: tcp_head_def)

lemma check_first_line_good:
  assumes "good_tcp_head m u hs"
  shows "check_first_line h (tcp_head m u hs @ rest) =
    (method_code m, if method_code m = 501 then h else h\<lparr>request_uri := u\<rparr>)"
proof -
  have g: "plain_word m" "plain_word u" "length m \<le> 15" "length (start_line m u) \<le> 256" "list_all good_tcp_header hs"
    using assms by (simp_all add: good_tcp_head_def)
  then have "length u \<le> 255" by (simp add: start_line_def)
  note scan = scan_start_line [OF g(1-3) this] and cr = start_line_no_CR [OF g(1,2)]
  have k: "to_crlf (tcp_head m u hs @ rest) = length (start_line m u)"
    unfolding tcp_head_split using to_crlf_at cr by blast
  have "start_line m u \<noteq> []" by (simp add: start_line_def)
  moreover have "drop (length (start_line m u) + 2) (tcp_head m u hs @ rest) = concat (map tcp_header hs) @ CR # LF # rest"
    unfolding tcp_head_split by simp
  moreover have "take (length (start_line m u)) (tcp_head m u hs @ rest) = start_line m u"
    unfolding tcp_head_split by simp
  moreover have "\<not> length (tcp_head m u hs @ rest) \<le> length (start_line m u) + 1"
    unfolding tcp_head_split by simp
  ultimately show ?thesis
    using scan cr g(4) check_headers_good [OF g(5), of rest]
    by (simp add: check_first_line_def k Let_def c_str_no_NUL)
qed

subsection \<open>The end of the head\<close>

lemma find_not_CR: "a \<noteq> CR \<Longrightarrow> find_crlfcrlf (a # s) = map_option Suc (find_crlfcrlf s)"
  by (cases "a # s" rule: find_crlfcrlf.cases) auto

lemma find_word: "CR \<notin> set l \<Longrightarrow> find_crlfcrlf (l @ s) = map_option (\<lambda>i. length l + i) (find_crlfcrlf s)"
  by (cases "find_crlfcrlf s"; induction l) (auto simp: find_not_CR)

lemma find_line_end: "c \<noteq> CR \<Longrightarrow> find_crlfcrlf (CR # LF # c # s) = map_option (\<lambda>i. i + 2) (find_crlfcrlf (c # s))"
  by (cases s) (auto simp: find_not_CR [of LF] option.map_comp comp_def)

lemma find_header_end:
  "list_all good_tcp_header hs \<Longrightarrow>
    find_crlfcrlf (CR # LF # concat (map tcp_header hs) @ CR # LF # rest) = Some (length (concat (map tcp_header hs)))"
proof (induction hs)
  case (Cons h hs)
  obtain k v where h: "h = (k, v)" by (cases h)
  let ?l = "k @ CHR '':'' # CHR 0x20 # v" and ?rest = "CR # LF # concat (map tcp_header hs) @ CR # LF # rest"
  have g: "good_tcp_header (k, v)" using Cons.prems h by simp
  then have cr: "CR \<notin> set ?l" by (auto simp: good_tcp_header_def list_all_iff)
  from g obtain c k' where k: "k = c # k'" by (cases k) (auto simp: good_tcp_header_def)
  then have c: "c \<noteq> CR" using cr by auto
  have "find_crlfcrlf (CR # LF # ?l @ ?rest) = map_option (\<lambda>i. i + 2) (find_crlfcrlf (?l @ ?rest))"
    using find_line_end [OF c, of "k' @ CHR '':'' # CHR 0x20 # v @ ?rest"] k by simp
  also have "\<dots> = Some (length ?l + length (concat (map tcp_header hs)) + 2)"
    unfolding find_word [OF cr] using Cons by simp
  finally have "find_crlfcrlf (CR # LF # ?l @ ?rest) = Some (length ?l + length (concat (map tcp_header hs)) + 2)" .
  moreover have "tcp_header h = ?l @ CRLF" by (simp add: h tcp_header_def)
  ultimately show ?case by simp
qed simp

lemma find_head_end:
  assumes "good_tcp_head m u hs"
  shows "find_crlfcrlf (tcp_head m u hs @ rest) = Some (length (tcp_head m u hs) - 4) \<and> 4 \<le> length (tcp_head m u hs)"
proof -
  have cr: "CR \<notin> set (start_line m u)" and hs: "list_all good_tcp_header hs"
    using assms start_line_no_CR by (auto simp: good_tcp_head_def)
  show ?thesis
    unfolding tcp_head_split find_word [OF cr] find_header_end [OF hs] by (simp add: tcp_head_def)
qed

subsection \<open>The announced length\<close>

lemma strstr_skip: "hd n \<notin> set l \<Longrightarrow> n \<noteq> [] \<Longrightarrow> strstr (l @ s) n = strstr s n"
proof (induction l)
  case (Cons c l)
  then obtain d n' where n: "n = d # n'" by (cases n) auto
  with Cons.prems have "c \<noteq> d" by auto
  with Cons n show ?case by (subst strstr.simps) simp
qed simp

lemma strstr_none: "hd n \<notin> set s \<Longrightarrow> n \<noteq> [] \<Longrightarrow> strstr s n = None"
  using strstr_skip [of n s "[]"] by simp

lemma strstr_here: "take (length n) s = n \<Longrightarrow> strstr s n = Some s"
  by (subst strstr.simps) simp

lemma atoi_decimal:
  "atoi (decimal n @ CR # rest) = (if INT_MAX < int n then Inl Int_overflow else Inr (int n))"
proof -
  obtain c r where c: "decimal n = c # r" by (cases "decimal n") auto
  then have "is_digit c" using decimal_digits [of n] by simp
  then have d: "\<not> is_space c" "c \<noteq> CHR ''-''" "c \<noteq> CHR ''+''" by (auto simp: is_digit_def is_space_def)
  have v: "dec_value (byte c - 48) r = n" using dec_value_decimal [of n] by (simp add: c)
  have "\<not> is_digit CR" by (simp add: is_digit_def)
  then have "takeWhile is_digit (decimal n @ CR # rest) = decimal n"
    using decimal_digits [of n] by (simp add: takeWhile_append_all)
  then have "takeWhile is_digit (c # r @ CR # rest) = c # r" by (simp add: c)
  then show ?thesis
    using d v by (simp add: atoi_def Let_def c INT_MAX_def)
qed

text \<open>A request with no header, or with the length of its body as the only one.\<close>

definition length_headers :: "char list option \<Rightarrow> (string \<times> string) list" where
  "length_headers b = (case b of None \<Rightarrow> [] | Some v \<Rightarrow> [(''Content-Length'', decimal (length v))])"

definition plain_request :: "string \<Rightarrow> string \<Rightarrow> char list option \<Rightarrow> bool" where
  "plain_request m u b \<longleftrightarrow> good_tcp_head m u (length_headers b) \<and> CHR ''C'' \<notin> set m \<and> CHR ''C'' \<notin> set u
     \<and> (case b of None \<Rightarrow> True | Some v \<Rightarrow> length v < BODY_SIZE)"

lemma tcp_head_no_NUL: "good_tcp_head m u hs \<Longrightarrow> NUL \<notin> set (tcp_head m u hs)"
proof -
  assume g: "good_tcp_head m u hs"
  then have "NUL \<notin> set (tcp_header h)" if "h \<in> set hs" for h
    using that by (auto simp: good_tcp_head_def good_tcp_header_def tcp_header_def list_all_iff)
  moreover have "NUL \<notin> set (start_line m u)" using g start_line_no_CR by (auto simp: good_tcp_head_def)
  ultimately show ?thesis by (auto simp: tcp_head_def)
qed

lemma announced_length_number:
  assumes g: "good_tcp_head m u [(''Content-Length'', decimal n)]" and C: "CHR ''C'' \<notin> set (start_line m u)"
  shows "announced_length (tcp_head m u [(''Content-Length'', decimal n)]) =
    (if INT_MAX < int n then Inl Int_overflow else Inr (int n))"
proof -
  let ?head = "tcp_head m u [(''Content-Length'', decimal n)]" and ?n = "''Content-Length:''"
  let ?tail = "?n @ CHR 0x20 # decimal n @ CRLF @ CRLF"
  have h: "?head = (start_line m u @ CRLF) @ ?tail" by (simp add: tcp_head_def tcp_header_def)
  have "length (start_line m u) \<le> 256" "length (decimal n) < 500"
    using g by (simp_all add: good_tcp_head_def good_tcp_header_def)
  then have fits: "take (HEADER_BLOCK - 1) ?head = ?head" unfolding h by (simp add: HEADER_BLOCK_def)
  have "strstr ?tail ?n = Some ?tail" by (rule strstr_here) simp
  moreover have "hd ?n \<notin> set (start_line m u @ CRLF)" using C by simp
  ultimately have found: "strstr ?head ?n = Some ?tail" unfolding h using strstr_skip [of ?n "start_line m u @ CRLF" ?tail] by simp
  obtain c r where c: "decimal n = c # r" by (cases "decimal n") auto
  then have "is_digit c" using decimal_digits [of n] by simp
  then have "c \<noteq> CHR 0x20 \<and> c \<noteq> CHR 0x09" by (auto simp: is_digit_def)
  moreover have "drop 15 ?tail = CHR 0x20 # decimal n @ CR # LF # CRLF" by simp
  ultimately have "dropWhile (\<lambda>c. c = CHR 0x20 \<or> c = CHR 0x09) (drop 15 ?tail) = decimal n @ CR # LF # CRLF"
    by (simp add: c)
  then show ?thesis
    unfolding announced_length_def fits c_str_no_NUL [OF tcp_head_no_NUL [OF g]] found
    by (simp add: atoi_decimal)
qed

lemma announced_length_plain:
  assumes "plain_request m u b"
  shows "announced_length (tcp_head m u (length_headers b)) = Inr (case b of None \<Rightarrow> 0 | Some v \<Rightarrow> int (length v))"
proof -
  let ?hs = "length_headers b" and ?n = "''Content-Length:''"
  have g: "good_tcp_head m u ?hs" and C: "CHR ''C'' \<notin> set (start_line m u)"
    using assms by (auto simp: plain_request_def start_line_def)
  have line: "length (start_line m u) \<le> 256" using g by (simp add: good_tcp_head_def)
  show ?thesis
  proof (cases b)
    case None
    have "length (tcp_head m u ?hs) \<le> HEADER_BLOCK - 1"
      using line by (simp add: None length_headers_def tcp_head_def HEADER_BLOCK_def)
    moreover have "strstr (tcp_head m u ?hs) ?n = None"
      using C by (intro strstr_none) (simp_all add: None length_headers_def tcp_head_def)
    ultimately show ?thesis
      using tcp_head_no_NUL [OF g] by (simp add: announced_length_def c_str_no_NUL None)
  next
    case (Some v)
    have "int (length v) \<le> INT_MAX" using assms Some by (simp add: plain_request_def INT_MAX_def BODY_SIZE_def)
    with announced_length_number [of m u "length v"] g C Some show ?thesis by (simp add: length_headers_def)
  qed
qed

text \<open>
  A Content-Length that no \<open>int\<close> can hold, in any request, is undefined behaviour of the program.
\<close>

theorem huge_content_length_overflows:
  assumes "good_tcp_head m u [(''Content-Length'', decimal n)]" and "CHR ''C'' \<notin> set (start_line m u)"
    and "INT_MAX < int n"
  shows "get_messages_and_send a h (tcp_head m u [(''Content-Length'', decimal n)] @ rest) = Inl Int_overflow"
proof -
  have "next_message (tcp_head m u [(''Content-Length'', decimal n)] @ rest) = Inl Int_overflow"
    using find_head_end [OF assms(1), of rest] announced_length_number [OF assms(1,2)] assms(3)
    by (simp add: next_message_def)
  then show ?thesis by (rule loop_fault)
qed

text \<open>The bytes of such a request, and the message that the loop takes from the buffer.\<close>

definition tcp_request :: "string \<Rightarrow> string \<Rightarrow> char list option \<Rightarrow> char list" where
  "tcp_request m u b = tcp_head m u (length_headers b) @ (case b of None \<Rightarrow> [] | Some v \<Rightarrow> v)"

lemma next_message_plain:
  assumes "plain_request m u b"
  shows "next_message (tcp_request m u b @ rest) = Inr (Some (length (tcp_request m u b)))"
proof -
  let ?head = "tcp_head m u (length_headers b)" and ?v = "case b of None \<Rightarrow> [] | Some v \<Rightarrow> v"
  have g: "good_tcp_head m u (length_headers b)" using assms by (simp add: plain_request_def)
  have small: "length ?head < 10000"
    using g by (cases b) (auto simp: good_tcp_head_def good_tcp_header_def tcp_head_def tcp_header_def length_headers_def)
  have "length ?v < BODY_SIZE" using assms by (simp add: plain_request_def BODY_SIZE_def split: option.splits)
  moreover have "(case b of None \<Rightarrow> 0 | Some v \<Rightarrow> int (length v)) = int (length ?v)" by (simp split: option.split)
  ultimately show ?thesis
    using find_head_end [OF g, of "?v @ rest"] announced_length_plain [OF assms] small
    by (simp add: next_message_def tcp_request_def Let_def INT_MAX_def BODY_SIZE_def)
qed

subsection \<open>What the server answers\<close>

text \<open>The code of each method for a dynamic resource, with all allocations succeeding.\<close>

lemma check_first_line_plain:
  "plain_request m u b \<Longrightarrow> check_Header h (tcp_request m u b) =
    (method_code m, if method_code m = 501 then h else h\<lparr>request_uri := u\<rparr>)"
  using check_first_line_good [of m u "length_headers b" h] by (simp add: check_Header_alt tcp_request_def plain_request_def)

lemma get_body_plain:
  assumes "plain_request m u (Some v)"
  shows "get_body h (tcp_request m u (Some v)) = h\<lparr>body := v\<rparr>"
proof -
  have g: "good_tcp_head m u (length_headers (Some v))" and v: "length v < BODY_SIZE"
    using assms by (simp_all add: plain_request_def)
  show ?thesis
    using find_head_end [OF g, of v] v by (simp add: get_body_def tcp_request_def BODY_SIZE_def)
qed

lemma method_codes: "method_code ''GET'' = 1000" "method_code ''PUT'' = 1001" "method_code ''DELETE'' = 1002"
  by (simp_all add: method_code_def)

lemma dynamic_uri: "take 9 (dynamic_prefix @ k) = dynamic_prefix" "take 8 (dynamic_prefix @ k) \<noteq> ''/static/''"
  "drop 9 (dynamic_prefix @ k) = k"
  by simp_all

lemma get_code_put:
  assumes "plain_request ''PUT'' (dynamic_prefix @ k) (Some v)" and "resources_wf (resource_list h)" and "k \<noteq> []"
    and "plenty a" and "NUL \<notin> set v"
  shows "\<exists>h' a'. get_code a h (tcp_request ''PUT'' (dynamic_prefix @ k) (Some v)) =
      Inr (if resource_map (resource_list h) k = None then 201 else 204, h', a')
    \<and> plenty a' \<and> body h' = v \<and> resources_wf (resource_list h')
    \<and> resource_map (resource_list h') = (resource_map (resource_list h))(k \<mapsto> v)"
proof -
  let ?h = "h\<lparr>request_uri := dynamic_prefix @ k, body := v\<rparr>"
  have "get_code a h (tcp_request ''PUT'' (dynamic_prefix @ k) (Some v)) =
      check_dynamic_resource a ?h (dynamic_prefix @ k) 1001"
    using check_first_line_plain [OF assms(1)] get_body_plain [OF assms(1), of "h\<lparr>request_uri := dynamic_prefix @ k\<rparr>"]
    by (simp add: get_code_def method_codes del: append.simps)
  with put_resource [of ?h k a] assms(2-5) show ?thesis by (auto simp: c_str_no_NUL)
qed

lemma get_code_delete:
  assumes "plain_request ''DELETE'' (dynamic_prefix @ k) None" and "resources_wf (resource_list h)" and "k \<noteq> []"
  shows "\<exists>h'. get_code a h (tcp_request ''DELETE'' (dynamic_prefix @ k) None) =
      Inr (if resource_map (resource_list h) k = None then 404 else 204, h', a)
    \<and> body h' = body h \<and> resources_wf (resource_list h')
    \<and> resource_map (resource_list h') = (resource_map (resource_list h))(k := None)"
proof -
  let ?h = "h\<lparr>request_uri := dynamic_prefix @ k\<rparr>"
  have "get_code a h (tcp_request ''DELETE'' (dynamic_prefix @ k) None) =
      check_dynamic_resource a ?h (dynamic_prefix @ k) 1002"
    using check_first_line_plain [OF assms(1)] by (simp add: get_code_def method_codes del: append.simps)
  with delete_resource [of ?h k a] assms(2,3) show ?thesis by auto
qed

lemma get_code_get:
  assumes "plain_request ''GET'' (dynamic_prefix @ k) None" and "resources_wf (resource_list h)" and "k \<noteq> []"
  shows "get_code a h (tcp_request ''GET'' (dynamic_prefix @ k) None) =
    (let h' = h\<lparr>request_uri := dynamic_prefix @ k\<rparr> in
     case resource_map (resource_list h) k of None \<Rightarrow> Inr (404, h', a)
     | Some v \<Rightarrow> Inr (200, h'\<lparr>body := take (BODY_SIZE - 1) v\<rparr>, a))"
proof -
  let ?h = "h\<lparr>request_uri := dynamic_prefix @ k\<rparr>"
  have "get_code a h (tcp_request ''GET'' (dynamic_prefix @ k) None) =
      (case get_dynamic_ressource ?h (dynamic_prefix @ k) of Inl e \<Rightarrow> Inl e | Inr (c, h'') \<Rightarrow> Inr (c, h'', a))"
    using check_first_line_plain [OF assms(1)] dynamic_uri [of k]
    by (simp add: get_code_def method_codes Let_def del: append.simps)
  with get_resource [of ?h k] assms(2,3) show ?thesis by (auto simp: Let_def split: option.split)
qed

lemma loop_plain:
  assumes "plain_request m u b" and "get_code a h (tcp_request m u b) = Inr (code, h1, a1)"
    and "reply_for h1 code = Some reply"
  shows "get_messages_and_send a h (tcp_request m u b @ rest) =
    (case get_messages_and_send a1 h1 rest of Inl e \<Rightarrow> Inl e
     | Inr (a2, h2, rest2, replies) \<Rightarrow> Inr (a2, h2, rest2, reply # replies))"
  using loop_message [OF next_message_plain [OF assms(1)], of a h rest code h1 a1 reply] assms(2,3) by simp

text \<open>Concrete requests.\<close>

lemma small_requests:
  "plain_request ''PUT'' (dynamic_prefix @ ''a'') (Some ''hi'')" "plain_request ''GET'' (dynamic_prefix @ ''a'') None"
  "plain_request ''DELETE'' (dynamic_prefix @ ''a'') None"
proof -
  have d: "decimal (length ''hi'') = ''2''" by code_simp
  have w: "plain_word ''PUT''" "plain_word ''GET''" "plain_word ''DELETE''" "plain_word (dynamic_prefix @ ''a'')"
    by code_simp+
  have g: "good_tcp_header (''Content-Length'', ''2'')" by (simp add: good_tcp_header_def)
  show "plain_request ''PUT'' (dynamic_prefix @ ''a'') (Some ''hi'')"
    using w(1,4) g d by (simp add: plain_request_def good_tcp_head_def length_headers_def start_line_def BODY_SIZE_def)
  show "plain_request ''GET'' (dynamic_prefix @ ''a'') None" "plain_request ''DELETE'' (dynamic_prefix @ ''a'') None"
    using w by (simp_all add: plain_request_def good_tcp_head_def length_headers_def start_line_def)
qed

text \<open>C9: The life of a dynamic resource, as a client sees it.  A stream of a PUT, a GET, a DELETE and
  another GET for one name is answered, in order, with 201 Created (204 if the name existed), with
  exactly the content that was put, with 204, and with 404; nothing of the stream is left in the
  buffer, and afterwards the name is gone and all other resources are as before.\<close>

theorem dynamic_resource_life:
  assumes "resources_wf (resource_list h)" and "k \<noteq> []" and "plenty a" and "NUL \<notin> set v"
    and "plain_request ''PUT'' (dynamic_prefix @ k) (Some v)" and "plain_request ''GET'' (dynamic_prefix @ k) None"
    and "plain_request ''DELETE'' (dynamic_prefix @ k) None"
  shows "\<exists>a' h'. get_messages_and_send a h
      (tcp_request ''PUT'' (dynamic_prefix @ k) (Some v) @ tcp_request ''GET'' (dynamic_prefix @ k) None
        @ tcp_request ''DELETE'' (dynamic_prefix @ k) None @ tcp_request ''GET'' (dynamic_prefix @ k) None) =
      Inr (a', h', [],
        [empty_reply_text (if resource_map (resource_list h) k = None then ''201 Created'' else ''204 No Content''),
         ok_reply v, empty_reply_text ''204 No Content'', empty_reply_text ''404 Not Found''])
    \<and> resource_map (resource_list h') = (resource_map (resource_list h))(k := None)"
proof -
  have v: "length v < BODY_SIZE" using assms(5) by (simp add: plain_request_def)
  from get_code_put [OF assms(5,1,2,3,4)] obtain h1 a1 where
    put: "get_code a h (tcp_request ''PUT'' (dynamic_prefix @ k) (Some v)) =
      Inr (if resource_map (resource_list h) k = None then 201 else 204, h1, a1)"
    and h1: "body h1 = v" "resources_wf (resource_list h1)"
      "resource_map (resource_list h1) = (resource_map (resource_list h))(k \<mapsto> v)" by blast
  let ?h2 = "h1\<lparr>request_uri := dynamic_prefix @ k, body := v\<rparr>"
  have get: "get_code a1 h1 (tcp_request ''GET'' (dynamic_prefix @ k) None) = Inr (200, ?h2, a1)"
    using get_code_get [OF assms(6) h1(2) assms(2), of a1] h1(3) v by (simp add: Let_def)
  have wf2: "resources_wf (resource_list ?h2)" using h1(2) by simp
  from get_code_delete [OF assms(7) wf2 assms(2), of a1] h1(3) obtain h3 where
    del: "get_code a1 ?h2 (tcp_request ''DELETE'' (dynamic_prefix @ k) None) = Inr (204, h3, a1)"
    and h3: "resources_wf (resource_list h3)" "resource_map (resource_list h3) = (resource_map (resource_list h))(k := None)"
    by auto
  let ?h4 = "h3\<lparr>request_uri := dynamic_prefix @ k\<rparr>"
  have get2: "get_code a1 h3 (tcp_request ''GET'' (dynamic_prefix @ k) None) = Inr (404, ?h4, a1)"
    using get_code_get [OF assms(6) h3(1) assms(2), of a1] h3(2) by (simp add: Let_def)
  have "body_wf ?h2" using v by (simp add: body_wf_def)
  then have reply: "reply_for ?h2 200 = Some (ok_reply v)"
    using reply_fits [of ?h2 200] assms(4) by (auto simp: reply_for_def Let_def response_body_def c_str_no_NUL split: if_splits)
  have reply1: "reply_for h1 (if resource_map (resource_list h) k = None then 201 else 204) =
      Some (empty_reply_text (if resource_map (resource_list h) k = None then ''201 Created'' else ''204 No Content''))"
    by (simp add: reply_for_def)
  have reply3: "reply_for h3 204 = Some (empty_reply_text ''204 No Content'')"
    "reply_for ?h4 404 = Some (empty_reply_text ''404 Not Found'')"
    by (simp_all add: reply_for_def)
  have idle: "get_messages_and_send a1 ?h4 [] = Inr (a1, ?h4, [], [])" by (rule loop_wait) (simp add: next_message_def)
  have four: "get_messages_and_send a1 h3 (tcp_request ''GET'' (dynamic_prefix @ k) None) =
      Inr (a1, ?h4, [], [empty_reply_text ''404 Not Found''])"
    using loop_plain [OF assms(6) get2 reply3(2), of "[]"] idle by simp
  show ?thesis
    using h3(2) by (simp add: loop_plain [OF assms(5) put reply1] loop_plain [OF assms(6) get reply]
        loop_plain [OF assms(7) del reply3(1)] four del: append.simps append_assoc)
qed

lemma dynamic_resource_life_witness:
  "\<exists>a' h'. get_messages_and_send [] \<lparr>request_uri = [], body = [], resource_list = []\<rparr>
      (tcp_request ''PUT'' (dynamic_prefix @ ''a'') (Some ''hi'') @ tcp_request ''GET'' (dynamic_prefix @ ''a'') None
        @ tcp_request ''DELETE'' (dynamic_prefix @ ''a'') None @ tcp_request ''GET'' (dynamic_prefix @ ''a'') None) =
    Inr (a', h', [], [empty_reply_text ''201 Created'', ok_reply ''hi'', empty_reply_text ''204 No Content'',
      empty_reply_text ''404 Not Found''])"
proof -
  let ?h = "\<lparr>request_uri = [], body = [], resource_list = []\<rparr>"
  have wf: "resources_wf (resource_list ?h)" by (simp add: resources_wf_def names_def)
  from dynamic_resource_life [OF wf _ plenty_Nil _ small_requests] show ?thesis by auto
qed

end
