(* ===== verification/Tcp_Main.thy ===== *)
theory Tcp_Main
  imports Tcp_Service Posix_Sockets
begin

section \<open>The HTTP server as a process (tcp-http-server/webserver.c)\<close>

text \<open>
  \<open>main\<close> tests no result of its calls: without an address the pointer \<open>res\<close> is used uninitialised; a
  socket that could not be created, bound or set to listen goes on into the loop, and a connection that
  could not be accepted is read from, which fails, and closed.
\<close>

datatype tcp_stop = Outside_argv | Uninitialised_pointer | Request_fault tcp_fault

definition tcp_backlog :: nat where
  "tcp_backlog = 100"

text \<open>\<open>argv\<close> ends with a NULL pointer, which is a valid second argument of \<open>getaddrinfo\<close>.\<close>

definition tcp_start :: "kernel \<Rightarrow> string list \<Rightarrow> (tcp_stop + int) \<times> syscall list" where
  "tcp_start k argv =
     (if length argv < 2 then (Inl Outside_argv, [])
      else (let addr = Getaddrinfo (argv ! 1) (if length argv = 2 then None else Some (argv ! 2)) in
        if k [] addr \<noteq> 0 then (Inl Uninitialised_pointer, [addr])
        else (let sockfd = k [addr] Socket_stream in
          (Inr sockfd, [addr, Socket_stream, Set_reuseaddr sockfd, Bind_to sockfd, Listen_on sockfd tcp_backlog]))))"

text \<open>
  One round of the loop over connections: \<open>None\<close> where \<open>accept\<close> fails, else the pieces in which the
  client's bytes arrive.  The result is what is sent to this client.
\<close>

definition tcp_connection ::
  "alloc \<Rightarrow> tcp_state \<Rightarrow> char list list option \<Rightarrow> tcp_fault + (alloc \<times> tcp_state \<times> string list)" where
  "tcp_connection a h conn =
     (case conn of None \<Rightarrow> Inr (a, h, [])
      | Some pieces \<Rightarrow>
         (case serve_client a h [] pieces of Inl e \<Rightarrow> Inl e | Inr (a', h', buf, out) \<Rightarrow> Inr (a', h', out)))"

fun tcp_loop ::
  "alloc \<Rightarrow> tcp_state \<Rightarrow> char list list option list \<Rightarrow> tcp_fault + (alloc \<times> tcp_state \<times> string list list)" where
  "tcp_loop a h [] = Inr (a, h, [])"
| "tcp_loop a h (conn # conns) =
     (case tcp_connection a h conn of Inl e \<Rightarrow> Inl e
      | Inr (a1, h1, out) \<Rightarrow>
         (case tcp_loop a1 h1 conns of Inl e \<Rightarrow> Inl e
          | Inr (a2, h2, outs) \<Rightarrow> Inr (a2, h2, out # outs)))"

definition tcp_initial :: tcp_state where
  "tcp_initial = \<lparr>request_uri = [], body = [], resource_list = []\<rparr>"

definition tcp_main ::
  "kernel \<Rightarrow> string list \<Rightarrow> alloc \<Rightarrow> char list list option list
    \<Rightarrow> (tcp_stop + (alloc \<times> tcp_state \<times> string list list)) \<times> syscall list" where
  "tcp_main k argv a conns =
     (case tcp_start k argv of (Inl e, tr) \<Rightarrow> (Inl e, tr)
      | (Inr sockfd, tr) \<Rightarrow>
         (case tcp_loop a tcp_initial conns of Inl e \<Rightarrow> (Inl (Request_fault e), tr) | Inr res \<Rightarrow> (Inr res, tr)))"

subsection \<open>Connections one after the other\<close>

lemma tcp_loop_append:
  "tcp_loop a h (xs @ ys) =
    (case tcp_loop a h xs of Inl e \<Rightarrow> Inl e
     | Inr (a1, h1, outs) \<Rightarrow> (case tcp_loop a1 h1 ys of Inl e \<Rightarrow> Inl e
         | Inr (a2, h2, outs') \<Rightarrow> Inr (a2, h2, outs @ outs')))"
  by (induction xs arbitrary: a h) (auto split: sum.split)

lemma failed_accepts: "tcp_loop a h (replicate n None) = Inr (a, h, replicate n [])"
  by (induction n) (simp_all add: tcp_connection_def)

text \<open>A client whose bytes, in whatever pieces, fit the buffer.\<close>

lemma tcp_connection_pieces:
  assumes "length (body h) < BODY_SIZE" and "[] \<notin> set pieces" and "length (concat pieces) \<le> BUFFER_SIZE"
    and "get_messages_and_send a h (concat pieces) = Inr (a', h', buf, out)"
  shows "tcp_connection a h (Some pieces) = Inr (a', h', out)"
proof -
  have "next_message [] = Inr None" by (simp add: next_message_def)
  with serve_client_pieces [of h pieces "[]" a] assms show ?thesis by (simp add: tcp_connection_def)
qed

lemma get_messages_one:
  assumes "plain_request m u b" and "get_code a h (tcp_request m u b) = Inr (code, h1, a1)" and "reply_for h1 code = Some reply"
  shows "get_messages_and_send a h (tcp_request m u b) = Inr (a1, h1, [], [reply])"
  using loop_plain [OF assms, of "[]"] loop_wait [of "[]" a1 h1] by (simp add: next_message_def)

text \<open>C11: What one client stores another one gets: a resource that was put over one connection is the answer to
  a GET over a later one, with any number of failed accepts in between, in whatever pieces the two
  requests arrive.  Once an address is found, the server makes the four calls for its socket and goes
  into the loop whatever they return: it does not notice that the port is taken.\<close>

theorem resource_outlives_connection:
  assumes "plain_request ''PUT'' (dynamic_prefix @ k) (Some v)" and "plain_request ''GET'' (dynamic_prefix @ k) None"
    and "k \<noteq> []" and "plenty a" and "NUL \<notin> set v"
    and "concat ps = tcp_request ''PUT'' (dynamic_prefix @ k) (Some v)" and "[] \<notin> set ps" and "length (concat ps) \<le> BUFFER_SIZE"
    and "concat qs = tcp_request ''GET'' (dynamic_prefix @ k) None" and "[] \<notin> set qs" and "length (concat qs) \<le> BUFFER_SIZE"
    and "length argv = 3" and "kern [] (Getaddrinfo (argv ! 1) (Some (argv ! 2))) = 0"
  shows "\<exists>a' h' sockfd. tcp_main kern argv a (Some ps # replicate n None @ [Some qs]) =
    (Inr (a', h', [empty_reply_text ''201 Created''] # replicate n [] @ [[ok_reply v]]),
     [Getaddrinfo (argv ! 1) (Some (argv ! 2)), Socket_stream, Set_reuseaddr sockfd, Bind_to sockfd, Listen_on sockfd 100])"
proof -
  have v: "length v < BODY_SIZE" using assms(1) by (simp add: plain_request_def)
  have init: "resources_wf (resource_list tcp_initial)" "resource_map (resource_list tcp_initial) = Map.empty"
    "length (body tcp_initial) < BODY_SIZE"
    by (simp_all add: tcp_initial_def resources_wf_def names_def resource_map_def BODY_SIZE_def)
  from get_code_put [OF assms(1) init(1) assms(3-5)] obtain h1 a1 where
    put: "get_code a tcp_initial (tcp_request ''PUT'' (dynamic_prefix @ k) (Some v)) = Inr (201, h1, a1)"
    and h1: "body h1 = v" "resources_wf (resource_list h1)" "resource_map (resource_list h1) k = Some v" by (auto simp: init(2))
  let ?h2 = "h1\<lparr>request_uri := dynamic_prefix @ k, body := v\<rparr>"
  have get: "get_code a1 h1 (tcp_request ''GET'' (dynamic_prefix @ k) None) = Inr (200, ?h2, a1)"
    using get_code_get [OF assms(2) h1(2) assms(3), of a1] h1(3) v by (simp add: Let_def)
  have "body_wf ?h2" using v by (simp add: body_wf_def)
  then have reply: "reply_for ?h2 200 = Some (ok_reply v)"
    using reply_fits [of ?h2 200] assms(5) by (auto simp: reply_for_def Let_def response_body_def c_str_no_NUL split: if_splits)
  have created: "reply_for h1 201 = Some (empty_reply_text ''201 Created'')" by (simp add: reply_for_def)
  have first: "tcp_connection a tcp_initial (Some ps) = Inr (a1, h1, [empty_reply_text ''201 Created''])"
    using get_messages_one [OF assms(1) put created] init(3) assms(6-8) by (intro tcp_connection_pieces) simp_all
  have last: "tcp_connection a1 h1 (Some qs) = Inr (a1, ?h2, [ok_reply v])"
    using get_messages_one [OF assms(2) get reply] h1(1) v assms(9-11) by (intro tcp_connection_pieces) simp_all
  have "tcp_loop a tcp_initial (Some ps # replicate n None @ [Some qs]) =
      Inr (a1, ?h2, [empty_reply_text ''201 Created''] # replicate n [] @ [[ok_reply v]])"
    by (simp add: first last tcp_loop_append failed_accepts)
  with assms(12,13) show ?thesis by (simp add: tcp_main_def tcp_start_def tcp_backlog_def Let_def)
qed

lemma resource_outlives_connection_witness:
  "\<exists>a' h' tr. tcp_main (\<lambda>tr c. if c = Bind_to 3 then -1 else if c = Socket_stream then 3 else 0) [''s'', ''::'', ''80''] []
      [Some [''PUT /'', ''dynamic/a HTTP/1.1'' @ CRLF @ ''Content-Length: 2'' @ CRLF @ CRLF @ ''hi''], None,
       Some [''GET /dynamic/a HTTP/1.1'' @ CRLF @ CRLF]] =
    (Inr (a', h', [[empty_reply_text ''201 Created''], [], [ok_reply ''hi'']]), tr)"
proof -
  let ?k = "\<lambda>tr c. if c = Bind_to 3 then -1 else if c = Socket_stream then 3 else 0 :: int"
  let ?ps = "[''PUT /'', ''dynamic/a HTTP/1.1'' @ CRLF @ ''Content-Length: 2'' @ CRLF @ CRLF @ ''hi'']"
  let ?qs = "[''GET /dynamic/a HTTP/1.1'' @ CRLF @ CRLF]"
  have d: "decimal (Suc (Suc 0)) = ''2''" by code_simp
  have ps: "concat ?ps = tcp_request ''PUT'' (dynamic_prefix @ ''a'') (Some ''hi'')"
    and qs: "concat ?qs = tcp_request ''GET'' (dynamic_prefix @ ''a'') None"
    by (simp_all add: tcp_request_def tcp_head_def start_line_def tcp_header_def length_headers_def d)
  have "\<exists>a' h' sockfd. tcp_main ?k [''s'', ''::'', ''80''] [] (Some ?ps # replicate 1 None @ [Some ?qs]) =
      (Inr (a', h', [empty_reply_text ''201 Created''] # replicate 1 [] @ [[ok_reply ''hi'']]),
       [Getaddrinfo ([''s'', ''::'', ''80''] ! 1) (Some ([''s'', ''::'', ''80''] ! 2)), Socket_stream, Set_reuseaddr sockfd, Bind_to sockfd,
        Listen_on sockfd 100])"
    by (rule resource_outlives_connection [OF small_requests(1,2) _ plenty_Nil _ ps _ _ qs]) (simp_all add: BUFFER_SIZE_def)
  then obtain a' h' tr where "tcp_main ?k [''s'', ''::'', ''80''] [] (Some ?ps # replicate 1 None @ [Some ?qs]) =
      (Inr (a', h', [empty_reply_text ''201 Created''] # replicate 1 [] @ [[ok_reply ''hi'']]), tr)" by blast
  then show ?thesis by (intro exI [of _ a'] exI [of _ h'] exI [of _ tr]) simp
qed

end
