(* ===== verification/Tcp_Heap.thy ===== *)
theory Tcp_Heap
  imports C_Heap Tcp_Resources
begin

section \<open>The dynamic resources in memory (tcp-http-server/message\_handler.c)\<close>

text \<open>
  The linked list of dynamic resources once more, now over a heap: a block for each node, one for each
  copied string, with the repair of the links and every \<open>free\<close>.  The results of the two copies are not
  tested by the code, so that a node may hold null pointers.
\<close>

datatype tcp_block =
    Str_block string
  | Res_block addr addr addr

definition str_at :: "tcp_block heap \<Rightarrow> addr \<Rightarrow> string option" where
  "str_at h p = (case hp_blocks h p of Some (Str_block s) \<Rightarrow> Some s | _ \<Rightarrow> None)"

definition res_at :: "tcp_block heap \<Rightarrow> addr \<Rightarrow> (addr \<times> addr \<times> addr) option" where
  "res_at h p = (case hp_blocks h p of Some (Res_block f c nxt) \<Rightarrow> Some (f, c, nxt) | _ \<Rightarrow> None)"

definition mem_my_strdup :: "string \<Rightarrow> tcp_block heap \<Rightarrow> addr \<times> tcp_block heap" where
  "mem_my_strdup s h = heap_malloc (Str_block s) h"

text \<open>The global variables: the array \<open>body\<close> and the pointer to the list; beside them the heap.\<close>

record tcp_memory =
  tm_body :: "char list"
  tm_list :: addr
  tm_heap :: "tcp_block heap"

text \<open>The walk with its two pointers \<open>prev\<close> and \<open>curr\<close> (here \<open>node\<close>); GET and PUT do not use the first.\<close>

partial_function (option) mem_walk :: "tcp_block heap \<Rightarrow> string \<Rightarrow> addr \<Rightarrow> addr \<Rightarrow> (addr \<times> addr) option" where
  "mem_walk h filename prev node =
     (if node = 0 then Some (prev, 0)
      else do {
        (f, c, nxt) \<leftarrow> res_at h node;
        s \<leftarrow> str_at h f;
        if strcmp s filename = 0 then Some (prev, node) else mem_walk h filename node nxt
      })"

definition mem_get_dynamic :: "tcp_memory \<Rightarrow> string \<Rightarrow> (nat \<times> tcp_memory) option" where
  "mem_get_dynamic t uri =
     (if take 9 uri \<noteq> dynamic_prefix then Some (404, t)
      else (let filename = drop 9 uri in
        if filename = [] then Some (404, t)
        else do {
          (prev, node) \<leftarrow> mem_walk (tm_heap t) filename 0 (tm_list t);
          if node = 0 then Some (404, t)
          else do {
            (f, c, nxt) \<leftarrow> res_at (tm_heap t) node;
            content \<leftarrow> str_at (tm_heap t) c;
            Some (200, t\<lparr>tm_body := take (BODY_SIZE - 1) content\<rparr>)
          }
        }))"

definition mem_put_dynamic :: "tcp_memory \<Rightarrow> string \<Rightarrow> (nat \<times> tcp_memory) option" where
  "mem_put_dynamic t filename =
     do {
       (prev, node) \<leftarrow> mem_walk (tm_heap t) filename 0 (tm_list t);
       if node \<noteq> 0 then do {
         (f, c, nxt) \<leftarrow> res_at (tm_heap t) node;
         h1 \<leftarrow> heap_free c (tm_heap t);
         let (c', h2) = mem_my_strdup (c_str (tm_body t)) h1;
         h3 \<leftarrow> heap_write node (Res_block f c' nxt) h2;
         Some (204, t\<lparr>tm_heap := h3\<rparr>)
       } else
         (let (new_node, h1) = heap_malloc (Res_block 0 0 0) (tm_heap t) in
          if new_node = 0 then Some (500, t\<lparr>tm_heap := h1\<rparr>)
          else
            (let (f, h2) = mem_my_strdup filename h1; (c, h3) = mem_my_strdup (c_str (tm_body t)) h2
             in do {
               h4 \<leftarrow> heap_write new_node (Res_block f c (tm_list t)) h3;
               Some (201, t\<lparr>tm_list := new_node, tm_heap := h4\<rparr>)
             }))
     }"

text \<open>The repair of the links: the new value of \<open>resource_list\<close> and the heap.\<close>

definition mem_relink :: "tcp_memory \<Rightarrow> addr \<Rightarrow> addr \<Rightarrow> (addr \<times> tcp_block heap) option" where
  "mem_relink t prev nxt =
     (if prev = 0 then Some (nxt, tm_heap t)
      else do {
        (f, c, old) \<leftarrow> res_at (tm_heap t) prev;
        h \<leftarrow> heap_write prev (Res_block f c nxt) (tm_heap t);
        Some (tm_list t, h)
      })"

definition mem_free_row :: "addr \<times> addr \<times> addr \<Rightarrow> tcp_block heap \<Rightarrow> tcp_block heap option" where
  "mem_free_row r h =
     (case r of (node, f, c) \<Rightarrow> do { h1 \<leftarrow> heap_free f h; h2 \<leftarrow> heap_free c h1; heap_free node h2 })"

definition mem_delete_dynamic :: "tcp_memory \<Rightarrow> string \<Rightarrow> (nat \<times> tcp_memory) option" where
  "mem_delete_dynamic t filename =
     do {
       (prev, node) \<leftarrow> mem_walk (tm_heap t) filename 0 (tm_list t);
       if node = 0 then Some (404, t)
       else do {
         (f, c, nxt) \<leftarrow> res_at (tm_heap t) node;
         (list, h1) \<leftarrow> mem_relink t prev nxt;
         h2 \<leftarrow> mem_free_row (node, f, c) h1;
         Some (204, t\<lparr>tm_list := list, tm_heap := h2\<rparr>)
       }
     }"

definition mem_check_dynamic :: "tcp_memory \<Rightarrow> string \<Rightarrow> nat \<Rightarrow> (nat \<times> tcp_memory) option" where
  "mem_check_dynamic t uri code =
     (if take 9 uri \<noteq> dynamic_prefix then Some (403, t)
      else (let filename = drop 9 uri in
        if code = 1001 then (if filename = [] then Some (404, t) else mem_put_dynamic t filename)
        else if code = 1002 then (if filename = [] then Some (404, t) else mem_delete_dynamic t filename)
        else Some (404, t)))"

subsection \<open>The list in memory\<close>

text \<open>The rows are the addresses of a node and of its two strings; a segment of the list ends before \<open>q\<close>.\<close>

type_synonym rows = "(addr \<times> addr \<times> addr) list"

definition held :: "(addr \<rightharpoonup> tcp_block) \<Rightarrow> addr \<Rightarrow> string option \<Rightarrow> bool" where
  "held m p s \<longleftrightarrow> (case s of None \<Rightarrow> p = 0 | Some t \<Rightarrow> p \<noteq> 0 \<and> m p = Some (Str_block t))"

definition start :: "rows \<Rightarrow> addr \<Rightarrow> addr" where
  "start rs q = (case rs of [] \<Rightarrow> q | r # _ \<Rightarrow> fst r)"

fun segment :: "(addr \<rightharpoonup> tcp_block) \<Rightarrow> rows \<Rightarrow> dynamic_resource list \<Rightarrow> addr \<Rightarrow> bool" where
  "segment m [] [] q = True"
| "segment m ((n, f, c) # rs) (d # ds) q \<longleftrightarrow>
     n \<noteq> 0 \<and> m n = Some (Res_block f c (start rs q)) \<and> held m f (dr_filename d) \<and> held m c (dr_content d) \<and> segment m rs ds q"
| "segment m _ _ q = False"

definition row_cells :: "addr \<times> addr \<times> addr \<Rightarrow> addr list" where
  "row_cells r = (case r of (n, f, c) \<Rightarrow> n # filter (\<lambda>p. p \<noteq> 0) [f, c])"

definition row_addrs :: "rows \<Rightarrow> addr list" where
  "row_addrs rs = concat (map row_cells rs)"

text \<open>The list owns all that is allocated: nothing else is live, and nothing is owned twice.\<close>

definition resources_in :: "tcp_block heap \<Rightarrow> addr \<Rightarrow> dynamic_resource list \<Rightarrow> bool" where
  "resources_in h p ds \<longleftrightarrow> heap_ok h \<and> (\<exists>rs. p = start rs 0 \<and> segment (hp_blocks h) rs ds 0
     \<and> distinct (row_addrs rs) \<and> dom (hp_blocks h) = set (row_addrs rs))"

lemma start_simps [simp]: "start [] q = q" "start (r # rs) q = fst r" "start (rs @ [r]) q = start rs (fst r)"
  by (simp_all add: start_def split: list.split)

lemma row_addrs_simps [simp]: "row_addrs [] = []" "row_addrs (r # rs) = row_cells r @ row_addrs rs"
  "row_addrs (rs @ rs') = row_addrs rs @ row_addrs rs'"
  by (simp_all add: row_addrs_def)

lemma held_simps [simp]: "held m p None \<longleftrightarrow> p = 0" "held m p (Some t) \<longleftrightarrow> p \<noteq> 0 \<and> m p = Some (Str_block t)"
  by (simp_all add: held_def)

lemma start_append: "start (rs @ rs') q = start rs (start rs' q)"
  by (simp add: start_def split: list.split)

lemma segment_append:
  "length rs = length ds \<Longrightarrow>
    segment m (rs @ rs') (ds @ ds') q \<longleftrightarrow> segment m rs ds (start rs' q) \<and> segment m rs' ds' q"
proof (induction rs ds rule: list_induct2)
  case (Cons r rs d ds)
  then show ?case by (cases r) (auto simp: start_append)
qed simp

lemma segment_length: "segment m rs ds q \<Longrightarrow> length rs = length ds"
  by (induction m rs ds q rule: segment.induct) auto

lemma held_cong: "p \<noteq> 0 \<longrightarrow> m' p = m p \<Longrightarrow> held m' p s = held m p s"
  by (cases s) auto

lemma segment_cong: "(\<And>x. x \<in> set (row_addrs rs) \<Longrightarrow> m' x = m x) \<Longrightarrow> segment m' rs ds q = segment m rs ds q"
proof (induction m rs ds q rule: segment.induct)
  case (2 m n f c rs d ds q)
  have "held m' f s = held m f s" "held m' c s = held m c s" for s
    by (rule held_cong, simp add: 2(2) row_cells_def)+
  with 2 show ?case by (simp add: row_cells_def)
qed simp_all

lemma segment_live: "segment m rs ds q \<Longrightarrow> x \<in> set (row_addrs rs) \<Longrightarrow> x \<in> dom m \<and> x \<noteq> 0"
proof (induction m rs ds q rule: segment.induct)
  case (2 m n f c rs d ds q)
  then show ?case by (cases "dr_filename d"; cases "dr_content d") (auto simp: row_cells_def split: if_splits)
qed simp_all

lemma walk_list:
  assumes "segment (hp_blocks h) rs ds 0" and "hp_blocks h 0 = None"
  shows "case find_resource ds k of Inl e \<Rightarrow> mem_walk h k prev (start rs 0) = None
    | Inr None \<Rightarrow> \<exists>p. mem_walk h k prev (start rs 0) = Some (p, 0)
    | Inr (Some i) \<Rightarrow> i < length ds \<and> mem_walk h k prev (start rs 0) = Some (if i = 0 then prev else fst (rs ! (i - 1)), fst (rs ! i))"
  using assms(1)
proof (induction ds arbitrary: rs prev)
  case Nil
  then have "rs = []" by (cases rs) auto
  then show ?case by (simp add: mem_walk.simps)
next
  case (Cons d ds)
  from Cons.prems obtain n f c rs' where rs: "rs = (n, f, c) # rs'" by (cases rs) auto
  with Cons.prems have n: "n \<noteq> 0" "res_at h n = Some (f, c, start rs' 0)" "held (hp_blocks h) f (dr_filename d)"
    and seg: "segment (hp_blocks h) rs' ds 0" by (auto simp: res_at_def)
  show ?case
  proof (cases "dr_filename d")
    case None
    with n assms(2) rs show ?thesis by (simp add: mem_walk.simps [of h k prev n] str_at_def)
  next
    case (Some s)
    with n(3) have f: "str_at h f = Some s" by (simp add: str_at_def)
    show ?thesis
    proof (cases "strcmp s k = 0")
      case True
      with n(1,2) f rs Some show ?thesis by (simp add: mem_walk.simps [of h k prev n])
    next
      case False
      have "mem_walk h k prev (start rs 0) = mem_walk h k n (start rs' 0)"
        using False n(1,2) f rs by (simp add: mem_walk.simps [of h k prev n])
      with Cons.IH [OF seg, of n] False Some rs show ?thesis
        by (auto split: sum.splits option.splits simp: nth_Cons')
    qed
  qed
qed

text \<open>The list around the node at which the walk stopped.\<close>

lemma split_at:
  assumes "segment m rs ds q" and "i < length ds"
  obtains rs1 n f c rs2 where "rs = rs1 @ (n, f, c) # rs2" and "length rs1 = i" and "rs ! i = (n, f, c)"
    and "segment m (rs1 @ (n, f, c) # rs2) (take i ds @ ds ! i # drop (Suc i) ds) q" and "ds = take i ds @ ds ! i # drop (Suc i) ds"
proof -
  have i: "i < length rs" using assms segment_length by metis
  obtain n f c where r: "rs ! i = (n, f, c)" by (metis prod_cases3)
  have rs: "rs = take i rs @ (n, f, c) # drop (Suc i) rs" using id_take_nth_drop [OF i] r by simp
  have ds: "ds = take i ds @ ds ! i # drop (Suc i) ds" using id_take_nth_drop [OF assms(2)] .
  show thesis
    by (rule that [OF rs _ r _ ds]) (use i assms(1) rs ds in simp_all)
qed

lemma segment_around:
  "length rs1 = length ds1 \<Longrightarrow> segment m (rs1 @ (n, f, c) # rs2) (ds1 @ d # ds2) q \<longleftrightarrow>
    segment m rs1 ds1 n \<and> n \<noteq> 0 \<and> m n = Some (Res_block f c (start rs2 q)) \<and> held m f (dr_filename d) \<and> held m c (dr_content d)
    \<and> segment m rs2 ds2 q"
  by (simp add: segment_append)

lemma update_segment:
  assumes "segment m (rs1 @ (n, f, c) # rs2) (ds1 @ d # ds2) q" and "length rs1 = length ds1"
    and "distinct (row_addrs (rs1 @ (n, f, c) # rs2))" and "c' \<notin> set (row_addrs (rs1 @ (n, f, c) # rs2))"
    and "\<And>x. x \<noteq> n \<Longrightarrow> x \<noteq> c \<Longrightarrow> x \<noteq> c' \<Longrightarrow> m' x = m x" and "m' n = Some (Res_block f c' (start rs2 q))" and "held m' c' s"
  shows "segment m' (rs1 @ (n, f, c') # rs2) (ds1 @ d\<lparr>dr_content := s\<rparr> # ds2) q"
proof -
  note s = assms(1) [unfolded segment_around [OF assms(2)]]
  have c0: "c \<notin> set (row_addrs rs1) \<and> c \<notin> set (row_addrs rs2)"
    using assms(3) segment_live [of m rs1 ds1 n] segment_live [of m rs2 ds2 q] s by (auto simp: row_cells_def split: if_splits)
  have "segment m' rs1 ds1 n = segment m rs1 ds1 n"
    by (rule segment_cong, rule assms(5)) (use assms(3,4) c0 in \<open>auto simp: row_cells_def\<close>)
  moreover have "segment m' rs2 ds2 q = segment m rs2 ds2 q"
    by (rule segment_cong, rule assms(5)) (use assms(3,4) c0 in \<open>auto simp: row_cells_def\<close>)
  moreover have "held m' f (dr_filename d) = held m f (dr_filename d)"
    by (rule held_cong, rule impI, rule assms(5)) (use assms(3,4) s in \<open>auto simp: row_cells_def split: if_splits\<close>)
  ultimately show ?thesis using s assms(6,7) by (simp add: segment_around [OF assms(2)])
qed

text \<open>The link of the node before a segment is redirected.\<close>

lemma redirect_segment:
  assumes "segment m (rs @ [(n, f, c)]) ds q" and "distinct (row_addrs (rs @ [(n, f, c)]))"
  shows "segment (m(n \<mapsto> Res_block f c q')) (rs @ [(n, f, c)]) ds q'"
proof -
  from segment_length [OF assms(1)] obtain ds1 d where ds: "ds = ds1 @ [d]" "length rs = length ds1"
    by (cases ds rule: rev_cases) auto
  note s = assms(1) [unfolded ds(1) segment_around [OF ds(2)]]
  let ?m = "m(n \<mapsto> Res_block f c q')"
  have "segment ?m rs ds1 n = segment m rs ds1 n"
    by (rule segment_cong) (use assms(2) in \<open>auto simp: row_cells_def\<close>)
  moreover have "held ?m f s = held m f s" "held ?m c s = held m c s" for s
    using assms(2) by (auto intro!: held_cong simp: row_cells_def split: if_splits)
  ultimately show ?thesis using s by (simp add: ds(1) segment_around [OF ds(2)])
qed

subsection \<open>The operations do in memory what they do on the list\<close>

definition tcp_in :: "tcp_memory \<Rightarrow> tcp_state \<Rightarrow> alloc \<Rightarrow> bool" where
  "tcp_in t h a \<longleftrightarrow> tm_body t = body h \<and> hp_alloc (tm_heap t) = a \<and> resources_in (tm_heap t) (tm_list t) (resource_list h)"

definition agree :: "(nat \<times> tcp_memory) option \<Rightarrow> tcp_fault + (nat \<times> tcp_state \<times> alloc) \<Rightarrow> bool" where
  "agree run res \<longleftrightarrow> (case res of Inl e \<Rightarrow> run = None | Inr (code, h', a') \<Rightarrow> \<exists>t'. run = Some (code, t') \<and> tcp_in t' h' a')"

lemma agree_simps [simp]: "agree None (Inl e)" "agree (Some (code, t)) (Inr (code, h, a)) \<longleftrightarrow> tcp_in t h a"
  by (simp_all add: agree_def)

lemma resources_inE:
  assumes "resources_in h p ds"
  obtains rs where "p = start rs 0" "segment (hp_blocks h) rs ds 0" "distinct (row_addrs rs)" "dom (hp_blocks h) = set (row_addrs rs)"
    "heap_ok h" "hp_blocks h 0 = None"
  using assms by (auto simp: resources_in_def)

lemma walk_cases:
  assumes "resources_in h p ds"
  obtains (fault) e where "find_resource ds k = Inl e" "mem_walk h k 0 p = None"
    | (absent) q where "find_resource ds k = Inr None" "mem_walk h k 0 p = Some (q, 0)"
    | (found) i rs1 n f c rs2 where "find_resource ds k = Inr (Some i)" "i < length ds" "length rs1 = length (take i ds)"
      "mem_walk h k 0 p = Some (if rs1 = [] then 0 else fst (last rs1), n)" "n \<noteq> 0" "res_at h n = Some (f, c, start rs2 0)"
      "held (hp_blocks h) c (dr_content (ds ! i))" "p = start (rs1 @ (n, f, c) # rs2) 0"
      "segment (hp_blocks h) (rs1 @ (n, f, c) # rs2) (take i ds @ ds ! i # drop (Suc i) ds) 0"
      "distinct (row_addrs (rs1 @ (n, f, c) # rs2))" "dom (hp_blocks h) = set (row_addrs (rs1 @ (n, f, c) # rs2))"
proof -
  from assms obtain rs where p: "p = start rs 0" and rs: "segment (hp_blocks h) rs ds 0" and own: "distinct (row_addrs rs)"
    "dom (hp_blocks h) = set (row_addrs rs)" and "hp_blocks h 0 = None" by (rule resources_inE)
  from walk_list [OF rs this(5), of k 0] have w: "case find_resource ds k of Inl e \<Rightarrow> mem_walk h k 0 p = None
    | Inr None \<Rightarrow> \<exists>q. mem_walk h k 0 p = Some (q, 0)
    | Inr (Some i) \<Rightarrow> i < length ds \<and> mem_walk h k 0 p = Some (if i = 0 then 0 else fst (rs ! (i - 1)), fst (rs ! i))"
    by (simp only: p)
  consider (a) e where "find_resource ds k = Inl e" | (b) "find_resource ds k = Inr None" | (c) i where "find_resource ds k = Inr (Some i)"
    by (metis not_Some_eq sum.exhaust)
  then show thesis
  proof cases
    case a
    with w show ?thesis by (intro fault) simp_all
  next
    case b
    with w show ?thesis using absent by auto
  next
    case (c i)
    with w have i: "i < length ds" "mem_walk h k 0 p = Some (if i = 0 then 0 else fst (rs ! (i - 1)), fst (rs ! i))" by simp_all
    from split_at [OF rs i(1)] obtain rs1 n f c rs2 where r: "rs = rs1 @ (n, f, c) # rs2" "length rs1 = i" and
      seg: "segment (hp_blocks h) (rs1 @ (n, f, c) # rs2) (take i ds @ ds ! i # drop (Suc i) ds) 0" by metis
    have l: "length rs1 = length (take i ds)" using i r(2) by simp
    note n = seg [unfolded segment_around [OF l]]
    have "mem_walk h k 0 p = Some (if rs1 = [] then 0 else fst (last rs1), n)"
      using i(2) r by (cases rs1 rule: rev_cases) (auto simp: nth_append)
    then show ?thesis
      by (rule found [OF c i(1) l _ _ _ _ _ seg]) (use n own r p in \<open>auto simp: res_at_def\<close>)
  qed
qed

lemma get_dynamic_mem:
  assumes "tcp_in t h a"
  shows "agree (mem_get_dynamic t uri) (case get_dynamic_ressource h uri of Inl e \<Rightarrow> Inl e | Inr (code, h') \<Rightarrow> Inr (code, h', a))"
proof (cases "take 9 uri = dynamic_prefix \<and> drop 9 uri \<noteq> []")
  case False
  with assms show ?thesis by (auto simp: mem_get_dynamic_def get_dynamic_ressource_def Let_def)
next
  case True
  from assms have t: "hp_alloc (tm_heap t) = a" "resources_in (tm_heap t) (tm_list t) (resource_list h)" by (simp_all add: tcp_in_def)
  have null: "hp_blocks (tm_heap t) 0 = None" using t(2) by (auto simp: resources_in_def)
  show ?thesis
  proof (rule walk_cases [OF t(2), of "drop 9 uri"], goal_cases)
    case (3 i rs1 n f c rs2)
    show ?case
    proof (cases "dr_content (resource_list h ! i)")
      case None
      with 3 null True show ?thesis by (simp add: mem_get_dynamic_def get_dynamic_ressource_def Let_def str_at_def)
    next
      case (Some v)
      with 3 have "str_at (tm_heap t) c = Some v" by (simp add: str_at_def)
      with 3 Some True t show ?thesis by (simp add: mem_get_dynamic_def get_dynamic_ressource_def Let_def tcp_in_def)
    qed
  qed (use True assms in \<open>simp_all add: mem_get_dynamic_def get_dynamic_ressource_def Let_def\<close>)
qed

text \<open>A row is released: the file name, the content, the node.\<close>

lemma free_row:
  assumes "distinct (row_cells (n, f, c))" and "set (row_cells (n, f, c)) \<subseteq> dom (hp_blocks h)" and "n \<noteq> 0"
  shows "mem_free_row (n, f, c) h = Some (h\<lparr>hp_blocks := hp_blocks h |` (- set (row_cells (n, f, c)))\<rparr>)"
  using assms by (cases h, cases "f = 0"; cases "c = 0") (auto simp: mem_free_row_def heap_free_def row_cells_def restrict_map_def fun_eq_iff)

text \<open>The list without the row.\<close>

lemma unlinked:
  assumes "segment m (rs1 @ (n, f, c) # rs2) (ds1 @ d # ds2) 0" and "length rs1 = length ds1"
    and "distinct (row_addrs (rs1 @ (n, f, c) # rs2))" and "dom m = set (row_addrs (rs1 @ (n, f, c) # rs2))"
    and "m1 = (if rs1 = [] then m else m(fst (last rs1) \<mapsto> Res_block (fst (snd (last rs1))) (snd (snd (last rs1))) (start rs2 0)))"
    and "m' = m1 |` (- set (row_cells (n, f, c)))"
  shows "segment m' (rs1 @ rs2) (ds1 @ ds2) 0" and "distinct (row_addrs (rs1 @ rs2))" and "dom m' = set (row_addrs (rs1 @ rs2))"
proof -
  note s = assms(1) [unfolded segment_around [OF assms(2)]]
  show d: "distinct (row_addrs (rs1 @ rs2))" using assms(3) by auto
  have w: "segment m1 rs1 ds1 (start rs2 0) \<and> segment m1 rs2 ds2 0 \<and> dom m1 = dom m"
  proof (cases rs1 rule: rev_cases)
    case Nil
    with assms(2,5) s show ?thesis by simp
  next
    case (snoc rs0 r)
    obtain a b e where r: "r = (a, b, e)" by (cases r)
    have m1: "m1 = m(a \<mapsto> Res_block b e (start rs2 0))" using assms(5) snoc r by simp
    have "segment m1 rs1 ds1 (start rs2 0)"
      unfolding m1 snoc r by (rule redirect_segment) (use s d snoc r in auto)
    moreover have "segment m1 rs2 ds2 0 = segment m rs2 ds2 0"
      by (rule segment_cong) (use d snoc r in \<open>auto simp: m1 row_cells_def\<close>)
    moreover have "a \<in> dom m" using assms(4) snoc r by (simp add: row_cells_def)
    ultimately show ?thesis using s by (auto simp: m1)
  qed
  have "segment m' rs1 ds1 (start rs2 0) = segment m1 rs1 ds1 (start rs2 0)"
    by (rule segment_cong) (use assms(3) in \<open>auto simp: assms(6) restrict_map_def\<close>)
  moreover have "segment m' rs2 ds2 0 = segment m1 rs2 ds2 0"
    by (rule segment_cong) (use assms(3) in \<open>auto simp: assms(6) restrict_map_def\<close>)
  ultimately show "segment m' (rs1 @ rs2) (ds1 @ ds2) 0" using w by (simp add: segment_append [OF assms(2)])
  then show "dom m' = set (row_addrs (rs1 @ rs2))" using w assms(3,4) by (auto simp: assms(6))
qed

definition delete_named :: "tcp_state \<Rightarrow> string \<Rightarrow> alloc \<Rightarrow> tcp_fault + (nat \<times> tcp_state \<times> alloc)" where
  "delete_named h k a =
     (case find_resource (resource_list h) k of Inl e \<Rightarrow> Inl e
      | Inr (Some i) \<Rightarrow> Inr (204, h\<lparr>resource_list := take i (resource_list h) @ drop (i + 1) (resource_list h)\<rparr>, a)
      | Inr None \<Rightarrow> Inr (404, h, a))"

lemma delete_mem:
  assumes "tcp_in t h a"
  shows "agree (mem_delete_dynamic t k) (delete_named h k a)"
proof -
  let ?m = "hp_blocks (tm_heap t)"
  from assms have t: "tm_body t = body h" "hp_alloc (tm_heap t) = a" "resources_in (tm_heap t) (tm_list t) (resource_list h)"
    by (simp_all add: tcp_in_def)
  show ?thesis
  proof (rule walk_cases [OF t(3), of k], goal_cases)
    case (3 i rs1 n f c rs2)
    define prev where "prev = (if rs1 = [] then 0 else fst (last rs1))"
    define m1 where "m1 = (if rs1 = [] then ?m else ?m(prev \<mapsto> Res_block (fst (snd (last rs1))) (snd (snd (last rs1))) (start rs2 0)))"
    define p' where "p' = start (rs1 @ rs2) 0"
    let ?h1 = "(tm_heap t)\<lparr>hp_blocks := m1\<rparr>"
    let ?h2 = "?h1\<lparr>hp_blocks := m1 |` (- set (row_cells (n, f, c)))\<rparr>"
    have "m1 = (if rs1 = [] then ?m else ?m(fst (last rs1) \<mapsto> Res_block (fst (snd (last rs1))) (snd (snd (last rs1))) (start rs2 0)))"
      by (simp add: m1_def prev_def)
    note u = unlinked [OF 3(9,3,10,11) this refl]
    have relink: "mem_relink t prev (start rs2 0) = Some (p', ?h1) \<and> dom m1 = dom ?m"
    proof (cases rs1 rule: rev_cases)
      case Nil
      then show ?thesis by (simp add: mem_relink_def prev_def m1_def p'_def)
    next
      case (snoc rs0 r)
      obtain x y z where r: "r = (x, y, z)" by (cases r)
      have "length (rs0 @ [r]) = length (take i (resource_list h))" using 3(3) snoc by simp
      then obtain ds0 d where ds: "take i (resource_list h) = ds0 @ [d]" "length rs0 = length ds0"
        by (cases "take i (resource_list h)" rule: rev_cases) auto
      have "segment ?m (rs0 @ (x, y, z) # (n, f, c) # rs2) (ds0 @ d # resource_list h ! i # drop (Suc i) (resource_list h)) 0"
        using 3(9) snoc r ds(1) by simp
      from this [unfolded segment_around [OF ds(2)]] have x: "x \<noteq> 0" "?m x = Some (Res_block y z n)" by simp_all
      then show ?thesis using snoc r 3(8) by (auto simp: mem_relink_def prev_def m1_def p'_def res_at_def heap_write_def start_append)
    qed
    have cells: "distinct (row_cells (n, f, c))" "set (row_cells (n, f, c)) \<subseteq> dom (hp_blocks ?h1)"
      using 3(10,11) relink by auto
    have "heap_ok ?h2" by (intro heap_ok_update) (use t(3) relink in \<open>auto simp: resources_in_def\<close>)
    then have "resources_in ?h2 p' (take i (resource_list h) @ drop (Suc i) (resource_list h))"
      using u by (auto simp: resources_in_def p'_def)
    moreover have "mem_delete_dynamic t k = Some (204, t\<lparr>tm_list := p', tm_heap := ?h2\<rparr>)"
      using relink free_row [OF cells 3(5)] 3(4-6) by (simp add: mem_delete_dynamic_def flip: prev_def)
    ultimately show ?case using 3(1) t(1,2) by (simp add: delete_named_def tcp_in_def)
  qed (use assms in \<open>simp_all add: mem_delete_dynamic_def delete_named_def\<close>)
qed

lemma strdup_mem:
  assumes "mem_my_strdup s h = (p, h')" and "heap_ok h"
  shows "held (hp_blocks h') p (fst (my_strdup (hp_alloc h) s))" and "hp_alloc h' = snd (my_strdup (hp_alloc h) s)" and "heap_ok h'"
    and "hp_blocks h p = None" and "\<And>x. x \<noteq> p \<Longrightarrow> hp_blocks h' x = hp_blocks h x"
    and "dom (hp_blocks h') = dom (hp_blocks h) \<union> (if p = 0 then {} else {p})"
  using assms(1) [unfolded mem_my_strdup_def] assms(2)
  by (cases rule: heap_malloc_cases; use assms(2) in \<open>force simp: my_strdup_def\<close>)+

lemma free_held:
  assumes "held (hp_blocks h) p s" and "heap_ok h"
  shows "heap_free p h = Some (h\<lparr>hp_blocks := (hp_blocks h)(p := None)\<rparr>)"
proof (cases s)
  case None
  have "(hp_blocks h)(0 := None) = hp_blocks h" using assms(2) by (intro fun_upd_idem) simp
  with None assms(1) show ?thesis by (simp add: heap_free_def)
qed (use assms(1) in \<open>auto simp: heap_free_def\<close>)

lemma row_cells_set: "set (row_cells (n, f, c)) = insert n ({f, c} - {0})"
  by (auto simp: row_cells_def)

definition put_named :: "tcp_state \<Rightarrow> string \<Rightarrow> alloc \<Rightarrow> tcp_fault + (nat \<times> tcp_state \<times> alloc)" where
  "put_named h k a =
     (let list = resource_list h in
      case find_resource list k of Inl e \<Rightarrow> Inl e
      | Inr (Some i) \<Rightarrow>
         (let (content, a1) = my_strdup a (c_str (body h))
          in Inr (204, h\<lparr>resource_list := list[i := (list ! i)\<lparr>dr_content := content\<rparr>]\<rparr>, a1))
      | Inr None \<Rightarrow>
         (let (ok, a1) = malloc a in
          if \<not> ok then Inr (500, h, a1)
          else (let (name, a2) = my_strdup a1 k; (content, a3) = my_strdup a2 (c_str (body h))
                in Inr (201, h\<lparr>resource_list := \<lparr>dr_filename = name, dr_content = content\<rparr> # list\<rparr>, a3))))"

lemma put_existing_mem:
  assumes t: "tm_body t = body h" "hp_alloc (tm_heap t) = a" "resources_in (tm_heap t) (tm_list t) (resource_list h)"
    and found: "find_resource (resource_list h) k = Inr (Some i)"
  shows "agree (mem_put_dynamic t k) (put_named h k a)"
proof (rule walk_cases [OF t(3), of k], goal_cases)
  case (3 j rs1 n f c rs2)
  then have j: "j = i" using found by simp
  let ?ds = "resource_list h" and ?m = "hp_blocks (tm_heap t)"
  let ?h1 = "(tm_heap t)\<lparr>hp_blocks := ?m(c := None)\<rparr>"
  have ok: "heap_ok (tm_heap t)" using t(3) by (simp add: resources_in_def)
  have free: "heap_free c (tm_heap t) = Some ?h1" by (rule free_held [OF 3(7) ok])
  have ok1: "heap_ok ?h1" by (rule heap_ok_update [OF ok]) auto
  obtain c' h2 where dup: "mem_my_strdup (c_str (tm_body t)) ?h1 = (c', h2)" by fastforce
  note d = strdup_mem [OF dup ok1]
  let ?s = "fst (my_strdup a (c_str (body h)))"
  let ?h3 = "h2\<lparr>hp_blocks := (hp_blocks h2)(n \<mapsto> Res_block f c' (start rs2 0))\<rparr>"
  have n: "?m n = Some (Res_block f c (start rs2 0))" using 3(6) by (auto simp: res_at_def split: option.splits tcp_block.splits)
  have live: "x \<in> dom ?m" if "x \<in> set (row_addrs (rs1 @ (n, f, c) # rs2))" for x using that 3(11) by simp
  have "n \<noteq> c" "f = c \<longrightarrow> c = 0" using 3(5,10) by (auto simp: row_cells_def split: if_splits)
  have "hp_top (tm_heap t) \<le> c' \<or> c' = 0"
    using dup by (auto simp: mem_my_strdup_def heap_malloc_def split: prod.splits if_splits)
  then have fresh: "?m c' = None" using ok by auto
  then have new: "c' \<notin> set (row_addrs (rs1 @ (n, f, c) # rs2))" using live by blast
  then have "n \<noteq> c'" by (auto simp: row_cells_def)
  have h2n: "hp_blocks h2 n = Some (Res_block f c (start rs2 0))" using d(5) [of n] n \<open>n \<noteq> c\<close> \<open>n \<noteq> c'\<close> by simp
  have held: "held (hp_blocks ?h3) c' ?s"
    using d(1) t(1,2) \<open>n \<noteq> c'\<close> by (cases ?s) auto
  have "segment (hp_blocks ?h3) (rs1 @ (n, f, c') # rs2) (take i ?ds @ (?ds ! i)\<lparr>dr_content := ?s\<rparr> # drop (Suc i) ?ds) 0"
    by (rule update_segment [OF 3(9) [unfolded j] 3(3) [unfolded j] 3(10) new _ _ held]) (use d(5) in auto)
  moreover have "take i ?ds @ (?ds ! i)\<lparr>dr_content := ?s\<rparr> # drop (Suc i) ?ds = ?ds[i := (?ds ! i)\<lparr>dr_content := ?s\<rparr>]"
    using 3(2) j by (simp add: upd_conv_take_nth_drop)
  moreover have "distinct (row_addrs (rs1 @ (n, f, c') # rs2))"
    using 3(10) new by (auto simp: row_cells_def split: if_splits)
  moreover have "dom (hp_blocks ?h3) = set (row_addrs (rs1 @ (n, f, c') # rs2))"
  proof -
    have "c \<notin> set (row_addrs rs1) \<union> set (row_addrs rs2) \<union> {n, f} \<or> c = 0"
      using 3(10) \<open>n \<noteq> c\<close> \<open>f = c \<longrightarrow> c = 0\<close> by (auto simp: row_cells_def)
    moreover have "0 \<notin> set (row_addrs (rs1 @ (n, f, c) # rs2))" using live ok by fastforce
    ultimately show ?thesis using d(6) 3(11) by (auto simp: row_cells_set split: if_splits)
  qed
  moreover have "heap_ok ?h3" by (rule heap_ok_update [OF d(3)]) (use h2n in auto)
  ultimately have "resources_in ?h3 (tm_list t) (?ds[i := (?ds ! i)\<lparr>dr_content := ?s\<rparr>])"
    using 3(8) unfolding resources_in_def by (intro conjI exI [of _ "rs1 @ (n, f, c') # rs2"]) (auto simp: start_append)
  moreover have "mem_put_dynamic t k = Some (204, t\<lparr>tm_heap := ?h3\<rparr>)"
    using 3(4-6) free dup h2n by (simp add: mem_put_dynamic_def heap_write_def)
  ultimately show ?case using found t(1,2) d(2) by (simp add: put_named_def tcp_in_def Let_def case_prod_beta)
qed (use found in simp_all)

lemma put_new_mem:
  assumes t: "tm_body t = body h" "hp_alloc (tm_heap t) = a" "resources_in (tm_heap t) (tm_list t) (resource_list h)"
    and absent: "find_resource (resource_list h) k = Inr None"
  shows "agree (mem_put_dynamic t k) (put_named h k a)"
proof (rule walk_cases [OF t(3), of k], goal_cases)
  case (2 q)
  let ?m = "hp_blocks (tm_heap t)"
  from t(3) obtain rs where rs: "tm_list t = start rs 0" "segment ?m rs (resource_list h) 0" "distinct (row_addrs rs)"
    "dom ?m = set (row_addrs rs)" "heap_ok (tm_heap t)" by (rule resources_inE)
  obtain n h1 where m: "heap_malloc (Res_block 0 0 0) (tm_heap t) = (n, h1)" by fastforce
  from m rs(5) show ?case
  proof (cases rule: heap_malloc_cases)
    case (fail a')
    with t 2(2) m absent rs(5) show ?thesis
      by (auto simp: mem_put_dynamic_def put_named_def tcp_in_def resources_in_def)
  next
    case (new a1)
    obtain f h2 where f: "mem_my_strdup k h1 = (f, h2)" by fastforce
    note d = strdup_mem [OF f new(6)]
    obtain c h3 where c: "mem_my_strdup (c_str (tm_body t)) h2 = (c, h3)" by fastforce
    note e = strdup_mem [OF c d(3)]
    let ?h4 = "h3\<lparr>hp_blocks := (hp_blocks h3)(n \<mapsto> Res_block f c (start rs 0))\<rparr>"
    let ?d = "\<lparr>dr_filename = fst (my_strdup a1 k), dr_content = fst (my_strdup (snd (my_strdup a1 k)) (c_str (body h)))\<rparr>"
    have n: "n \<noteq> 0" "?m n = None" "hp_blocks h1 = ?m(n \<mapsto> Res_block 0 0 0)" "hp_alloc h1 = a1" using new by simp_all
    then have "f \<noteq> n" using d(4) by auto
    then have h2n: "hp_blocks h2 n = Some (Res_block 0 0 0)" using d(5) [of n] n(3) by simp
    then have "c \<noteq> n" using e(4) by auto
    have "f \<in> dom (hp_blocks h2)" if "f \<noteq> 0" unfolding d(6) using that by simp
    then have fc: "f = c \<longrightarrow> c = 0" using e(4) by auto
    have fresh: "x \<notin> {n, f, c}" if "x \<in> set (row_addrs rs)" for x
      using that rs(4,5) n(2,3) d(4) e(4) d(5) by (metis (no_types, lifting) domIff empty_iff fun_upd_apply insert_iff)
    have "segment (hp_blocks ?h4) rs (resource_list h) 0 = segment ?m rs (resource_list h) 0"
      by (rule segment_cong) (use fresh d(5) e(5) n(3) in auto)
    moreover have "held (hp_blocks ?h4) f (dr_filename ?d)"
      using d(1) e(5) [of f] fc n(4) \<open>f \<noteq> n\<close> by (cases "dr_filename ?d") auto
    moreover have "held (hp_blocks ?h4) c (dr_content ?d)"
      using e(1) d(2) n(4) t(1) \<open>c \<noteq> n\<close> by (cases "dr_content ?d") auto
    ultimately have "segment (hp_blocks ?h4) ((n, f, c) # rs) (?d # resource_list h) 0" using rs(2) n(1) by simp
    moreover have "distinct (row_addrs ((n, f, c) # rs))"
      using rs(3) fresh fc \<open>f \<noteq> n\<close> \<open>c \<noteq> n\<close> by (auto simp: row_cells_def)
    moreover have "dom (hp_blocks ?h4) = set (row_addrs ((n, f, c) # rs))"
      using d(6) e(6) n(3) rs(4) by (auto simp: row_cells_set)
    moreover have live: "hp_blocks h3 n = Some (Res_block 0 0 0)" using e(5) [of n] h2n \<open>c \<noteq> n\<close> by simp
    then have "heap_ok ?h4" by (intro heap_ok_update [OF e(3)]) auto
    ultimately have "resources_in ?h4 n (?d # resource_list h)"
      unfolding resources_in_def by (intro conjI exI [of _ "(n, f, c) # rs"]) simp_all
    moreover have "mem_put_dynamic t k = Some (201, t\<lparr>tm_list := n, tm_heap := ?h4\<rparr>)"
      using 2(2) m f c n(1) live rs(1) by (simp add: mem_put_dynamic_def heap_write_def)
    moreover have "malloc a = (True, a1)" using new(1) t(2) by simp
    ultimately show ?thesis using absent t(1) n(4) d(2) e(2)
      by (simp add: put_named_def tcp_in_def Let_def case_prod_beta)
  qed
qed (use absent in simp_all)

lemma put_mem:
  assumes "tcp_in t h a"
  shows "agree (mem_put_dynamic t k) (put_named h k a)"
proof -
  from assms have t: "tm_body t = body h" "hp_alloc (tm_heap t) = a" "resources_in (tm_heap t) (tm_list t) (resource_list h)"
    by (simp_all add: tcp_in_def)
  show ?thesis
  proof (rule walk_cases [OF t(3), of k], goal_cases)
    case 1
    then show ?case by (simp add: mem_put_dynamic_def put_named_def)
  next
    case 2
    from put_new_mem [OF t 2(1)] show ?case .
  next
    case 3
    from put_existing_mem [OF t 3(1)] show ?case .
  qed
qed

lemma check_named:
  "check_dynamic_resource a h uri code =
     (if take 9 uri \<noteq> dynamic_prefix then Inr (403, h, a)
      else if code = 1001 then (if drop 9 uri = [] then Inr (404, h, a) else put_named h (drop 9 uri) a)
      else if code = 1002 then (if drop 9 uri = [] then Inr (404, h, a) else delete_named h (drop 9 uri) a)
      else Inr (404, h, a))"
  by (simp add: check_dynamic_resource_def put_named_def delete_named_def Let_def)

lemma check_mem: "tcp_in t h a \<Longrightarrow> agree (mem_check_dynamic t uri code) (check_dynamic_resource a h uri code)"
  by (simp add: check_named mem_check_dynamic_def Let_def put_mem delete_mem)

subsection \<open>A sequence of requests\<close>

text \<open>A request for a dynamic resource, with the body that came with a PUT, as \<open>get_code\<close> dispatches it.\<close>

datatype dyn_request = Dyn_get string | Dyn_put string "char list" | Dyn_delete string

definition mem_dyn_request :: "dyn_request \<Rightarrow> tcp_memory \<Rightarrow> (nat \<times> tcp_memory) option" where
  "mem_dyn_request r t =
     (case r of
        Dyn_get uri \<Rightarrow> mem_get_dynamic t uri
      | Dyn_put uri v \<Rightarrow> mem_check_dynamic (t\<lparr>tm_body := v\<rparr>) uri 1001
      | Dyn_delete uri \<Rightarrow> mem_check_dynamic t uri 1002)"

definition dyn_request :: "dyn_request \<Rightarrow> tcp_state \<Rightarrow> alloc \<Rightarrow> tcp_fault + (nat \<times> tcp_state \<times> alloc)" where
  "dyn_request r h a =
     (case r of
        Dyn_get uri \<Rightarrow> (case get_dynamic_ressource h uri of Inl e \<Rightarrow> Inl e | Inr (code, h') \<Rightarrow> Inr (code, h', a))
      | Dyn_put uri v \<Rightarrow> check_dynamic_resource a (h\<lparr>body := v\<rparr>) uri 1001
      | Dyn_delete uri \<Rightarrow> check_dynamic_resource a h uri 1002)"

fun mem_dyn_requests :: "dyn_request list \<Rightarrow> tcp_memory \<Rightarrow> (nat list \<times> tcp_memory) option" where
  "mem_dyn_requests [] t = Some ([], t)"
| "mem_dyn_requests (r # rs) t =
     do { (code, t1) \<leftarrow> mem_dyn_request r t; (codes, t2) \<leftarrow> mem_dyn_requests rs t1; Some (code # codes, t2) }"

fun dyn_requests :: "dyn_request list \<Rightarrow> tcp_state \<Rightarrow> alloc \<Rightarrow> tcp_fault + (nat list \<times> tcp_state \<times> alloc)" where
  "dyn_requests [] h a = Inr ([], h, a)"
| "dyn_requests (r # rs) h a =
     (case dyn_request r h a of Inl e \<Rightarrow> Inl e
      | Inr (code, h1, a1) \<Rightarrow>
         (case dyn_requests rs h1 a1 of Inl e \<Rightarrow> Inl e | Inr (codes, h2, a2) \<Rightarrow> Inr (code # codes, h2, a2)))"

lemma dyn_request_mem: "tcp_in t h a \<Longrightarrow> agree (mem_dyn_request r t) (dyn_request r h a)"
proof (cases r)
  case (Dyn_put uri v)
  assume "tcp_in t h a"
  then have "tcp_in (t\<lparr>tm_body := v\<rparr>) (h\<lparr>body := v\<rparr>) a" by (simp add: tcp_in_def)
  from check_mem [OF this] Dyn_put show ?thesis by (simp add: mem_dyn_request_def dyn_request_def)
qed (simp_all add: mem_dyn_request_def dyn_request_def get_dynamic_mem check_mem)

lemma dyn_requests_mem:
  "tcp_in t h a \<Longrightarrow> case dyn_requests rs h a of Inl e \<Rightarrow> mem_dyn_requests rs t = None
    | Inr (codes, h', a') \<Rightarrow> \<exists>t'. mem_dyn_requests rs t = Some (codes, t') \<and> tcp_in t' h' a'"
proof (induction rs arbitrary: t h a)
  case (Cons r rs)
  note one = dyn_request_mem [OF Cons.prems, of r]
  show ?case
  proof (cases "dyn_request r h a")
    case (Inl e)
    with one show ?thesis by (simp add: agree_def)
  next
    case (Inr x)
    obtain code h1 a1 where x: "x = (code, h1, a1)" by (cases x)
    with one Inr obtain t1 where "mem_dyn_request r t = Some (code, t1)" "tcp_in t1 h1 a1" by (auto simp: agree_def)
    with Cons.IH [of t1 h1 a1] Inr x show ?thesis by (auto split: sum.splits prod.splits)
  qed
qed simp

text \<open>The blocks of a resource: the node, and those of its two copies that could be made.\<close>

definition blocks_of :: "dynamic_resource \<Rightarrow> nat" where
  "blocks_of d = 1 + (if dr_filename d = None then 0 else 1) + (if dr_content d = None then 0 else 1)"

lemma length_row_addrs: "segment m rs ds q \<Longrightarrow> length (row_addrs rs) = sum_list (map blocks_of ds)"
proof (induction m rs ds q rule: segment.induct)
  case (2 m n f c rs d ds q)
  then show ?case by (cases "dr_filename d"; cases "dr_content d") (simp_all add: row_cells_def blocks_of_def)
qed simp_all

lemma live_blocks:
  assumes "resources_in h p ds"
  shows "card (dom (hp_blocks h)) = sum_list (map blocks_of ds)"
proof (rule resources_inE [OF assms])
  fix rs
  assume "segment (hp_blocks h) rs ds 0" "distinct (row_addrs rs)" "dom (hp_blocks h) = set (row_addrs rs)"
  then show ?thesis by (simp add: distinct_card length_row_addrs)
qed

text \<open>C23: The dynamic resources in memory: any sequence of GETs, PUTs and DELETEs, with any URIs and bodies and
  whichever allocations fail, does in memory exactly what it does on the list of the model.  The
  only undefined behaviour is the null pointer of a copy that could not be made; in all other cases the
  replies agree, each block is used as what it was allocated as, and at the end the live
  blocks are exactly the nodes of the list with their strings: a DELETE and an overwriting PUT leak nothing
  and free nothing twice.\<close>

theorem dynamic_requests_in_memory:
  "case dyn_requests rs \<lparr>request_uri = [], body = [], resource_list = []\<rparr> a of
     Inl fault \<Rightarrow> mem_dyn_requests rs \<lparr>tm_body = [], tm_list = 0, tm_heap = empty_heap a\<rparr> = None
   | Inr (codes, h', a') \<Rightarrow>
       \<exists>t'. mem_dyn_requests rs \<lparr>tm_body = [], tm_list = 0, tm_heap = empty_heap a\<rparr> = Some (codes, t')
         \<and> tm_body t' = body h' \<and> resources_in (tm_heap t') (tm_list t') (resource_list h')
         \<and> card (dom (hp_blocks (tm_heap t'))) = sum_list (map blocks_of (resource_list h'))"
proof -
  let ?t = "\<lparr>tm_body = [], tm_list = 0, tm_heap = empty_heap a\<rparr>" and ?h = "\<lparr>request_uri = [], body = [], resource_list = []\<rparr>"
  have "resources_in (empty_heap a) 0 []"
    by (auto simp: resources_in_def empty_heap_def heap_ok_def intro!: exI [of _ "[]"])
  then have "tcp_in ?t ?h a" by (simp add: tcp_in_def empty_heap_def)
  from dyn_requests_mem [OF this, of rs] show ?thesis by (auto simp: tcp_in_def live_blocks split: sum.splits)
qed

lemma dynamic_requests_in_memory_witness:
  "\<exists>t'. mem_dyn_requests [Dyn_put ''/dynamic/a'' ''1'', Dyn_put ''/dynamic/b'' ''2'', Dyn_delete ''/dynamic/a'', Dyn_get ''/dynamic/b'']
      \<lparr>tm_body = [], tm_list = 0, tm_heap = empty_heap []\<rparr> = Some ([201, 201, 204, 200], t')
    \<and> tm_body t' = ''2'' \<and> card (dom (hp_blocks (tm_heap t'))) = 3"
proof -
  let ?rs = "[Dyn_put ''/dynamic/a'' ''1'', Dyn_put ''/dynamic/b'' ''2'', Dyn_delete ''/dynamic/a'', Dyn_get ''/dynamic/b'']"
  have "dyn_requests ?rs \<lparr>request_uri = [], body = [], resource_list = []\<rparr> [] = Inr ([201, 201, 204, 200],
      \<lparr>request_uri = [], body = ''2'', resource_list = [\<lparr>dr_filename = Some ''b'', dr_content = Some ''2''\<rparr>]\<rparr>, [])"
    by (simp add: dyn_request_def check_dynamic_resource_def get_dynamic_ressource_def my_strdup_def BODY_SIZE_def)
  with dynamic_requests_in_memory [of ?rs "[]"] show ?thesis by (auto simp: blocks_of_def)
qed

end
