(* ===== verification/Spec2Isabelle.thy ===== *)
theory Spec2Isabelle
  imports Map_Reduce Worker_Main Distributor_Main Heap_Worker Heap_Distributor Chord_Heap Chord_Cluster Chord_Main Hash_Tester Tcp_Main Tcp_Heap
begin

text \<open>
  Three programs in C: a distributed word count (\<open>src/mapreduce-wordcount\<close>), a node of a Chord ring that
  serves HTTP (\<open>src/chord-node\<close>), and an HTTP server (\<open>src/tcp-http-server\<close>).

  Common conventions.  A byte is a \<open>char\<close>, a C string a list of bytes without NUL, an \<open>n\<close>-bit integer
  an \<open>n word\<close> where overflow matters.  Memory that is only read and written through one pointer is a
  list, a pointer into it an offset.  A function that can fail returns a sum type; its left side is an
  exit of the program, a call that never returns, or a memory-safety fault, after which C promises
  nothing.  The theory \<open>C_Prelude\<close> holds the C library's part (\<open>strcmp\<close>, \<open>snprintf\<close>, decimal numbers,
  characters), the outcomes of \<open>malloc\<close> and general lemmas.

  The word count.  \<open>Linked_List\<close> (linked\_list.c) is a bucket, \<open>Hash_Map\<close> (hashmap.c) the table; both
  provide the interface of \<open>Counter_Store\<close>, a locale for tables of counters, of which they are
  interpretations.  \<open>Heap_List\<close> and \<open>Heap_Map\<close> are the same two files once more, every operation now
  over a heap (\<open>C_Heap\<close>) with its pointers, copies and calls of \<open>free\<close>, and refine the first pair; \<open>Heap_Worker\<close> does the same for a request of the worker,
  with its reply buffer (\<open>Heap_Bytes\<close>).
  \<open>Word_Count\<close> (wordcount.c) is the tokenizer, the writers of the two text formats
  and the parser of the first as a three-state machine.  \<open>Worker\<close> (zmq\_worker.c) is the request handler
  and the service loop as a step relation.  \<open>Chunker\<close> (chunker.c), \<open>Combine\<close> (combine.c) and
  \<open>Distributor\<close> (zmq\_distributor.c) are the other side, and \<open>Heap_Combine\<close> and \<open>Heap_Distributor\<close> the last two
  over the heap, with the array of entries and the growing buffers; ZeroMQ is a parameter, a function from worker,
  port and message to an optional reply.  \<open>Map_Reduce\<close> joins the two sides, and below is the theorem
  for a whole run, and once more for a run in which both sides use their heaps.  \<open>Worker_Main\<close> and \<open>Distributor_Main\<close> are the processes around them, from arguments to
  exit, with all their calls of ZeroMQ; the documented rules of these calls are the state machine of
  \<open>Zmq_Sockets\<close>.

  The Chord node.  \<open>Chord_Util\<close> (util.c) with the search for a line separator as a partial function,
  \<open>Chord_Data\<close> (data.c) the table of resources, which \<open>Chord_Heap\<close> has once more over a heap with its string
  literals, \<open>Chord_Http\<close> (http.c) the parser of requests in place, \<open>Chord_Wire\<close>, \<open>Chord_Node\<close> and \<open>Chord_Server\<close> (webserver.c) the
  messages and the interval test, the two handlers over the node's global state, and the connection
  with the event loop as a step relation.  \<open>Chord_Ring\<close> is about several nodes: who owns a hash, how
  a lookup travels, and what a client is told; \<open>Chord_Cluster\<close> lets requests and datagrams of a whole
  ring interleave, as a step relation with its invariant.  \<open>Chord_Main\<close> is \<open>main\<close> itself: the calls that
  set up its two sockets (\<open>Posix_Sockets\<close>, the kernel being a parameter) and the loop over its array of
  three \<open>pollfd\<close>s, which refines the steps of \<open>Chord_Server\<close>.  \<open>Hash_Tester\<close> is the program of
  dev\_tests/hashtester.c.

  The HTTP server.  \<open>Tcp_Resources\<close> is the global state of message\_handler.c with the list of dynamic
  resources, which \<open>Tcp_Heap\<close> has once more with its links, copies and frees over a heap, \<open>Tcp_Request\<close> the checks of start line and headers, the body and the dispatch by method,
  \<open>Tcp_Server\<close> the loop that takes complete messages from the receive buffer, and the receive loop of
  webserver.c; \<open>Tcp_Service\<close> is about well-formed requests, \<open>Tcp_Main\<close> about the whole process.  \<open>Resource_Table\<close> is the locale of the
  contract that both the array of the Chord node and this list provide.

  What is shown.  For the word count: each container operation against a map of counters; tokenizer and
  formats with their bounds and round trip; the exact answers of a worker; that chunks and payloads
  are cut between words and entries; the sorted output; all together, the frequency table of the
  file.  The words are specified as wordcount.h does (\<open>words_of\<close>); the code counts each of them by its first 255
  letters (\<open>counted_words\<close>), and the theorems say when that is the same.  That the containers, the requests of a worker and the phases of the distributor use only live memory, each block
  as what it was allocated as, and store every byte inside its buffer, whichever allocations fail; that they leave
  nothing behind, but for the array of the combination where \<open>realloc\<close> fails; that both processes keep the rules of ZeroMQ (the worker unless
  a send fails, which it does not notice) and close every socket exactly once; that the worker serves on every port what
  arrives there, up to the first rip request.  For the node: round trip and bounds of the parser, the table as a finite map, also in memory, where nothing
  leaks and the undefined cases are exactly named, the life of a resource, the order of answers on a stream, the invariant of reachable states, unique
  responsibility in a ring, that lookups end at the responsible node, and that in every interleaving
  redirects name other nodes of the ring and resources are kept where they belong; that the program
  with its sockets does what the event steps do, error conditions reported by \<open>poll\<close> included.  For the HTTP server: the
  list as a finite map, also in memory, where nothing leaks; the life of a resource over a stream, independence of the pieces in which the
  stream arrives, the invariant with the absence of null pointers, resources that outlive connections.  Several theorems state
  where the code misbehaves: a split line separator, a 41st header, overwriting, the largest PUT, the
  Connection header, the cached reply, a ring of two nodes with identifier 0, an unchecked copy, unchecked allocations,
  a failed \<open>realloc\<close>, a failed \<open>zmq_send\<close>, an error condition of the listening socket, words of more than 255 letters, a huge Content-Length, an unreachable second check.

  Bounds and fuel.  \<open>chase\<close> counts the messages of a lookup; as many as the ring has nodes are shown to
  be enough.  All other loops are total functions with a measure, or partial functions whose
  returning is stated.

  Not modelled.  What is printed on stderr, and progress messages on standard output; the releasing of
  memory in other places than the containers, the requests of the worker, the distributor and the resources of both servers; the contents of socket addresses; the Python tests,
  scripts and the developer tests of the HTTP server, which are copies of its code.  A send is taken
  to succeed, but for those of the worker process.  Datagrams arrive in some order that the environment chooses; that one is lost is a state
  in which the next step is not taken.  A signal is an input of the worker's loop.
\<close>

section \<open>The distributed word count\<close>

text \<open>Workers that answer every request as their request handler does, with no failing allocation.\<close>

definition answering :: network where
  "answering k i msg = (case handle_message [] msg of Inl e \<Rightarrow> None | Inr (reply, close, a) \<Rightarrow> Some reply)"

lemma served_by_answering: "served_by_workers answering workers"
proof -
  have "\<exists>reply close a'. handle_message [] msg = Inr (reply, close, a')"
    if "length msg < RECV_BUFFER_SIZE" for msg
    using that by (auto simp: handle_message_def Let_def split: prod.splits)
  then show ?thesis
    unfolding served_by_workers_def answering_def
    by (metis (no_types, lifting) old.sum.simps(6) plenty_Nil split_conv)
qed

lemma served_answers: "served_by_workers net w \<Longrightarrow> answers_requests net w"
  unfolding answers_requests_def
proof (intro allI impI)
  fix k i and m :: string
  assume net: "served_by_workers net w" and i: "i < w" and m: "length m \<le> MAX_MSG_LEN"
  from m have "length m < RECV_BUFFER_SIZE" by (simp add: MAX_MSG_LEN_def RECV_BUFFER_SIZE_def)
  with net i show "net k i m \<noteq> None"
    unfolding served_by_workers_def by (metis option.distinct(1))
qed

text \<open>A run of the distributor's phases over any number of workers that answer as the worker's request handler
  does prints the exact frequency table of the counted words of the input file, whatever the number of workers,
  and then sends every worker a rip message.\<close>

theorem distributed_word_count:
  assumes "served_by_workers net workers" and "0 < workers" and "plenty a" and "plain_file inp"
  shows "distributor_main net workers a (Some inp) =
    Inr (if counted_words inp = [] then []
         else csv_header @ concat (map csv_line
           (sort (map (\<lambda>w. Entry w (of_nat (count_list (counted_words inp) w))) (remdups (counted_words inp))))),
         map (\<lambda>i. (i, ''rip'' @ [NUL])) [0..<workers])
    \<and> sorted_wrt printed_before
        (sort (map (\<lambda>w. Entry w (of_nat (count_list (counted_words inp) w))) (remdups (counted_words inp))))"
proof -
  have "distinct (map (\<lambda>w. Entry w (of_nat (count_list (counted_words inp) w))) (remdups (counted_words inp)))"
    by (simp add: distinct_map inj_on_def)
  from sort_printed_before [OF this] show ?thesis
    using distributor_run [OF assms] by (simp add: frequency_table_def distributor_send_rip_def)
qed

lemma distributed_word_count_witness:
  "distributor_main answering 2 [] (Some ''To be, to'') =
    Inr (''word,frequency'' @ [LF] @ ''to,2'' @ [LF] @ ''be,1'' @ [LF], [(0, ''rip'' @ [NUL]), (1, ''rip'' @ [NUL])])"
proof -
  have p: "plain_file ''To be, to''" by code_simp
  have w: "counted_words ''To be, to'' = [''to'', ''be'', ''to'']" by code_simp
  have "Entry ''to'' 2 \<le> Entry ''be'' 1" "\<not> Entry ''be'' 1 \<le> Entry ''to'' 2" by code_simp+
  then have s: "sort [Entry ''be'' 1, Entry ''to'' 2] = [Entry ''to'' 2, Entry ''be'' 1]" by simp
  have l: "csv_line (Entry ''to'' 2) = ''to,2'' @ [LF]" "csv_line (Entry ''be'' 1) = ''be,1'' @ [LF]"
    by code_simp+
  from distributed_word_count [OF served_by_answering _ plenty_Nil p, of 2] s l show ?thesis
    by (simp add: w csv_header_def upt_rec)
qed

text \<open>C1: The whole word count, from the command line to the exit.  The distributor process, connected to any
  number of workers that answer as the worker's request handler does, prints the exact frequency
  table of the words of the file that its command line names, each word cut to its first 255 letters, most
  frequent word first and ties in alphabetical order (nothing for a file without words), whatever the number of
  workers; it ends with all its sockets closed and its context destroyed.  The counted words are the words that
  wordcount.h defines (maximal runs of letters, in lower case) if and only if none of those is longer than 255
  letters; a longer word is printed cut and counted together with the words that agree with it on the first
  255 letters.  The file must not contain a NUL byte, a run of letters as long as a chunk, or a chunk that
  begins with three digits.\<close>

theorem word_count_process:
  assumes "\<And>tr c. z tr c" and "2 < length argv" and "served_by_workers net (length argv - 2)" and "plenty a"
    and "files (argv ! 1) = Some inp" and "plain_file inp"
  shows "\<exists>tr. distributor_process z net files argv a =
      (Inr (if counted_words inp = [] then []
         else csv_header @ concat (map csv_line
           (sort (map (\<lambda>w. Entry w (of_nat (count_list (counted_words inp) w))) (remdups (counted_words inp)))))), tr)
    \<and> zmq_uses Requester tr zmq_idle = Some zmq_idle
    \<and> sorted_wrt printed_before
        (sort (map (\<lambda>w. Entry w (of_nat (count_list (counted_words inp) w))) (remdups (counted_words inp))))
    \<and> ((counted_words inp = words_of inp) = (\<forall>w \<in> set (words_of inp). length w \<le> WORD_CAP))"
proof -
  have "0 < length argv - 2" "plenty (tl a)" using assms(2,4) by simp_all
  from distributor_run [OF assms(3) this assms(6)] have
    main: "distributor_main net (length argv - 2) (tl a) (files (argv ! 1)) = Inr (if counted_words inp = [] then []
      else csv_header @ concat (map csv_line (frequency_table (counted_words inp))), distributor_send_rip (length argv - 2))"
    unfolding assms(5) .
  from served_answers [OF assms(3)] distributor_process_run [of z argv a net files, OF assms(1,2,4) _ main]
  obtain tr where run: "distributor_process z net files argv a = (Inr (if counted_words inp = [] then []
      else csv_header @ concat (map csv_line (frequency_table (counted_words inp)))), tr)"
    and uses: "zmq_uses Requester tr zmq_idle = Some zmq_idle" by blast
  have "distinct (map (\<lambda>w. Entry w (of_nat (count_list (counted_words inp) w))) (remdups (counted_words inp)))"
    by (simp add: distinct_map inj_on_def)
  from run [unfolded frequency_table_def] uses sort_printed_before [OF this] counted_words_short [of inp]
  show ?thesis by (intro exI conjI)
qed

lemma word_count_process_witness:
  "\<exists>tr. distributor_process (\<lambda>tr c. True) answering [''f'' \<mapsto> ''To be, to''] [''distributor'', ''f'', ''7000'', ''7001''] [] =
    (Inr (''word,frequency'' @ [LF] @ ''to,2'' @ [LF] @ ''be,1'' @ [LF]), tr)"
proof -
  have p: "plain_file ''To be, to''" by code_simp
  have w: "counted_words ''To be, to'' = [''to'', ''be'', ''to'']" by code_simp
  have "Entry ''to'' 2 \<le> Entry ''be'' 1" "\<not> Entry ''be'' 1 \<le> Entry ''to'' 2" by code_simp+
  then have s: "sort [Entry ''be'' 1, Entry ''to'' 2] = [Entry ''to'' 2, Entry ''be'' 1]" by simp
  have l: "csv_line (Entry ''to'' 2) = ''to,2'' @ [LF]" "csv_line (Entry ''be'' 1) = ''be,1'' @ [LF]"
    by code_simp+
  have f: "[''f'' \<mapsto> ''To be, to''] ([''distributor'', ''f'', ''7000'', ''7001''] ! 1) = Some ''To be, to''" by simp
  have n: "2 < length [''distributor'', ''f'', ''7000'', ''7001'']" by simp
  from word_count_process [where z = "\<lambda>tr c. True" and net = answering and a = "[]" and inp = "''To be, to''"
      and files = "[''f'' \<mapsto> ''To be, to'']" and argv = "[''distributor'', ''f'', ''7000'', ''7001'']",
      OF TrueI n served_by_answering plenty_Nil f p]
  obtain tr where "distributor_process (\<lambda>tr c. True) answering [''f'' \<mapsto> ''To be, to''] [''distributor'', ''f'', ''7000'', ''7001''] [] =
      (Inr (if counted_words ''To be, to'' = [] then []
         else csv_header @ concat (map csv_line
           (sort (map (\<lambda>w. Entry w (of_nat (count_list (counted_words ''To be, to'') w))) (remdups (counted_words ''To be, to'')))))), tr)"
    by blast
  with s l show ?thesis by (simp add: w csv_header_def)
qed

subsection \<open>The same in memory\<close>

text \<open>Every answer is computed in the worker's own memory, which is any well-formed heap.\<close>

definition served_in_memory :: "network \<Rightarrow> nat \<Rightarrow> bool" where
  "served_in_memory net workers \<longleftrightarrow>
     (\<forall>k i msg. i < workers \<longrightarrow> length msg < RECV_BUFFER_SIZE \<longrightarrow>
        (\<exists>h reply close h'. heap_ok h \<and> plenty (hp_alloc h) \<and> mem_handle_message msg h = Some ((reply, close), h')
           \<and> net k i msg = Some reply))"

definition answering_in_memory :: network where
  "answering_in_memory k i msg = map_option (fst \<circ> fst) (mem_handle_message msg (empty_heap []))"

lemma handled_in_memory:
  assumes "heap_ok h" and "length msg < RECV_BUFFER_SIZE"
  obtains reply close a' h' where "handle_message (hp_alloc h) msg = Inr (reply, close, a')"
    and "mem_handle_message msg h = Some ((reply, close), h')"
  using handle_message_returns [OF assms(2), of "hp_alloc h"] handle_message_mem [OF assms(1)] by metis

lemma served_in_memory_by_workers: "served_in_memory net workers \<Longrightarrow> served_by_workers net workers"
  unfolding served_in_memory_def served_by_workers_def
proof (intro allI impI)
  fix k i and msg :: string
  assume net: "\<forall>k i msg. i < workers \<longrightarrow> length msg < RECV_BUFFER_SIZE \<longrightarrow>
      (\<exists>h reply close h'. heap_ok h \<and> plenty (hp_alloc h) \<and> mem_handle_message msg h = Some ((reply, close), h')
        \<and> net k i msg = Some reply)" and i: "i < workers" and m: "length msg < RECV_BUFFER_SIZE"
  then obtain h reply close h' where h: "heap_ok h" "plenty (hp_alloc h)" "mem_handle_message msg h = Some ((reply, close), h')"
    "net k i msg = Some reply" by blast
  from handled_in_memory [OF h(1) m] h(3) obtain a' where "handle_message (hp_alloc h) msg = Inr (reply, close, a')" by auto
  with h(2,4) show "\<exists>a reply close a'. plenty a \<and> handle_message a msg = Inr (reply, close, a') \<and> net k i msg = Some reply" by blast
qed

lemma served_by_answering_in_memory: "served_in_memory answering_in_memory workers"
  unfolding served_in_memory_def
proof (intro allI impI)
  fix k i and msg :: string
  assume "length msg < RECV_BUFFER_SIZE"
  from handled_in_memory [OF empty_heap_ok this, of "[]"] obtain reply close h' where
    "mem_handle_message msg (empty_heap []) = Some ((reply, close), h')" by metis
  moreover have "plenty (hp_alloc (empty_heap [] :: block heap))" by (simp add: empty_heap_def)
  ultimately show "\<exists>h reply close h'. heap_ok h \<and> plenty (hp_alloc h) \<and> mem_handle_message msg h = Some ((reply, close), h')
      \<and> answering_in_memory k i msg = Some reply"
    by (intro exI [of _ "empty_heap []"]) (simp add: answering_in_memory_def)
qed

text \<open>C2: The word count with all its memory.  The distributor over the heap, with its growing buffers, the array of the
  combination and every word in it, against workers that compute each answer over a heap of their
  own, prints the frequency table of the words of the file, each cut to its first 255 letters (the words of
  wordcount.h if and only if none is longer), and sends its rip messages; no access on the way leaves
  allocated and written memory, and at the end its memory is the one it began with.\<close>

theorem word_count_in_memory:
  assumes "served_in_memory net workers" and "0 < workers" and "heap_ok h" and "plenty (hp_alloc h)" and "plain_file inp"
  shows "\<exists>h'. mem_distributor_main net workers (Some inp) h =
      Some (Some (if counted_words inp = [] then []
         else csv_header @ concat (map csv_line
           (sort (map (\<lambda>w. Entry w (of_nat (count_list (counted_words inp) w))) (remdups (counted_words inp))))),
         map (\<lambda>i. (i, ''rip'' @ [NUL])) [0..<workers]), h')
    \<and> hp_blocks h' = hp_blocks h
    \<and> ((counted_words inp = words_of inp) = (\<forall>w \<in> set (words_of inp). length w \<le> WORD_CAP))"
proof -
  from distributor_mem [OF assms(3), of net workers "Some inp"] assms(4) obtain h' where
    "mem_distributor_main net workers (Some inp) h = Some (Some (if counted_words inp = [] then []
       else csv_header @ concat (map csv_line (frequency_table (counted_words inp))), distributor_send_rip workers), h')"
    "hp_blocks h' = hp_blocks h"
    unfolding distributor_run [OF served_in_memory_by_workers [OF assms(1)] assms(2,4,5)] sum.case by blast
  then show ?thesis using counted_words_short [of inp] unfolding frequency_table_def distributor_send_rip_def by blast
qed

lemma word_count_in_memory_witness:
  "\<exists>h'. mem_distributor_main answering_in_memory 2 (Some ''To be, to'') (empty_heap []) =
      Some (Some (''word,frequency'' @ [LF] @ ''to,2'' @ [LF] @ ''be,1'' @ [LF], [(0, ''rip'' @ [NUL]), (1, ''rip'' @ [NUL])]), h')
    \<and> hp_blocks h' = Map.empty"
proof -
  have p: "plain_file ''To be, to''" by code_simp
  have w: "counted_words ''To be, to'' = [''to'', ''be'', ''to'']" by code_simp
  have "Entry ''to'' 2 \<le> Entry ''be'' 1" "\<not> Entry ''be'' 1 \<le> Entry ''to'' 2" by code_simp+
  then have s: "sort [Entry ''be'' 1, Entry ''to'' 2] = [Entry ''to'' 2, Entry ''be'' 1]" by simp
  have l: "csv_line (Entry ''to'' 2) = ''to,2'' @ [LF]" "csv_line (Entry ''be'' 1) = ''be,1'' @ [LF]"
    by code_simp+
  have a: "plenty (hp_alloc (empty_heap [] :: block heap))" by (simp add: empty_heap_def)
  from word_count_in_memory [OF served_by_answering_in_memory _ empty_heap_ok a p, of 2] obtain h' where
    "mem_distributor_main answering_in_memory 2 (Some ''To be, to'') (empty_heap []) =
      Some (Some (if counted_words ''To be, to'' = [] then []
         else csv_header @ concat (map csv_line
           (sort (map (\<lambda>w. Entry w (of_nat (count_list (counted_words ''To be, to'') w))) (remdups (counted_words ''To be, to''))))),
         map (\<lambda>i. (i, ''rip'' @ [NUL])) [0..<2]), h')"
    and "hp_blocks h' = hp_blocks (empty_heap [])" by auto
  with s l show ?thesis by (intro exI [of _ h']) (simp add: w csv_header_def upt_rec empty_heap_def)
qed

end
